(* ===== verification/Xv6_Prelude.thy ===== *)
theory Xv6_Prelude
  imports Main "HOL-Library.Word"
begin

unbundle bit_operations_syntax

text \<open>
  Shared vocabulary of the development: the machine types of types.h, the result type of a
  kernel routine that may panic or wait, byte memory with little-endian word access (the
  kernel is compiled for 32-bit x86, where pointers and \<open>uint\<close> are both 32 bits wide), and
  the lemmas on results, array scans and memory that every component uses.
\<close>

section \<open>Machine types\<close>

type_synonym u8 = "8 word"
type_synonym u16 = "16 word"
type_synonym u32 = "32 word"
type_synonym mem = "u32 \<Rightarrow> u8"

text \<open>A read-only C string or buffer argument, seen as the bytes at offsets 0, 1, 2, \<dots>.\<close>

type_synonym view = "nat \<Rightarrow> u8"

definition ptr_view :: "mem \<Rightarrow> u32 \<Rightarrow> view" where
  "ptr_view m p = (\<lambda>i. m (p + of_nat i))"

definition list_view :: "u8 list \<Rightarrow> view" where
  "list_view xs = (\<lambda>i. if i < length xs then xs ! i else 0)"

lemma list_view_0 [simp]: "list_view (x # xs) 0 = x" "list_view [] i = 0"
  by (simp_all add: list_view_def)

lemma list_view_Suc [simp]: "list_view (x # xs) (Suc i) = list_view xs i"
  by (simp add: list_view_def)

section \<open>Results of kernel routines\<close>

text \<open>
  \<open>Panic m\<close> is a call of \<open>panic(m)\<close>; \<open>Blocked w\<close> says that the routine stops at a
  point where only another process or processor can let it continue (a call of \<open>sleep\<close> or a
  spinning \<open>acquire\<close>), \<open>w\<close> naming what it waits for. \<open>Undef w\<close> says that the C code leaves what
  the language defines, by a null pointer or past the end of an array: the machine then goes on in a
  way the model says nothing about. A fault that the hardware is sure to raise in the kernel ends in
  the panic of \<open>trap\<close> and is \<open>Panic ''trap''\<close>.
\<close>

datatype err = Panic string | Blocked string | Undef string

type_synonym 'a res = "err + 'a"

definition bindr :: "'a res \<Rightarrow> ('a \<Rightarrow> 'b res) \<Rightarrow> 'b res" where
  "bindr m f = (case m of Inl e \<Rightarrow> Inl e | Inr x \<Rightarrow> f x)"

definition assertr :: "bool \<Rightarrow> string \<Rightarrow> 'a \<Rightarrow> 'a res" where
  "assertr b msg x = (if b then Inr x else Inl (Panic msg))"

lemma bindr_simps [simp]:
  "bindr (Inl e) f = Inl e"
  "bindr (Inr x) f = f x"
  by (simp_all add: bindr_def)

lemma bindr_Inr_iff: "bindr m f = Inr y \<longleftrightarrow> (\<exists>x. m = Inr x \<and> f x = Inr y)"
  by (cases m) auto

lemma bindr_InrE [elim!]:
  assumes "bindr m f = Inr y"
  obtains x where "m = Inr x" "f x = Inr y"
  using assms by (auto simp: bindr_Inr_iff)

lemma bindr_assoc: "bindr (bindr m f) g = bindr m (\<lambda>x. bindr (f x) g)"
  by (cases m) auto

lemma bindr_cong [fundef_cong]:
  "m = m' \<Longrightarrow> (\<And>x. m' = Inr x \<Longrightarrow> f x = f' x) \<Longrightarrow> bindr m f = bindr m' f'"
  by (cases m') auto

lemma assertr_simps [simp]:
  "assertr True msg x = Inr x"
  "assertr False msg x = Inl (Panic msg)"
  by (simp_all add: assertr_def)

lemma assertr_Inr_iff [simp]: "assertr b msg x = Inr y \<longleftrightarrow> b \<and> x = y"
  by (simp add: assertr_def)

section \<open>Scanning an array\<close>

text \<open>
  The kernel looks for a slot of a fixed-size table with a loop over its indices that stops at
  the first hit; \<open>scan P n\<close> is that loop, \<open>None\<close> when it runs off the end.
\<close>

fun scan_from :: "(nat \<Rightarrow> bool) \<Rightarrow> nat \<Rightarrow> nat \<Rightarrow> nat option" where
  "scan_from P i 0 = None"
| "scan_from P i (Suc k) = (if P i then Some i else scan_from P (Suc i) k)"

definition scan :: "(nat \<Rightarrow> bool) \<Rightarrow> nat \<Rightarrow> nat option" where
  "scan P n = scan_from P 0 n"

lemma scan_from_Some:
  "scan_from P i k = Some j \<longleftrightarrow> i \<le> j \<and> j < i + k \<and> P j \<and> (\<forall>l. i \<le> l \<and> l < j \<longrightarrow> \<not> P l)"
proof (induction P i k rule: scan_from.induct)
  case (1 P i)
  then show ?case by simp
next
  case (2 P i k)
  show ?case
  proof (cases "P i")
    case True
    then show ?thesis by (auto simp: le_less)
  next
    case False
    with 2 show ?thesis
      by (auto simp: less_eq_Suc_le dest: Suc_leD) (metis Suc_leI le_neq_implies_less)+
  qed
qed

lemma scan_Some: "scan P n = Some j \<longleftrightarrow> j < n \<and> P j \<and> (\<forall>l<j. \<not> P l)"
  by (auto simp: scan_def scan_from_Some)

lemma scan_from_None: "scan_from P i k = None \<longleftrightarrow> (\<forall>l. i \<le> l \<and> l < i + k \<longrightarrow> \<not> P l)"
proof (induction P i k rule: scan_from.induct)
  case (2 P i k)
  then show ?case
    by (auto simp: less_eq_Suc_le dest: Suc_leD) (metis Suc_leI le_neq_implies_less)+
qed auto

lemma scan_None: "scan P n = None \<longleftrightarrow> (\<forall>l<n. \<not> P l)"
  by (simp add: scan_def scan_from_None)

lemma scanI: "P j \<Longrightarrow> j < n \<Longrightarrow> \<exists>i. scan P n = Some i"
  using scan_None[of P n] by (cases "scan P n") auto

section \<open>Loops\<close>

text \<open>
  \<open>forr i k f\<close> is \<open>for(j = i; j < i + k; j++) f(j)\<close> with a body that may stop the routine.
  A loop with no bound of its own is defined with \<open>partial_function (option)\<close>; \<open>loopr\<close> turns
  its \<open>None\<close>, a loop that runs forever, into a routine that does not return.
\<close>

fun forr :: "nat \<Rightarrow> nat \<Rightarrow> (nat \<Rightarrow> 's \<Rightarrow> 's res) \<Rightarrow> 's \<Rightarrow> 's res" where
  "forr i 0 f s = Inr s"
| "forr i (Suc k) f s = bindr (f i s) (\<lambda>s'. forr (Suc i) k f s')"

lemma forr_rule:
  assumes "\<And>j t. i \<le> j \<Longrightarrow> j < i + k \<Longrightarrow> Q j t \<Longrightarrow> \<exists>t'. f j t = Inr t' \<and> Q (Suc j) t'"
    and "Q i s"
  shows "\<exists>s'. forr i k f s = Inr s' \<and> Q (i + k) s'"
  using assms
proof (induction k arbitrary: i s)
  case 0
  then show ?case by simp
next
  case (Suc k)
  from Suc.prems(1)[of i s] Suc.prems(2) obtain t where t: "f i s = Inr t" "Q (Suc i) t" by auto
  have "\<exists>s'. forr (Suc i) k f t = Inr s' \<and> Q (Suc i + k) s'"
    by (rule Suc.IH) (use Suc.prems(1) t(2) in auto)
  with t show ?case by simp
qed

definition bindro :: "'a res \<Rightarrow> ('a \<Rightarrow> 'b res option) \<Rightarrow> 'b res option" where
  "bindro r f = (case r of Inl e \<Rightarrow> Some (Inl e) | Inr x \<Rightarrow> f x)"

lemma bindro_simps [simp]: "bindro (Inl e) f = Some (Inl e)" "bindro (Inr x) f = f x"
  by (simp_all add: bindro_def)

lemma bindro_mono [partial_function_mono]:
  assumes "\<And>x. mono_option (\<lambda>f. g f x)"
  shows "mono_option (\<lambda>f. bindro r (g f))"
proof (cases r)
  case (Inl e)
  then show ?thesis by (simp add: bindro_def monotone_def option.leq_refl)
next
  case (Inr x)
  then show ?thesis using assms by (simp add: bindro_def)
qed

definition loopr :: "'a res option \<Rightarrow> 'a res" where
  "loopr r = (case r of None \<Rightarrow> Inl (Blocked ''loop'') | Some x \<Rightarrow> x)"

lemma loopr_Some [simp]: "loopr (Some x) = x"
  by (simp add: loopr_def)

section \<open>Words in byte memory\<close>

lemma unat_lt32: "unat (x :: u32) < 2 ^ 32"
  using unsigned_less[of x] by simp

lemma unat_of_nat32: "n < 2 ^ 32 \<Longrightarrow> unat (of_nat n :: u32) = n"
  by (simp add: unat_of_nat)

lemma sint_small: "unat (w :: u32) < 2 ^ 31 \<Longrightarrow> sint w = int (unat w)"
proof -
  assume a: "unat w < 2 ^ 31"
  have u: "uint w = int (unat w)" by simp
  have "int (unat w) < 2 ^ 31" using a by (metis of_nat_less_iff of_nat_numeral of_nat_power)
  moreover have "- (2 ^ 31) \<le> int (unat w)" by (rule order_trans[of _ 0]) simp_all
  ultimately have "signed_take_bit 31 (int (unat w)) = int (unat w)"
    by (intro signed_take_bit_int_eq_self)
  then show ?thesis unfolding sint_uint u by simp
qed

lemma unat_add31: "unat (a :: u32) + unat b < 2 ^ 31 \<Longrightarrow> unat (a + b) = unat a + unat b"
  by (simp add: unat_add_lem[THEN iffD1])

definition load32 :: "mem \<Rightarrow> u32 \<Rightarrow> u32" where
  "load32 m a = ucast (m a) OR push_bit 8 (ucast (m (a + 1)))
     OR push_bit 16 (ucast (m (a + 2))) OR push_bit 24 (ucast (m (a + 3)))"

definition store32 :: "mem \<Rightarrow> u32 \<Rightarrow> u32 \<Rightarrow> mem" where
  "store32 m a v = m(a := ucast v, a + 1 := ucast (drop_bit 8 v),
     a + 2 := ucast (drop_bit 16 v), a + 3 := ucast (drop_bit 24 v))"

text \<open>The four bytes of a word: offsets 0 to 3 from its address, modulo the address space.\<close>

definition disjoint32 :: "u32 \<Rightarrow> u32 \<Rightarrow> bool" where
  "disjoint32 a b \<longleftrightarrow> 4 \<le> b - a \<and> 4 \<le> a - b"

lemma word4_cases: "(x::u32) < 4 \<longleftrightarrow> x = 0 \<or> x = 1 \<or> x = 2 \<or> x = 3"
proof
  assume "x < 4"
  then have "unat x < 4" by (simp add: word_less_nat_alt)
  then have "unat x = 0 \<or> unat x = 1 \<or> unat x = 2 \<or> unat x = 3" by linarith
  then have "unat x = unat (0::u32) \<or> unat x = unat (1::u32) \<or> unat x = unat (2::u32)
      \<or> unat x = unat (3::u32)" by simp
  then show "x = 0 \<or> x = 1 \<or> x = 2 \<or> x = 3"
    by (simp only: word_unat_eq_iff)
qed auto

lemma store32_apply: "store32 m a v x =
  (if x - a < 4 then ucast (drop_bit (8 * unat (x - a)) v) else m x)"
proof -
  have d: "x = a + k \<longleftrightarrow> x - a = k" for k :: u32 by (auto simp: algebra_simps)
  show ?thesis
    unfolding store32_def word4_cases
    by (auto simp: fun_upd_def d)
qed

lemma load32_store32_same [simp]: "load32 (store32 m a v) a = v"
proof (rule bit_word_eqI)
  fix n
  assume "n < LENGTH(32)"
  then have "n < 8 \<or> (8 \<le> n \<and> n < 16) \<or> (16 \<le> n \<and> n < 24) \<or> (24 \<le> n \<and> n < 32)" by auto
  then show "bit (load32 (store32 m a v) a) n = bit v n"
    by (auto simp: load32_def store32_apply bit_or_iff bit_push_bit_iff bit_ucast_iff
      bit_drop_bit_eq)
qed

lemma store32_outside: "4 \<le> x - a \<Longrightarrow> store32 m a v x = m x"
  using store32_apply[of m a v x] by (simp add: leD)

end
