(* ===== verification/Xv6_Strings.thy ===== *)
theory Xv6_Strings
  imports Xv6_Prelude
begin

unbundle bit_operations_syntax

text \<open>
  The kernel's string and memory routines (string.c) over byte memory. Routines that write
  memory take and return the memory; routines that only read take views of their arguments.
  The counted loops are structural recursion on the count; the loops that run to a NUL byte are
  partial functions, whose value \<open>None\<close> is a loop that never meets one.
\<close>

section \<open>Definitions\<close>

text \<open>\<open>rep stosb\<close> and \<open>rep stosl\<close> of x86.h: store the byte (the word) and advance, \<open>cnt\<close> times.\<close>

fun stosb :: "u32 \<Rightarrow> u8 \<Rightarrow> nat \<Rightarrow> mem \<Rightarrow> mem" where
  "stosb addr data 0 m = m"
| "stosb addr data (Suc cnt) m = stosb (addr + 1) data cnt (m(addr := data))"

fun stosl :: "u32 \<Rightarrow> u32 \<Rightarrow> nat \<Rightarrow> mem \<Rightarrow> mem" where
  "stosl addr data 0 m = m"
| "stosl addr data (Suc cnt) m = stosl (addr + 4) data cnt (store32 m addr data)"

definition memset :: "u32 \<Rightarrow> u32 \<Rightarrow> u32 \<Rightarrow> mem \<Rightarrow> mem" where
  "memset dst c n m =
     (if dst mod 4 = 0 \<and> n mod 4 = 0
      then let c = c AND 0xFF
           in stosl dst (push_bit 24 c OR push_bit 16 c OR push_bit 8 c OR c) (unat (n div 4)) m
      else stosb dst (ucast c) (unat n) m)"

text \<open>A view advanced by one byte, the \<open>p++\<close> of the loops below.\<close>

abbreviation shift :: "view \<Rightarrow> view" where
  "shift s \<equiv> (\<lambda>i. s (Suc i))"

fun memcmp :: "view \<Rightarrow> view \<Rightarrow> nat \<Rightarrow> int" where
  "memcmp s1 s2 0 = 0"
| "memcmp s1 s2 (Suc n) =
     (if s1 0 \<noteq> s2 0 then uint (s1 0) - uint (s2 0) else memcmp (shift s1) (shift s2) n)"

text \<open>The two loops of \<open>memmove\<close>: from the low end upwards and from the high end downwards.\<close>

fun copy_up :: "nat \<Rightarrow> u32 \<Rightarrow> u32 \<Rightarrow> mem \<Rightarrow> mem" where
  "copy_up 0 d s m = m"
| "copy_up (Suc n) d s m = copy_up n (d + 1) (s + 1) (m(d := m s))"

fun copy_down :: "nat \<Rightarrow> u32 \<Rightarrow> u32 \<Rightarrow> mem \<Rightarrow> mem" where
  "copy_down 0 d s m = m"
| "copy_down (Suc n) d s m = copy_down n (d - 1) (s - 1) (m(d - 1 := m (s - 1)))"

definition memmove :: "u32 \<Rightarrow> u32 \<Rightarrow> u32 \<Rightarrow> mem \<Rightarrow> mem" where
  "memmove dst src n m =
     (if src < dst \<and> src + n > dst
      then copy_down (unat n) (dst + n) (src + n) m
      else copy_up (unat n) dst src m)"

fun strncmp :: "view \<Rightarrow> view \<Rightarrow> nat \<Rightarrow> int" where
  "strncmp p q 0 = 0"
| "strncmp p q (Suc n) =
     (if p 0 \<noteq> 0 \<and> p 0 = q 0 then strncmp (shift p) (shift q) n
      else uint (p 0) - uint (q 0))"

text \<open>
  The copying loop of \<open>strncpy\<close> returns what is left of the count, where it stopped, and the
  memory; the padding loop uses up the rest of the count.
\<close>

fun strncpy_copy :: "nat \<Rightarrow> u32 \<Rightarrow> u32 \<Rightarrow> mem \<Rightarrow> nat \<times> u32 \<times> mem" where
  "strncpy_copy 0 s t m = (0, s, m)"
| "strncpy_copy (Suc n) s t m =
     (if m t \<noteq> 0 then strncpy_copy n (s + 1) (t + 1) (m(s := m t))
      else (n, s + 1, m(s := m t)))"

fun strncpy_pad :: "nat \<Rightarrow> u32 \<Rightarrow> mem \<Rightarrow> mem" where
  "strncpy_pad 0 s m = m"
| "strncpy_pad (Suc n) s m = strncpy_pad n (s + 1) (m(s := 0))"

definition strncpy :: "u32 \<Rightarrow> u32 \<Rightarrow> int \<Rightarrow> mem \<Rightarrow> mem" where
  "strncpy s t n m =
     (case strncpy_copy (nat n) s t m of (k, s', m') \<Rightarrow> strncpy_pad k s' m')"

fun safestrcpy_copy :: "nat \<Rightarrow> u32 \<Rightarrow> u32 \<Rightarrow> mem \<Rightarrow> u32 \<times> mem" where
  "safestrcpy_copy 0 s t m = (s, m)"
| "safestrcpy_copy (Suc n) s t m =
     (if m t \<noteq> 0 then safestrcpy_copy n (s + 1) (t + 1) (m(s := m t))
      else (s + 1, m(s := m t)))"

definition safestrcpy :: "u32 \<Rightarrow> u32 \<Rightarrow> int \<Rightarrow> mem \<Rightarrow> mem" where
  "safestrcpy s t n m =
     (if n \<le> 0 then m
      else case safestrcpy_copy (nat (n - 1)) s t m of (s', m') \<Rightarrow> m'(s' := 0))"

partial_function (option) strlen_from :: "view \<Rightarrow> nat \<Rightarrow> nat option" where
  "strlen_from s n = (if s n \<noteq> 0 then strlen_from s (Suc n) else Some n)"

definition strlen :: "view \<Rightarrow> nat option" where
  "strlen s = strlen_from s 0"

text \<open>
  The bytes \<open>strncpy\<close> and \<open>safestrcpy\<close> store for a source view, as lists: the form in which the
  file system and the process table use them, whose targets are arrays of a struct.
\<close>

fun strncpy_bytes :: "view \<Rightarrow> nat \<Rightarrow> u8 list" where
  "strncpy_bytes t 0 = []"
| "strncpy_bytes t (Suc n) =
     (if t 0 \<noteq> 0 then t 0 # strncpy_bytes (shift t) n else 0 # replicate n 0)"

fun safestrcpy_bytes :: "view \<Rightarrow> nat \<Rightarrow> u8 list" where
  "safestrcpy_bytes t 0 = []"
| "safestrcpy_bytes t (Suc 0) = [0]"
| "safestrcpy_bytes t (Suc (Suc n)) =
     (if t 0 \<noteq> 0 then t 0 # safestrcpy_bytes (shift t) (Suc n) else [0, 0])"

section \<open>Filling memory\<close>

lemma minus_one_step:
  fixes x d :: u32
  assumes "x \<noteq> d"
  shows "unat (x - (d + 1)) = unat (x - d) - 1"
proof -
  have "x - d \<noteq> 0" using assms by simp
  then have "unat (x - d - 1) = unat (x - d) - 1" by (rule unat_minus_one)
  then show ?thesis by (simp add: diff_diff_eq)
qed

lemma unat_below_self: "k < 2 ^ 32 \<Longrightarrow> \<not> unat (d - (d + 1 :: u32)) < k"
  by (simp add: unsigned_minus_1_eq_mask mask_eq_exp_minus_1)

lemma unat_pos_diff: "x \<noteq> d \<Longrightarrow> 0 < unat (x - (d :: u32))"
  by (simp add: unat_gt_0)

lemma stosb_apply:
  "cnt \<le> 2 ^ 32 \<Longrightarrow> stosb addr data cnt m x = (if unat (x - addr) < cnt then data else m x)"
proof (induction cnt arbitrary: addr m)
  case (Suc cnt)
  then have IH: "stosb (addr + 1) data cnt (m(addr := data)) x =
      (if unat (x - (addr + 1)) < cnt then data else (m(addr := data)) x)" by simp
  show ?case
  proof (cases "x = addr")
    case True
    with Suc.prems IH show ?thesis using unat_below_self[of cnt addr] by simp
  next
    case False
    with IH show ?thesis
      using unat_pos_diff[of x addr] by (auto simp: minus_one_step)
  qed
qed simp

lemma rep_byte:
  fixes c :: u32
  assumes "i < 4"
  shows "ucast (drop_bit (8 * i) (push_bit 24 (c AND 0xFF) OR push_bit 16 (c AND 0xFF)
    OR push_bit 8 (c AND 0xFF) OR (c AND 0xFF))) = (ucast c :: u8)"
proof -
  have F: "(0xFF :: u32) = mask 8" by (simp add: mask_eq_exp_minus_1)
  from assms have "i = 0 \<or> i = 1 \<or> i = 2 \<or> i = 3" by auto
  then show ?thesis
    unfolding F
    by (elim disjE; intro bit_word_eqI)
      (auto simp: bit_or_iff bit_and_iff bit_push_bit_iff bit_ucast_iff bit_drop_bit_eq bit_mask_iff)
qed

lemma minus_four_step:
  fixes x d :: u32
  assumes "\<not> x - d < 4"
  shows "unat (x - (d + 4)) = unat (x - d) - 4"
proof -
  have "4 \<le> x - d" using assms by simp
  then have "unat (x - d - 4) = unat (x - d) - unat (4::u32)" by (rule unat_sub)
  then show ?thesis by (simp add: diff_diff_eq)
qed

lemma below_four_wraps:
  fixes x d :: u32
  assumes "x - d < 4" and "k \<le> 2 ^ 32 - 4"
  shows "\<not> unat (x - (d + 4)) < k"
proof -
  have "unat (x - (d + 4)) = unat (x - d + (- 4))" by (simp add: algebra_simps)
  also have "\<dots> = (unat (x - d) + unat (- 4 :: u32)) mod 2 ^ 32"
    by (simp only: unat_word_ariths) simp
  finally show ?thesis
    using assms by (simp add: word_less_nat_alt)
qed

lemma stosl_apply:
  assumes "4 * cnt \<le> 2 ^ 32" and "\<And>i. i < 4 \<Longrightarrow> ucast (drop_bit (8 * i) data) = b"
  shows "stosl addr data cnt m x = (if unat (x - addr) < 4 * cnt then b else m x)"
  using assms(1)
proof (induction cnt arbitrary: addr m)
  case (Suc cnt)
  have IH: "stosl (addr + 4) data cnt (store32 m addr data) x =
      (if unat (x - (addr + 4)) < 4 * cnt then b else store32 m addr data x)"
    using Suc by auto
  show ?case
  proof (cases "x - addr < 4")
    case True
    then have "unat (x - addr) < 4" by (simp add: word_less_nat_alt)
    moreover have "\<not> unat (x - (addr + 4)) < 4 * cnt"
      by (rule below_four_wraps) (use True Suc.prems in auto)
    ultimately show ?thesis using IH True by (simp add: store32_apply assms(2))
  next
    case False
    moreover have "\<not> unat (x - addr) < 4" using False by (simp add: word_less_nat_alt)
    ultimately show ?thesis using IH
      by (auto simp: minus_four_step store32_apply)
  qed
qed simp

text \<open>\<open>memset\<close> fills exactly the \<open>n\<close> bytes from \<open>dst\<close> with the low byte of \<open>c\<close>, whichever
  of its two loops runs: the word-at-a-time path on aligned blocks is equivalent to the byte path.\<close>

lemma memset_fills:
  "memset dst c n m = (\<lambda>x. if x - dst < n then ucast c else m x)"
proof
  fix x
  have lt: "unat n \<le> 2 ^ 32" using unat_lt32[of n] by simp
  have four: "4 * unat (n div 4) = unat n" if "n mod 4 = 0"
  proof -
    have "unat (n mod 4) = 0" using that by simp
    then have "unat n mod 4 = 0" by (simp add: unat_mod)
    then show ?thesis by (auto simp: unat_div mult_div_mod_eq)
  qed
  show "memset dst c n m x = (if x - dst < n then ucast c else m x)"
  proof (cases "dst mod 4 = 0 \<and> n mod 4 = 0")
    case True
    have "stosl dst (push_bit 24 (c AND 0xFF) OR push_bit 16 (c AND 0xFF)
        OR push_bit 8 (c AND 0xFF) OR (c AND 0xFF)) (unat (n div 4)) m x =
        (if unat (x - dst) < 4 * unat (n div 4) then ucast c else m x)"
      by (rule stosl_apply) (use four lt True in simp, rule rep_byte)
    with True show ?thesis
      unfolding memset_def Let_def if_P[OF True] by (simp add: four word_less_nat_alt)
  next
    case False
    then show ?thesis
      unfolding memset_def if_not_P[OF False] by (simp add: stosb_apply[OF lt] word_less_nat_alt)
  qed
qed

section \<open>Copying memory\<close>

lemma copy_up_apply:
  assumes "n \<le> 2 ^ 32"
    and "\<And>i j. j < i \<Longrightarrow> i < n \<Longrightarrow> d + of_nat j \<noteq> s + of_nat i"
  shows "copy_up n d s m x = (if unat (x - d) < n then m (s + (x - d)) else m x)"
  using assms
proof (induction n arbitrary: d s m)
  case (Suc n)
  have pre: "d + 1 + of_nat j \<noteq> s + 1 + of_nat i" if "j < i" "i < n" for i j
    using Suc.prems(2)[of "Suc j" "Suc i"] that by (simp add: algebra_simps)
  have addr: "s + 1 + (x - (d + 1)) = s + (x - d)" by simp
  have IH: "copy_up n (d + 1) (s + 1) (m(d := m s)) x =
      (if unat (x - (d + 1)) < n then (m(d := m s)) (s + (x - d)) else (m(d := m s)) x)"
    by (rule Suc.IH[of "d + 1" "s + 1", unfolded addr]) (use Suc.prems(1) pre in auto)
  show ?case
  proof (cases "x = d")
    case True
    with IH Suc.prems(1) show ?thesis using unat_below_self[of n d] by simp
  next
    case False
    have ne: "s + (x - d) \<noteq> d" if "unat (x - d) < Suc n"
      using Suc.prems(2)[of 0 "unat (x - d)"] that unat_pos_diff[OF False] by auto
    have "unat (x - d) < Suc n \<longleftrightarrow> unat (x - (d + 1)) < n"
      using unat_pos_diff[OF False] by (auto simp: minus_one_step[OF False])
    with IH False ne show ?thesis by simp
  qed
qed simp

lemma unat_less_Suc_word:
  fixes x d :: u32
  assumes "Suc n \<le> 2 ^ 32"
  shows "unat (x - (d - of_nat (Suc n))) < Suc n \<longleftrightarrow>
    x = d - 1 \<or> unat (x - (d - of_nat (Suc n))) < n"
proof -
  have un: "unat (of_nat n :: u32) = n" using assms by (simp add: unat_of_nat32)
  have "unat (x - (d - of_nat (Suc n))) = n \<longleftrightarrow> x - (d - of_nat (Suc n)) = of_nat n"
    using un by (metis word_unat_eq_iff)
  also have "\<dots> \<longleftrightarrow> x = d - 1" by (auto simp: algebra_simps)
  finally show ?thesis by (auto simp only: less_Suc_eq)
qed

lemma copy_down_apply:
  assumes "n \<le> 2 ^ 32"
    and "\<And>i j. j < i \<Longrightarrow> i < n \<Longrightarrow> d - of_nat n + of_nat i \<noteq> s - of_nat n + of_nat j"
  shows "copy_down n d s m x =
    (if unat (x - (d - of_nat n)) < n then m (s - of_nat n + (x - (d - of_nat n))) else m x)"
  using assms
proof (induction n arbitrary: d s m)
  case (Suc n)
  define k :: u32 where "k = of_nat (Suc n)"
  have low: "d - 1 - of_nat n = d - k" "s - 1 - of_nat n = s - k"
    by (simp_all add: k_def)
  have pre: "d - k + of_nat i \<noteq> s - k + of_nat j" if "j < i" "i < Suc n" for i j
    using Suc.prems(2)[of j i] that unfolding k_def by blast
  have IH: "copy_down n (d - 1) (s - 1) (m(d - 1 := m (s - 1))) x =
      (if unat (x - (d - k)) < n then (m(d - 1 := m (s - 1))) (s - k + (x - (d - k)))
       else (m(d - 1 := m (s - 1))) x)"
    by (rule Suc.IH[of "d - 1" "s - 1", unfolded low]) (use Suc.prems(1) pre in auto)
  have top: "d - 1 = d - k + of_nat n" by (simp add: k_def)
  have "s - k + (x - (d - k)) \<noteq> d - 1" if lt: "unat (x - (d - k)) < n"
    using pre[of "unat (x - (d - k))" n] lt unfolding top by simp
  moreover have "s - k + (d - 1 - (d - k)) = s - 1" by simp
  moreover have "\<not> unat (d - 1 - (d - k)) < n"
    using Suc.prems(1) by (simp add: k_def unat_of_nat32)
  ultimately show ?case
    using IH unat_less_Suc_word[OF Suc.prems(1), of x d] unfolding k_def[symmetric]
    by (auto simp only: copy_down.simps fun_upd_apply split: if_splits)
qed simp

text \<open>C37. \<open>memmove\<close> copies correctly even when the two regions overlap: afterwards the \<open>n\<close> bytes
  at \<open>dst\<close> are the bytes that were at \<open>src\<close>, and no other byte changes, for regions that do not
  run past the end of the address space.\<close>

theorem memmove_copies:
  assumes "unat src + unat n < 2 ^ 32" and "unat dst + unat n < 2 ^ 32"
  shows "memmove dst src n m = (\<lambda>x. if x - dst < n then m (src + (x - dst)) else m x)"
proof
  fix x
  have addr: "unat (a + of_nat i) = unat a + i" if "unat a + unat n < 2 ^ 32" "i \<le> unat n"
    for a :: u32 and i
    using that by (subst unat_add_lem[THEN iffD1]) (auto simp: unat_of_nat32)
  have len: "unat n \<le> 2 ^ 32" using unat_lt32[of n] by simp
  have sn: "unat (src + n) = unat src + unat n" using addr[of src "unat n"] assms by simp
  show "memmove dst src n m x = (if x - dst < n then m (src + (x - dst)) else m x)"
  proof (cases "src < dst \<and> src + n > dst")
    case True
    have "copy_down (unat n) (dst + n) (src + n) m x =
        (if unat (x - (dst + n - of_nat (unat n))) < unat n
         then m (src + n - of_nat (unat n) + (x - (dst + n - of_nat (unat n)))) else m x)"
    proof (rule copy_down_apply[OF len])
      fix i j :: nat
      assume "j < i" "i < unat n"
      then have "unat (src + of_nat j) < unat (dst + of_nat i)"
        using True assms by (simp add: addr word_less_nat_alt)
      then show "dst + n - of_nat (unat n) + of_nat i \<noteq> src + n - of_nat (unat n) + of_nat j"
        by auto
    qed
    with True show ?thesis by (simp add: memmove_def word_less_nat_alt)
  next
    case False
    have "copy_up (unat n) dst src m x =
        (if unat (x - dst) < unat n then m (src + (x - dst)) else m x)"
    proof (rule copy_up_apply[OF len])
      fix i j :: nat
      assume "j < i" "i < unat n"
      then have "unat (dst + of_nat j) \<noteq> unat (src + of_nat i)"
        using False assms sn by (simp add: addr word_less_nat_alt not_less) linarith
      then show "dst + of_nat j \<noteq> src + of_nat i" by auto
    qed
    then show ?thesis unfolding memmove_def if_not_P[OF False] by (simp add: word_less_nat_alt)
  qed
qed

theorem memmove_copies_witness:
  "memmove 0x1002 0x1000 8 ucast 0x1009 = (7 :: u8)"
proof -
  have "memmove 0x1002 0x1000 8 ucast =
      (\<lambda>x. if x - 0x1002 < 8 then ucast (0x1000 + (x - 0x1002)) else (ucast x :: u8))"
    by (rule memmove_copies) simp_all
  then show ?thesis by simp
qed

section \<open>Comparing strings\<close>

lemma all_less_Suc: "(\<forall>i<Suc n. P i) \<longleftrightarrow> P 0 \<and> (\<forall>i<n. P (Suc i))"
  by (simp add: All_less_Suc2)

lemma strncmp_zero:
  "strncmp p q n = 0 \<longleftrightarrow> (\<forall>i<n. (\<forall>j<i. p j \<noteq> 0) \<longrightarrow> p i = q i)"
proof (induction p q n rule: strncmp.induct)
  case (2 p q n)
  show ?case
  proof (cases "p 0 \<noteq> 0 \<and> p 0 = q 0")
    case True
    with 2 show ?thesis by (auto simp: all_less_Suc)
  next
    case False
    then show ?thesis by (auto simp: all_less_Suc word_uint_eq_iff)
  qed
qed simp

text \<open>C38. \<open>strncmp\<close> returns 0 exactly when the two strings agree on each of the first \<open>n\<close>
  positions up to and including the first NUL of \<open>p\<close>.\<close>

theorem strncmp_equal: "strncmp p q n = 0 \<longleftrightarrow> (\<forall>i<n. (\<forall>j<i. p j \<noteq> 0) \<longrightarrow> p i = q i)"
  by (rule strncmp_zero)

theorem strncmp_equal_witness:
  "strncmp (list_view [97, 0, 1]) (list_view [97, 0, 2]) 14 = 0"
proof -
  have "(\<forall>j<i. list_view [97, 0, 1 :: u8] j \<noteq> 0) \<longrightarrow>
      list_view [97, 0, 1] i = list_view [97, 0, 2] i" for i
  proof (cases "i < 2")
    case True
    then show ?thesis by (auto dest!: less_2_cases simp: list_view_def)
  next
    case False
    then have "1 < i" "list_view [97, 0, 1 :: u8] 1 = 0" by (simp_all add: list_view_def)
    then show ?thesis by blast
  qed
  then show ?thesis using strncmp_equal[of "list_view [97, 0, 1]" "list_view [97, 0, 2]" 14] by blast
qed

lemma memcmp_equal: "memcmp s1 s2 n = 0 \<longleftrightarrow> (\<forall>i<n. s1 i = s2 i)"
  by (induction s1 s2 n rule: memcmp.induct) (auto simp: all_less_Suc word_uint_eq_iff)

lemma strlen_from_Some:
  "n \<le> k \<Longrightarrow> s k = 0 \<Longrightarrow> \<forall>i. n \<le> i \<and> i < k \<longrightarrow> s i \<noteq> 0 \<Longrightarrow> strlen_from s n = Some k"
proof (induction rule: inc_induct)
  case base
  then show ?case by (simp add: strlen_from.simps)
next
  case (step n)
  then show ?case by (subst strlen_from.simps) auto
qed

lemma strlen_from_first:
  assumes "strlen_from s n = Some k"
  shows "n \<le> k \<and> s k = 0 \<and> (\<forall>i. n \<le> i \<and> i < k \<longrightarrow> s i \<noteq> 0)"
proof (rule strlen_from.raw_induct[where
      P = "\<lambda>s n k. n \<le> k \<and> s k = 0 \<and> (\<forall>i. n \<le> i \<and> i < k \<longrightarrow> s i \<noteq> 0)", OF _ assms])
  fix f s n k
  assume IH: "\<And>s n k. f s n = Some k \<Longrightarrow> n \<le> k \<and> s k = 0 \<and> (\<forall>i. n \<le> i \<and> i < k \<longrightarrow> s i \<noteq> 0)"
    and eq: "(if s n \<noteq> (0 :: u8) then f s (Suc n) else Some n) = Some k"
  show "n \<le> k \<and> s k = 0 \<and> (\<forall>i. n \<le> i \<and> i < k \<longrightarrow> s i \<noteq> 0)"
  proof (cases "s n = 0")
    case False
    with eq have "Suc n \<le> k \<and> s k = 0 \<and> (\<forall>i. Suc n \<le> i \<and> i < k \<longrightarrow> s i \<noteq> 0)"
      using IH[of s "Suc n" k] by simp
    moreover have "s i \<noteq> 0" if "n \<le> i" "i < k" for i
      using calculation False that by (cases "i = n") auto
    ultimately show ?thesis by auto
  qed (use eq in auto)
qed

text \<open>\<open>strlen\<close> returns \<open>k\<close> exactly when the first NUL byte is at offset \<open>k\<close>; in particular it
  returns on every terminated string.\<close>

theorem strlen_first_nul: "strlen s = Some k \<longleftrightarrow> s k = 0 \<and> (\<forall>i<k. s i \<noteq> 0)"
  unfolding strlen_def
proof
  assume "strlen_from s 0 = Some k"
  then show "s k = 0 \<and> (\<forall>i<k. s i \<noteq> 0)" using strlen_from_first by blast
next
  assume "s k = 0 \<and> (\<forall>i<k. s i \<noteq> 0)"
  then show "strlen_from s 0 = Some k" by (intro strlen_from_Some) simp_all
qed

theorem strlen_first_nul_witness: "strlen (list_view [104, 105, 0]) = Some 2"
proof -
  have "list_view [104, 105, 0 :: u8] 2 = 0 \<and> (\<forall>i<2. list_view [104, 105, 0 :: u8] i \<noteq> 0)"
    by (auto dest!: less_2_cases simp: list_view_def)
  then show ?thesis using strlen_first_nul[of "list_view [104, 105, 0]" 2] by blast
qed

section \<open>Copying strings\<close>

lemma strncpy_bytes_cong:
  "(\<And>i. i < n \<Longrightarrow> v i = w i) \<Longrightarrow> strncpy_bytes v n = strncpy_bytes w n"
proof (induction n arbitrary: v w)
  case (Suc n)
  have "strncpy_bytes (shift v) n = strncpy_bytes (shift w) n"
    by (rule Suc.IH) (simp add: Suc.prems)
  with Suc.prems[of 0] show ?case by simp
qed simp

lemma length_strncpy_bytes [simp]: "length (strncpy_bytes t n) = n"
  by (induction n arbitrary: t) simp_all

lemma strncpy_pad_apply:
  "n \<le> 2 ^ 32 \<Longrightarrow> strncpy_pad n s m x = (if unat (x - s) < n then 0 else m x)"
proof -
  have "strncpy_pad n s m = stosb s 0 n m" by (induction n arbitrary: s m) simp_all
  then show "n \<le> 2 ^ 32 \<Longrightarrow> ?thesis" by (simp add: stosb_apply)
qed

lemma strncpy_loops:
  assumes "n < 2 ^ 32" and "\<And>i j. i < n \<Longrightarrow> j < n \<Longrightarrow> s + of_nat i \<noteq> t + of_nat j"
  shows "(case strncpy_copy n s t m of (k, s', m') \<Rightarrow> strncpy_pad k s' m') x =
    (if unat (x - s) < n then strncpy_bytes (ptr_view m t) n ! unat (x - s) else m x)"
  using assms
proof (induction n arbitrary: s t m)
  case (Suc n)
  have dis: "s + 1 + of_nat i \<noteq> t + 1 + of_nat j" if "i < n" "j < n" for i j
    using Suc.prems(2)[of "Suc i" "Suc j"] that by (simp add: algebra_simps)
  have view: "strncpy_bytes (ptr_view (m(s := m t)) (t + 1)) n = strncpy_bytes (shift (ptr_view m t)) n"
  proof (rule strncpy_bytes_cong)
    fix i assume "i < n"
    then have "t + 1 + of_nat i \<noteq> s" using Suc.prems(2)[of 0 "Suc i"] by (simp add: algebra_simps)
    then show "ptr_view (m(s := m t)) (t + 1) i = shift (ptr_view m t) i"
      by (simp add: ptr_view_def algebra_simps)
  qed
  have IH: "(case strncpy_copy n (s + 1) (t + 1) (m(s := m t)) of (k, s', m') \<Rightarrow> strncpy_pad k s' m') x =
      (if unat (x - (s + 1)) < n then strncpy_bytes (shift (ptr_view m t)) n ! unat (x - (s + 1))
       else (m(s := m t)) x)"
  proof -
    have "(case strncpy_copy n (s + 1) (t + 1) (m(s := m t)) of (k, s', m') \<Rightarrow> strncpy_pad k s' m') x =
      (if unat (x - (s + 1)) < n
       then strncpy_bytes (ptr_view (m(s := m t)) (t + 1)) n ! unat (x - (s + 1))
       else (m(s := m t)) x)"
      using Suc.prems(1) by (intro Suc.IH dis) simp_all
    then show ?thesis by (simp only: view)
  qed
  have pad: "strncpy_pad n (s + 1) (m(s := 0)) x =
      (if unat (x - (s + 1)) < n then 0 else (m(s := 0)) x)"
    using Suc.prems(1) by (intro strncpy_pad_apply) simp
  have first: "ptr_view m t 0 = m t" by (simp add: ptr_view_def)
  show ?case
  proof (cases "x = s")
    case True
    with IH pad first Suc.prems(1) show ?thesis using unat_below_self[of n s] by simp
  next
    case False
    obtain d where d: "unat (x - s) = Suc d" using unat_pos_diff[OF False] gr0_conv_Suc by auto
    with False have "unat (x - (s + 1)) = d" by (simp add: minus_one_step)
    with IH pad first d False show ?thesis by simp
  qed
qed simp

text \<open>\<open>strncpy\<close> into a buffer that does not overlap its source stores exactly \<open>n\<close> bytes: the
  source up to its NUL, padded with NULs; no other byte changes.\<close>

theorem strncpy_stores:
  assumes "0 \<le> n" and "n < 2 ^ 32"
    and "\<And>i j. i < nat n \<Longrightarrow> j < nat n \<Longrightarrow> s + of_nat i \<noteq> t + of_nat j"
  shows "strncpy s t n m x = (if unat (x - s) < nat n
    then strncpy_bytes (ptr_view m t) (nat n) ! unat (x - s) else m x)"
  unfolding strncpy_def using assms(1,2) by (intro strncpy_loops assms(3)) simp_all

theorem strncpy_stores_witness:
  "strncpy 100 200 2 (\<lambda>_. 65) 101 = 65"
proof -
  have "strncpy 100 200 2 (\<lambda>_. 65) 101 = (if unat (101 - 100 :: u32) < nat 2
      then strncpy_bytes (ptr_view (\<lambda>_. 65) 200) (nat 2) ! unat (101 - 100 :: u32) else 65)"
    by (rule strncpy_stores) (auto dest!: less_2_cases)
  moreover have "strncpy_bytes (ptr_view (\<lambda>_. 65) 200) 2 = [65, 65]"
    by (simp add: ptr_view_def numeral_2_eq_2)
  ultimately show ?thesis by simp
qed

text \<open>The bytes stored for a name compare equal to the name: how a directory entry is found again.\<close>

lemma strncpy_bytes_nth:
  "i < n \<Longrightarrow> strncpy_bytes t n ! i = (if \<forall>j<i. t j \<noteq> 0 then t i else 0)"
proof (induction n arbitrary: t i)
  case (Suc n)
  show ?case
  proof (cases i)
    case 0
    then show ?thesis by simp
  next
    case (Suc k)
    with Suc.IH[of k "shift t"] Suc.prems show ?thesis
      by (auto simp: all_less_Suc)
  qed
qed simp

lemma strncmp_strncpy_bytes: "strncmp t (list_view (strncpy_bytes t n)) n = 0"
  by (simp add: strncmp_zero list_view_def strncpy_bytes_nth)

lemma length_safestrcpy_bytes: "0 < n \<Longrightarrow> length (safestrcpy_bytes t n) \<le> n"
  by (induction t n rule: safestrcpy_bytes.induct) auto

lemma safestrcpy_bytes_nul: "0 < n \<Longrightarrow> safestrcpy_bytes t n \<noteq> [] \<and> last (safestrcpy_bytes t n) = 0"
  by (induction t n rule: safestrcpy_bytes.induct) auto

end
