(* ===== verification/Xv6_Mmu.thy ===== *)
theory Xv6_Mmu
  imports Xv6_Prelude
begin

unbundle bit_operations_syntax

text \<open>
  The address arithmetic of mmu.h and memlayout.h: splitting a virtual address into page
  directory index, page table index and offset, rounding to page boundaries, the fields of page
  table entries, the kernel's fixed offset between physical and virtual addresses, and the packed
  segment and gate descriptors.
\<close>

section \<open>Definitions\<close>

definition PGSIZE :: u32 where "PGSIZE = 4096"
definition KERNBASE :: u32 where "KERNBASE = 0x80000000"
definition PHYSTOP :: u32 where "PHYSTOP = 0xE000000"
definition EXTMEM :: u32 where "EXTMEM = 0x100000"
definition DEVSPACE :: u32 where "DEVSPACE = 0xFE000000"
definition KERNLINK :: u32 where "KERNLINK = KERNBASE + EXTMEM"

definition v2p :: "u32 \<Rightarrow> u32" where "v2p a = a - KERNBASE"
definition p2v :: "u32 \<Rightarrow> u32" where "p2v a = a + KERNBASE"

definition PDX :: "u32 \<Rightarrow> u32" where "PDX va = drop_bit 22 va AND 0x3FF"
definition PTX :: "u32 \<Rightarrow> u32" where "PTX va = drop_bit 12 va AND 0x3FF"

definition PGADDR :: "u32 \<Rightarrow> u32 \<Rightarrow> u32 \<Rightarrow> u32" where
  "PGADDR d t off = push_bit 22 d OR push_bit 12 t OR off"

definition PGROUNDUP :: "u32 \<Rightarrow> u32" where
  "PGROUNDUP sz = (sz + PGSIZE - 1) AND NOT (PGSIZE - 1)"

definition PGROUNDDOWN :: "u32 \<Rightarrow> u32" where
  "PGROUNDDOWN a = a AND NOT (PGSIZE - 1)"

definition PTE_P :: u32 where "PTE_P = 0x001"
definition PTE_W :: u32 where "PTE_W = 0x002"
definition PTE_U :: u32 where "PTE_U = 0x004"

definition PTE_ADDR :: "u32 \<Rightarrow> u32" where "PTE_ADDR pte = pte AND NOT 0xFFF"
definition PTE_FLAGS :: "u32 \<Rightarrow> u32" where "PTE_FLAGS pte = pte AND 0xFFF"

record segdesc =
  lim_15_0 :: u16
  base_15_0 :: u16
  base_23_16 :: u8
  seg_type :: "4 word"
  seg_s :: bool
  seg_dpl :: "2 word"
  seg_p :: bool
  lim_19_16 :: "4 word"
  seg_avl :: bool
  seg_rsv1 :: bool
  seg_db :: bool
  seg_g :: bool
  base_31_24 :: u8

definition SEG :: "4 word \<Rightarrow> u32 \<Rightarrow> u32 \<Rightarrow> 2 word \<Rightarrow> segdesc" where
  "SEG ty base lim dpl =
     \<lparr>lim_15_0 = ucast (drop_bit 12 lim AND 0xFFFF), base_15_0 = ucast (base AND 0xFFFF),
      base_23_16 = ucast (drop_bit 16 base AND 0xFF), seg_type = ty, seg_s = True, seg_dpl = dpl,
      seg_p = True, lim_19_16 = ucast (drop_bit 28 lim), seg_avl = False, seg_rsv1 = False,
      seg_db = True, seg_g = True, base_31_24 = ucast (drop_bit 24 base)\<rparr>"

definition SEG16 :: "4 word \<Rightarrow> u32 \<Rightarrow> u32 \<Rightarrow> 2 word \<Rightarrow> segdesc" where
  "SEG16 ty base lim dpl =
     \<lparr>lim_15_0 = ucast (lim AND 0xFFFF), base_15_0 = ucast (base AND 0xFFFF),
      base_23_16 = ucast (drop_bit 16 base AND 0xFF), seg_type = ty, seg_s = True, seg_dpl = dpl,
      seg_p = True, lim_19_16 = ucast (drop_bit 16 lim), seg_avl = False, seg_rsv1 = False,
      seg_db = True, seg_g = False, base_31_24 = ucast (drop_bit 24 base)\<rparr>"

record gatedesc =
  off_15_0 :: u16
  gate_cs :: u16
  gate_args :: "5 word"
  gate_rsv1 :: "3 word"
  gate_type :: "4 word"
  gate_s :: bool
  gate_dpl :: "2 word"
  gate_p :: bool
  off_31_16 :: u16

text \<open>\<open>SETGATE\<close>: a trap gate (\<open>STS_TG32\<close>) leaves interrupts alone, an interrupt gate
  (\<open>STS_IG32\<close>) disables them.\<close>

definition SETGATE :: "bool \<Rightarrow> u16 \<Rightarrow> u32 \<Rightarrow> 2 word \<Rightarrow> gatedesc" where
  "SETGATE istrap sel off d =
     \<lparr>off_15_0 = ucast (off AND 0xFFFF), gate_cs = sel, gate_args = 0, gate_rsv1 = 0,
      gate_type = (if istrap then 0xF else 0xE), gate_s = False, gate_dpl = d, gate_p = True,
      off_31_16 = ucast (drop_bit 16 off)\<rparr>"

section \<open>Pages\<close>

lemmas mmu_consts = PGSIZE_def KERNBASE_def PHYSTOP_def EXTMEM_def DEVSPACE_def KERNLINK_def

lemmas pte_consts = PTE_P_def PTE_W_def PTE_U_def

lemma mask12: "(0xFFF :: u32) = mask 12" "(4095 :: u32) = mask 12"
  by (simp_all add: mask_eq_exp_minus_1)

lemma mask10: "(0x3FF :: u32) = mask 10"
  by (simp add: mask_eq_exp_minus_1)

definition page_aligned :: "u32 \<Rightarrow> bool" where
  "page_aligned a \<longleftrightarrow> a mod PGSIZE = 0"

lemma page_aligned_unat: "page_aligned a \<longleftrightarrow> unat a mod 4096 = 0"
proof -
  have "unat (a mod PGSIZE) = unat a mod 4096" by (simp add: unat_mod PGSIZE_def)
  then show ?thesis by (metis page_aligned_def unat_eq_0)
qed

lemma and_not_mask_unat: "unat (x AND NOT (mask 12) :: u32) = unat x div 4096 * 4096"
proof -
  have "x AND NOT (mask 12) = push_bit 12 (drop_bit 12 x)"
    by (rule bit_word_eqI) (auto simp: bit_simps)
  then have "x AND NOT (mask 12) = x div 4096 * 4096"
    by (simp add: push_bit_eq_mult drop_bit_eq_div)
  then have "unat (x AND NOT (mask 12)) = (unat x div 4096 * 4096) mod 2 ^ 32"
    by (simp add: unat_word_ariths unat_div mod_mult_left_eq)
  also have "\<dots> = unat x div 4096 * 4096"
    using unat_lt32[of x] div_times_less_eq_dividend[of "unat x" 4096] by (intro mod_less) linarith
  finally show ?thesis .
qed

lemma PGROUNDDOWN_unat: "unat (PGROUNDDOWN a) = unat a div 4096 * 4096"
  by (simp add: PGROUNDDOWN_def PGSIZE_def mask12 and_not_mask_unat)

lemma PGROUNDUP_unat:
  assumes "unat sz + 4095 < 2 ^ 32"
  shows "unat (PGROUNDUP sz) = (unat sz + 4095) div 4096 * 4096"
proof -
  have "unat (sz + PGSIZE - 1) = unat sz + 4095"
    using assms by (simp add: PGSIZE_def unat_word_ariths add_diff_eq[symmetric])
  then show ?thesis by (simp add: PGROUNDUP_def PGSIZE_def mask12 and_not_mask_unat)
qed

lemma page_aligned_round [simp]: "page_aligned (PGROUNDUP a)" "page_aligned (PGROUNDDOWN a)"
  by (simp_all add: page_aligned_unat PGROUNDUP_def PGROUNDDOWN_def PGSIZE_def mask12 and_not_mask_unat)

lemma aligned_top: "page_aligned a \<Longrightarrow> unat a + 4096 \<le> 2 ^ 32"
proof -
  assume "page_aligned a"
  then obtain k where k: "unat a = 4096 * k" by (auto simp: page_aligned_unat)
  with unat_lt32[of a] have "k < 1048576" by simp
  with k show ?thesis by simp
qed

lemma page_offset_unat:
  assumes "page_aligned a" "off < PGSIZE"
  shows "unat (a + off) = unat a + unat off"
  using assms aligned_top[OF assms(1)]
  by (subst unat_add_lem[THEN iffD1]) (auto simp: PGSIZE_def word_less_nat_alt)

lemma page_base_unique:
  assumes "x + i = y + j" "i < (4096 :: nat)" "j < 4096" "x mod 4096 = 0" "y mod 4096 = 0"
  shows "x = y"
proof -
  have "i = (x + i) mod 4096" using assms(2,4) by (simp add: mod_add_left_eq[symmetric])
  also have "\<dots> = j" using assms(1,3,5) by (simp add: mod_add_left_eq[symmetric])
  finally show ?thesis using assms(1) by simp
qed

text \<open>Different pages share no byte.\<close>

lemma page_disjoint:
  assumes "page_aligned a" "page_aligned b" "a \<noteq> b" "off < PGSIZE"
  shows "\<not> (a + off) - b < PGSIZE"
proof
  assume lt: "(a + off) - b < PGSIZE"
  have "unat (a + off) = unat (b + ((a + off) - b))" by simp
  then have e: "unat a + unat off = unat b + unat ((a + off) - b)"
    using page_offset_unat[OF assms(1,4)] page_offset_unat[OF assms(2) lt] by simp
  have l: "unat off < 4096" "unat ((a + off) - b) < 4096"
    using assms(4) lt by (simp_all add: PGSIZE_def word_less_nat_alt)
  have m: "unat a mod 4096 = 0" "unat b mod 4096 = 0"
    using assms(1,2) by (simp_all add: page_aligned_unat)
  have "unat a = unat b" by (rule page_base_unique[OF e l m])
  then show False using assms(3) by (simp add: word_unat_eq_iff)
qed

lemma page_four: "(i :: u32) < 4 \<Longrightarrow> i < PGSIZE"
  by (simp add: PGSIZE_def word_less_nat_alt)

lemma load32_page_cong:
  assumes "\<And>i. i < 4 \<Longrightarrow> m (a + i) = m' (a + i)"
  shows "load32 m a = load32 m' a"
  using assms[of 0] assms[of 1] assms[of 2] assms[of 3] by (simp add: load32_def)

text \<open>A virtual address is recovered from its page directory index, page table index and
  offset, and the indices of an address built from in-range parts are those parts.\<close>

theorem PGADDR_roundtrip:
  "PGADDR (PDX va) (PTX va) (va AND 0xFFF) = va \<and>
   (d < 1024 \<longrightarrow> t < 1024 \<longrightarrow> off < 4096 \<longrightarrow>
      PDX (PGADDR d t off) = d \<and> PTX (PGADDR d t off) = t \<and> PGADDR d t off AND 0xFFF = off)"
proof (intro conjI impI)
  show "PGADDR (PDX va) (PTX va) (va AND 0xFFF) = va"
  proof (rule bit_word_eqI)
    fix n assume "n < LENGTH(32)"
    then have "n < 12 \<or> 12 \<le> n \<and> n < 22 \<or> 22 \<le> n \<and> n < 32" by auto
    then show "bit (PGADDR (PDX va) (PTX va) (va AND 0xFFF)) n = bit va n"
      by (auto simp: PGADDR_def PDX_def PTX_def mask12 mask10 bit_simps)
  qed
  assume d: "d < 1024" and t: "t < 1024" and o: "off < 4096"
  have top: "\<not> bit w n" if "w < 2 ^ k" "k \<le> n" for w :: u32 and k n
    using that by (metis (no_types) bit_take_bit_iff leD less_mask_eq take_bit_eq_mask)
  have bd: "bit d n \<Longrightarrow> n < 10" for n using top[of d 10 n] d by (simp, meson not_le)
  have bt: "bit t n \<Longrightarrow> n < 10" for n using top[of t 10 n] t by (simp, meson not_le)
  have bo: "bit off n \<Longrightarrow> n < 12" for n using top[of off 12 n] o by (simp, meson not_le)
  show "PDX (PGADDR d t off) = d"
    by (rule bit_word_eqI) (auto simp: PGADDR_def PDX_def mask10 bit_simps dest: bd bt bo)
  show "PTX (PGADDR d t off) = t"
    by (rule bit_word_eqI) (auto simp: PGADDR_def PTX_def mask10 bit_simps dest: bd bt bo)
  show "PGADDR d t off AND 0xFFF = off"
    by (rule bit_word_eqI) (auto simp: PGADDR_def mask12 bit_simps dest: bd bt bo)
qed

theorem PGADDR_roundtrip_witness:
  "PDX (PGADDR 512 3 7) = 512 \<and> PTX (PGADDR 512 3 7) = 3"
  using PGADDR_roundtrip[of 0 512 3 7] by simp

lemma v2p_p2v [simp]: "v2p (p2v a) = a" "p2v (v2p a) = a"
  by (simp_all add: v2p_def p2v_def)

lemma page_aligned_p2v [simp]: "page_aligned (p2v a) = page_aligned a"
proof -
  have "unat (p2v a) mod 4096 = (unat a + 4096 * 524288) mod 2 ^ 32 mod 4096"
    by (simp add: p2v_def KERNBASE_def unat_word_ariths)
  also have "\<dots> = (unat a + 4096 * 524288) mod 4096"
    by (rule mod_mod_cancel) simp
  also have "\<dots> = unat a mod 4096" by (rule mod_mult_self2)
  finally have "unat (p2v a) mod 4096 = unat a mod 4096" .
  then show ?thesis by (simp add: page_aligned_unat)
qed

text \<open>The base, limit and offset that the processor reassembles from packed descriptors.\<close>

definition seg_base :: "segdesc \<Rightarrow> u32" where
  "seg_base g = ucast (base_15_0 g) OR push_bit 16 (ucast (base_23_16 g))
     OR push_bit 24 (ucast (base_31_24 g))"

definition gate_off :: "gatedesc \<Rightarrow> u32" where
  "gate_off g = ucast (off_15_0 g) OR push_bit 16 (ucast (off_31_16 g))"

lemma mask16: "(0xFFFF :: u32) = mask 16" "(0xFF :: u32) = mask 8"
  by (simp_all add: mask_eq_exp_minus_1)

lemma seg_base_SEG: "seg_base (SEG ty base lim dpl) = base" "seg_base (SEG16 ty base lim dpl) = base"
proof -
  have split: "n < 16 \<or> 16 \<le> n \<and> n < 24 \<or> 24 \<le> n \<and> n < 32" if "n < LENGTH(32)" for n
    using that by auto
  show "seg_base (SEG ty base lim dpl) = base"
    by (rule bit_word_eqI, drule split) (auto simp: seg_base_def SEG_def mask16 bit_simps)
  show "seg_base (SEG16 ty base lim dpl) = base"
    by (rule bit_word_eqI, drule split) (auto simp: seg_base_def SEG16_def mask16 bit_simps)
qed

lemma gate_off_SETGATE: "gate_off (SETGATE t sel off d) = off"
proof -
  have split: "n < 16 \<or> 16 \<le> n \<and> n < 32" if "n < LENGTH(32)" for n
    using that by auto
  show ?thesis
    by (rule bit_word_eqI, drule split) (auto simp: gate_off_def SETGATE_def mask16 bit_simps)
qed

end
