(* ===== verification/Xv6_Spinlock.thy ===== *)
theory Xv6_Spinlock
  imports Xv6_Prelude
begin

text \<open>
  Spin locks and interrupt nesting (spinlock.c). A machine state holds every spin lock of the
  kernel, the per-processor interrupt state and the number of the processor that executes (the
  \<open>cpu\<close> variable of proc.h). The other components extend this state, so each of them takes and
  releases the locks the code takes and releases. The call stack that \<open>acquire\<close> records in a
  lock for debugging is not part of the lock's state here; the walk that collects it is
  \<open>getcallerpcs\<close>.
\<close>

section \<open>Definitions\<close>

record cpu =
  ncli :: int          \<comment> \<open>depth of pushcli nesting\<close>
  intena :: bool       \<comment> \<open>were interrupts enabled before the outermost pushcli\<close>
  eflags_if :: bool    \<comment> \<open>the \<open>FL_IF\<close> bit of the flags register\<close>

record spinlock =
  locked :: u32
  lk_cpu :: "nat option"

text \<open>The kernel's spin locks; a pipe carries its own, named by the pipe's page.\<close>

datatype lockid = PtableLock | RrqueueLock | TicksLock | KmemLock | BcacheLock | IdeLock
  | LogLock | IcacheLock | FtableLock | PipeLock u32 | ConsLock | InputLock

record mach =
  locks :: "lockid \<Rightarrow> spinlock"
  cpus :: "nat \<Rightarrow> cpu"
  cur :: nat

abbreviation mycpu :: "'a mach_scheme \<Rightarrow> cpu" where
  "mycpu s \<equiv> cpus s (cur s)"

definition set_cpu :: "cpu \<Rightarrow> 'a mach_scheme \<Rightarrow> 'a mach_scheme" where
  "set_cpu c s = s\<lparr>cpus := (cpus s)(cur s := c)\<rparr>"

definition set_lock :: "lockid \<Rightarrow> spinlock \<Rightarrow> 'a mach_scheme \<Rightarrow> 'a mach_scheme" where
  "set_lock l v s = s\<lparr>locks := (locks s)(l := v)\<rparr>"

definition initlock :: "lockid \<Rightarrow> 'a mach_scheme \<Rightarrow> 'a mach_scheme" where
  "initlock l s = set_lock l \<lparr>locked = 0, lk_cpu = None\<rparr> s"

definition holding :: "lockid \<Rightarrow> 'a mach_scheme \<Rightarrow> bool" where
  "holding l s \<longleftrightarrow> locked (locks s l) \<noteq> 0 \<and> lk_cpu (locks s l) = Some (cur s)"

definition pushcli :: "'a mach_scheme \<Rightarrow> 'a mach_scheme" where
  "pushcli s =
     (let eflags = eflags_if (mycpu s);
          c = (mycpu s)\<lparr>eflags_if := False\<rparr>;
          c' = (if ncli c = 0 then c\<lparr>intena := eflags\<rparr> else c)
      in set_cpu (c'\<lparr>ncli := ncli c' + 1\<rparr>) s)"

definition popcli :: "'a mach_scheme \<Rightarrow> 'a mach_scheme res" where
  "popcli s =
     (if eflags_if (mycpu s) then Inl (Panic ''popcli - interruptible'')
      else let c = (mycpu s)\<lparr>ncli := ncli (mycpu s) - 1\<rparr>
        in if ncli c < 0 then Inl (Panic ''popcli'')
           else if ncli c = 0 \<and> intena c then Inr (set_cpu (c\<lparr>eflags_if := True\<rparr>) s)
           else Inr (set_cpu c s))"

text \<open>
  \<open>acquire\<close> spins while another processor holds the lock: from this processor's view the call
  does not return until the other one has moved, the result \<open>Blocked\<close>.
\<close>

definition acquire :: "lockid \<Rightarrow> 'a mach_scheme \<Rightarrow> 'a mach_scheme res" where
  "acquire l s0 =
     (let s = pushcli s0
      in if holding l s then Inl (Panic ''acquire'')
         else if locked (locks s l) \<noteq> 0 then Inl (Blocked ''acquire'')
         else Inr (set_lock l \<lparr>locked = 1, lk_cpu = Some (cur s)\<rparr> s))"

definition release :: "lockid \<Rightarrow> 'a mach_scheme \<Rightarrow> 'a mach_scheme res" where
  "release l s =
     (if \<not> holding l s then Inl (Panic ''release'')
      else popcli (set_lock l \<lparr>locked = 0, lk_cpu = None\<rparr> s))"

text \<open>
  \<open>getcallerpcs\<close> follows the chain of saved frame pointers for at most ten frames and fills the
  rest of the array with zeroes.
\<close>

fun pcs_walk :: "mem \<Rightarrow> nat \<Rightarrow> u32 \<Rightarrow> u32 list" where
  "pcs_walk m 0 ebp = []"
| "pcs_walk m (Suc k) ebp =
     (if ebp = 0 \<or> ebp < 0x80000000 \<or> ebp = 0xFFFFFFFF then replicate (Suc k) 0
      else load32 m (ebp + 4) # pcs_walk m k (load32 m ebp))"

definition getcallerpcs :: "mem \<Rightarrow> u32 \<Rightarrow> u32 list" where
  "getcallerpcs m v = pcs_walk m 10 (v - 8)"

text \<open>
  Several processors taking and releasing locks. The second component of the state records
  which processor is between a completed \<open>acquire\<close> and the matching \<open>release\<close> of which lock.
\<close>

inductive lock_step :: "mach \<times> (nat \<times> lockid) set \<Rightarrow> mach \<times> (nat \<times> lockid) set \<Rightarrow> bool" where
  acq: "acquire l (s\<lparr>cur := c\<rparr>) = Inr s' \<Longrightarrow> lock_step (s, G) (s', insert (c, l) G)"
| rel: "(c, l) \<in> G \<Longrightarrow> release l (s\<lparr>cur := c\<rparr>) = Inr s' \<Longrightarrow> lock_step (s, G) (s', G - {(c, l)})"

definition boot_mach :: mach where
  "boot_mach = \<lparr>locks = (\<lambda>_. \<lparr>locked = 0, lk_cpu = None\<rparr>),
     cpus = (\<lambda>_. \<lparr>ncli = 0, intena = False, eflags_if = True\<rparr>), cur = 0\<rparr>"

inductive lock_reach :: "mach \<times> (nat \<times> lockid) set \<Rightarrow> bool" where
  start: "lock_reach (boot_mach, {})"
| step: "lock_reach x \<Longrightarrow> lock_step x y \<Longrightarrow> lock_reach y"

inductive_cases lock_stepE: "lock_step x y"

section \<open>Taking and releasing one lock\<close>

definition lock_free :: "lockid \<Rightarrow> 'a mach_scheme \<Rightarrow> bool" where
  "lock_free l s \<longleftrightarrow> locks s l = \<lparr>locked = 0, lk_cpu = None\<rparr>"

text \<open>The processor's interrupt state between calls: interrupts are off inside any pushcli.\<close>

definition cpu_ok :: "'a mach_scheme \<Rightarrow> bool" where
  "cpu_ok s \<longleftrightarrow> 0 \<le> ncli (mycpu s) \<and> (0 < ncli (mycpu s) \<longrightarrow> \<not> eflags_if (mycpu s))"

text \<open>The state right after \<open>acquire\<close>, and what an \<open>acquire\<close>/\<open>release\<close> pair leaves behind.\<close>

definition acq_st :: "lockid \<Rightarrow> 'a mach_scheme \<Rightarrow> 'a mach_scheme" where
  "acq_st l s = set_lock l \<lparr>locked = 1, lk_cpu = Some (cur s)\<rparr> (pushcli s)"

definition cycled :: "cpu \<Rightarrow> cpu" where
  "cycled c = (if ncli c = 0 then c\<lparr>intena := eflags_if c\<rparr> else c)"

definition lock_cycle :: "'a mach_scheme \<Rightarrow> 'a mach_scheme" where
  "lock_cycle s = set_cpu (cycled (mycpu s)) s"

lemma acquire_free: "lock_free l s \<Longrightarrow> acquire l s = Inr (acq_st l s)"
  by (simp add: acquire_def acq_st_def lock_free_def holding_def pushcli_def set_cpu_def Let_def)

lemma acquire_Inr: "acquire l s = Inr s' \<Longrightarrow> s' = acq_st l s \<and> locked (locks s l) = 0"
  by (auto simp: acquire_def acq_st_def Let_def pushcli_def set_cpu_def split: if_splits)

text \<open>
  \<open>release\<close> undoes \<open>acquire\<close>: whatever the critical section did to the other components, the
  lock is free again and the interrupt state is the one before, for every extension of the
  machine state.
\<close>

lemma release_acq_st:
  assumes "lock_free l s" "cpu_ok s"
  shows "release l (acq_st l s) = Inr (lock_cycle s)"
  using assms
  by (cases "mycpu s")
    (auto simp: release_def holding_def acq_st_def lock_free_def cpu_ok_def pushcli_def popcli_def
      set_lock_def set_cpu_def lock_cycle_def cycled_def Let_def fun_upd_def intro!: mach.equality)

lemma release_held:
  assumes "holding l t" "1 \<le> ncli (mycpu t)" "\<not> eflags_if (mycpu t)"
  shows "\<exists>t'. release l t = Inr t'"
  using assms by (auto simp: release_def popcli_def set_lock_def Let_def)

lemma acq_st_sel [simp]:
  "cur (acq_st l s) = cur s" "holding l (acq_st l s)"
  "mach.more (acq_st l s) = mach.more s"
  by (simp_all add: acq_st_def holding_def pushcli_def set_lock_def set_cpu_def Let_def)

lemma lock_free_acq_st [simp]: "lock_free k (acq_st l s) \<longleftrightarrow> k \<noteq> l \<and> lock_free k s"
  by (auto simp: acq_st_def lock_free_def pushcli_def set_lock_def set_cpu_def Let_def)

lemma cpu_ok_acq_st [simp]: "cpu_ok s \<Longrightarrow> cpu_ok (acq_st l s)"
  by (auto simp: cpu_ok_def acq_st_def pushcli_def set_lock_def set_cpu_def Let_def)

lemma lock_cycle_sel [simp]:
  "cur (lock_cycle s) = cur s" "locks (lock_cycle s) = locks s"
  "mach.more (lock_cycle s) = mach.more s"
  by (simp_all add: lock_cycle_def set_cpu_def)

lemma lock_free_cycle [simp]: "lock_free l (lock_cycle s) = lock_free l s"
  by (simp add: lock_free_def)

lemma cycled_sel [simp]:
  "ncli (cycled c) = ncli c" "eflags_if (cycled c) = eflags_if c" "cycled (cycled c) = cycled c"
  by (simp_all add: cycled_def)

lemma cpus_lock_cycle: "cpus (lock_cycle s) = (cpus s)(cur s := cycled (mycpu s))"
  by (simp add: lock_cycle_def set_cpu_def)

lemma cpu_ok_cycle [simp]: "cpu_ok (lock_cycle s) = cpu_ok s"
  by (simp add: cpu_ok_def cpus_lock_cycle)

lemma lock_cycle_idem [simp]: "lock_cycle (lock_cycle s) = lock_cycle s"
  by (simp add: lock_cycle_def set_cpu_def)

text \<open>Re-acquiring a lock the processor already holds panics instead of spinning forever.\<close>

theorem acquire_held_panics: "holding l s \<Longrightarrow> acquire l s = Inl (Panic ''acquire'')"
  by (simp add: acquire_def holding_def pushcli_def set_cpu_def Let_def)

theorem acquire_held_panics_witness:
  "acquire PtableLock (acq_st PtableLock boot_mach) = Inl (Panic ''acquire'')"
  by (rule acquire_held_panics) simp

section \<open>Many processors\<close>

definition lock_inv :: "mach \<times> (nat \<times> lockid) set \<Rightarrow> bool" where
  "lock_inv x \<longleftrightarrow> (case x of (s, G) \<Rightarrow>
     (\<forall>c l. (c, l) \<in> G \<longleftrightarrow> locked (locks s l) \<noteq> 0 \<and> lk_cpu (locks s l) = Some c) \<and>
     (\<forall>l. locked (locks s l) \<noteq> 0 \<longrightarrow> lk_cpu (locks s l) \<noteq> None) \<and>
     (\<forall>c. ncli (cpus s c) = int (card {l. (c, l) \<in> G})) \<and>
     (\<forall>c. 0 < ncli (cpus s c) \<longrightarrow> \<not> eflags_if (cpus s c)))"

lemma finite_lockid: "finite (UNIV :: lockid set)"
proof -
  let ?A = "{PtableLock, RrqueueLock, TicksLock, KmemLock, BcacheLock, IdeLock,
      LogLock, IcacheLock, FtableLock, ConsLock, InputLock} \<union> range PipeLock"
  have "x \<in> ?A" for x by (cases x) simp_all
  then have "UNIV \<subseteq> ?A" by blast
  moreover have "finite ?A" by simp
  ultimately show ?thesis by (rule finite_subset)
qed

lemma finite_locks [simp]: "finite (A :: lockid set)"
  by (rule finite_subset[OF subset_UNIV finite_lockid])

lemma lock_inv_boot: "lock_inv (boot_mach, {})"
  by (simp add: lock_inv_def boot_mach_def)

lemma lock_inv_acquire:
  assumes inv: "lock_inv (s, G)" and acq: "acquire l (s\<lparr>cur := c\<rparr>) = Inr s'"
  shows "lock_inv (s', insert (c, l) G)"
proof -
  from acquire_Inr[OF acq] have s': "s' = acq_st l (s\<lparr>cur := c\<rparr>)"
    and fr: "locked (locks s l) = 0" by auto
  from inv fr have nG: "(d, l) \<notin> G" for d by (auto simp: lock_inv_def)
  have card: "card {k. (d, k) \<in> insert (c, l) G} = (if d = c then Suc else id) (card {k. (d, k) \<in> G})" for d
  proof -
    have "{k. (d, k) \<in> insert (c, l) G} = (if d = c then insert l {k. (d, k) \<in> G} else {k. (d, k) \<in> G})"
      by auto
    then show ?thesis using nG by simp
  qed
  show ?thesis
    using inv fr nG unfolding lock_inv_def s' prod.case card
    by (auto simp: acq_st_def pushcli_def set_lock_def set_cpu_def Let_def)
qed

lemma lock_inv_release:
  assumes inv: "lock_inv (s, G)" and inG: "(c, l) \<in> G" and rel: "release l (s\<lparr>cur := c\<rparr>) = Inr s'"
  shows "lock_inv (s', G - {(c, l)})"
proof -
  have card: "card {k. (d, k) \<in> G - {(c, l)}} = (if d = c then \<lambda>n. n - 1 else id) (card {k. (d, k) \<in> G})" for d
  proof -
    have "{k. (d, k) \<in> G - {(c, l)}} = (if d = c then {k. (d, k) \<in> G} - {l} else {k. (d, k) \<in> G})"
      by auto
    then show ?thesis using inG by simp
  qed
  have pos: "0 < card {k. (c, k) \<in> G}" using inG by (auto simp: card_gt_0_iff)
  show ?thesis
    using inv inG rel pos unfolding lock_inv_def prod.case card
    by (auto simp: release_def popcli_def set_lock_def set_cpu_def holding_def Let_def of_nat_diff
        split: if_splits)
qed

lemma lock_reach_inv: "lock_reach x \<Longrightarrow> lock_inv x"
proof (induction rule: lock_reach.induct)
  case start
  show ?case by (rule lock_inv_boot)
next
  case (step x y)
  from step.hyps(2) step.IH show ?case
    by (cases rule: lock_step.cases) (auto intro: lock_inv_acquire lock_inv_release)
qed

text \<open>C10. Mutual exclusion: in every state that any number of processors reach by acquiring and
  releasing spin locks, at most one processor is inside the critical section of each lock, it runs
  with interrupts disabled, and its \<open>release\<close> of the lock succeeds.\<close>

theorem spinlock_mutual_exclusion:
  assumes "lock_reach (s, G)" and "(c, l) \<in> G"
  shows "(\<forall>d. (d, l) \<in> G \<longrightarrow> d = c) \<and> \<not> eflags_if (cpus s c) \<and>
    (\<exists>s'. release l (s\<lparr>cur := c\<rparr>) = Inr s')"
proof -
  from lock_reach_inv[OF assms(1)] have inv: "lock_inv (s, G)" .
  have pos: "0 < card {k. (c, k) \<in> G}" using assms(2) by (auto simp: card_gt_0_iff)
  have "holding l (s\<lparr>cur := c\<rparr>)" using inv assms(2) by (auto simp: lock_inv_def holding_def)
  moreover have "1 \<le> ncli (cpus s c)" "\<not> eflags_if (cpus s c)" using inv pos by (auto simp: lock_inv_def)
  ultimately show ?thesis
    using inv assms(2) release_held[of l "s\<lparr>cur := c\<rparr>"] by (auto simp: lock_inv_def)
qed

theorem spinlock_mutual_exclusion_witness:
  "\<not> eflags_if (cpus (acq_st LogLock (boot_mach\<lparr>cur := 1\<rparr>)) 1)"
proof -
  have "acquire LogLock (boot_mach\<lparr>cur := 1\<rparr>) = Inr (acq_st LogLock (boot_mach\<lparr>cur := 1\<rparr>))"
    by (rule acquire_free) (simp add: lock_free_def boot_mach_def)
  then have "lock_reach (acq_st LogLock (boot_mach\<lparr>cur := 1\<rparr>), {(1, LogLock)})"
    by (intro lock_reach.step[OF lock_reach.start]) (rule lock_step.acq)
  from spinlock_mutual_exclusion[OF this, of 1 LogLock] show ?thesis by simp
qed

end
