(* ===== verification/Xv6_Kalloc.thy ===== *)
theory Xv6_Kalloc
  imports Xv6_Strings Xv6_Mmu Xv6_Spinlock
begin

text \<open>
  The physical page allocator (kalloc.c). The free list runs through the free pages themselves:
  the first word of each free page holds the address of the next. The linker symbol \<open>end\<close>, the
  first address after the loaded kernel, is the parameter \<open>en\<close>.
\<close>

section \<open>Definitions\<close>

record memst = mach +
  ram :: mem            \<comment> \<open>memory, at kernel virtual addresses\<close>
  use_lock :: bool      \<comment> \<open>\<open>kmem.use_lock\<close>\<close>
  freelist :: u32       \<comment> \<open>\<open>kmem.freelist\<close>\<close>

definition kfree :: "u32 \<Rightarrow> u32 \<Rightarrow> 'a memst_scheme \<Rightarrow> 'a memst_scheme res" where
  "kfree en v s =
     (if v mod PGSIZE \<noteq> 0 \<or> v < en \<or> v2p v \<ge> PHYSTOP then Inl (Panic ''kfree'')
      else
        let s = s\<lparr>ram := memset v 1 PGSIZE (ram s)\<rparr>
        in bindr (if use_lock s then acquire KmemLock s else Inr s) (\<lambda>s.
           let s = s\<lparr>ram := store32 (ram s) v (freelist s)\<rparr>;
               s = s\<lparr>freelist := v\<rparr>
           in if use_lock s then release KmemLock s else Inr s))"

definition kalloc :: "'a memst_scheme \<Rightarrow> (u32 \<times> 'a memst_scheme) res" where
  "kalloc s =
     bindr (if use_lock s then acquire KmemLock s else Inr s) (\<lambda>s.
     let r = freelist s;
         s = (if r \<noteq> 0 then s\<lparr>freelist := load32 (ram s) r\<rparr> else s)
     in bindr (if use_lock s then release KmemLock s else Inr s) (\<lambda>s.
     Inr (r, s)))"

lemma kfree_low: "kfree en p s = Inr s' \<Longrightarrow> unat p < unat (p + PGSIZE)"
proof -
  assume "kfree en p s = Inr s'"
  then have "v2p p < PHYSTOP" by (auto simp: kfree_def not_le split: if_splits)
  then show ?thesis
    by (simp add: v2p_def mmu_consts) (unat_arith; simp)
qed

lemma unat_climbs: "unat p < unat q \<Longrightarrow> 4294967296 - unat q < 4294967296 - unat (p :: u32)"
  using unat_lt32[of p] by simp

function freerange_loop :: "u32 \<Rightarrow> u32 \<Rightarrow> u32 \<Rightarrow> 'a memst_scheme \<Rightarrow> 'a memst_scheme res" where
  "freerange_loop en p vend s =
     (if p + PGSIZE \<le> vend
      then bindr (kfree en p s) (\<lambda>s'. freerange_loop en (p + PGSIZE) vend s')
      else Inr s)"
  by pat_completeness auto
termination
  by (relation "measure (\<lambda>(en, p, vend, s). 2 ^ 32 - unat p)")
    (auto dest!: kfree_low intro: unat_climbs)

declare freerange_loop.simps [simp del]

definition freerange :: "u32 \<Rightarrow> u32 \<Rightarrow> u32 \<Rightarrow> 'a memst_scheme \<Rightarrow> 'a memst_scheme res" where
  "freerange en vstart vend s = freerange_loop en (PGROUNDUP vstart) vend s"

definition kinit1 :: "u32 \<Rightarrow> u32 \<Rightarrow> u32 \<Rightarrow> 'a memst_scheme \<Rightarrow> 'a memst_scheme res" where
  "kinit1 en vstart vend s =
     freerange en vstart vend ((initlock KmemLock s)\<lparr>use_lock := False\<rparr>)"

definition kinit2 :: "u32 \<Rightarrow> u32 \<Rightarrow> u32 \<Rightarrow> 'a memst_scheme \<Rightarrow> 'a memst_scheme res" where
  "kinit2 en vstart vend s =
     bindr (freerange en vstart vend s) (\<lambda>s. Inr (s\<lparr>use_lock := True\<rparr>))"

section \<open>The free list\<close>

text \<open>The pages on the list that starts at \<open>p\<close>, linked through memory.\<close>

fun flist :: "mem \<Rightarrow> u32 \<Rightarrow> u32 list \<Rightarrow> bool" where
  "flist m p [] \<longleftrightarrow> p = 0"
| "flist m p (x # xs) \<longleftrightarrow> p = x \<and> x \<noteq> 0 \<and> flist m (load32 m x) xs"

text \<open>A page the allocator may hand out.\<close>

definition page_ok :: "u32 \<Rightarrow> u32 \<Rightarrow> bool" where
  "page_ok en v \<longleftrightarrow> page_aligned v \<and> en \<le> v \<and> v2p v < PHYSTOP"

definition kmem_inv :: "u32 \<Rightarrow> 'a memst_scheme \<Rightarrow> u32 list \<Rightarrow> bool" where
  "kmem_inv en s ps \<longleftrightarrow> flist (ram s) (freelist s) ps \<and> distinct ps \<and> (\<forall>p\<in>set ps. page_ok en p)"

definition kmem_quiet :: "'a memst_scheme \<Rightarrow> bool" where
  "kmem_quiet s \<longleftrightarrow> (use_lock s \<longrightarrow> lock_free KmemLock s \<and> cpu_ok s)"

text \<open>What no allocator call changes: every lock ends as it was, and so do the fields of the
  states that extend this one.\<close>

definition same_rest :: "'a memst_scheme \<Rightarrow> 'a memst_scheme \<Rightarrow> bool" where
  "same_rest s s' \<longleftrightarrow> locks s' = locks s \<and> cur s' = cur s \<and> (\<forall>c. cycled (cpus s' c) = cycled (cpus s c))
     \<and> use_lock s' = use_lock s \<and> memst.more s' = memst.more s"

lemma same_rest_refl [simp]: "same_rest s s"
  by (simp add: same_rest_def)

lemma same_rest_trans: "same_rest s t \<Longrightarrow> same_rest t u \<Longrightarrow> same_rest s u"
  by (auto simp: same_rest_def)

lemma same_rest_quiet: "same_rest s s' \<Longrightarrow> kmem_quiet s' = kmem_quiet s"
proof -
  assume r: "same_rest s s'"
  then have "cycled (mycpu s') = cycled (mycpu s)" by (simp add: same_rest_def)
  then have "ncli (mycpu s') = ncli (mycpu s)" "eflags_if (mycpu s') = eflags_if (mycpu s)"
    by (metis cycled_sel(1), metis cycled_sel(2))
  with r show ?thesis by (auto simp: kmem_quiet_def same_rest_def lock_free_def cpu_ok_def)
qed

lemma page_ok_nonzero: "page_ok en v \<Longrightarrow> v \<noteq> 0"
  by (auto simp: page_ok_def v2p_def mmu_consts)

lemma flist_cong:
  "(\<And>p. p \<in> set ps \<Longrightarrow> load32 m p = load32 m' p) \<Longrightarrow> flist m a ps = flist m' a ps"
  by (induction ps arbitrary: a) auto

lemma flist_unique: "flist m p ps \<Longrightarrow> flist m p qs \<Longrightarrow> ps = qs"
proof (induction ps arbitrary: p qs)
  case Nil
  then show ?case by (cases qs) auto
next
  case (Cons x ps)
  then show ?case by (cases qs) auto
qed

text \<open>Writing inside one page does not change the words at the start of other pages.\<close>

definition page_frame :: "u32 \<Rightarrow> mem \<Rightarrow> mem \<Rightarrow> bool" where
  "page_frame v m m' \<longleftrightarrow> (\<forall>x. \<not> x - v < PGSIZE \<longrightarrow> m' x = m x)"

lemma page_frame_load:
  assumes "page_frame v m m'" "page_aligned v" "page_aligned p" "p \<noteq> v"
  shows "load32 m' p = load32 m p"
  by (rule load32_page_cong)
    (use assms page_disjoint[OF assms(3,2,4)] page_four in \<open>auto simp: page_frame_def\<close>)

lemma store32_frame: "page_frame v m (store32 m v w)"
  by (auto simp: page_frame_def store32_apply page_four)

lemma memset_frame: "page_frame v m (memset v c PGSIZE m)"
  by (simp add: page_frame_def memset_fills)

lemma page_frame_trans: "page_frame v m m' \<Longrightarrow> page_frame v m' m'' \<Longrightarrow> page_frame v m m''"
  by (simp add: page_frame_def)

section \<open>Allocation and release\<close>

text \<open>The critical section's own writes commute with taking and releasing the lock.\<close>

lemma memst_lock_sel [simp]:
  "ram (acq_st l s) = ram s" "use_lock (acq_st l s) = use_lock s" "freelist (acq_st l s) = freelist s"
  "memst.more (acq_st l s) = memst.more s"
  "ram (lock_cycle s) = ram s" "use_lock (lock_cycle s) = use_lock s"
  "freelist (lock_cycle s) = freelist s" "memst.more (lock_cycle s) = memst.more s"
  by (simp_all add: acq_st_def set_lock_def pushcli_def set_cpu_def lock_cycle_def Let_def)

lemma memst_lock_upd [simp]:
  "ram_update f (acq_st l s) = acq_st l (ram_update f s)"
  "freelist_update g (acq_st l s) = acq_st l (freelist_update g s)"
  "ram_update f (lock_cycle s) = lock_cycle (ram_update f s)"
  "freelist_update g (lock_cycle s) = lock_cycle (freelist_update g s)"
  by (cases s; simp add: acq_st_def set_lock_def pushcli_def set_cpu_def lock_cycle_def Let_def)+

lemma memst_lock_free [simp]:
  "lock_free l (ram_update f s) = lock_free l s" "cpu_ok (ram_update f s) = cpu_ok s"
  "lock_free l (freelist_update g s) = lock_free l s" "cpu_ok (freelist_update g s) = cpu_ok s"
  by (simp_all add: lock_free_def cpu_ok_def)

lemma kfree_result:
  assumes "page_ok en v" "kmem_quiet s"
  shows "\<exists>s'. kfree en v s = Inr s' \<and> same_rest s s' \<and> freelist s' = v \<and>
    ram s' = store32 (memset v 1 PGSIZE (ram s)) v (freelist s)"
proof -
  have ok: "v mod PGSIZE = 0" "\<not> v < en" "\<not> PHYSTOP \<le> v2p v"
    using assms(1) by (auto simp: page_ok_def page_aligned_def not_le not_less)
  show ?thesis
  proof (cases "use_lock s")
    case False
    with ok show ?thesis by (simp add: kfree_def same_rest_def Let_def)
  next
    case True
    with assms(2) have "lock_free KmemLock s" "cpu_ok s" by (auto simp: kmem_quiet_def)
    with True ok show ?thesis
      by (simp add: kfree_def Let_def acquire_free release_acq_st same_rest_def cpus_lock_cycle)
  qed
qed

lemma kalloc_result:
  assumes "kmem_quiet s"
  shows "\<exists>s'. kalloc s = Inr (freelist s, s') \<and> same_rest s s' \<and> ram s' = ram s \<and>
    freelist s' = (if freelist s \<noteq> 0 then load32 (ram s) (freelist s) else 0)"
proof (cases "use_lock s")
  case False
  then show ?thesis by (auto simp: kalloc_def Let_def same_rest_def)
next
  case True
  with assms have "lock_free KmemLock s" "cpu_ok s" by (auto simp: kmem_quiet_def)
  with True show ?thesis
    by (auto simp: kalloc_def Let_def acquire_free release_acq_st same_rest_def cpus_lock_cycle)
qed

text \<open>\<open>kfree\<close> of an allocatable page that is not free puts it at the head of the free list,
  keeps the list well formed, and touches memory of that page only.\<close>

lemma kfree_list:
  assumes "kmem_inv en s ps" "kmem_quiet s" "page_ok en v" "v \<notin> set ps"
  shows "\<exists>s'. kfree en v s = Inr s' \<and> kmem_inv en s' (v # ps) \<and> same_rest s s' \<and>
    page_frame v (ram s) (ram s')"
proof -
  obtain s' where s': "kfree en v s = Inr s'" "same_rest s s'" "freelist s' = v"
    "ram s' = store32 (memset v 1 PGSIZE (ram s)) v (freelist s)"
    using kfree_result[OF assms(3,2)] by auto
  have frame: "page_frame v (ram s) (ram s')"
    unfolding s'(4) by (rule page_frame_trans[OF memset_frame store32_frame])
  have "load32 (ram s') p = load32 (ram s) p" if "p \<in> set ps" for p
    using that assms frame by (intro page_frame_load) (auto simp: kmem_inv_def page_ok_def)
  then have "flist (ram s') (freelist s) ps"
    using assms(1) flist_cong[of ps "ram s'" "ram s"] by (simp add: kmem_inv_def)
  then have "kmem_inv en s' (v # ps)"
    using assms s'(3) page_ok_nonzero[OF assms(3)] by (simp add: kmem_inv_def s'(4))
  with s' frame show ?thesis by blast
qed

text \<open>\<open>kalloc\<close> removes the first page of the free list and returns it, an aligned page between
  the kernel image and the top of physical memory that stays off the list; it returns 0 exactly
  when no page is free.\<close>

lemma kalloc_list:
  assumes "kmem_inv en s ps" "kmem_quiet s"
  shows "\<exists>r s'. kalloc s = Inr (r, s') \<and> same_rest s s' \<and> ram s' = ram s \<and>
    (r = 0 \<longleftrightarrow> ps = []) \<and> kmem_inv en s' (tl ps) \<and> (r \<noteq> 0 \<longrightarrow> page_ok en r \<and> r = hd ps \<and> r \<notin> set (tl ps))"
proof -
  obtain s' where s': "kalloc s = Inr (freelist s, s')" "same_rest s s'" "ram s' = ram s"
    "freelist s' = (if freelist s \<noteq> 0 then load32 (ram s) (freelist s) else 0)"
    using kalloc_result[OF assms(2)] by auto
  show ?thesis
  proof (cases ps)
    case Nil
    with assms s' show ?thesis by (auto simp: kmem_inv_def)
  next
    case (Cons x xs)
    with assms s' show ?thesis by (auto simp: kmem_inv_def)
  qed
qed

text \<open>A page just freed is the next one allocated.\<close>

lemma kfree_kalloc:
  assumes "kmem_inv en s ps" "kmem_quiet s" "page_ok en v" "v \<notin> set ps"
    and "kfree en v s = Inr s1"
  shows "\<exists>s2. kalloc s1 = Inr (v, s2) \<and> kmem_inv en s2 ps"
proof -
  from kfree_list[OF assms(1-4)] assms(5)
  have inv: "kmem_inv en s1 (v # ps)" and "same_rest s s1" by auto
  then have "kmem_quiet s1" using assms(2) same_rest_quiet by blast
  from kalloc_list[OF inv this] page_ok_nonzero[OF assms(3)] show ?thesis by auto
qed

text \<open>The pages \<open>freerange\<close> frees, last first.\<close>

definition range_pages :: "u32 \<Rightarrow> u32 \<Rightarrow> u32 list" where
  "range_pages p vend = map (\<lambda>i. p + of_nat (4096 * i)) [0..<(unat vend - unat p) div 4096]"

lemma range_pages_step:
  assumes "p + PGSIZE \<le> vend" "unat (p + PGSIZE) = unat p + 4096"
  shows "range_pages p vend = p # range_pages (p + PGSIZE) vend"
proof -
  have "unat vend - unat p = 4096 + (unat vend - unat (p + PGSIZE))"
    using assms by (simp add: word_le_nat_alt)
  then have n: "(unat vend - unat p) div 4096 = Suc ((unat vend - unat (p + PGSIZE)) div 4096)"
    by simp
  show ?thesis
    unfolding range_pages_def n upt_conv_Cons[OF zero_less_Suc] map_Suc_upt[symmetric]
    by (simp add: PGSIZE_def algebra_simps comp_def)
qed

lemma range_pages_done: "\<not> p + PGSIZE \<le> vend \<Longrightarrow> unat (p + PGSIZE) = unat p + 4096 \<Longrightarrow> range_pages p vend = []"
  by (simp add: range_pages_def word_le_nat_alt)

definition in_ram :: "u32 \<Rightarrow> u32 \<Rightarrow> bool" where
  "in_ram en p \<longleftrightarrow> page_aligned p \<and> en \<le> p \<and> KERNBASE \<le> p \<and> p \<le> p2v PHYSTOP"

lemma in_ram_next: "in_ram en p \<Longrightarrow> unat (p + PGSIZE) = unat p + 4096"
  by (simp add: in_ram_def p2v_def mmu_consts) (unat_arith; simp)

lemma in_ram_step:
  assumes "in_ram en p" "p + PGSIZE \<le> vend" "vend \<le> p2v PHYSTOP"
  shows "in_ram en (p + PGSIZE)" "page_ok en p"
proof -
  note u = in_ram_next[OF assms(1)]
  have al: "page_aligned (p + PGSIZE)" using assms(1) u by (simp add: in_ram_def page_aligned_unat)
  show "in_ram en (p + PGSIZE)"
    using assms al u by (auto simp: in_ram_def word_le_nat_alt)
  have "unat p + 4096 \<le> unat (p2v PHYSTOP)" using assms(2,3) u by (simp add: word_le_nat_alt)
  then have "v2p p < PHYSTOP"
    using assms(1) by (simp add: in_ram_def v2p_def p2v_def mmu_consts word_le_nat_alt word_less_nat_alt unat_sub)
  then show "page_ok en p" using assms(1) by (simp add: in_ram_def page_ok_def)
qed

lemma range_pages_above: "in_ram en p \<Longrightarrow> q \<in> set (range_pages (p + PGSIZE) vend) \<Longrightarrow> q \<noteq> p"
proof
  assume r: "in_ram en p" and q: "q \<in> set (range_pages (p + PGSIZE) vend)" and "q = p"
  then obtain i where i: "i < (unat vend - unat (p + PGSIZE)) div 4096"
    and "p = p + PGSIZE + of_nat (4096 * i)" by (auto simp: range_pages_def)
  then have z: "PGSIZE + of_nat (4096 * i) = (0 :: u32)" by (simp add: add.assoc)
  have "4096 + 4096 * i < 2 ^ 32" using i unat_lt32[of vend] in_ram_next[OF r] by simp
  then have "unat (of_nat (4096 + 4096 * i) :: u32) = 4096 + 4096 * i" by (rule unat_of_nat32)
  moreover have "(of_nat (4096 + 4096 * i) :: u32) = 0" using z by (simp add: PGSIZE_def)
  ultimately show False by simp
qed

lemma freerange_loop_frees:
  "kmem_inv en s ps \<Longrightarrow> kmem_quiet s \<Longrightarrow> in_ram en p \<Longrightarrow> vend \<le> p2v PHYSTOP \<Longrightarrow>
   set (range_pages p vend) \<inter> set ps = {} \<Longrightarrow>
   \<exists>s'. freerange_loop en p vend s = Inr s' \<and> same_rest s s' \<and>
     kmem_inv en s' (rev (range_pages p vend) @ ps)"
proof (induction en p vend s arbitrary: ps rule: freerange_loop.induct)
  case (1 en p vend s)
  note u = in_ram_next[OF "1.prems"(3)]
  show ?case
  proof (cases "p + PGSIZE \<le> vend")
    case False
    with "1.prems" u show ?thesis by (simp add: freerange_loop.simps range_pages_done)
  next
    case True
    note st = range_pages_step[OF True u]
    from in_ram_step[OF "1.prems"(3) True "1.prems"(4)]
    have ir: "in_ram en (p + PGSIZE)" and ok: "page_ok en p" by auto
    have "p \<notin> set ps" using "1.prems"(5) st by auto
    then obtain s1 where s1: "kfree en p s = Inr s1" "kmem_inv en s1 (p # ps)" "same_rest s s1"
      using kfree_list[OF "1.prems"(1,2) ok] by blast
    have "set (range_pages (p + PGSIZE) vend) \<inter> set (p # ps) = {}"
      using "1.prems"(5) st range_pages_above[OF "1.prems"(3)] by auto
    moreover have "kmem_quiet s1" using s1(3) "1.prems"(2) same_rest_quiet by blast
    ultimately obtain s' where "freerange_loop en (p + PGSIZE) vend s1 = Inr s'" "same_rest s1 s'"
        "kmem_inv en s' (rev (range_pages (p + PGSIZE) vend) @ p # ps)"
      using "1.IH"[OF True s1(1) s1(2) _ ir "1.prems"(4)] by blast
    with True s1 st show ?thesis
      by (auto simp: freerange_loop.simps[of en p vend s] intro: same_rest_trans)
  qed
qed

text \<open>C36. Booting with an empty free list, \<open>kinit1\<close> frees exactly the whole pages between
  \<open>vstart\<close> (rounded up) and \<open>vend\<close>: each of them is on the resulting free list once.\<close>

theorem kinit1_frees_range:
  assumes "freelist s = 0" and "in_ram en (PGROUNDUP vstart)" and "vend \<le> p2v PHYSTOP"
  shows "\<exists>s'. kinit1 en vstart vend s = Inr s' \<and>
    kmem_inv en s' (rev (range_pages (PGROUNDUP vstart) vend)) \<and> lock_free KmemLock s'"
proof -
  let ?t = "(initlock KmemLock s)\<lparr>use_lock := False\<rparr>"
  have "kmem_inv en ?t []" "kmem_quiet ?t" "lock_free KmemLock ?t"
    using assms(1) by (simp_all add: kmem_inv_def kmem_quiet_def initlock_def set_lock_def lock_free_def)
  with freerange_loop_frees[of en ?t "[]" "PGROUNDUP vstart" vend] assms(2,3) show ?thesis
    by (auto simp: kinit1_def freerange_def same_rest_def lock_free_def)
qed

definition blank_memst :: memst where
  "blank_memst = mach.extend boot_mach \<lparr>ram = (\<lambda>_. 0), use_lock = False, freelist = 0\<rparr>"

theorem kinit1_frees_range_witness:
  "\<exists>s'. kinit1 0x80110000 0x80110000 0x80112000 blank_memst = Inr s' \<and>
    kmem_inv 0x80110000 s' [0x80111000, 0x80110000]"
proof -
  have up: "PGROUNDUP 0x80110000 = 0x80110000"
    by (simp add: PGROUNDUP_def PGSIZE_def)
  have "in_ram 0x80110000 (PGROUNDUP 0x80110000)"
    unfolding up by (simp add: in_ram_def page_aligned_def p2v_def mmu_consts)
  moreover have "freelist blank_memst = 0" by (simp add: blank_memst_def mach.defs)
  moreover have "0x80112000 \<le> p2v PHYSTOP" by (simp add: p2v_def mmu_consts)
  moreover have "rev (range_pages (PGROUNDUP 0x80110000) 0x80112000) = [0x80111000, 0x80110000]"
    unfolding up range_pages_def by (simp add: upt_rec)
  ultimately show ?thesis
    using kinit1_frees_range[where s = blank_memst and en = "0x80110000" and vstart = "0x80110000"
        and vend = "0x80112000"] by auto
qed

text \<open>C35. The page allocator. On a well-formed free list \<open>kalloc\<close> removes the first page and returns it,
  an aligned page between the kernel image and the top of physical memory that is no longer on the
  list, and returns 0 exactly when no page is free. \<open>kfree\<close> of an allocatable page that is not free puts
  it at the head of the list, changes memory of that page only, and the next \<open>kalloc\<close> returns it. Locks
  and every other component are left as they were.\<close>

theorem page_allocator:
  assumes "kmem_inv en s ps" "kmem_quiet s"
  shows "(\<exists>r s'. kalloc s = Inr (r, s') \<and> same_rest s s' \<and> ram s' = ram s \<and> (r = 0 \<longleftrightarrow> ps = []) \<and>
      kmem_inv en s' (tl ps) \<and> (r \<noteq> 0 \<longrightarrow> page_ok en r \<and> r = hd ps \<and> r \<notin> set (tl ps))) \<and>
    (page_ok en v \<and> v \<notin> set ps \<longrightarrow> (\<exists>s1 s2. kfree en v s = Inr s1 \<and> kmem_inv en s1 (v # ps) \<and> same_rest s s1 \<and>
      page_frame v (ram s) (ram s1) \<and> kalloc s1 = Inr (v, s2) \<and> kmem_inv en s2 ps))"
proof (intro conjI impI)
  show "\<exists>r s'. kalloc s = Inr (r, s') \<and> same_rest s s' \<and> ram s' = ram s \<and> (r = 0 \<longleftrightarrow> ps = []) \<and>
      kmem_inv en s' (tl ps) \<and> (r \<noteq> 0 \<longrightarrow> page_ok en r \<and> r = hd ps \<and> r \<notin> set (tl ps))"
    by (rule kalloc_list[OF assms])
  assume v: "page_ok en v \<and> v \<notin> set ps"
  from kfree_list[OF assms] v obtain s1 where s1: "kfree en v s = Inr s1" "kmem_inv en s1 (v # ps)"
    "same_rest s s1" "page_frame v (ram s) (ram s1)" by blast
  moreover obtain s2 where "kalloc s1 = Inr (v, s2)" "kmem_inv en s2 ps"
    using kfree_kalloc[OF assms _ _ s1(1)] v by blast
  ultimately show "\<exists>s1 s2. kfree en v s = Inr s1 \<and> kmem_inv en s1 (v # ps) \<and> same_rest s s1 \<and>
      page_frame v (ram s) (ram s1) \<and> kalloc s1 = Inr (v, s2) \<and> kmem_inv en s2 ps" by blast
qed

theorem page_allocator_witness:
  "\<exists>s1 s2. kfree 0x80110000 0x80111000 blank_memst = Inr s1 \<and> kmem_inv 0x80110000 s1 [0x80111000] \<and>
    kalloc s1 = Inr (0x80111000, s2) \<and> kmem_inv 0x80110000 s2 []"
proof -
  have "kmem_inv 0x80110000 blank_memst []" "kmem_quiet blank_memst"
    by (simp_all add: kmem_inv_def kmem_quiet_def blank_memst_def mach.defs)
  moreover have "page_ok 0x80110000 0x80111000"
    by (simp add: page_ok_def page_aligned_def v2p_def mmu_consts)
  ultimately show ?thesis using page_allocator[of "0x80110000" blank_memst "[]" "0x80111000"] by auto
qed

end
