(* ===== verification/Xv6_Vm.thy ===== *)
theory Xv6_Vm
  imports Xv6_Kalloc
begin

unbundle bit_operations_syntax

text \<open>
  Page tables (vm.c). Page directories and page tables are pages of memory; the routines build,
  walk, copy and free them through their kernel addresses. The linker symbols \<open>end\<close> and \<open>data\<close>
  are the parameters \<open>en\<close> and \<open>dat\<close>. The loops count in 32-bit unsigned integers, whose wrap-around
  the code does not exclude, so they are partial functions: \<open>None\<close> is a loop that never ends.
\<close>

section \<open>Definitions\<close>

definition NPDENTRIES :: nat where "NPDENTRIES = 1024"
definition NPTENTRIES :: u32 where "NPTENTRIES = 1024"

definition set_ram :: "mem \<Rightarrow> 'a memst_scheme \<Rightarrow> 'a memst_scheme" where
  "set_ram m s = s\<lparr>ram := m\<rparr>"

text \<open>\<open>memmove\<close> from data outside the modelled memory, given as a view.\<close>

definition put_view :: "u32 \<Rightarrow> view \<Rightarrow> u32 \<Rightarrow> mem \<Rightarrow> mem" where
  "put_view dst v n m = (\<lambda>a. if a - dst < n then v (unat (a - dst)) else m a)"

definition walkpgdir :: "u32 \<Rightarrow> u32 \<Rightarrow> bool \<Rightarrow> 'a memst_scheme \<Rightarrow> (u32 \<times> 'a memst_scheme) res" where
  "walkpgdir pgdir va alloc s =
     (let pde = pgdir + 4 * PDX va
      in if load32 (ram s) pde AND PTE_P \<noteq> 0
         then Inr (p2v (PTE_ADDR (load32 (ram s) pde)) + 4 * PTX va, s)
         else if \<not> alloc then Inr (0, s)
         else bindr (kalloc s) (\<lambda>(pgtab, s).
              if pgtab = 0 then Inr (0, s)
              else let s = set_ram (memset pgtab 0 PGSIZE (ram s)) s;
                       s = set_ram (store32 (ram s) pde (v2p pgtab OR PTE_P OR PTE_W OR PTE_U)) s
                in Inr (pgtab + 4 * PTX va, s)))"

partial_function (option) mappages_loop ::
    "u32 \<Rightarrow> u32 \<Rightarrow> u32 \<Rightarrow> u32 \<Rightarrow> u32 \<Rightarrow> 'a memst_scheme \<Rightarrow> (int \<times> 'a memst_scheme) res option" where
  "mappages_loop pgdir a lst pa perm s =
     bindro (walkpgdir pgdir a True s) (\<lambda>(pte, s).
       if pte = 0 then Some (Inr (-1, s))
       else if load32 (ram s) pte AND PTE_P \<noteq> 0 then Some (Inl (Panic ''remap''))
       else let s = set_ram (store32 (ram s) pte (pa OR perm OR PTE_P)) s
         in if a = lst then Some (Inr (0, s))
            else mappages_loop pgdir (a + PGSIZE) lst (pa + PGSIZE) perm s)"

definition mappages :: "u32 \<Rightarrow> u32 \<Rightarrow> u32 \<Rightarrow> u32 \<Rightarrow> u32 \<Rightarrow> 'a memst_scheme \<Rightarrow> (int \<times> 'a memst_scheme) res" where
  "mappages pgdir va sz pa perm s =
     loopr (mappages_loop pgdir (PGROUNDDOWN va) (PGROUNDDOWN (va + sz - 1)) pa perm s)"

record kmap_entry =
  virt :: u32
  phys_start :: u32
  phys_end :: u32
  kperm :: u32

definition kmap :: "u32 \<Rightarrow> kmap_entry list" where
  "kmap dat =
     [\<lparr>virt = KERNBASE, phys_start = 0, phys_end = EXTMEM, kperm = PTE_W\<rparr>,
      \<lparr>virt = KERNLINK, phys_start = v2p KERNLINK, phys_end = v2p dat, kperm = 0\<rparr>,
      \<lparr>virt = dat, phys_start = v2p dat, phys_end = PHYSTOP, kperm = PTE_W\<rparr>,
      \<lparr>virt = DEVSPACE, phys_start = DEVSPACE, phys_end = 0, kperm = PTE_W\<rparr>]"

fun kmap_all :: "u32 \<Rightarrow> kmap_entry list \<Rightarrow> 'a memst_scheme \<Rightarrow> (u32 \<times> 'a memst_scheme) res" where
  "kmap_all pgdir [] s = Inr (pgdir, s)"
| "kmap_all pgdir (k # ks) s =
     bindr (mappages pgdir (virt k) (phys_end k - phys_start k) (phys_start k) (kperm k) s) (\<lambda>(r, s).
       if r < 0 then Inr (0, s) else kmap_all pgdir ks s)"

definition setupkvm :: "u32 \<Rightarrow> 'a memst_scheme \<Rightarrow> (u32 \<times> 'a memst_scheme) res" where
  "setupkvm dat s =
     bindr (kalloc s) (\<lambda>(pgdir, s).
       if pgdir = 0 then Inr (0, s)
       else let s = set_ram (memset pgdir 0 PGSIZE (ram s)) s
         in if p2v PHYSTOP > DEVSPACE then Inl (Panic ''PHYSTOP too high'')
            else kmap_all pgdir (kmap dat) s)"

definition inituvm :: "u32 \<Rightarrow> view \<Rightarrow> u32 \<Rightarrow> 'a memst_scheme \<Rightarrow> 'a memst_scheme res" where
  "inituvm pgdir init sz s =
     (if sz \<ge> PGSIZE then Inl (Panic ''inituvm: more than a page'')
      else bindr (kalloc s) (\<lambda>(mem, s).
        let s = set_ram (memset mem 0 PGSIZE (ram s)) s
        in bindr (mappages pgdir 0 PGSIZE (v2p mem) (PTE_W OR PTE_U) s) (\<lambda>(r, s).
           Inr (set_ram (put_view mem init sz (ram s)) s))))"

partial_function (option) deallocuvm_loop ::
    "u32 \<Rightarrow> u32 \<Rightarrow> u32 \<Rightarrow> u32 \<Rightarrow> 'a memst_scheme \<Rightarrow> 'a memst_scheme res option" where
  "deallocuvm_loop en pgdir a oldsz s =
     (if a < oldsz then
        bindro (walkpgdir pgdir a False s) (\<lambda>(pte, s).
          if pte = 0 then deallocuvm_loop en pgdir (a + (NPTENTRIES - 1) * PGSIZE + PGSIZE) oldsz s
          else if load32 (ram s) pte AND PTE_P \<noteq> 0 then
            let pa = PTE_ADDR (load32 (ram s) pte)
            in if pa = 0 then Some (Inl (Panic ''kfree''))
               else bindro (kfree en (p2v pa) s) (\<lambda>s.
                 deallocuvm_loop en pgdir (a + PGSIZE) oldsz (set_ram (store32 (ram s) pte 0) s))
          else deallocuvm_loop en pgdir (a + PGSIZE) oldsz s)
      else Some (Inr s))"

definition deallocuvm :: "u32 \<Rightarrow> u32 \<Rightarrow> u32 \<Rightarrow> u32 \<Rightarrow> 'a memst_scheme \<Rightarrow> (u32 \<times> 'a memst_scheme) res" where
  "deallocuvm en pgdir oldsz newsz s =
     (if newsz \<ge> oldsz then Inr (oldsz, s)
      else bindr (loopr (deallocuvm_loop en pgdir (PGROUNDUP newsz) oldsz s)) (\<lambda>s. Inr (newsz, s)))"

partial_function (option) allocuvm_loop ::
    "u32 \<Rightarrow> u32 \<Rightarrow> u32 \<Rightarrow> u32 \<Rightarrow> u32 \<Rightarrow> 'a memst_scheme \<Rightarrow> (u32 \<times> 'a memst_scheme) res option" where
  "allocuvm_loop en pgdir oldsz newsz a s =
     (if a < newsz then
        bindro (kalloc s) (\<lambda>(mem, s).
          if mem = 0 then
            bindro (deallocuvm en pgdir newsz oldsz s) (\<lambda>(r, s). Some (Inr (0, s)))
          else let s = set_ram (memset mem 0 PGSIZE (ram s)) s
            in bindro (mappages pgdir a PGSIZE (v2p mem) (PTE_W OR PTE_U) s) (\<lambda>(r, s).
               allocuvm_loop en pgdir oldsz newsz (a + PGSIZE) s))
      else Some (Inr (newsz, s)))"

definition allocuvm :: "u32 \<Rightarrow> u32 \<Rightarrow> u32 \<Rightarrow> u32 \<Rightarrow> 'a memst_scheme \<Rightarrow> (u32 \<times> 'a memst_scheme) res" where
  "allocuvm en pgdir oldsz newsz s =
     (if newsz \<ge> KERNBASE then Inr (0, s)
      else if newsz < oldsz then Inr (oldsz, s)
      else loopr (allocuvm_loop en pgdir oldsz newsz (PGROUNDUP oldsz) s))"

definition freevm :: "u32 \<Rightarrow> u32 \<Rightarrow> 'a memst_scheme \<Rightarrow> 'a memst_scheme res" where
  "freevm en pgdir s =
     (if pgdir = 0 then Inl (Panic ''freevm: no pgdir'')
      else bindr (deallocuvm en pgdir KERNBASE 0 s) (\<lambda>(r, s).
        bindr (forr 0 NPDENTRIES (\<lambda>i s.
          let pde = load32 (ram s) (pgdir + 4 * of_nat i)
          in if pde AND PTE_P \<noteq> 0 then kfree en (p2v (PTE_ADDR pde)) s else Inr s) s) (\<lambda>s.
        kfree en pgdir s)))"

definition clearpteu :: "u32 \<Rightarrow> u32 \<Rightarrow> 'a memst_scheme \<Rightarrow> 'a memst_scheme res" where
  "clearpteu pgdir uva s =
     bindr (walkpgdir pgdir uva False s) (\<lambda>(pte, s).
       if pte = 0 then Inl (Panic ''clearpteu'')
       else Inr (set_ram (store32 (ram s) pte (load32 (ram s) pte AND NOT PTE_U)) s))"

partial_function (option) copyuvm_loop ::
    "u32 \<Rightarrow> u32 \<Rightarrow> u32 \<Rightarrow> u32 \<Rightarrow> u32 \<Rightarrow> 'a memst_scheme \<Rightarrow> (u32 \<times> 'a memst_scheme) res option" where
  "copyuvm_loop en pgdir d sz i s =
     (if i < sz then
        bindro (walkpgdir pgdir i False s) (\<lambda>(pte, s).
          if pte = 0 then Some (Inl (Panic ''copyuvm: pte should exist''))
          else if load32 (ram s) pte AND PTE_P = 0 then Some (Inl (Panic ''copyuvm: page not present''))
          else let pa = PTE_ADDR (load32 (ram s) pte); flags = PTE_FLAGS (load32 (ram s) pte)
            in bindro (kalloc s) (\<lambda>(mem, s).
               if mem = 0 then bindro (freevm en d s) (\<lambda>s. Some (Inr (0, s)))
               else let s = set_ram (memmove mem (p2v pa) PGSIZE (ram s)) s
                 in bindro (mappages d i PGSIZE (v2p mem) flags s) (\<lambda>(r, s).
                    if r < 0 then bindro (freevm en d s) (\<lambda>s. Some (Inr (0, s)))
                    else copyuvm_loop en pgdir d sz (i + PGSIZE) s)))
      else Some (Inr (d, s)))"

definition copyuvm :: "u32 \<Rightarrow> u32 \<Rightarrow> u32 \<Rightarrow> u32 \<Rightarrow> 'a memst_scheme \<Rightarrow> (u32 \<times> 'a memst_scheme) res" where
  "copyuvm en dat pgdir sz s =
     bindr (setupkvm dat s) (\<lambda>(d, s).
       if d = 0 then Inr (0, s)
       else loopr (copyuvm_loop en pgdir d sz 0 s))"

text \<open>
  The processor's own translation of a virtual address, which a load or a store of the kernel
  through a user pointer goes through: an access to an address with no present mapping faults, and
  a fault in kernel mode ends in the panic of \<open>trap\<close>.
\<close>

definition mmu_pte :: "mem \<Rightarrow> u32 \<Rightarrow> u32 \<Rightarrow> u32" where
  "mmu_pte m pgdir va =
     (let pde = load32 m (pgdir + 4 * PDX va)
      in if pde AND PTE_P = 0 then 0 else load32 m (p2v (PTE_ADDR pde) + 4 * PTX va))"

definition uaddr :: "mem \<Rightarrow> u32 \<Rightarrow> u32 \<Rightarrow> u32 res" where
  "uaddr m pgdir va =
     (let pte = mmu_pte m pgdir va
      in if pte AND PTE_P = 0 then Inl (Panic ''trap'')
         else Inr (p2v (PTE_ADDR pte) + (va AND 0xFFF)))"

definition uload8 :: "u32 \<Rightarrow> u32 \<Rightarrow> 'a memst_scheme \<Rightarrow> u8 res" where
  "uload8 pgdir va s = bindr (uaddr (ram s) pgdir va) (\<lambda>a. Inr (ram s a))"

definition ustore8 :: "u32 \<Rightarrow> u32 \<Rightarrow> u8 \<Rightarrow> 'a memst_scheme \<Rightarrow> 'a memst_scheme res" where
  "ustore8 pgdir va b s = bindr (uaddr (ram s) pgdir va) (\<lambda>a. Inr (set_ram ((ram s)(a := b)) s))"

definition uload32 :: "u32 \<Rightarrow> u32 \<Rightarrow> 'a memst_scheme \<Rightarrow> u32 res" where
  "uload32 pgdir va s =
     bindr (uload8 pgdir va s) (\<lambda>b0. bindr (uload8 pgdir (va + 1) s) (\<lambda>b1.
     bindr (uload8 pgdir (va + 2) s) (\<lambda>b2. bindr (uload8 pgdir (va + 3) s) (\<lambda>b3.
     Inr (ucast b0 OR push_bit 8 (ucast b1) OR push_bit 16 (ucast b2) OR push_bit 24 (ucast b3))))))"

definition ustore32 :: "u32 \<Rightarrow> u32 \<Rightarrow> u32 \<Rightarrow> 'a memst_scheme \<Rightarrow> 'a memst_scheme res" where
  "ustore32 pgdir va w s =
     bindr (ustore8 pgdir va (ucast w) s) (\<lambda>s.
     bindr (ustore8 pgdir (va + 1) (ucast (drop_bit 8 w)) s) (\<lambda>s.
     bindr (ustore8 pgdir (va + 2) (ucast (drop_bit 16 w)) s) (\<lambda>s.
     ustore8 pgdir (va + 3) (ucast (drop_bit 24 w)) s)))"

text \<open>\<open>uva2ka\<close> dereferences the result of \<open>walkpgdir\<close> without looking whether it is null. It then reads
  the word at address 0 through the page table that the processor has loaded, \<open>pt\<close>: a word of the running process.\<close>

definition uva2ka :: "u32 \<Rightarrow> u32 \<Rightarrow> u32 \<Rightarrow> 'a memst_scheme \<Rightarrow> u32 res" where
  "uva2ka pt pgdir uva s =
     bindr (walkpgdir pgdir uva False s) (\<lambda>(pte, s).
     bindr (if pte = 0 then uload32 pt 0 s else Inr (load32 (ram s) pte)) (\<lambda>w.
       if w AND PTE_P = 0 then Inr 0
       else if w AND PTE_U = 0 then Inr 0
       else Inr (p2v (PTE_ADDR w))))"

partial_function (option) copyout_loop ::
    "u32 \<Rightarrow> u32 \<Rightarrow> u32 \<Rightarrow> view \<Rightarrow> u32 \<Rightarrow> 'a memst_scheme \<Rightarrow> (int \<times> 'a memst_scheme) res option" where
  "copyout_loop pt pgdir va buf len s =
     (if len > 0 then
        let va0 = PGROUNDDOWN va
        in bindro (uva2ka pt pgdir va0 s) (\<lambda>pa0.
           if pa0 = 0 then Some (Inr (-1, s))
           else let n = PGSIZE - (va - va0);
                    n = (if n > len then len else n);
                    s = set_ram (put_view (pa0 + (va - va0)) buf n (ram s)) s
             in copyout_loop pt pgdir (va0 + PGSIZE) (\<lambda>i. buf (i + unat n)) (len - n) s)
      else Some (Inr (0, s)))"

text \<open>The bytes to copy are a read-only view of kernel memory, which the pages of user memory
  do not overlap.\<close>

definition copyout :: "u32 \<Rightarrow> u32 \<Rightarrow> u32 \<Rightarrow> view \<Rightarrow> u32 \<Rightarrow> 'a memst_scheme \<Rightarrow> (int \<times> 'a memst_scheme) res" where
  "copyout pt pgdir va p len s = loopr (copyout_loop pt pgdir va p len s)"

section \<open>Memory routines change memory only\<close>

text \<open>Whatever they return, the routines above leave the layers that extend the state alone, give back
  the allocator's lock, and keep the interrupt nesting.\<close>

definition mem_only :: "'a memst_scheme \<Rightarrow> 'a memst_scheme \<Rightarrow> bool" where
  "mem_only s s' \<longleftrightarrow> memst.more s' = memst.more s \<and> cur s' = cur s \<and> use_lock s' = use_lock s \<and>
     (\<forall>l. l \<noteq> KmemLock \<longrightarrow> locks s' l = locks s l) \<and>
     (\<forall>c. ncli (cpus s' c) = ncli (cpus s c) \<and> eflags_if (cpus s' c) = eflags_if (cpus s c))"

lemma mem_only_refl [simp]: "mem_only s s"
  by (simp add: mem_only_def)

lemma mem_only_trans: "mem_only s t \<Longrightarrow> mem_only t u \<Longrightarrow> mem_only s u"
  by (simp add: mem_only_def)

lemma mem_only_ram [simp]:
  "mem_only s (set_ram m t) = mem_only s t" "mem_only (set_ram m s) t = mem_only s t"
  "mem_only s (t\<lparr>ram := m\<rparr>) = mem_only s t" "mem_only s (t\<lparr>freelist := f\<rparr>) = mem_only s t"
  by (simp_all add: mem_only_def set_ram_def)

lemma mem_only_cpu_ok: "mem_only s s' \<Longrightarrow> cpu_ok s' = cpu_ok s"
  by (simp add: mem_only_def cpu_ok_def)

lemma kmem_section:
  assumes "cpu_ok s" "acquire KmemLock s = Inr t" "mem_only t u" "cpus u = cpus t" "release KmemLock u = Inr v"
  shows "mem_only s v"
  using assms acquire_Inr[OF assms(2)]
  by (auto simp: mem_only_def release_def popcli_def acq_st_def pushcli_def set_lock_def set_cpu_def
      cpu_ok_def Let_def split: if_splits)

lemma kfree_mem: "kfree en v s = Inr s' \<Longrightarrow> cpu_ok s \<Longrightarrow> mem_only s s'"
proof -
  assume k: "kfree en v s = Inr s'" and c: "cpu_ok s"
  let ?s = "s\<lparr>ram := memset v 1 PGSIZE (ram s)\<rparr>"
  have c': "cpu_ok ?s" using c by simp
  show "mem_only s s'"
  proof (cases "use_lock s")
    case False
    with k show ?thesis by (auto simp: kfree_def Let_def split: if_splits)
  next
    case True
    with k obtain t where t: "acquire KmemLock ?s = Inr t" by (auto simp: kfree_def Let_def split: if_splits)
    have ut: "use_lock t" using True acquire_Inr[OF t] by simp
    let ?u = "t\<lparr>ram := store32 (ram t) v (freelist t), freelist := v\<rparr>"
    have r: "release KmemLock ?u = Inr s'" using k t True ut by (auto simp: kfree_def Let_def split: if_splits)
    have "mem_only ?s s'" by (rule kmem_section[OF c' t _ _ r]) simp_all
    then show ?thesis by (simp add: mem_only_def)
  qed
qed

lemma kalloc_mem: "kalloc s = Inr (r, s') \<Longrightarrow> cpu_ok s \<Longrightarrow> mem_only s s'"
proof -
  assume k: "kalloc s = Inr (r, s')" and c: "cpu_ok s"
  show "mem_only s s'"
  proof (cases "use_lock s")
    case False
    with k show ?thesis by (cases "freelist s = 0") (auto simp: kalloc_def Let_def)
  next
    case True
    with k obtain t where t: "acquire KmemLock s = Inr t" by (auto simp: kalloc_def Let_def)
    have ut: "use_lock t" using True acquire_Inr[OF t] by simp
    let ?u = "if freelist t \<noteq> 0 then t\<lparr>freelist := load32 (ram t) (freelist t)\<rparr> else t"
    have r: "release KmemLock ?u = Inr s'" using k t True ut by (auto simp: kalloc_def Let_def)
    show ?thesis by (rule kmem_section[OF c t _ _ r]) simp_all
  qed
qed

lemma walkpgdir_mem: "walkpgdir d va al s = Inr (r, s') \<Longrightarrow> cpu_ok s \<Longrightarrow> mem_only s s'"
proof -
  assume w: "walkpgdir d va al s = Inr (r, s')" and c: "cpu_ok s"
  show "mem_only s s'"
  proof (cases "load32 (ram s) (d + 4 * PDX va) AND PTE_P = 0 \<and> al")
    case True
    with w obtain g t where t: "kalloc s = Inr (g, t)" by (auto simp: walkpgdir_def Let_def)
    from kalloc_mem[OF t c] True w t show ?thesis by (auto simp: walkpgdir_def Let_def split: if_splits)
  qed (use w in \<open>auto simp: walkpgdir_def Let_def split: if_splits\<close>)
qed

lemma bindro_Some: "bindro r f = Some y \<longleftrightarrow> (case r of Inl e \<Rightarrow> y = Inl e | Inr x \<Rightarrow> f x = Some y)"
  by (cases r) auto

lemma mappages_loop_mem:
  "mappages_loop d a lst pa perm s = Some y \<Longrightarrow> \<forall>r s'. y = Inr (r, s') \<longrightarrow> cpu_ok s \<longrightarrow> mem_only s s'"
proof (induction rule: mappages_loop.raw_induct[rotated, consumes 1, case_names step])
  case (step f d a lst pa perm s y)
  show ?case
  proof (intro allI impI)
    fix r s' assume y: "y = Inr (r, s')" and c: "cpu_ok s"
    from step(2) y obtain pte t where w: "walkpgdir d a True s = Inr (pte, t)"
      by (cases "walkpgdir d a True s") auto
    have st: "mem_only s t" by (rule walkpgdir_mem[OF w c])
    let ?t = "set_ram (store32 (ram t) pte (pa OR perm OR PTE_P)) t"
    have ct: "cpu_ok ?t" using mem_only_cpu_ok[OF st] c by (simp add: set_ram_def)
    consider "pte = 0" "s' = t" | "s' = ?t" | "f d (a + PGSIZE) lst (pa + PGSIZE) perm ?t = Some (Inr (r, s'))"
      using step(2) y w by (auto simp: Let_def split: if_splits)
    then show "mem_only s s'"
    proof cases
      case 3
      from step(1)[OF this] ct have "mem_only ?t s'" by blast
      then show ?thesis using mem_only_trans[OF st] by simp
    qed (use st in simp_all)
  qed
qed

lemma loopr_Inr [simp]: "loopr r = Inr x \<longleftrightarrow> r = Some (Inr x)"
  by (auto simp: loopr_def split: option.splits)

lemma mappages_mem: "mappages d va n pa perm s = Inr (r, s') \<Longrightarrow> cpu_ok s \<Longrightarrow> mem_only s s'"
  using mappages_loop_mem by (fastforce simp: mappages_def)

lemma kmap_all_mem: "kmap_all d ks s = Inr (r, s') \<Longrightarrow> cpu_ok s \<Longrightarrow> mem_only s s'"
proof (induction ks arbitrary: s)
  case (Cons k ks)
  from Cons.prems obtain q t where t: "mappages d (virt k) (phys_end k - phys_start k) (phys_start k) (kperm k) s = Inr (q, t)"
    and n: "(if q < 0 then Inr (0, t) else kmap_all d ks t) = Inr (r, s')" by auto
  have st: "mem_only s t" by (rule mappages_mem[OF t Cons.prems(2)])
  show ?case
  proof (cases "q < 0")
    case False
    then have "mem_only t s'" using n Cons.IH mem_only_cpu_ok[OF st] Cons.prems(2) by auto
    with st show ?thesis by (rule mem_only_trans)
  qed (use n st in simp)
qed simp

lemma setupkvm_mem: "setupkvm dat s = Inr (r, s') \<Longrightarrow> cpu_ok s \<Longrightarrow> mem_only s s'"
proof -
  assume k: "setupkvm dat s = Inr (r, s')" and c: "cpu_ok s"
  then obtain d t where t: "kalloc s = Inr (d, t)" by (auto simp: setupkvm_def)
  have st: "mem_only s t" by (rule kalloc_mem[OF t c])
  let ?t = "set_ram (memset d 0 PGSIZE (ram t)) t"
  have ct: "cpu_ok ?t" using mem_only_cpu_ok[OF st] c by (simp add: set_ram_def)
  show "mem_only s s'"
  proof (cases "d = 0")
    case False
    then have "kmap_all d (kmap dat) ?t = Inr (r, s')" using k t by (auto simp: setupkvm_def Let_def split: if_splits)
    from kmap_all_mem[OF this ct] have "mem_only ?t s'" .
    then show ?thesis using mem_only_trans[OF st] by simp
  qed (use k t st in \<open>simp add: setupkvm_def\<close>)
qed

lemma deallocuvm_loop_mem:
  "deallocuvm_loop en d a oldsz s = Some y \<Longrightarrow> \<forall>s'. y = Inr s' \<longrightarrow> cpu_ok s \<longrightarrow> mem_only s s'"
proof (induction rule: deallocuvm_loop.raw_induct[rotated, consumes 1, case_names step])
  case (step f en d a oldsz s y)
  show ?case
  proof (intro allI impI)
    fix s' assume y: "y = Inr s'" and c: "cpu_ok s"
    show "mem_only s s'"
    proof (cases "a < oldsz")
      case False
      then show ?thesis using step(2) y by simp
    next
      case True
      with step(2) y obtain pte t where w: "walkpgdir d a False s = Inr (pte, t)"
        by (cases "walkpgdir d a False s") auto
      have st: "mem_only s t" by (rule walkpgdir_mem[OF w c])
      have ct: "cpu_ok t" using mem_only_cpu_ok[OF st] c by simp
      let ?k = "kfree en (p2v (PTE_ADDR (load32 (ram t) pte))) t"
      consider "f en d (a + (NPTENTRIES - 1) * PGSIZE + PGSIZE) oldsz t = Some (Inr s')"
        | "f en d (a + PGSIZE) oldsz t = Some (Inr s')"
        | u where "?k = Inr u" "f en d (a + PGSIZE) oldsz (set_ram (store32 (ram u) pte 0) u) = Some (Inr s')"
        using step(2) y w True by (auto simp: Let_def bindro_Some split: if_splits sum.splits)
      then show ?thesis
      proof cases
        case 1
        from step(1)[OF this] ct have "mem_only t s'" by blast
        then show ?thesis by (rule mem_only_trans[OF st])
      next
        case 2
        from step(1)[OF this] ct have "mem_only t s'" by blast
        then show ?thesis by (rule mem_only_trans[OF st])
      next
        case (3 u)
        have tu: "mem_only t u" by (rule kfree_mem[OF 3(1) ct])
        have cu: "cpu_ok (set_ram (store32 (ram u) pte 0) u)"
          using mem_only_cpu_ok[OF tu] ct by (simp add: set_ram_def)
        from step(1)[OF 3(2)] cu have "mem_only u s'" by simp
        then show ?thesis using mem_only_trans[OF st mem_only_trans[OF tu]] by blast
      qed
    qed
  qed
qed

lemma deallocuvm_mem: "deallocuvm en d m n s = Inr (r, s') \<Longrightarrow> cpu_ok s \<Longrightarrow> mem_only s s'"
  using deallocuvm_loop_mem by (fastforce simp: deallocuvm_def split: if_splits)

lemma forr_mem:
  assumes "\<And>i t t'. f i t = Inr t' \<Longrightarrow> cpu_ok t \<Longrightarrow> mem_only t t'"
  shows "forr i n f s = Inr s' \<Longrightarrow> cpu_ok s \<Longrightarrow> mem_only s s'"
proof (induction n arbitrary: i s)
  case (Suc n)
  then obtain t where t: "f i s = Inr t" "forr (Suc i) n f t = Inr s'" by auto
  have st: "mem_only s t" by (rule assms[OF t(1) Suc.prems(2)])
  from Suc.IH[OF t(2)] mem_only_cpu_ok[OF st] Suc.prems(2) show ?case by (blast intro: mem_only_trans[OF st])
qed simp

lemma freevm_mem:
  assumes f: "freevm en d s = Inr s'" and c: "cpu_ok s"
  shows "mem_only s s'"
proof -
  from f obtain r t u where t: "deallocuvm en d KERNBASE 0 s = Inr (r, t)"
    and u: "forr 0 NPDENTRIES (\<lambda>i s. let pde = load32 (ram s) (d + 4 * of_nat i)
        in if pde AND PTE_P \<noteq> 0 then kfree en (p2v (PTE_ADDR pde)) s else Inr s) t = Inr u"
    and k: "kfree en d u = Inr s'"
    by (auto simp: freevm_def split: if_splits)
  have st: "mem_only s t" by (rule deallocuvm_mem[OF t c])
  have ct: "cpu_ok t" using mem_only_cpu_ok[OF st] c by simp
  have tu: "mem_only t u"
    by (rule forr_mem[OF _ u ct]) (auto simp: Let_def kfree_mem split: if_splits)
  have "mem_only u s'" using kfree_mem[OF k] mem_only_cpu_ok[OF tu] ct by simp
  then show ?thesis using mem_only_trans[OF st mem_only_trans[OF tu]] by blast
qed

end
