(* ===== verification/Xv6_Lottery.thy ===== *)
theory Xv6_Lottery
  imports Xv6_Vm
begin

unbundle bit_operations_syntax

text \<open>
  The process table (proc.h), the FIFO queue of runnable processes and its lottery (the first part of
  proc.c). Processes are the 64 slots of the table and a \<open>struct proc *\<close> is a slot number or null.
  The scheduling policy the kernel is compiled for (the Makefile's \<open>SCHEDFLAG\<close>) is the argument
  \<open>cfg\<close>. Integers of the C code are 32-bit words, read with \<^const>\<open>sint\<close> where it compares them.
\<close>

section \<open>Definitions\<close>

definition NPROC :: nat where "NPROC = 64"
definition NCPU :: nat where "NCPU = 8"
definition NOFILE :: nat where "NOFILE = 16"
definition SIGNUM :: nat where "SIGNUM = 32"
definition KSTACKSIZE :: u32 where "KSTACKSIZE = 4096"
definition EXE_TICKETS :: u32 where "EXE_TICKETS = 10"
definition FIFO_DIFFERECE :: u32 where "FIFO_DIFFERECE = 100"

datatype schedflag = DEFAULT | FRR | FCFS | PRS

datatype procstate = UNUSED | EMBRYO | SLEEPING | RUNNABLE | RUNNING | ZOMBIE

text \<open>The addresses the kernel sleeps on.\<close>

datatype chan = ChanProc nat | ChanTicks | ChanLog | ChanBuf nat | ChanInode nat
  | ChanNread u32 | ChanNwrite u32 | ChanInput

record proc =
  sz :: u32
  pgdir :: u32
  kstack :: u32
  state :: procstate
  pid :: u32
  parent :: "nat option"
  tf :: u32
  backuptf :: u32
  ctxt :: u32                        \<comment> \<open>\<open>context\<close>\<close>
  chan :: "chan option"
  killed :: bool
  ofile :: "nat \<Rightarrow> nat option"
  cwd :: "nat option"
  pname :: "u8 list"                 \<comment> \<open>\<open>name\<close>\<close>
  pending :: u32
  insignal :: bool
  signal_handlers :: "nat \<Rightarrow> u32"
  ctime :: u32
  ttime :: u32
  stime :: u32
  retime :: u32
  rutime :: u32
  runQuanta :: u32
  priority :: u32
  tickets :: u32
  firstTicketNum :: u32
  rrnext :: "nat option"
  rrprev :: "nat option"

record perf =
  perf_ctime :: u32
  perf_ttime :: u32
  perf_stime :: u32
  perf_retime :: u32
  perf_rutime :: u32

text \<open>The per-processor fields of \<open>struct cpu\<close> that process switching writes.\<close>

record cpuctx =
  cproc :: "nat option"              \<comment> \<open>\<open>proc\<close>\<close>
  gdt :: "nat \<Rightarrow> segdesc"
  ss0 :: u16
  esp0 :: u32
  cr3 :: u32
  ts_addr :: u32                     \<comment> \<open>where the task state segment lies\<close>
  cpu_addr :: u32                    \<comment> \<open>where the \<open>cpu\<close> variable lies\<close>

record procst = memst +
  ptable :: "nat \<Rightarrow> proc"
  initproc :: "nat option"
  nextpid :: u32
  rr_first :: "nat option"
  rr_last :: "nat option"
  totalTickets :: u32
  xs_x :: u32
  xs_y :: u32
  xs_z :: u32
  xs_w :: u32
  ticks :: u32
  kpgdir :: u32
  cctx :: "nat \<Rightarrow> cpuctx"

abbreviation myproc :: "'a procst_scheme \<Rightarrow> nat option" where
  "myproc s \<equiv> cproc (cctx s (cur s))"

definition upd_proc :: "nat \<Rightarrow> (proc \<Rightarrow> proc) \<Rightarrow> 'a procst_scheme \<Rightarrow> 'a procst_scheme" where
  "upd_proc p f s = s\<lparr>ptable := (ptable s)(p := f (ptable s p))\<rparr>"

definition upd_cctx :: "(cpuctx \<Rightarrow> cpuctx) \<Rightarrow> 'a procst_scheme \<Rightarrow> 'a procst_scheme" where
  "upd_cctx f s = s\<lparr>cctx := (cctx s)(cur s := f (cctx s (cur s)))\<rparr>"

text \<open>Dereferencing \<open>proc\<close>, which is null when the processor runs its scheduler; it then runs on the page
  table of the kernel, which maps nothing at address 0, so this is a fault.\<close>

definition theproc :: "'a procst_scheme \<Rightarrow> nat res" where
  "theproc s = (case myproc s of None \<Rightarrow> Inl (Panic ''trap'') | Some p \<Rightarrow> Inr p)"

subsection \<open>Random numbers\<close>

definition xorshift128 :: "'a procst_scheme \<Rightarrow> u32 \<times> 'a procst_scheme" where
  "xorshift128 s =
     (let t = xs_x s XOR push_bit 11 (xs_x s);
          s = s\<lparr>xs_x := xs_y s\<rparr>; s = s\<lparr>xs_y := xs_z s\<rparr>; s = s\<lparr>xs_z := xs_w s\<rparr>;
          s = s\<lparr>xs_w := xs_w s XOR signed_drop_bit 19 (xs_w s) XOR t XOR signed_drop_bit 8 t\<rparr>
      in (xs_w s, s))"

text \<open>C's remainder of signed integers, which has the sign of the dividend.\<close>

definition crem :: "u32 \<Rightarrow> u32 \<Rightarrow> u32" where
  "crem a b = word_of_int (sgn (sint a) * (\<bar>sint a\<bar> mod \<bar>sint b\<bar>))"

subsection \<open>The queue of runnable processes\<close>

partial_function (option) printRRQueue_loop :: "(nat \<Rightarrow> proc) \<Rightarrow> nat option \<Rightarrow> unit option" where
  "printRRQueue_loop pt p = (case p of None \<Rightarrow> Some () | Some q \<Rightarrow> printRRQueue_loop pt (rrnext (pt q)))"

definition printRRQueue :: "'a procst_scheme \<Rightarrow> 'a procst_scheme res" where
  "printRRQueue s =
     bindr (acquire RrqueueLock s) (\<lambda>s.
     case printRRQueue_loop (ptable s) (rr_first s) of
       None \<Rightarrow> Inl (Blocked ''printRRQueue'')
     | Some _ \<Rightarrow> release RrqueueLock s)"

definition rr_push :: "nat \<Rightarrow> 'a procst_scheme \<Rightarrow> 'a procst_scheme" where
  "rr_push p s =
     (let s = (if rr_first s = None then s\<lparr>rr_first := Some p\<rparr> else s);
          s = (case rr_last s of
                 None \<Rightarrow> s
               | Some l \<Rightarrow> let s = upd_proc l (rrnext_update (\<lambda>_. Some p)) s
                   in upd_proc p (rrprev_update (\<lambda>_. rr_last s)) s)
      in s\<lparr>rr_last := Some p\<rparr>)"

definition pushProcToRRqueue :: "nat \<Rightarrow> 'a procst_scheme \<Rightarrow> 'a procst_scheme res" where
  "pushProcToRRqueue p s =
     bindr (acquire RrqueueLock s) (\<lambda>s. release RrqueueLock (rr_push p s))"

definition removeProcFromRRqueue :: "nat \<Rightarrow> 'a procst_scheme \<Rightarrow> 'a procst_scheme" where
  "removeProcFromRRqueue p s =
     (let s = (case rrprev (ptable s p) of None \<Rightarrow> s
               | Some q \<Rightarrow> upd_proc q (rrnext_update (\<lambda>_. rrnext (ptable s p))) s);
          s = (case rrnext (ptable s p) of None \<Rightarrow> s
               | Some q \<Rightarrow> upd_proc q (rrprev_update (\<lambda>_. rrprev (ptable s p))) s);
          s = (if rr_first s = Some p then s\<lparr>rr_first := rrnext (ptable s p)\<rparr> else s);
          s = (if rr_last s = Some p then s\<lparr>rr_last := rrprev (ptable s p)\<rparr> else s)
      in upd_proc p (\<lambda>q. q\<lparr>rrnext := None, rrprev := None\<rparr>) s)"

definition holds_ticket :: "u32 \<Rightarrow> proc \<Rightarrow> bool" where
  "holds_ticket t p \<longleftrightarrow> sint (firstTicketNum p) \<le> sint t \<and> sint t \<le> sint (tickets p + firstTicketNum p - 1)"

partial_function (option) pick_loop :: "(nat \<Rightarrow> proc) \<Rightarrow> u32 \<Rightarrow> nat option \<Rightarrow> nat option option" where
  "pick_loop pt t p =
     (case p of None \<Rightarrow> Some None
      | Some q \<Rightarrow> if holds_ticket t (pt q) then Some (Some q) else pick_loop pt t (rrnext (pt q)))"

definition pickProcess :: "'a procst_scheme \<Rightarrow> (nat option \<times> 'a procst_scheme) res" where
  "pickProcess s =
     bindr (acquire RrqueueLock s) (\<lambda>s.
     bindr (if sint (totalTickets s) > 0
            then let (r, s) = xorshift128 s
              in case pick_loop (ptable s) (crem r (totalTickets s)) (rr_first s) of
                   None \<Rightarrow> Inl (Blocked ''pickProcess'')
                 | Some sel \<Rightarrow> Inr (sel, s)
            else Inr (None, s)) (\<lambda>(sel, s).
     bindr (release RrqueueLock s) (\<lambda>s. Inr (sel, s))))"

definition give_tickets :: "nat \<Rightarrow> u32 \<Rightarrow> 'a procst_scheme \<Rightarrow> 'a procst_scheme" where
  "give_tickets p n s =
     (let s = upd_proc p (\<lambda>q. q\<lparr>firstTicketNum := totalTickets s + 1, tickets := n\<rparr>) s
      in s\<lparr>totalTickets := totalTickets s + n\<rparr>)"

text \<open>The loop of the FRR and FCFS policies, up to the process at the head of the queue.\<close>

partial_function (option) deliver_fifo_loop ::
    "nat option \<Rightarrow> 'a procst_scheme \<Rightarrow> (nat option \<times> 'a procst_scheme) res option" where
  "deliver_fifo_loop p s =
     (if p = rr_first s then Some (Inr (p, s))
      else case p of None \<Rightarrow> Some (Inl (Panic ''trap''))
      | Some q \<Rightarrow>
          if state (ptable s q) \<noteq> RUNNABLE
          then deliver_fifo_loop (rrprev (ptable s q)) (removeProcFromRRqueue q s)
          else let s = give_tickets q EXE_TICKETS s
            in deliver_fifo_loop (rrprev (ptable s q)) s)"

definition deliver_fifo :: "'a procst_scheme \<Rightarrow> 'a procst_scheme res" where
  "deliver_fifo s =
     bindr (loopr (deliver_fifo_loop (rr_last s) s)) (\<lambda>(p, s).
     case p of None \<Rightarrow> Inl (Panic ''trap'')
     | Some q \<Rightarrow> Inr (give_tickets q (EXE_TICKETS + FIFO_DIFFERECE * totalTickets s) s))"

text \<open>The two loops of the PRS policy: the first removes what cannot run and counts the processes of
  the lower two priorities, the second hands out the tickets.\<close>

partial_function (option) deliver_count_loop ::
    "nat option \<Rightarrow> u32 \<Rightarrow> u32 \<Rightarrow> 'a procst_scheme \<Rightarrow> ((u32 \<times> u32) \<times> 'a procst_scheme) option" where
  "deliver_count_loop p n1 n2 s =
     (case p of None \<Rightarrow> Some ((n1, n2), s)
      | Some q \<Rightarrow>
          if state (ptable s q) \<noteq> RUNNABLE
          then deliver_count_loop (rrprev (ptable s q)) n1 n2 (removeProcFromRRqueue q s)
          else if sint (priority (ptable s q)) \<le> 0
          then deliver_count_loop (rrprev (ptable s q)) (n1 + 1) n2 s
          else if sint (priority (ptable s q)) = 1
          then deliver_count_loop (rrprev (ptable s q)) n1 (n2 + 1) s
          else deliver_count_loop (rrprev (ptable s q)) n1 n2 s)"

definition prs_tickets :: "u32 \<Rightarrow> u32 \<Rightarrow> proc \<Rightarrow> u32" where
  "prs_tickets n1 n2 p =
     (if sint (priority p) \<le> 0 then EXE_TICKETS
      else if sint (priority p) = 1 then EXE_TICKETS + EXE_TICKETS * n1 * FIFO_DIFFERECE
      else EXE_TICKETS + EXE_TICKETS * (n1 + n2 * FIFO_DIFFERECE) * FIFO_DIFFERECE)"

partial_function (option) deliver_prs_loop ::
    "nat option \<Rightarrow> u32 \<Rightarrow> u32 \<Rightarrow> 'a procst_scheme \<Rightarrow> 'a procst_scheme option" where
  "deliver_prs_loop p n1 n2 s =
     (case p of None \<Rightarrow> Some s
      | Some q \<Rightarrow> let s = give_tickets q (prs_tickets n1 n2 (ptable s q)) s
          in deliver_prs_loop (rrprev (ptable s q)) n1 n2 s)"

definition deliver_prs :: "'a procst_scheme \<Rightarrow> 'a procst_scheme res" where
  "deliver_prs s =
     (case deliver_count_loop (rr_last s) 0 0 s of
        None \<Rightarrow> Inl (Blocked ''deliver'')
      | Some ((n1, n2), s) \<Rightarrow>
          (case deliver_prs_loop (rr_last s) n1 n2 s of
             None \<Rightarrow> Inl (Blocked ''deliver'')
           | Some s \<Rightarrow> Inr s))"

definition deliverTicketsToFIFOProcs :: "schedflag \<Rightarrow> 'a procst_scheme \<Rightarrow> 'a procst_scheme res" where
  "deliverTicketsToFIFOProcs cfg s =
     bindr (acquire RrqueueLock (s\<lparr>totalTickets := 0\<rparr>)) (\<lambda>s.
     if rr_last s = None then release RrqueueLock s
     else bindr (case cfg of DEFAULT \<Rightarrow> Inr s | FRR \<Rightarrow> deliver_fifo s | FCFS \<Rightarrow> deliver_fifo s
                 | PRS \<Rightarrow> deliver_prs s) (\<lambda>s.
       bindr (release RrqueueLock s) printRRQueue))"

section \<open>The queue as a list\<close>

text \<open>A path through a field of links, and the doubly linked queue that holds the slots \<open>qs\<close>.\<close>

fun seg :: "(nat \<Rightarrow> nat option) \<Rightarrow> nat option \<Rightarrow> nat list \<Rightarrow> nat option \<Rightarrow> bool" where
  "seg f a [] b \<longleftrightarrow> a = b"
| "seg f a (x # xs) b \<longleftrightarrow> a = Some x \<and> seg f (f x) xs b"

lemma seg_append: "seg f a (xs @ ys) b \<longleftrightarrow> (\<exists>c. seg f a xs c \<and> seg f c ys b)"
  by (induction xs arbitrary: a) auto

lemma seg_upd [simp]: "p \<notin> set xs \<Longrightarrow> seg (f(p := v)) a xs b = seg f a xs b"
  by (induction xs arbitrary: a) auto

lemma seg_Nil_iff: "seg f None xs None \<longleftrightarrow> xs = []"
  by (cases xs) auto

lemma seg_unique: "seg f a xs None \<Longrightarrow> seg f a ys None \<Longrightarrow> xs = ys"
proof (induction xs arbitrary: a ys)
  case Nil
  then show ?case by (cases ys) auto
next
  case (Cons x xs)
  then show ?case by (cases ys) auto
qed

definition dll :: "(nat \<Rightarrow> nat option) \<Rightarrow> (nat \<Rightarrow> nat option) \<Rightarrow> nat option \<Rightarrow> nat option \<Rightarrow> nat list \<Rightarrow> bool" where
  "dll nx pv a b qs \<longleftrightarrow> distinct qs \<and> seg nx a qs None \<and> seg pv b (rev qs) None \<and>
     (\<forall>p. p \<notin> set qs \<longrightarrow> nx p = None \<and> pv p = None)"

lemma dll_empty_iff: "dll nx pv a b qs \<Longrightarrow> (a = None \<longleftrightarrow> qs = []) \<and> (b = None \<longleftrightarrow> qs = [])"
  by (cases qs; cases "rev qs") (auto simp: dll_def)

lemma dll_last: "dll nx pv a b (qs @ [l]) \<Longrightarrow> b = Some l \<and> nx l = None"
  by (auto simp: dll_def seg_append)

lemma dll_push_empty: "dll nx pv a b [] \<Longrightarrow> dll nx pv (Some p) (Some p) [p]"
  by (auto simp: dll_def)

lemma dll_push:
  assumes "dll nx pv a b qs" "p \<notin> set qs" "b = Some l"
  shows "dll (nx(l := Some p)) (pv(p := Some l)) a (Some p) (qs @ [p])"
proof -
  from assms obtain ks where qs: "qs = ks @ [l]"
    by (cases qs rule: rev_cases) (auto simp: dll_def)
  with assms show ?thesis by (auto simp: dll_def seg_append)
qed

lemma dll_prev: "dll nx pv a b (xs @ p # ys) \<Longrightarrow> pv p = (if xs = [] then None else Some (last xs))"
  by (cases xs rule: rev_cases) (auto simp: dll_def seg_append)

lemma dll_next: "dll nx pv a b (xs @ p # ys) \<Longrightarrow> nx p = (if ys = [] then None else Some (hd ys))"
  by (cases ys) (auto simp: dll_def seg_append)

lemma dll_first: "dll nx pv a b (xs @ p # ys) \<Longrightarrow> a = Some p \<longleftrightarrow> xs = []"
  by (cases xs) (auto simp: dll_def seg_append)

lemma dll_last_iff: "dll nx pv a b (xs @ p # ys) \<Longrightarrow> b = Some p \<longleftrightarrow> ys = []"
  by (cases ys rule: rev_cases) (auto simp: dll_def seg_append)

text \<open>Unlinking an inner node, a node at one end, and the only node.\<close>

lemma dll_remove:
  assumes d: "dll nx pv a b (xs @ p # ys)"
  shows "dll ((case pv p of None \<Rightarrow> nx | Some q \<Rightarrow> nx(q := nx p))(p := None))
             ((case nx p of None \<Rightarrow> pv | Some q \<Rightarrow> pv(q := pv p))(p := None))
             (if a = Some p then nx p else a) (if b = Some p then pv p else b) (xs @ ys)"
proof -
  have n: "seg nx a xs (Some p)" "seg nx (nx p) ys None"
    and v: "seg pv b (rev ys) (Some p)" "seg pv (pv p) (rev xs) None"
    and dist: "distinct (xs @ p # ys)" and out: "\<And>q. q \<notin> set (xs @ p # ys) \<Longrightarrow> nx q = None \<and> pv q = None"
    using d by (auto simp: dll_def seg_append)
  have 1: "seg ((case pv p of None \<Rightarrow> nx | Some q \<Rightarrow> nx(q := nx p))(p := None))
      (if a = Some p then nx p else a) (xs @ ys) None"
    using n dist dll_prev[OF d] dll_first[OF d]
    by (cases xs rule: rev_cases) (auto simp: seg_append)
  have 2: "seg ((case nx p of None \<Rightarrow> pv | Some q \<Rightarrow> pv(q := pv p))(p := None))
      (if b = Some p then pv p else b) (rev (xs @ ys)) None"
    using v dist dll_next[OF d] dll_last_iff[OF d]
    by (cases ys) (auto simp: seg_append)
  have 3: "((case pv p of None \<Rightarrow> nx | Some q \<Rightarrow> nx(q := nx p))(p := None)) q = None \<and>
      ((case nx p of None \<Rightarrow> pv | Some q \<Rightarrow> pv(q := pv p))(p := None)) q = None"
    if q: "q \<notin> set (xs @ ys)" for q
  proof -
    have "pv p \<noteq> Some q" using q dll_prev[OF d] by (auto split: if_splits)
    moreover have "nx p \<noteq> Some q" using q dll_next[OF d] by (auto split: if_splits)
    ultimately show ?thesis using q out[of q] by (auto split: option.splits)
  qed
  show ?thesis using 1 2 3 dist unfolding dll_def by simp
qed

definition nx :: "'a procst_scheme \<Rightarrow> nat \<Rightarrow> nat option" where
  "nx s p = rrnext (ptable s p)"

definition pv :: "'a procst_scheme \<Rightarrow> nat \<Rightarrow> nat option" where
  "pv s p = rrprev (ptable s p)"

definition rrq :: "'a procst_scheme \<Rightarrow> nat list \<Rightarrow> bool" where
  "rrq s qs \<longleftrightarrow> dll (nx s) (pv s) (rr_first s) (rr_last s) qs \<and> set qs \<subseteq> {..<NPROC}"

lemma rrq_cong:
  assumes "nx s' = nx s" "pv s' = pv s" "rr_first s' = rr_first s" "rr_last s' = rr_last s"
  shows "rrq s' qs = rrq s qs"
  using assms by (simp add: rrq_def)

lemma rrq_unique: "rrq s qs \<Longrightarrow> rrq s rs \<Longrightarrow> qs = rs"
  by (auto simp: rrq_def dll_def dest: seg_unique)

lemma upd_proc_sel [simp]:
  "ptable (upd_proc p f s) = (ptable s)(p := f (ptable s p))"
  "rr_first (upd_proc p f s) = rr_first s" "rr_last (upd_proc p f s) = rr_last s"
  "totalTickets (upd_proc p f s) = totalTickets s" "cctx (upd_proc p f s) = cctx s"
  "cur (upd_proc p f s) = cur s" "locks (upd_proc p f s) = locks s" "cpus (upd_proc p f s) = cpus s"
  "initproc (upd_proc p f s) = initproc s" "ticks (upd_proc p f s) = ticks s"
  "nextpid (upd_proc p f s) = nextpid s" "kpgdir (upd_proc p f s) = kpgdir s"
  "ram (upd_proc p f s) = ram s" "freelist (upd_proc p f s) = freelist s"
  "use_lock (upd_proc p f s) = use_lock s" "procst.more (upd_proc p f s) = procst.more s"
  by (simp_all add: upd_proc_def)

lemma rr_push_links:
  assumes "rrq s qs" "p \<notin> set qs"
  shows "nx (rr_push p s) = (case rr_last s of None \<Rightarrow> nx s | Some l \<Rightarrow> (nx s)(l := Some p))"
    and "pv (rr_push p s) = (case rr_last s of None \<Rightarrow> pv s | Some l \<Rightarrow> (pv s)(p := Some l))"
    and "rr_first (rr_push p s) = (case rr_last s of None \<Rightarrow> Some p | Some l \<Rightarrow> rr_first s)"
    and "rr_last (rr_push p s) = Some p"
proof -
  have e: "rr_first s = None \<longleftrightarrow> rr_last s = None"
    using assms(1) dll_empty_iff by (fastforce simp: rrq_def)
  show "nx (rr_push p s) = (case rr_last s of None \<Rightarrow> nx s | Some l \<Rightarrow> (nx s)(l := Some p))"
    by (auto simp: rr_push_def Let_def nx_def fun_eq_iff split: option.splits)
  show "pv (rr_push p s) = (case rr_last s of None \<Rightarrow> pv s | Some l \<Rightarrow> (pv s)(p := Some l))"
    by (auto simp: rr_push_def Let_def pv_def fun_eq_iff split: option.splits)
  show "rr_first (rr_push p s) = (case rr_last s of None \<Rightarrow> Some p | Some l \<Rightarrow> rr_first s)"
    using e by (auto simp: rr_push_def Let_def split: option.splits)
  show "rr_last (rr_push p s) = Some p" by (simp add: rr_push_def Let_def)
qed

lemma rr_push_rrq:
  assumes q: "rrq s qs" and p: "p \<notin> set qs" "p < NPROC"
  shows "rrq (rr_push p s) (qs @ [p])"
proof (cases "rr_last s")
  case None
  with q have "qs = []" using dll_empty_iff by (fastforce simp: rrq_def)
  with q None p show ?thesis
    using dll_push_empty[of "nx s" "pv s" "rr_first s" None p]
    by (auto simp: rrq_def rr_push_links[OF q p(1)])
next
  case (Some l)
  with q p show ?thesis
    using dll_push[of "nx s" "pv s" "rr_first s" "rr_last s" qs p l]
    by (auto simp: rrq_def rr_push_links[OF q p(1)])
qed

lemma remove_links:
  assumes "rrq s (xs @ p # ys)"
  shows "nx (removeProcFromRRqueue p s) =
      (case pv s p of None \<Rightarrow> nx s | Some q \<Rightarrow> (nx s)(q := nx s p))(p := None)"
    and "pv (removeProcFromRRqueue p s) =
      (case nx s p of None \<Rightarrow> pv s | Some q \<Rightarrow> (pv s)(q := pv s p))(p := None)"
    and "rr_first (removeProcFromRRqueue p s) = (if rr_first s = Some p then nx s p else rr_first s)"
    and "rr_last (removeProcFromRRqueue p s) = (if rr_last s = Some p then pv s p else rr_last s)"
proof -
  have d: "dll (nx s) (pv s) (rr_first s) (rr_last s) (xs @ p # ys)" using assms by (simp add: rrq_def)
  then have dist: "distinct (xs @ p # ys)" by (simp add: dll_def)
  have np: "pv s p \<noteq> Some p" using dll_prev[OF d] dist by (auto split: if_splits)
  have nn: "nx s p \<noteq> Some p" using dll_next[OF d] dist by (auto split: if_splits)
  show "nx (removeProcFromRRqueue p s) =
      (case pv s p of None \<Rightarrow> nx s | Some q \<Rightarrow> (nx s)(q := nx s p))(p := None)"
    and "pv (removeProcFromRRqueue p s) =
      (case nx s p of None \<Rightarrow> pv s | Some q \<Rightarrow> (pv s)(q := pv s p))(p := None)"
    and "rr_first (removeProcFromRRqueue p s) = (if rr_first s = Some p then nx s p else rr_first s)"
    and "rr_last (removeProcFromRRqueue p s) = (if rr_last s = Some p then pv s p else rr_last s)"
    using np nn
    by (auto simp: removeProcFromRRqueue_def Let_def nx_def pv_def fun_eq_iff split: option.splits)
qed

lemma remove_rrq:
  assumes "rrq s (xs @ p # ys)"
  shows "rrq (removeProcFromRRqueue p s) (xs @ ys)"
  using assms dll_remove[of "nx s" "pv s" "rr_first s" "rr_last s" xs p ys]
  by (auto simp: rrq_def remove_links[OF assms])

section \<open>What queue operations leave alone\<close>

text \<open>\<open>core\<close> forgets the fields of a process that the queue and the lottery own; \<open>qframe\<close> says that
  nothing else of the state has changed.\<close>

definition core :: "proc \<Rightarrow> proc" where
  "core p = p\<lparr>tickets := 0, firstTicketNum := 0, rrnext := None, rrprev := None\<rparr>"

definition qframe :: "'a procst_scheme \<Rightarrow> 'a procst_scheme \<Rightarrow> bool" where
  "qframe s s' \<longleftrightarrow> (\<forall>p. core (ptable s' p) = core (ptable s p)) \<and>
     s' = s\<lparr>ptable := ptable s', rr_first := rr_first s', rr_last := rr_last s', totalTickets := totalTickets s'\<rparr>"

lemma qframe_refl [simp]: "qframe s s"
  by (simp add: qframe_def)

lemma qframe_trans: "qframe s t \<Longrightarrow> qframe t u \<Longrightarrow> qframe s u"
  by (cases s; cases t; cases u) (simp add: qframe_def)

lemma core_sel:
  assumes "core p = core q"
  shows "state p = state q" "priority p = priority q" "pid p = pid q" "chan p = chan q"
    "killed p = killed q" "pgdir p = pgdir q" "kstack p = kstack q" "parent p = parent q"
  using assms by (auto simp: core_def dest: arg_cong[of _ _ state] arg_cong[of _ _ priority]
      arg_cong[of _ _ pid] arg_cong[of _ _ chan] arg_cong[of _ _ killed] arg_cong[of _ _ pgdir]
      arg_cong[of _ _ kstack] arg_cong[of _ _ parent])

lemma qframe_sel:
  assumes "qframe s s'"
  shows "state (ptable s' p) = state (ptable s p)" "priority (ptable s' p) = priority (ptable s p)"
    "cctx s' = cctx s" "locks s' = locks s" "cpus s' = cpus s" "cur s' = cur s"
    "xs_w s' = xs_w s" "xs_x s' = xs_x s"
proof -
  have c: "core (ptable s' p) = core (ptable s p)"
    and e: "s' = s\<lparr>ptable := ptable s', rr_first := rr_first s', rr_last := rr_last s',
      totalTickets := totalTickets s'\<rparr>"
    using assms by (auto simp: qframe_def)
  show "state (ptable s' p) = state (ptable s p)" "priority (ptable s' p) = priority (ptable s p)"
    using core_sel[OF c] by auto
  show "cctx s' = cctx s" "locks s' = locks s" "cpus s' = cpus s" "cur s' = cur s"
    "xs_w s' = xs_w s" "xs_x s' = xs_x s"
    by (subst e, simp)+
qed

lemma rr_push_qframe: "qframe s (rr_push p s)"
  by (auto simp: qframe_def rr_push_def upd_proc_def core_def Let_def split: option.splits)

lemma remove_qframe: "qframe s (removeProcFromRRqueue p s)"
  by (auto simp: qframe_def removeProcFromRRqueue_def upd_proc_def core_def Let_def split: option.splits)

lemma give_tickets_qframe: "qframe s (give_tickets p n s)"
  by (auto simp: qframe_def give_tickets_def upd_proc_def core_def Let_def)

section \<open>Handing out tickets\<close>

text \<open>Processes served in the order \<open>ps\<close> hold consecutive ticket numbers from \<open>a + 1\<close> to \<open>b\<close>.\<close>

fun ticketed :: "(nat \<Rightarrow> proc) \<Rightarrow> nat list \<Rightarrow> nat \<Rightarrow> nat \<Rightarrow> bool" where
  "ticketed pt [] a b \<longleftrightarrow> a = b"
| "ticketed pt (p # ps) a b \<longleftrightarrow> unat (firstTicketNum (pt p)) = a + 1 \<and> 0 < unat (tickets (pt p)) \<and>
     ticketed pt ps (a + unat (tickets (pt p))) b"

lemma ticketed_append:
  "ticketed pt (ps @ qs) a b \<longleftrightarrow> (\<exists>c. ticketed pt ps a c \<and> ticketed pt qs c b)"
  by (induction ps arbitrary: a) auto

lemma ticketed_cong:
  assumes "\<And>p. p \<in> set ps \<Longrightarrow> tickets (pt' p) = tickets (pt p) \<and> firstTicketNum (pt' p) = firstTicketNum (pt p)"
  shows "ticketed pt' ps a b = ticketed pt ps a b"
  using assms by (induction ps arbitrary: a) auto

lemma ticketed_le: "ticketed pt ps a b \<Longrightarrow> a \<le> b"
  by (induction ps arbitrary: a) fastforce+

abbreviation ready :: "'a procst_scheme \<Rightarrow> nat \<Rightarrow> bool" where
  "ready s p \<equiv> state (ptable s p) = RUNNABLE"

lemma give_tickets_sel [simp]:
  "nx (give_tickets p n s) = nx s" "pv (give_tickets p n s) = pv s"
  "rr_first (give_tickets p n s) = rr_first s" "rr_last (give_tickets p n s) = rr_last s"
  "totalTickets (give_tickets p n s) = totalTickets s + n"
  "tickets (ptable (give_tickets p n s) q) = (if q = p then n else tickets (ptable s q))"
  "firstTicketNum (ptable (give_tickets p n s) q) =
     (if q = p then totalTickets s + 1 else firstTicketNum (ptable s q))"
  by (auto simp: give_tickets_def Let_def nx_def pv_def fun_eq_iff)

lemma give_tickets_rrq [simp]: "rrq (give_tickets p n s) qs = rrq s qs"
  by (simp add: rrq_def)

lemma remove_tickets [simp]:
  "tickets (ptable (removeProcFromRRqueue p s) q) = tickets (ptable s q)"
  "firstTicketNum (ptable (removeProcFromRRqueue p s) q) = firstTicketNum (ptable s q)"
  "totalTickets (removeProcFromRRqueue p s) = totalTickets s"
  by (auto simp: removeProcFromRRqueue_def Let_def split: option.splits)

lemma ready_give_tickets: "ready (give_tickets p n s) = ready s"
  using qframe_sel(1)[OF give_tickets_qframe[of s p n]] by simp

lemma ready_remove: "ready (removeProcFromRRqueue p s) = ready s"
  using qframe_sel(1)[OF remove_qframe[of s p]] by simp

lemma rrq_prev: "rrq s (xs @ q # ys) \<Longrightarrow> rrprev (ptable s q) = (if xs = [] then None else Some (last xs))"
  unfolding rrq_def pv_def[symmetric] by (blast intro: dll_prev)

lemma rrq_next: "rrq s (xs @ q # ys) \<Longrightarrow> rrnext (ptable s q) = (if ys = [] then None else Some (hd ys))"
  unfolding rrq_def nx_def[symmetric] by (blast intro: dll_next)

lemma rrq_first: "rrq s qs \<Longrightarrow> rr_first s = (if qs = [] then None else Some (hd qs))"
  by (cases qs) (auto simp: rrq_def dll_def)

lemma rrq_last: "rrq s qs \<Longrightarrow> rr_last s = (if qs = [] then None else Some (last qs))"
  by (cases qs rule: rev_cases) (auto simp: rrq_def dll_def)

lemma rrq_distinct: "rrq s qs \<Longrightarrow> distinct qs"
  by (simp add: rrq_def dll_def)

lemma rrq_length: "rrq s qs \<Longrightarrow> length qs \<le> NPROC"
proof -
  assume "rrq s qs"
  then have "distinct qs" "set qs \<subseteq> {..<NPROC}" by (auto simp: rrq_def dll_def)
  then show ?thesis using card_mono[of "{..<NPROC}" "set qs"] by (simp add: distinct_card)
qed

text \<open>The outcome of a delivery loop that started in \<open>s\<close>: it served \<open>ps\<close>, in that order, and
  dropped from the queue what is not in \<open>qs\<close>.\<close>

definition delivered :: "'a procst_scheme \<Rightarrow> 'a procst_scheme \<Rightarrow> nat list \<Rightarrow> nat list \<Rightarrow> bool" where
  "delivered s s' ps qs \<longleftrightarrow> rrq s' qs \<and> qframe s s' \<and>
     ticketed (ptable s') ps (unat (totalTickets s)) (unat (totalTickets s')) \<and>
     (\<forall>p. p \<notin> set ps \<longrightarrow> tickets (ptable s' p) = tickets (ptable s p) \<and>
        firstTicketNum (ptable s' p) = firstTicketNum (ptable s p))"

lemma delivered_step:
  assumes d: "delivered (give_tickets q n s) s' ps qs" and q: "q \<notin> set ps"
    and n: "0 < unat n" "unat (totalTickets s) + unat n < 2 ^ 31"
  shows "delivered s s' (q # ps) qs" "tickets (ptable s' q) = n"
proof -
  have u: "unat (totalTickets s + n) = unat (totalTickets s) + unat n" using n by (intro unat_add31)
  have u1: "unat (totalTickets s + 1) = unat (totalTickets s) + 1"
    using n by (subst unat_add31) auto
  have t: "tickets (ptable s' q) = n" "firstTicketNum (ptable s' q) = totalTickets s + 1"
    using d q by (auto simp: delivered_def)
  show "tickets (ptable s' q) = n" by (rule t)
  show "delivered s s' (q # ps) qs"
    using d t u u1 n give_tickets_qframe[of s q n]
    by (auto simp: delivered_def intro: qframe_trans)
qed

lemma deliver_fifo_loop_ok:
  assumes "rrq s (f # xs @ ys)" "unat (totalTickets s) + 10 * length xs < 2 ^ 31"
  shows "\<exists>s'. deliver_fifo_loop (Some (last (f # xs))) s = Some (Inr (Some f, s')) \<and>
    delivered s s' (rev (filter (ready s) xs)) (f # filter (ready s) xs @ ys) \<and>
    (\<forall>p\<in>set (filter (ready s) xs). tickets (ptable s' p) = EXE_TICKETS) \<and>
    unat (totalTickets s') = unat (totalTickets s) + 10 * length (filter (ready s) xs)"
  using assms
proof (induction xs arbitrary: s ys rule: rev_induct)
  case Nil
  then have "rr_first s = Some f" by (auto dest: rrq_first)
  with Nil show ?case by (simp add: deliver_fifo_loop.simps delivered_def)
next
  case (snoc q xs)
  have dist: "distinct (f # xs @ q # ys)" using snoc.prems(1) rrq_distinct by fastforce
  have first: "rr_first s = Some f" using snoc.prems(1) by (auto dest: rrq_first)
  have q: "rrq s ((f # xs) @ q # ys)" using snoc.prems(1) by simp
  have prev: "rrprev (ptable s q) = Some (last (f # xs))" using rrq_prev[OF q] by simp
  show ?case
  proof (cases "ready s q")
    case True
    let ?t = "give_tickets q EXE_TICKETS s"
    have b: "unat (totalTickets s) + unat EXE_TICKETS < 2 ^ 31" "0 < unat EXE_TICKETS"
      using snoc.prems(2) by (auto simp: EXE_TICKETS_def)
    have tot: "unat (totalTickets ?t) = unat (totalTickets s) + 10"
      using b by (simp add: unat_add31) (simp add: EXE_TICKETS_def)
    have r: "ready ?t = ready s" by (rule ready_give_tickets)
    have "\<exists>s'. deliver_fifo_loop (Some (last (f # xs))) ?t = Some (Inr (Some f, s')) \<and>
      delivered ?t s' (rev (filter (ready ?t) xs)) (f # filter (ready ?t) xs @ q # ys) \<and>
      (\<forall>p\<in>set (filter (ready ?t) xs). tickets (ptable s' p) = EXE_TICKETS) \<and>
      unat (totalTickets s') = unat (totalTickets ?t) + 10 * length (filter (ready ?t) xs)"
      by (rule snoc.IH) (use snoc.prems(2) tot q in auto)
    then obtain s' where s': "deliver_fifo_loop (Some (last (f # xs))) ?t = Some (Inr (Some f, s'))"
      "delivered ?t s' (rev (filter (ready s) xs)) (f # filter (ready s) xs @ q # ys)"
      "\<forall>p\<in>set (filter (ready s) xs). tickets (ptable s' p) = EXE_TICKETS"
      "unat (totalTickets s') = unat (totalTickets ?t) + 10 * length (filter (ready s) xs)"
      unfolding r by blast
    have "q \<notin> set (rev (filter (ready s) xs))" using dist by auto
    from delivered_step[OF s'(2) this b(2,1)] s' True show ?thesis
      using first prev dist tot
      by (subst deliver_fifo_loop.simps) (auto simp: Let_def give_tickets_def)
  next
    case False
    let ?t = "removeProcFromRRqueue q s"
    have r: "ready ?t = ready s" by (rule ready_remove)
    have "\<exists>s'. deliver_fifo_loop (Some (last (f # xs))) ?t = Some (Inr (Some f, s')) \<and>
      delivered ?t s' (rev (filter (ready ?t) xs)) (f # filter (ready ?t) xs @ ys) \<and>
      (\<forall>p\<in>set (filter (ready ?t) xs). tickets (ptable s' p) = EXE_TICKETS) \<and>
      unat (totalTickets s') = unat (totalTickets ?t) + 10 * length (filter (ready ?t) xs)"
      by (rule snoc.IH) (use snoc.prems(2) remove_rrq[OF q] in auto)
    then obtain s' where s': "deliver_fifo_loop (Some (last (f # xs))) ?t = Some (Inr (Some f, s'))"
      "delivered ?t s' (rev (filter (ready s) xs)) (f # filter (ready s) xs @ ys)"
      "\<forall>p\<in>set (filter (ready s) xs). tickets (ptable s' p) = EXE_TICKETS"
      "unat (totalTickets s') = unat (totalTickets ?t) + 10 * length (filter (ready s) xs)"
      unfolding r by blast
    have "delivered s s' (rev (filter (ready s) xs)) (f # filter (ready s) xs @ ys)"
      using s'(2) remove_qframe[of s q] by (auto simp: delivered_def intro: qframe_trans)
    with s' False show ?thesis
      using first prev dist by (subst deliver_fifo_loop.simps) auto
  qed
qed

lemma delivered_append:
  assumes "delivered s t ps qs" "delivered t u rs qs'" "set ps \<inter> set rs = {}"
  shows "delivered s u (ps @ rs) qs'"
proof -
  have "ticketed (ptable u) ps (unat (totalTickets s)) (unat (totalTickets t))"
    using assms by (subst ticketed_cong[where pt = "ptable t"]) (auto simp: delivered_def)
  then show ?thesis
    using assms by (auto simp: delivered_def ticketed_append intro: qframe_trans)
qed

lemma delivered_give:
  assumes "rrq s qs" "0 < unat n" "unat (totalTickets s) + unat n < 2 ^ 31"
  shows "delivered s (give_tickets q n s) [q] qs"
  by (rule delivered_step(1)) (use assms in \<open>auto simp: delivered_def\<close>)

lemma head_tickets:
  assumes "unat t = 10 * n" "n < 64"
  shows "unat (EXE_TICKETS + FIFO_DIFFERECE * t) = 10 + 1000 * n"
proof -
  have "unat (FIFO_DIFFERECE * t) = 1000 * n"
    using assms by (subst unat_mult_lem[THEN iffD1]) (auto simp: FIFO_DIFFERECE_def)
  then show ?thesis using assms by (subst unat_add31) (auto simp: EXE_TICKETS_def)
qed

lemma deliver_fifo_ok:
  assumes q: "rrq s (f # xs)" and t: "totalTickets s = 0"
  shows "\<exists>s'. deliver_fifo s = Inr s' \<and>
    delivered s s' (rev (f # filter (ready s) xs)) (f # filter (ready s) xs) \<and>
    (\<forall>p\<in>set (filter (ready s) xs). tickets (ptable s' p) = EXE_TICKETS) \<and>
    unat (tickets (ptable s' f)) = 10 + 1000 * length (filter (ready s) xs) \<and>
    unat (totalTickets s') = 10 + 1010 * length (filter (ready s) xs)"
proof -
  let ?ys = "filter (ready s) xs"
  have len: "length ?ys < 64"
    by (rule le_less_trans[OF length_filter_le]) (use rrq_length[OF q] in \<open>simp add: NPROC_def\<close>)
  have "\<exists>s1. deliver_fifo_loop (Some (last (f # xs))) s = Some (Inr (Some f, s1)) \<and>
    delivered s s1 (rev ?ys) (f # ?ys @ []) \<and>
    (\<forall>p\<in>set ?ys. tickets (ptable s1 p) = EXE_TICKETS) \<and>
    unat (totalTickets s1) = unat (totalTickets s) + 10 * length ?ys"
    by (rule deliver_fifo_loop_ok) (use q t rrq_length[OF q] in \<open>auto simp: NPROC_def\<close>)
  then obtain s1 where s1: "deliver_fifo_loop (Some (last (f # xs))) s = Some (Inr (Some f, s1))"
    "delivered s s1 (rev ?ys) (f # ?ys)" "\<forall>p\<in>set ?ys. tickets (ptable s1 p) = EXE_TICKETS"
    "unat (totalTickets s1) = 10 * length ?ys"
    using t by auto
  let ?n = "EXE_TICKETS + FIFO_DIFFERECE * totalTickets s1"
  have n: "unat ?n = 10 + 1000 * length ?ys" by (rule head_tickets[OF s1(4) len])
  have b: "unat (totalTickets s1) + unat ?n < 2 ^ 31" using n s1(4) len by simp
  have f: "f \<notin> set ?ys" using rrq_distinct[OF q] by auto
  have "delivered s1 (give_tickets f ?n s1) [f] (f # ?ys)"
    by (rule delivered_give) (use s1(2) n b in \<open>auto simp: delivered_def\<close>)
  from delivered_append[OF s1(2) this] f
  have d: "delivered s (give_tickets f ?n s1) (rev (f # ?ys)) (f # ?ys)" by simp
  have e: "deliver_fifo s = Inr (give_tickets f ?n s1)"
    using s1(1) rrq_last[OF q] by (simp add: deliver_fifo_def del: last.simps)
  have tot: "unat (totalTickets (give_tickets f ?n s1)) = 10 + 1010 * length ?ys"
    using unat_add31[OF b] n s1(4) by simp
  show ?thesis
    by (rule exI[of _ "give_tickets f ?n s1"]) (use d e s1(3) n tot f in auto)
qed

abbreviation prio :: "'a procst_scheme \<Rightarrow> nat \<Rightarrow> int" where
  "prio s p \<equiv> sint (priority (ptable s p))"

definition count_low :: "'a procst_scheme \<Rightarrow> nat list \<Rightarrow> nat" where
  "count_low s qs = length (filter (\<lambda>p. prio s p \<le> 0) qs)"

definition count_mid :: "'a procst_scheme \<Rightarrow> nat list \<Rightarrow> nat" where
  "count_mid s qs = length (filter (\<lambda>p. prio s p = 1) qs)"

lemma count_simps [simp]:
  "count_low s [] = 0" "count_mid s [] = 0"
  "count_low s (xs @ [q]) = count_low s xs + (if prio s q \<le> 0 then 1 else 0)"
  "count_mid s (xs @ [q]) = count_mid s xs + (if prio s q = 1 then 1 else 0)"
  by (simp_all add: count_low_def count_mid_def)

lemma deliver_count_loop_ok:
  assumes "rrq s (xs @ ys)"
  shows "\<exists>s'. deliver_count_loop (if xs = [] then None else Some (last xs)) n1 n2 s =
      Some ((n1 + of_nat (count_low s (filter (ready s) xs)), n2 + of_nat (count_mid s (filter (ready s) xs))), s') \<and>
    delivered s s' [] (filter (ready s) xs @ ys)"
  using assms
proof (induction xs arbitrary: s ys n1 n2 rule: rev_induct)
  case Nil
  then show ?case by (simp add: deliver_count_loop.simps delivered_def)
next
  case (snoc q xs)
  have q: "rrq s (xs @ q # ys)" using snoc.prems by simp
  note prev = rrq_prev[OF q]
  show ?case
  proof (cases "ready s q")
    case True
    consider "prio s q \<le> 0" | "prio s q = 1" | "\<not> prio s q \<le> 0" "prio s q \<noteq> 1" by blast
    then show ?thesis
    proof cases
      case 1
      with True snoc.IH[OF q, of "n1 + 1" n2] show ?thesis
        using prev by (subst deliver_count_loop.simps) (auto simp: add.assoc)
    next
      case 2
      with True snoc.IH[OF q, of n1 "n2 + 1"] show ?thesis
        using prev by (subst deliver_count_loop.simps) (auto simp: add.assoc)
    next
      case 3
      with True snoc.IH[OF q, of n1 n2] show ?thesis
        using prev by (subst deliver_count_loop.simps) auto
    qed
  next
    case False
    let ?t = "removeProcFromRRqueue q s"
    have r: "ready ?t = ready s" by (rule ready_remove)
    have pr: "prio ?t p = prio s p" for p using qframe_sel(2)[OF remove_qframe[of s q]] by simp
    have c: "count_low ?t = count_low s" "count_mid ?t = count_mid s"
      by (simp_all add: count_low_def count_mid_def pr fun_eq_iff)
    have d: "delivered s s' [] zs" if "delivered ?t s' [] zs" for s' zs
      using that remove_qframe[of s q] by (auto simp: delivered_def intro: qframe_trans)
    from False snoc.IH[OF remove_rrq[OF q], of n1 n2, unfolded r c] show ?thesis
      using prev d by (subst deliver_count_loop.simps) auto
  qed
qed

lemma prs_tickets_unat:
  assumes "n1 \<le> 64" "n2 \<le> 64"
  shows "unat (prs_tickets (of_nat n1) (of_nat n2) p) =
    (if sint (priority p) \<le> 0 then 10 else if sint (priority p) = 1 then 10 + 1000 * n1
     else 10 + 1000 * (n1 + 100 * n2))"
  using assms
  by (simp add: prs_tickets_def EXE_TICKETS_def FIFO_DIFFERECE_def unat_word_ariths unat_of_nat)

lemma prs_tickets_cong: "priority p = priority q \<Longrightarrow> prs_tickets k l p = prs_tickets k l q"
  by (simp add: prs_tickets_def)

lemma prs_tickets_bounds:
  assumes "n1 \<le> 64" "n2 \<le> 64"
  shows "0 < unat (prs_tickets (of_nat n1) (of_nat n2) p)"
    "unat (prs_tickets (of_nat n1) (of_nat n2) p) \<le> 6464010"
  using assms by (simp_all add: prs_tickets_unat)

lemma deliver_prs_loop_ok:
  assumes "rrq s (xs @ ys)" "n1 \<le> 64" "n2 \<le> 64"
    and "unat (totalTickets s) + 6464010 * length xs < 2 ^ 31"
  shows "\<exists>s'. deliver_prs_loop (if xs = [] then None else Some (last xs)) (of_nat n1) (of_nat n2) s = Some s' \<and>
    delivered s s' (rev xs) (xs @ ys) \<and>
    (\<forall>p\<in>set xs. tickets (ptable s' p) = prs_tickets (of_nat n1) (of_nat n2) (ptable s p))"
  using assms(1,4)
proof (induction xs arbitrary: s ys rule: rev_induct)
  case Nil
  then show ?case by (simp add: deliver_prs_loop.simps delivered_def)
next
  case (snoc q xs)
  let ?n = "prs_tickets (of_nat n1) (of_nat n2) (ptable s q)"
  let ?t = "give_tickets q ?n s"
  have q: "rrq s (xs @ q # ys)" using snoc.prems by simp
  have dist: "distinct (xs @ q # ys)" by (rule rrq_distinct[OF q])
  note n = prs_tickets_bounds[OF assms(2,3), of "ptable s q"]
  have b: "unat (totalTickets s) + unat ?n < 2 ^ 31" using n(2) snoc.prems(2) by simp
  have prev: "rrprev (ptable ?t q) = (if xs = [] then None else Some (last xs))"
    using rrq_prev[of ?t xs q ys] q by simp
  have same: "prs_tickets k l (ptable ?t p) = prs_tickets k l (ptable s p)" for k l p
    by (rule prs_tickets_cong) (rule qframe_sel(2)[OF give_tickets_qframe])
  have "\<exists>s'. deliver_prs_loop (if xs = [] then None else Some (last xs)) (of_nat n1) (of_nat n2) ?t = Some s' \<and>
      delivered ?t s' (rev xs) (xs @ q # ys) \<and>
      (\<forall>p\<in>set xs. tickets (ptable s' p) = prs_tickets (of_nat n1) (of_nat n2) (ptable ?t p))"
    by (rule snoc.IH) (use q n(2) snoc.prems(2) unat_add31[OF b] in auto)
  then obtain s' where s': "deliver_prs_loop (if xs = [] then None else Some (last xs)) (of_nat n1) (of_nat n2) ?t = Some s'"
    "delivered ?t s' (rev xs) (xs @ q # ys)"
    "\<forall>p\<in>set xs. tickets (ptable s' p) = prs_tickets (of_nat n1) (of_nat n2) (ptable s p)"
    unfolding same by blast
  have "q \<notin> set (rev xs)" using dist by auto
  from delivered_step[OF s'(2) this n(1) b] s' prev show ?case
    by (subst deliver_prs_loop.simps) (auto simp: Let_def)
qed

lemma deliver_prs_ok:
  assumes q: "rrq s qs" and t: "totalTickets s = 0"
  shows "\<exists>s'. deliver_prs s = Inr s' \<and> delivered s s' (rev (filter (ready s) qs)) (filter (ready s) qs) \<and>
    (\<forall>p\<in>set (filter (ready s) qs). tickets (ptable s' p) =
       prs_tickets (of_nat (count_low s (filter (ready s) qs))) (of_nat (count_mid s (filter (ready s) qs))) (ptable s p))"
proof -
  let ?qs = "filter (ready s) qs"
  let ?n1 = "count_low s ?qs" and ?n2 = "count_mid s ?qs"
  have len: "length ?qs \<le> 64"
    by (rule order_trans[OF length_filter_le]) (use rrq_length[OF q] in \<open>simp add: NPROC_def\<close>)
  have n: "?n1 \<le> 64" "?n2 \<le> 64"
    unfolding count_low_def count_mid_def by (rule order_trans[OF length_filter_le len])+
  from deliver_count_loop_ok[of s qs "[]" 0 0] q rrq_last[OF q]
  obtain s1 where s1: "deliver_count_loop (rr_last s) 0 0 s = Some ((of_nat ?n1, of_nat ?n2), s1)"
    "delivered s s1 [] ?qs" by auto
  then have q1: "rrq s1 ?qs" and t1: "totalTickets s1 = 0" and f: "qframe s s1"
    using t by (auto simp: delivered_def unat_eq_0)
  have "\<exists>s'. deliver_prs_loop (if ?qs = [] then None else Some (last ?qs)) (of_nat ?n1) (of_nat ?n2) s1 = Some s' \<and>
    delivered s1 s' (rev ?qs) (?qs @ []) \<and>
    (\<forall>p\<in>set ?qs. tickets (ptable s' p) = prs_tickets (of_nat ?n1) (of_nat ?n2) (ptable s1 p))"
    by (rule deliver_prs_loop_ok) (use q1 n t1 len in auto)
  then obtain s2 where s2: "deliver_prs_loop (rr_last s1) (of_nat ?n1) (of_nat ?n2) s1 = Some s2"
    "delivered s1 s2 (rev ?qs) ?qs"
    "\<forall>p\<in>set ?qs. tickets (ptable s2 p) = prs_tickets (of_nat ?n1) (of_nat ?n2) (ptable s1 p)"
    using rrq_last[OF q1] by auto
  have "prs_tickets k l (ptable s1 p) = prs_tickets k l (ptable s p)" for k l p
    by (rule prs_tickets_cong) (rule qframe_sel(2)[OF f])
  with s1 s2 delivered_append[OF s1(2) s2(2)] show ?thesis by (simp add: deliver_prs_def)
qed

section \<open>Drawing a ticket\<close>

text \<open>
  The generator shifts signed integers right, so the sign bit of \<open>w \<up> (w >> 19)\<close> is that of \<open>w\<close>
  twice, and the same happens to \<open>t\<close>: the number it returns is never negative.
\<close>

lemma xorshift128_nonneg: "0 \<le> sint (fst (xorshift128 s))"
proof -
  have "\<not> bit (w XOR signed_drop_bit 19 w XOR t XOR signed_drop_bit 8 t) 31" for w t :: u32
    by (simp add: bit_xor_iff bit_signed_drop_bit_iff)
  then have "\<not> bit (fst (xorshift128 s)) 31" by (simp add: xorshift128_def Let_def)
  then show ?thesis by (simp add: sint_uint signed_take_bit_nonnegative_iff bit_uint_iff)
qed

lemma crem_range:
  assumes "0 \<le> sint a" "0 < unat b" "unat b < 2 ^ 31"
  shows "unat (crem a b) < unat b"
proof -
  have b: "sint b = int (unat b)" using assms by (simp add: sint_small)
  have pos: "0 < int (unat b)" using assms(2) by (simp del: of_nat_unat)
  define x where "x = sint a mod int (unat b)"
  have e: "sgn (sint a) * (\<bar>sint a\<bar> mod \<bar>sint b\<bar>) = x"
    unfolding x_def b using assms(1) by (cases "sint a = 0") (simp_all del: of_nat_unat)
  have x: "0 \<le> x" "x < int (unat b)"
    unfolding x_def by (rule pos_mod_sign[OF pos], rule pos_mod_bound[OF pos])
  then obtain n where n: "x = int n" "n < unat b" by (metis nonneg_int_cases of_nat_less_iff)
  have "crem a b = of_nat n" unfolding crem_def e n(1) by simp
  then show ?thesis using n(2) assms(3) by (simp add: unat_of_nat32)
qed

lemma pick_loop_find:
  "seg (\<lambda>p. rrnext (pt p)) a qs None \<Longrightarrow> pick_loop pt t a = Some (find (\<lambda>q. holds_ticket t (pt q)) qs)"
  by (induction qs arbitrary: a) (simp_all add: pick_loop.simps)

lemma printRRQueue_loop_ends:
  "seg (\<lambda>p. rrnext (pt p)) a qs None \<Longrightarrow> printRRQueue_loop pt a = Some ()"
  by (induction qs arbitrary: a) (simp_all add: printRRQueue_loop.simps)

lemma holds_ticket_iff:
  assumes "unat (firstTicketNum p) = Suc a" "0 < unat (tickets p)"
    and "a + unat (tickets p) < 2 ^ 31" "unat t < 2 ^ 31"
  shows "holds_ticket t p \<longleftrightarrow> a < unat t \<and> unat t \<le> a + unat (tickets p)"
proof -
  have s: "tickets p + firstTicketNum p - 1 = tickets p + (firstTicketNum p - 1)" by simp
  have f: "unat (firstTicketNum p - 1) = a"
    using assms(1) by (metis diff_Suc_1 nat.distinct(1) unat_eq_zero unat_minus_one)
  have l: "unat (tickets p + firstTicketNum p - 1) = unat (tickets p) + a"
    unfolding s using assms(3) f by (subst unat_add31) auto
  have "sint (tickets p + firstTicketNum p - 1) = int (unat (tickets p) + a)"
    using assms(3) l by (subst sint_small) (auto simp del: of_nat_unat)
  moreover have "sint (firstTicketNum p) = int (Suc a)"
    using assms by (subst sint_small) (auto simp del: of_nat_unat)
  moreover have "sint t = int (unat t)" by (rule sint_small[OF assms(4)])
  ultimately show ?thesis unfolding holds_ticket_def by (auto simp del: of_nat_unat)
qed

lemma ticketed_outside:
  assumes "ticketed pt ps a b" "b < 2 ^ 31" "unat t < 2 ^ 31" "unat t \<le> a" "p \<in> set ps"
  shows "\<not> holds_ticket t (pt p)"
  using assms
proof (induction ps arbitrary: a)
  case (Cons q ps)
  have "a + unat (tickets (pt q)) \<le> b" using Cons.prems(1) by (auto dest: ticketed_le)
  then have "\<not> holds_ticket t (pt q)" using Cons.prems by (subst holds_ticket_iff[of _ a]) auto
  with Cons show ?case by fastforce
qed simp

lemma ticketed_winner:
  assumes "ticketed pt ps a b" "b < 2 ^ 31" "a < unat t" "unat t \<le> b" "distinct ps"
  shows "\<exists>p. p \<in> set ps \<and> (\<forall>q\<in>set ps. holds_ticket t (pt q) \<longleftrightarrow> q = p)"
  using assms
proof (induction ps arbitrary: a)
  case (Cons q ps)
  let ?c = "a + unat (tickets (pt q))"
  have le: "?c \<le> b" using Cons.prems(1) by (auto dest: ticketed_le)
  have h: "holds_ticket t (pt q) \<longleftrightarrow> a < unat t \<and> unat t \<le> ?c"
    by (rule holds_ticket_iff) (use Cons.prems le in auto)
  show ?case
  proof (cases "unat t \<le> ?c")
    case True
    have "\<not> holds_ticket t (pt p)" if "p \<in> set ps" for p
      by (rule ticketed_outside[of pt ps ?c b]) (use Cons.prems True that in auto)
    with True h Cons.prems show ?thesis by (intro exI[of _ q]) auto
  next
    case False
    have "\<exists>p. p \<in> set ps \<and> (\<forall>q\<in>set ps. holds_ticket t (pt q) \<longleftrightarrow> q = p)"
      by (rule Cons.IH[of ?c]) (use Cons.prems False in auto)
    with False h Cons.prems(5) show ?thesis by auto
  qed
qed simp

lemma find_winner:
  assumes "p \<in> set qs" "\<forall>q\<in>set qs. P q \<longleftrightarrow> q = p"
  shows "find P qs = Some p"
  using assms by (induction qs) (auto split: if_splits)

section \<open>The queue under its lock\<close>

lemma procst_lock_sel [simp]:
  "ptable (acq_st l s) = ptable s" "initproc (acq_st l s) = initproc s" "nextpid (acq_st l s) = nextpid s"
  "rr_first (acq_st l s) = rr_first s" "rr_last (acq_st l s) = rr_last s"
  "totalTickets (acq_st l s) = totalTickets s" "ticks (acq_st l s) = ticks s" "kpgdir (acq_st l s) = kpgdir s"
  "cctx (acq_st l s) = cctx s" "procst.more (acq_st l s) = procst.more s"
  "xs_x (acq_st l s) = xs_x s" "xs_y (acq_st l s) = xs_y s" "xs_z (acq_st l s) = xs_z s" "xs_w (acq_st l s) = xs_w s"
  by (simp_all add: acq_st_def set_lock_def pushcli_def set_cpu_def Let_def)

lemma procst_cycle_sel [simp]:
  "ptable (lock_cycle s) = ptable s" "initproc (lock_cycle s) = initproc s" "nextpid (lock_cycle s) = nextpid s"
  "rr_first (lock_cycle s) = rr_first s" "rr_last (lock_cycle s) = rr_last s"
  "totalTickets (lock_cycle s) = totalTickets s" "ticks (lock_cycle s) = ticks s"
  "kpgdir (lock_cycle s) = kpgdir s" "cctx (lock_cycle s) = cctx s" "procst.more (lock_cycle s) = procst.more s"
  "xs_x (lock_cycle s) = xs_x s" "xs_y (lock_cycle s) = xs_y s" "xs_z (lock_cycle s) = xs_z s" "xs_w (lock_cycle s) = xs_w s"
  by (simp_all add: lock_cycle_def set_cpu_def)

lemma procst_acq_upd [simp]:
  "ptable_update f (acq_st l s) = acq_st l (ptable_update f s)"
  "rr_first_update g (acq_st l s) = acq_st l (rr_first_update g s)"
  "rr_last_update g (acq_st l s) = acq_st l (rr_last_update g s)"
  "totalTickets_update h (acq_st l s) = acq_st l (totalTickets_update h s)"
  "xs_x_update h (acq_st l s) = acq_st l (xs_x_update h s)"
  "xs_y_update h (acq_st l s) = acq_st l (xs_y_update h s)"
  "xs_z_update h (acq_st l s) = acq_st l (xs_z_update h s)"
  "xs_w_update h (acq_st l s) = acq_st l (xs_w_update h s)"
  "ticks_update h (acq_st l s) = acq_st l (ticks_update h s)"
  "nextpid_update h (acq_st l s) = acq_st l (nextpid_update h s)"
  "initproc_update g (acq_st l s) = acq_st l (initproc_update g s)"
  "cctx_update k (acq_st l s) = acq_st l (cctx_update k s)"
  by (cases s; simp add: acq_st_def set_lock_def pushcli_def set_cpu_def Let_def)+

lemma procst_cycle_upd [simp]:
  "ptable_update f (lock_cycle s) = lock_cycle (ptable_update f s)"
  "rr_first_update g (lock_cycle s) = lock_cycle (rr_first_update g s)"
  "rr_last_update g (lock_cycle s) = lock_cycle (rr_last_update g s)"
  "totalTickets_update h (lock_cycle s) = lock_cycle (totalTickets_update h s)"
  "xs_x_update h (lock_cycle s) = lock_cycle (xs_x_update h s)"
  "xs_y_update h (lock_cycle s) = lock_cycle (xs_y_update h s)"
  "xs_z_update h (lock_cycle s) = lock_cycle (xs_z_update h s)"
  "xs_w_update h (lock_cycle s) = lock_cycle (xs_w_update h s)"
  "ticks_update h (lock_cycle s) = lock_cycle (ticks_update h s)"
  "nextpid_update h (lock_cycle s) = lock_cycle (nextpid_update h s)"
  "initproc_update g (lock_cycle s) = lock_cycle (initproc_update g s)"
  "cctx_update k (lock_cycle s) = lock_cycle (cctx_update k s)"
  by (cases s; simp add: set_cpu_def lock_cycle_def)+

lemma procst_lock_free [simp]:
  "lock_free l (ptable_update f s) = lock_free l s" "cpu_ok (ptable_update f s) = cpu_ok s"
  "lock_free l (rr_first_update g s) = lock_free l s" "cpu_ok (rr_first_update g s) = cpu_ok s"
  "lock_free l (rr_last_update g s) = lock_free l s" "cpu_ok (rr_last_update g s) = cpu_ok s"
  "lock_free l (totalTickets_update h s) = lock_free l s" "cpu_ok (totalTickets_update h s) = cpu_ok s"
  "lock_free l (ticks_update h s) = lock_free l s" "cpu_ok (ticks_update h s) = cpu_ok s"
  "lock_free l (nextpid_update h s) = lock_free l s" "cpu_ok (nextpid_update h s) = cpu_ok s"
  "lock_free l (cctx_update k s) = lock_free l s" "cpu_ok (cctx_update k s) = cpu_ok s"
  "lock_free l (upd_proc p u s) = lock_free l s" "cpu_ok (upd_proc p u s) = cpu_ok s"
  "lock_free l (snd (xorshift128 s)) = lock_free l s" "cpu_ok (snd (xorshift128 s)) = cpu_ok s"
  by (simp_all add: lock_free_def cpu_ok_def upd_proc_def xorshift128_def Let_def)

lemma qframe_lock [simp]:
  assumes "qframe s s'"
  shows "lock_free l s' = lock_free l s" "cpu_ok s' = cpu_ok s"
  using qframe_sel(4-6)[OF assms] by (simp_all add: lock_free_def cpu_ok_def)

lemma qframe_acq: "qframe (acq_st l s) t \<Longrightarrow> \<exists>u. t = acq_st l u \<and> qframe s u"
proof -
  assume f: "qframe (acq_st l s) t"
  let ?u = "s\<lparr>ptable := ptable t, rr_first := rr_first t, rr_last := rr_last t, totalTickets := totalTickets t\<rparr>"
  have "t = acq_st l ?u" using f by (simp add: qframe_def)
  moreover have "qframe s ?u" using f by (simp add: qframe_def)
  ultimately show ?thesis by blast
qed

lemma rrq_lock [simp]: "rrq (acq_st l s) qs = rrq s qs" "rrq (lock_cycle s) qs = rrq s qs"
  by (simp_all add: rrq_def nx_def[abs_def] pv_def[abs_def])

lemma upd_proc_lock [simp]:
  "upd_proc p f (acq_st l s) = acq_st l (upd_proc p f s)" "upd_proc p f (lock_cycle s) = lock_cycle (upd_proc p f s)"
  by (simp_all add: upd_proc_def)

lemma rr_push_lock [simp]:
  "rr_push p (acq_st l s) = acq_st l (rr_push p s)" "rr_push p (lock_cycle s) = lock_cycle (rr_push p s)"
  by (cases "rr_first s"; cases "rr_last s"; simp add: rr_push_def Let_def)+

lemma remove_lock [simp]:
  "removeProcFromRRqueue p (acq_st l s) = acq_st l (removeProcFromRRqueue p s)"
  "removeProcFromRRqueue p (lock_cycle s) = lock_cycle (removeProcFromRRqueue p s)"
  by (cases "rrprev (ptable s p)"; simp add: removeProcFromRRqueue_def Let_def split: option.splits)+

lemma queue_lock_free [simp]:
  "lock_free l (rr_push p s) = lock_free l s" "cpu_ok (rr_push p s) = cpu_ok s"
  "lock_free l (removeProcFromRRqueue p s) = lock_free l s" "cpu_ok (removeProcFromRRqueue p s) = cpu_ok s"
  using rr_push_qframe[of s p] remove_qframe[of s p] by simp_all

lemma pushProcToRRqueue_eq:
  assumes "lock_free RrqueueLock s" "cpu_ok s"
  shows "pushProcToRRqueue p s = Inr (lock_cycle (rr_push p s))"
  using assms by (simp add: pushProcToRRqueue_def acquire_free release_acq_st)

lemma printRRQueue_eq:
  assumes "rrq s qs" "lock_free RrqueueLock s" "cpu_ok s"
  shows "printRRQueue s = Inr (lock_cycle s)"
proof -
  have "printRRQueue_loop (ptable s) (rr_first s) = Some ()"
    by (rule printRRQueue_loop_ends[of _ _ qs]) (use assms(1) in \<open>auto simp: rrq_def dll_def nx_def[abs_def]\<close>)
  with assms show ?thesis by (simp add: printRRQueue_def acquire_free release_acq_st)
qed

section \<open>The contract of the queue\<close>

text \<open>
  What the scheduler relies on: entering puts a process at the end, leaving takes it out from any
  place, and a state represents at most one queue.
\<close>

locale fifo_queue =
  fixes rep :: "'s \<Rightarrow> nat list \<Rightarrow> bool"
    and enq :: "nat \<Rightarrow> 's \<Rightarrow> 's"
    and deq :: "nat \<Rightarrow> 's \<Rightarrow> 's"
    and slot :: "nat \<Rightarrow> bool"
  assumes enq: "rep s qs \<Longrightarrow> p \<notin> set qs \<Longrightarrow> slot p \<Longrightarrow> rep (enq p s) (qs @ [p])"
    and deq: "rep s qs \<Longrightarrow> p \<in> set qs \<Longrightarrow> rep (deq p s) (remove1 p qs)"
    and det: "rep s qs \<Longrightarrow> rep s rs \<Longrightarrow> qs = rs"
    and dist: "rep s qs \<Longrightarrow> distinct qs"
begin

lemma enq_all:
  "rep s qs \<Longrightarrow> distinct (qs @ ps) \<Longrightarrow> (\<And>p. p \<in> set ps \<Longrightarrow> slot p) \<Longrightarrow> rep (fold enq ps s) (qs @ ps)"
proof (induction ps arbitrary: s qs)
  case (Cons p ps)
  have "rep (enq p s) (qs @ [p])" using Cons.prems by (auto intro: enq)
  then have "rep (fold enq ps (enq p s)) ((qs @ [p]) @ ps)"
    by (rule Cons.IH) (use Cons.prems in auto)
  then show ?case by simp
qed simp

lemma deq_all: "rep s (ps @ qs) \<Longrightarrow> rep (fold deq ps s) qs"
proof (induction ps arbitrary: s)
  case (Cons p ps)
  have "rep (deq p s) (remove1 p (p # ps @ qs))" by (rule deq) (use Cons.prems in auto)
  then show ?case using Cons.IH[of "deq p s"] by simp
qed simp

text \<open>First in, first out: the processes already queued leave before those that enter now, and
  the latter in the order of their arrival.\<close>

lemma fifo:
  assumes "rep s qs" "distinct (qs @ ps)" "\<And>p. p \<in> set ps \<Longrightarrow> slot p"
  shows "rep (fold deq qs (fold enq ps s)) ps" "rep (fold deq (qs @ ps) (fold enq ps s)) []"
proof -
  have r: "rep (fold enq ps s) (qs @ ps)" by (rule enq_all[OF assms])
  then show "rep (fold deq qs (fold enq ps s)) ps" by (rule deq_all)
  from r have "rep (fold enq ps s) ((qs @ ps) @ [])" by simp
  then show "rep (fold deq (qs @ ps) (fold enq ps s)) []" by (rule deq_all)
qed

lemma enq_deq: "rep s qs \<Longrightarrow> p \<notin> set qs \<Longrightarrow> slot p \<Longrightarrow> rep (deq p (enq p s)) qs"
  using deq[OF enq, of s qs p p] by (simp add: remove1_append)

end

interpretation rr: fifo_queue rrq rr_push removeProcFromRRqueue "\<lambda>p. p < NPROC"
proof unfold_locales
  show "rrq (removeProcFromRRqueue p s) (remove1 p qs)" if "rrq s qs" "p \<in> set qs" for s qs p
  proof -
    from that(2) obtain xs ys where q: "qs = xs @ p # ys" by (auto simp: in_set_conv_decomp)
    then have "p \<notin> set xs" using rrq_distinct[OF that(1)] by auto
    with q remove_rrq[of s xs p ys] that(1) show ?thesis by (simp add: remove1_append)
  qed
qed (auto intro: rr_push_rrq rrq_unique rrq_distinct)

end
