(* ===== verification/Xv6_Draw.thy ===== *)
theory Xv6_Draw
  imports Xv6_Lottery
begin

text \<open>
  The lottery as a whole: what \<open>deliverTicketsToFIFOProcs\<close> and \<open>pickProcess\<close> do to a well-formed
  queue, under the lock they take, for each scheduling policy.
\<close>

section \<open>Delivery under the lock\<close>

text \<open>The processes that stay in the queue. Under FRR and FCFS the head stays whatever its state.\<close>

definition kept :: "schedflag \<Rightarrow> 'a procst_scheme \<Rightarrow> nat list \<Rightarrow> nat list" where
  "kept cfg s qs =
     (if cfg = PRS \<or> qs = [] then filter (ready s) qs else hd qs # filter (ready s) (tl qs))"

definition ticket_share :: "schedflag \<Rightarrow> 'a procst_scheme \<Rightarrow> nat list \<Rightarrow> nat \<Rightarrow> nat" where
  "ticket_share cfg s qs p =
     (if cfg = PRS then
        (if prio s p \<le> 0 then 10 else if prio s p = 1 then 10 + 1000 * count_low s qs
         else 10 + 1000 * (count_low s qs + 100 * count_mid s qs))
      else if p = hd qs then 10 + 1000 * (length qs - 1) else 10)"

lemma ticketed_total:
  "ticketed pt ps a b \<Longrightarrow> b = a + sum_list (map (\<lambda>p. unat (tickets (pt p))) ps)"
proof (induction ps arbitrary: a)
  case (Cons p ps)
  have "ticketed pt ps (a + unat (tickets (pt p))) b" using Cons.prems by simp
  from Cons.IH[OF this] show ?case by simp
qed simp

lemma sum_list_bound: "(\<And>x. x \<in> set xs \<Longrightarrow> f x \<le> k) \<Longrightarrow> sum_list (map f xs) \<le> length xs * (k :: nat)"
proof (induction xs)
  case (Cons x xs)
  then show ?case using Cons.prems[of x] by (simp add: add_mono)
qed simp

lemma kept_ready: "(\<And>p. p \<in> set qs \<Longrightarrow> ready s p) \<Longrightarrow> kept cfg s qs = qs"
  by (cases qs) (auto simp: kept_def)

lemma share_le:
  assumes "length qs \<le> 64"
  shows "ticket_share cfg s qs p \<le> 6464010"
proof -
  have "count_low s qs \<le> 64" "count_mid s qs \<le> 64"
    unfolding count_low_def count_mid_def by (rule order_trans[OF length_filter_le assms])+
  then show ?thesis using assms by (auto simp: ticket_share_def)
qed

definition dealt :: "schedflag \<Rightarrow> 'a procst_scheme \<Rightarrow> 'a procst_scheme \<Rightarrow> nat list \<Rightarrow> bool" where
  "dealt cfg s s' qs \<longleftrightarrow> rrq s' qs \<and> qframe s s' \<and>
     ticketed (ptable s') (rev qs) 0 (unat (totalTickets s')) \<and>
     (\<forall>p\<in>set qs. unat (tickets (ptable s' p)) = ticket_share cfg s qs p)"

lemma dealt_total:
  assumes "dealt cfg s s' qs"
  shows "unat (totalTickets s') < 2 ^ 31" "0 < unat (totalTickets s') \<longleftrightarrow> qs \<noteq> []"
proof -
  have r: "rrq s' qs" and t: "ticketed (ptable s') (rev qs) 0 (unat (totalTickets s'))"
    and sh: "\<forall>p\<in>set qs. unat (tickets (ptable s' p)) = ticket_share cfg s qs p"
    using assms by (auto simp: dealt_def)
  have len: "length qs \<le> 64" using rrq_length[OF r] by (simp add: NPROC_def)
  have "unat (totalTickets s') = sum_list (map (\<lambda>p. unat (tickets (ptable s' p))) (rev qs))"
    using ticketed_total[OF t] by simp
  also have "\<dots> \<le> length (rev qs) * 6464010"
    by (rule sum_list_bound) (use sh share_le[OF len] in auto)
  finally show "unat (totalTickets s') < 2 ^ 31" using len by simp
  show "0 < unat (totalTickets s') \<longleftrightarrow> qs \<noteq> []"
    using t by (cases qs rule: rev_cases) (auto dest: ticketed_le)
qed

lemma dealt_acq:
  assumes d: "delivered (acq_st l s) t (rev qs) qs" and z: "totalTickets s = 0"
    and sh: "\<And>p. p \<in> set qs \<Longrightarrow> unat (tickets (ptable t p)) = ticket_share cfg s qs p"
  shows "\<exists>u. t = acq_st l u \<and> dealt cfg s u qs"
proof -
  from d obtain u where u: "t = acq_st l u" "qframe s u" using qframe_acq by (fastforce simp: delivered_def)
  with d z sh show ?thesis by (intro exI[of _ u]) (auto simp: dealt_def delivered_def)
qed

lemma deal_policy:
  assumes q: "rrq s qs" and z: "totalTickets s = 0" and ne: "qs \<noteq> []" and cfg: "cfg \<noteq> DEFAULT"
  shows "\<exists>u. (case cfg of DEFAULT \<Rightarrow> Inr (acq_st l s) | FRR \<Rightarrow> deliver_fifo (acq_st l s)
      | FCFS \<Rightarrow> deliver_fifo (acq_st l s) | PRS \<Rightarrow> deliver_prs (acq_st l s)) = Inr (acq_st l u) \<and>
    dealt cfg s u (kept cfg s qs)"
proof (cases "cfg = PRS")
  case False
  obtain f xs where qs: "qs = f # xs" using ne by (cases qs) auto
  let ?ys = "filter (ready s) xs"
  from deliver_fifo_ok[of "acq_st l s" f xs] q z qs obtain t where
    t: "deliver_fifo (acq_st l s) = Inr t" "delivered (acq_st l s) t (rev (f # ?ys)) (f # ?ys)"
    "\<forall>p\<in>set ?ys. tickets (ptable t p) = EXE_TICKETS"
    "unat (tickets (ptable t f)) = 10 + 1000 * length ?ys" by auto
  have "f \<notin> set xs" using rrq_distinct[OF q] qs by simp
  then have "\<exists>u. t = acq_st l u \<and> dealt cfg s u (f # ?ys)"
    by (intro dealt_acq[OF t(2) z]) (use t(3,4) False in \<open>auto simp: ticket_share_def EXE_TICKETS_def\<close>)
  with t(1) False cfg qs show ?thesis by (cases cfg) (auto simp: kept_def)
next
  case True
  let ?ys = "filter (ready s) qs"
  have len: "length ?ys \<le> 64"
    by (rule order_trans[OF length_filter_le]) (use rrq_length[OF q] in \<open>simp add: NPROC_def\<close>)
  have n: "count_low s ?ys \<le> 64" "count_mid s ?ys \<le> 64"
    unfolding count_low_def count_mid_def by (rule order_trans[OF length_filter_le len])+
  have c: "count_low (acq_st l s) = count_low s" "count_mid (acq_st l s) = count_mid s"
    by (simp_all add: count_low_def count_mid_def fun_eq_iff)
  from deliver_prs_ok[of "acq_st l s" qs] q z obtain t where
    t: "deliver_prs (acq_st l s) = Inr t" "delivered (acq_st l s) t (rev ?ys) ?ys"
    "\<forall>p\<in>set ?ys. tickets (ptable t p) =
       prs_tickets (of_nat (count_low s ?ys)) (of_nat (count_mid s ?ys)) (ptable s p)"
    unfolding c by auto
  have "\<exists>u. t = acq_st l u \<and> dealt cfg s u ?ys"
    by (rule dealt_acq[OF t(2) z])
      (simp add: t(3)[rule_format] prs_tickets_unat[OF n] ticket_share_def True)
  with t(1) True show ?thesis by (auto simp: kept_def)
qed

lemma deliver_deals:
  assumes q: "rrq s qs" and l: "lock_free RrqueueLock s" "cpu_ok s" and cfg: "cfg \<noteq> DEFAULT"
  shows "\<exists>u. deliverTicketsToFIFOProcs cfg s = Inr (lock_cycle u) \<and>
    dealt cfg (s\<lparr>totalTickets := 0\<rparr>) u (kept cfg s qs)"
proof -
  let ?s = "s\<lparr>totalTickets := 0\<rparr>"
  have q0: "rrq ?s qs" using q by (simp add: rrq_def nx_def[abs_def] pv_def[abs_def])
  show ?thesis
  proof (cases "qs = []")
    case True
    then have "rr_last s = None" using rrq_last[OF q] by simp
    moreover have "dealt cfg ?s ?s []" using q0 True by (simp add: dealt_def)
    ultimately show ?thesis
      using l True by (intro exI[of _ ?s])
        (simp add: deliverTicketsToFIFOProcs_def acquire_free release_acq_st kept_def)
  next
    case False
    then have last: "rr_last s \<noteq> None" using rrq_last[OF q] by simp
    from deal_policy[OF q0 _ False cfg, of RrqueueLock] obtain u where
      u: "(case cfg of DEFAULT \<Rightarrow> Inr (acq_st RrqueueLock ?s) | FRR \<Rightarrow> deliver_fifo (acq_st RrqueueLock ?s)
        | FCFS \<Rightarrow> deliver_fifo (acq_st RrqueueLock ?s) | PRS \<Rightarrow> deliver_prs (acq_st RrqueueLock ?s))
        = Inr (acq_st RrqueueLock u)" "dealt cfg ?s u (kept cfg ?s qs)" by auto
    have k: "kept cfg ?s qs = kept cfg s qs" by (simp add: kept_def)
    have f: "qframe ?s u" and ru: "rrq u (kept cfg s qs)" using u(2) k by (auto simp: dealt_def)
    have lu: "lock_free RrqueueLock u" "cpu_ok u" using l f by simp_all
    have "deliverTicketsToFIFOProcs cfg s = printRRQueue (lock_cycle u)"
      using l lu u(1) by (simp add: last deliverTicketsToFIFOProcs_def acquire_free release_acq_st)
    also have "\<dots> = Inr (lock_cycle u)"
      by (subst printRRQueue_eq[of _ "kept cfg s qs"]) (use ru lu in auto)
    finally show ?thesis using u(2) k by auto
  qed
qed

section \<open>Drawing\<close>

definition draw :: "'a procst_scheme \<Rightarrow> u32" where
  "draw s = crem (fst (xorshift128 s)) (totalTickets s)"

definition rolled :: "'a procst_scheme \<Rightarrow> 'a procst_scheme" where
  "rolled s = (if 0 < sint (totalTickets s) then snd (xorshift128 s) else s)"

lemma xorshift128_lock [simp]:
  "xorshift128 (acq_st l s) = (fst (xorshift128 s), acq_st l (snd (xorshift128 s)))"
  "ptable (snd (xorshift128 s)) = ptable s" "rr_first (snd (xorshift128 s)) = rr_first s"
  "totalTickets (snd (xorshift128 s)) = totalTickets s"
  by (simp_all add: xorshift128_def Let_def)

lemma pickProcess_eq:
  assumes q: "rrq s qs" and l: "lock_free RrqueueLock s" "cpu_ok s"
  shows "pickProcess s = Inr (if 0 < sint (totalTickets s)
      then find (\<lambda>p. holds_ticket (draw s) (ptable s p)) qs else None, lock_cycle (rolled s))"
proof -
  have "pick_loop (ptable s) t (rr_first s) = Some (find (\<lambda>p. holds_ticket t (ptable s p)) qs)" for t
    by (rule pick_loop_find) (use q in \<open>simp add: rrq_def dll_def nx_def[abs_def]\<close>)
  with l show ?thesis
    by (simp add: pickProcess_def acquire_free release_acq_st draw_def rolled_def split_beta)
qed

lemma draw_less: "0 < unat (totalTickets s) \<Longrightarrow> unat (totalTickets s) < 2 ^ 31 \<Longrightarrow>
    unat (draw s) < unat (totalTickets s)"
  unfolding draw_def by (rule crem_range[OF xorshift128_nonneg])

lemma pick_ticketed:
  assumes q: "rrq s qs" and t: "ticketed (ptable s) (rev qs) 0 (unat (totalTickets s))"
    and tot: "unat (totalTickets s) < 2 ^ 31" "0 < unat (totalTickets s) \<longleftrightarrow> qs \<noteq> []"
    and l: "lock_free RrqueueLock s" "cpu_ok s"
  shows "\<exists>sel. pickProcess s = Inr (sel, lock_cycle (rolled s)) \<and>
    (sel = None \<longleftrightarrow> qs = [] \<or> draw s = 0) \<and>
    (\<forall>p. sel = Some p \<longrightarrow> p \<in> set qs \<and> (\<forall>q\<in>set qs. holds_ticket (draw s) (ptable s q) \<longleftrightarrow> q = p))"
proof -
  have pos: "0 < sint (totalTickets s) \<longleftrightarrow> qs \<noteq> []"
    using tot by (simp add: sint_small del: of_nat_unat)
  show ?thesis
  proof (cases "qs = []")
    case True
    then show ?thesis using pickProcess_eq[OF q l] pos by simp
  next
    case False
    have dr: "unat (draw s) < unat (totalTickets s)" using draw_less tot False by blast
    show ?thesis
    proof (cases "draw s = 0")
      case True
      have "\<not> holds_ticket (draw s) (ptable s p)" if "p \<in> set qs" for p
        by (rule ticketed_outside[OF t tot(1)]) (use that True in auto)
      then have "find (\<lambda>p. holds_ticket (draw s) (ptable s p)) qs = None" by (auto simp: find_None_iff)
      then show ?thesis using pickProcess_eq[OF q l] True by simp
    next
      case nz: False
      then have "0 < unat (draw s)" by (simp add: unat_gt_0)
      with ticketed_winner[OF t tot(1), of "draw s"] dr rrq_distinct[OF q] obtain p where
        p: "p \<in> set qs" "\<forall>q\<in>set qs. holds_ticket (draw s) (ptable s q) \<longleftrightarrow> q = p" by auto
      with find_winner[OF p] pickProcess_eq[OF q l] pos False nz show ?thesis by auto
    qed
  qed
qed

text \<open>Delivery and draw together, the way the scheduler calls them.\<close>

lemma rolled_rrq: "rrq (rolled s) qs = rrq s qs"
  by (simp add: rrq_def nx_def[abs_def] pv_def[abs_def] rolled_def xorshift128_def Let_def)

lemma round_ok:
  assumes "rrq s qs" "lock_free RrqueueLock s" "cpu_ok s" "cfg \<noteq> DEFAULT"
  shows "\<exists>u sel. deliverTicketsToFIFOProcs cfg s = Inr (lock_cycle u) \<and> qframe (s\<lparr>totalTickets := 0\<rparr>) u \<and>
    pickProcess (lock_cycle u) = Inr (sel, lock_cycle (rolled (lock_cycle u))) \<and>
    (kept cfg s qs \<noteq> [] \<longrightarrow> unat (draw (lock_cycle u)) < unat (totalTickets (lock_cycle u))) \<and>
    (sel = None \<longleftrightarrow> kept cfg s qs = [] \<or> draw (lock_cycle u) = 0) \<and>
    (\<forall>p. sel = Some p \<longrightarrow> p \<in> set (kept cfg s qs) \<and>
      (\<forall>q\<in>set (kept cfg s qs). holds_ticket (draw (lock_cycle u)) (ptable (lock_cycle u) q) \<longleftrightarrow> q = p)) \<and>
    rrq (rolled (lock_cycle u)) (kept cfg s qs)"
proof -
  let ?ks = "kept cfg s qs"
  from deliver_deals[OF assms] obtain u where u: "deliverTicketsToFIFOProcs cfg s = Inr (lock_cycle u)"
    "dealt cfg (s\<lparr>totalTickets := 0\<rparr>) u ?ks" by blast
  then have f: "qframe (s\<lparr>totalTickets := 0\<rparr>) u" and q: "rrq u ?ks"
    and t: "ticketed (ptable u) (rev ?ks) 0 (unat (totalTickets u))" by (auto simp: dealt_def)
  note tot = dealt_total[OF u(2)]
  have l: "lock_free RrqueueLock u" "cpu_ok u" using assms(2,3) f by simp_all
  have d: "?ks \<noteq> [] \<longrightarrow> unat (draw (lock_cycle u)) < unat (totalTickets (lock_cycle u))"
    using draw_less[of "lock_cycle u"] tot by simp
  from pick_ticketed[of "lock_cycle u" ?ks] q t tot l d u(1) f show ?thesis
    by (auto simp: rolled_rrq)
qed

section \<open>Theorems\<close>

definition idle_proc :: proc where
  "idle_proc = \<lparr>sz = 0, pgdir = 0, kstack = 0, state = UNUSED, pid = 0, parent = None, tf = 0, backuptf = 0,
     ctxt = 0, chan = None, killed = False, ofile = (\<lambda>_. None), cwd = None, pname = replicate 16 0,
     pending = 0, insignal = False, signal_handlers = (\<lambda>_. 0), ctime = 0, ttime = 0, stime = 0,
     retime = 0, rutime = 0, runQuanta = 0, priority = 0, tickets = 0, firstTicketNum = 0,
     rrnext = None, rrprev = None\<rparr>"

text \<open>The state of the process component when the kernel starts.\<close>

definition boot_procst :: procst where
  "boot_procst = memst.extend blank_memst
     \<lparr>ptable = (\<lambda>_. idle_proc), initproc = None, nextpid = 1, rr_first = None, rr_last = None,
      totalTickets = 0, xs_x = 1, xs_y = 2, xs_z = 3, xs_w = 4, ticks = 0, kpgdir = 0,
      cctx = (\<lambda>_. \<lparr>cproc = None, gdt = (\<lambda>_. SEG 0 0 0 0), ss0 = 0, esp0 = 0, cr3 = 0,
        ts_addr = 0, cpu_addr = 0\<rparr>)\<rparr>"

lemma boot_procst_sel [simp]:
  "ptable boot_procst = (\<lambda>_. idle_proc)" "rr_first boot_procst = None" "rr_last boot_procst = None"
  "lock_free l boot_procst" "cpu_ok boot_procst" "myproc boot_procst = None"
  "xs_x boot_procst = 1" "xs_y boot_procst = 2" "xs_z boot_procst = 3" "xs_w boot_procst = 4"
  by (simp_all add: boot_procst_def blank_memst_def boot_mach_def memst.defs mach.defs lock_free_def cpu_ok_def)

lemma boot_rrq: "rrq boot_procst []"
  by (simp add: rrq_def dll_def nx_def pv_def idle_proc_def)

text \<open>Three runnable processes with priorities 0, 1 and 2 in slots 4, 7 and 9, queued in that order.\<close>

definition demo_procst :: procst where
  "demo_procst = fold rr_push [4, 7, 9] (boot_procst\<lparr>ptable :=
     (\<lambda>_. idle_proc)(4 := idle_proc\<lparr>state := RUNNABLE\<rparr>, 7 := idle_proc\<lparr>state := RUNNABLE, priority := 1\<rparr>,
       9 := idle_proc\<lparr>state := RUNNABLE, priority := 2\<rparr>)\<rparr>)"

lemma demo_rrq: "rrq demo_procst [4, 7, 9]"
proof -
  have "rrq (boot_procst\<lparr>ptable := (\<lambda>_. idle_proc)(4 := idle_proc\<lparr>state := RUNNABLE\<rparr>,
      7 := idle_proc\<lparr>state := RUNNABLE, priority := 1\<rparr>, 9 := idle_proc\<lparr>state := RUNNABLE, priority := 2\<rparr>)\<rparr>) []"
    by (simp add: rrq_def dll_def nx_def pv_def idle_proc_def)
  from rr.enq_all[OF this, of "[4, 7, 9]"] show ?thesis by (fastforce simp: demo_procst_def NPROC_def)
qed

lemma demo_locks [simp]: "lock_free l demo_procst" "cpu_ok demo_procst"
  by (simp_all add: demo_procst_def)

lemma demo_ready [simp]: "ready demo_procst 4" "ready demo_procst 7" "ready demo_procst 9"
  by (simp_all add: demo_procst_def rr_push_def upd_proc_def)

lemma demo_prio [simp]:
  "priority (ptable demo_procst 4) = 0" "priority (ptable demo_procst 7) = 1" "priority (ptable demo_procst 9) = 2"
  by (simp_all add: demo_procst_def rr_push_def upd_proc_def idle_proc_def)

text \<open>C3. The queue of runnable processes is a FIFO. \<open>pushProcToRRqueue\<close> on the doubly linked list that
  holds \<open>qs\<close> returns and leaves one that holds \<open>qs\<close> followed by the new process;
  \<open>removeProcFromRRqueue\<close> takes a process out from any place of the list; so processes pushed in some
  order and removed from the front leave in that order.\<close>

theorem run_queue_fifo:
  assumes "rrq s qs" "lock_free RrqueueLock s" "cpu_ok s"
  shows "(p < NPROC \<and> p \<notin> set qs \<longrightarrow>
      (\<exists>s'. pushProcToRRqueue p s = Inr s' \<and> rrq s' (qs @ [p]) \<and> qframe (lock_cycle s) s')) \<and>
    (p \<in> set qs \<longrightarrow> rrq (removeProcFromRRqueue p s) (remove1 p qs)) \<and>
    (distinct (qs @ ps) \<and> set ps \<subseteq> {..<NPROC} \<longrightarrow>
      rrq (fold removeProcFromRRqueue qs (fold rr_push ps s)) ps)"
proof (intro conjI impI)
  show "\<exists>s'. pushProcToRRqueue p s = Inr s' \<and> rrq s' (qs @ [p]) \<and> qframe (lock_cycle s) s'"
    if "p < NPROC \<and> p \<notin> set qs"
    using that assms rr.enq[OF assms(1), of p] rr_push_qframe[of "lock_cycle s" p]
    by (simp add: pushProcToRRqueue_eq)
  show "rrq (removeProcFromRRqueue p s) (remove1 p qs)" if "p \<in> set qs"
    by (rule rr.deq[OF assms(1) that])
  show "rrq (fold removeProcFromRRqueue qs (fold rr_push ps s)) ps"
    if "distinct (qs @ ps) \<and> set ps \<subseteq> {..<NPROC}"
    by (rule rr.fifo(1)[OF assms(1)]) (use that in auto)
qed

theorem run_queue_fifo_witness:
  "rrq (removeProcFromRRqueue 7 demo_procst) [4, 9] \<and>
   (\<exists>s'. pushProcToRRqueue 2 demo_procst = Inr s' \<and> rrq s' [4, 7, 9, 2])"
  using run_queue_fifo[OF demo_rrq, of 7] run_queue_fifo[OF demo_rrq, of 2] by (auto simp: NPROC_def)

text \<open>C4. Ticket delivery. On a well-formed queue \<open>deliverTicketsToFIFOProcs\<close> terminates, keeps the
  runnable processes in order (and under FRR and FCFS the head), and gives them, from the last to the
  first, consecutive and disjoint intervals of ticket numbers that fill \<open>1..totalTickets\<close>. Under FRR and
  FCFS every process gets ten tickets and the head ten more than a hundred times the sum of all
  others; under PRS, with \<open>n1\<close> and \<open>n2\<close> processes of the lowest and
  the middle priority in the queue, the three priorities get \<open>10\<close>, \<open>10 + 1000 n1\<close> and
  \<open>10 + 1000 (n1 + 100 n2)\<close>. No sum overflows a signed 32-bit integer, and nothing but tickets and
  queue links changes.\<close>

theorem deliver_tickets:
  assumes "rrq s qs" "lock_free RrqueueLock s" "cpu_ok s" "cfg \<noteq> DEFAULT"
  shows "\<exists>s'. deliverTicketsToFIFOProcs cfg s = Inr s' \<and> rrq s' (kept cfg s qs) \<and>
    ticketed (ptable s') (rev (kept cfg s qs)) 0 (unat (totalTickets s')) \<and>
    (\<forall>p\<in>set (kept cfg s qs). unat (tickets (ptable s' p)) = ticket_share cfg s (kept cfg s qs) p) \<and>
    unat (totalTickets s') < 2 ^ 31 \<and> (\<forall>p. core (ptable s' p) = core (ptable s p))"
proof -
  from deliver_deals[OF assms] obtain u where u: "deliverTicketsToFIFOProcs cfg s = Inr (lock_cycle u)"
    "dealt cfg (s\<lparr>totalTickets := 0\<rparr>) u (kept cfg s qs)" by blast
  have "ticket_share cfg (s\<lparr>totalTickets := 0\<rparr>) = ticket_share cfg s"
    by (simp add: ticket_share_def fun_eq_iff count_low_def count_mid_def)
  with u dealt_total(1)[OF u(2)] show ?thesis by (auto simp: dealt_def qframe_def)
qed

theorem deliver_tickets_witness:
  "\<exists>s'. deliverTicketsToFIFOProcs PRS demo_procst = Inr s' \<and> rrq s' [4, 7, 9] \<and>
    map (\<lambda>p. unat (tickets (ptable s' p))) [4, 7, 9] = [10, 1010, 101010]"
proof -
  have "kept PRS demo_procst [4, 7, 9] = [4, 7, 9]" by (rule kept_ready) auto
  with deliver_tickets[OF demo_rrq, of PRS] show ?thesis
    by (auto simp: ticket_share_def count_low_def count_mid_def)
qed

text \<open>C5. The lottery of one scheduling round. After a delivery \<open>pickProcess\<close> terminates; the number drawn
  is never negative and smaller than the number of tickets; it names exactly one process of the queue,
  the one that is returned, except for the number 0, which no process holds: then, and only then (or
  when the queue is empty), nothing is returned. The ticket numbers run from 1 to their total and the
  draws from 0 to one less, so the last ticket never wins and one draw in \<open>totalTickets\<close> is wasted.\<close>

theorem lottery_round:
  assumes "rrq s qs" "lock_free RrqueueLock s" "cpu_ok s" "cfg \<noteq> DEFAULT"
  shows "\<exists>s1 sel s2. deliverTicketsToFIFOProcs cfg s = Inr s1 \<and> pickProcess s1 = Inr (sel, s2) \<and>
    (kept cfg s qs \<noteq> [] \<longrightarrow> unat (draw s1) < unat (totalTickets s1)) \<and>
    (sel = None \<longleftrightarrow> kept cfg s qs = [] \<or> draw s1 = 0) \<and>
    (\<forall>p. sel = Some p \<longrightarrow> p \<in> set (kept cfg s qs) \<and>
      (\<forall>q\<in>set (kept cfg s qs). holds_ticket (draw s1) (ptable s1 q) \<longleftrightarrow> q = p)) \<and>
    rrq s2 (kept cfg s qs)"
proof -
  from round_ok[OF assms] show ?thesis by fastforce
qed

theorem lottery_round_witness:
  "\<exists>s1 sel s2. deliverTicketsToFIFOProcs FRR demo_procst = Inr s1 \<and> pickProcess s1 = Inr (sel, s2) \<and>
     rrq s2 [4, 7, 9] \<and> unat (draw s1) < unat (totalTickets s1)"
proof -
  have "kept FRR demo_procst [4, 7, 9] = [4, 7, 9]" by (rule kept_ready) auto
  with lottery_round[OF demo_rrq, of FRR] show ?thesis by auto
qed

end
