(* ===== verification/Xv6_Sched.thy ===== *)
theory Xv6_Sched
  imports Xv6_Draw
begin

unbundle bit_operations_syntax

text \<open>
  Process switching and the routines that change the state of processes: \<open>allocproc\<close>, the scheduler,
  \<open>sched\<close>, \<open>yield\<close>, \<open>sleep\<close>, \<open>wakeup\<close>, \<open>kill\<close>, \<open>signal\<close>, \<open>sigsend\<close>, \<open>wait\<close> and the last part
  of \<open>fork\<close> and \<open>exit\<close> (proc.c), with \<open>seginit\<close>, \<open>switchkvm\<close> and \<open>switchuvm\<close> of vm.c. A routine that
  switches to the processor's scheduler ends in the state at the switch; what it does when it is
  switched back to is a definition of its own, with the suffix \<open>_resume\<close>. The local variable \<open>intena\<close>
  of \<open>sched\<close>, which stays on the stack of the process meanwhile, is passed from the one to the other.
\<close>

section \<open>Definitions\<close>

text \<open>Addresses the linker assigns.\<close>

record link =
  l_end :: u32
  l_data :: u32
  l_forkret :: u32
  l_trapret :: u32

definition pinit :: "'a procst_scheme \<Rightarrow> 'a procst_scheme" where
  "pinit s = initlock PtableLock s"

definition SEG_KCODE :: nat where "SEG_KCODE = 1"
definition SEG_KDATA :: nat where "SEG_KDATA = 2"
definition SEG_KCPU :: nat where "SEG_KCPU = 3"
definition SEG_UCODE :: nat where "SEG_UCODE = 4"
definition SEG_UDATA :: nat where "SEG_UDATA = 5"
definition SEG_TSS :: nat where "SEG_TSS = 6"

definition seginit :: "'a procst_scheme \<Rightarrow> 'a procst_scheme" where
  "seginit s =
     upd_cctx (\<lambda>c. c\<lparr>gdt := (gdt c)(
         SEG_KCODE := SEG 0xA 0 0xFFFFFFFF 0, SEG_KDATA := SEG 0x2 0 0xFFFFFFFF 0,
         SEG_UCODE := SEG 0xA 0 0xFFFFFFFF 3, SEG_UDATA := SEG 0x2 0 0xFFFFFFFF 3,
         SEG_KCPU := SEG 0x2 (cpu_addr c) 8 0),
       cproc := None\<rparr>) s"

definition switchkvm :: "'a procst_scheme \<Rightarrow> 'a procst_scheme" where
  "switchkvm s = upd_cctx (\<lambda>c. c\<lparr>cr3 := v2p (kpgdir s)\<rparr>) s"

definition kvmalloc :: "link \<Rightarrow> 'a procst_scheme \<Rightarrow> 'a procst_scheme res" where
  "kvmalloc lk s = bindr (setupkvm (l_data lk) s) (\<lambda>(d, s). Inr (switchkvm (s\<lparr>kpgdir := d\<rparr>)))"

text \<open>The page table that the processor has loaded, as the kernel addresses it.\<close>

definition loaded_pgdir :: "'a procst_scheme \<Rightarrow> u32" where
  "loaded_pgdir s = p2v (cr3 (cctx s (cur s)))"

definition switchuvm :: "nat \<Rightarrow> 'a procst_scheme \<Rightarrow> 'a procst_scheme res" where
  "switchuvm p s =
     bindr (theproc (pushcli s)) (\<lambda>me.
     let s = pushcli s;
         s = upd_cctx (\<lambda>c. c\<lparr>gdt := (gdt c)(SEG_TSS := (SEG16 0x9 (ts_addr c) 103 0)\<lparr>seg_s := False\<rparr>)\<rparr>) s;
         s = upd_cctx (\<lambda>c. c\<lparr>ss0 := of_nat SEG_KDATA * 8, esp0 := kstack (ptable s me) + KSTACKSIZE\<rparr>) s
     in if pgdir (ptable s p) = 0 then Inl (Panic ''switchuvm: no pgdir'')
        else popcli (upd_cctx (\<lambda>c. c\<lparr>cr3 := v2p (pgdir (ptable s p))\<rparr>) s))"

definition sizeof_trapframe :: u32 where "sizeof_trapframe = 76"
definition sizeof_context :: u32 where "sizeof_context = 20"

definition allocproc :: "link \<Rightarrow> 'a procst_scheme \<Rightarrow> (nat option \<times> 'a procst_scheme) res" where
  "allocproc lk s =
     bindr (acquire PtableLock s) (\<lambda>s.
     case scan (\<lambda>p. state (ptable s p) = UNUSED) NPROC of
       None \<Rightarrow> bindr (release PtableLock s) (\<lambda>s. Inr (None, s))
     | Some p \<Rightarrow>
         let s = upd_proc p (\<lambda>q. q\<lparr>state := EMBRYO, pid := nextpid s\<rparr>) s;
             s = s\<lparr>nextpid := nextpid s + 1\<rparr>
         in bindr (acquire TicksLock s) (\<lambda>s.
            bindr (release TicksLock (upd_proc p (\<lambda>q. q\<lparr>ctime := ticks s\<rparr>) s)) (\<lambda>s.
            bindr (release PtableLock s) (\<lambda>s.
            bindr (kalloc s) (\<lambda>(ks, s).
            let s = upd_proc p (\<lambda>q. q\<lparr>kstack := ks\<rparr>) s
            in if ks = 0 then Inr (None, upd_proc p (\<lambda>q. q\<lparr>state := UNUSED\<rparr>) s)
               else let sp = ks + KSTACKSIZE;
                        sp = sp - sizeof_trapframe;
                        s = upd_proc p (\<lambda>q. q\<lparr>tf := sp\<rparr>) s;
                        sp = sp - 4;
                        s = set_ram (store32 (ram s) sp (l_trapret lk)) s;
                        sp = sp - sizeof_context;
                        s = upd_proc p (\<lambda>q. q\<lparr>ctxt := sp\<rparr>) s;
                        s = set_ram (memset sp 0 sizeof_context (ram s)) s;
                        s = set_ram (store32 (ram s) (sp + 16) (l_forkret lk)) s
                 in Inr (Some p, s))))))"

definition sti :: "'a procst_scheme \<Rightarrow> 'a procst_scheme" where
  "sti s = set_cpu ((mycpu s)\<lparr>eflags_if := True\<rparr>) s"

text \<open>
  The scheduler runs as a coroutine of the processes. \<open>scheduler_enter\<close> is one turn of its loop up to
  the switch to the chosen process, or a whole turn when there is none to run; \<open>scheduler_back\<close> is
  what follows when the process switches back. Under the default policy the loop over the table then
  goes on behind the process that ran.
\<close>

definition scheduler_run :: "schedflag \<Rightarrow> nat \<Rightarrow> 'a procst_scheme \<Rightarrow> 'a procst_scheme res" where
  "scheduler_run cfg p s =
     (let s = upd_cctx (\<lambda>c. c\<lparr>cproc := Some p\<rparr>) s
      in bindr (if cfg = DEFAULT then Inr s
                else bindr (acquire RrqueueLock s) (\<lambda>s. release RrqueueLock (removeProcFromRRqueue p s))) (\<lambda>s.
         bindr (switchuvm p s) (\<lambda>s. Inr (upd_proc p (\<lambda>q. q\<lparr>state := RUNNING\<rparr>) s))))"

definition scheduler_end :: "'a procst_scheme \<Rightarrow> (nat option \<times> 'a procst_scheme) res" where
  "scheduler_end s = bindr (release PtableLock s) (\<lambda>s. Inr (None, s))"

definition scheduler_scan :: "nat \<Rightarrow> 'a procst_scheme \<Rightarrow> (nat option \<times> 'a procst_scheme) res" where
  "scheduler_scan k s =
     (case scan_from (\<lambda>p. state (ptable s p) = RUNNABLE) k (NPROC - k) of
        None \<Rightarrow> scheduler_end s
      | Some p \<Rightarrow> bindr (scheduler_run DEFAULT p s) (\<lambda>s. Inr (Some p, s)))"

definition scheduler_enter :: "schedflag \<Rightarrow> 'a procst_scheme \<Rightarrow> (nat option \<times> 'a procst_scheme) res" where
  "scheduler_enter cfg s =
     bindr (acquire PtableLock (sti s)) (\<lambda>s.
     if cfg = DEFAULT then scheduler_scan 0 s
     else bindr (deliverTicketsToFIFOProcs cfg s) (\<lambda>s.
          bindr (pickProcess s) (\<lambda>(p, s).
          case p of None \<Rightarrow> scheduler_end s
          | Some p \<Rightarrow> bindr (scheduler_run cfg p s) (\<lambda>s. Inr (Some p, s)))))"

definition scheduler_back :: "schedflag \<Rightarrow> nat \<Rightarrow> 'a procst_scheme \<Rightarrow> (nat option \<times> 'a procst_scheme) res" where
  "scheduler_back cfg p s =
     (let s = switchkvm s;
          s = upd_cctx (\<lambda>c. c\<lparr>cproc := None\<rparr>) s
      in if cfg = DEFAULT then scheduler_scan (Suc p) s else scheduler_end s)"

definition sched :: "'a procst_scheme \<Rightarrow> (bool \<times> 'a procst_scheme) res" where
  "sched s =
     (if \<not> holding PtableLock s then Inl (Panic ''sched ptable.lock'')
      else if ncli (mycpu s) \<noteq> 1 then Inl (Panic ''sched locks'')
      else bindr (theproc s) (\<lambda>me.
        if state (ptable s me) = RUNNING then Inl (Panic ''sched running'')
        else if eflags_if (mycpu s) then Inl (Panic ''sched interruptible'')
        else Inr (intena (mycpu s), s)))"

definition sched_resume :: "bool \<Rightarrow> 'a procst_scheme \<Rightarrow> 'a procst_scheme" where
  "sched_resume i s = set_cpu ((mycpu s)\<lparr>intena := i\<rparr>) s"

text \<open>Making a process runnable: the queue exists only when a policy other than the default is
  compiled in.\<close>

definition enqueue :: "schedflag \<Rightarrow> nat \<Rightarrow> 'a procst_scheme \<Rightarrow> 'a procst_scheme res" where
  "enqueue cfg p s =
     (if cfg = FRR \<or> cfg = FCFS \<or> cfg = PRS then pushProcToRRqueue p s else Inr s)"

definition yield :: "schedflag \<Rightarrow> 'a procst_scheme \<Rightarrow> (bool \<times> 'a procst_scheme) res" where
  "yield cfg s =
     bindr (acquire PtableLock s) (\<lambda>s.
     bindr (theproc s) (\<lambda>me.
     bindr (enqueue cfg me (upd_proc me (\<lambda>q. q\<lparr>state := RUNNABLE\<rparr>) s)) sched))"

definition yield_resume :: "bool \<Rightarrow> 'a procst_scheme \<Rightarrow> 'a procst_scheme res" where
  "yield_resume i s = release PtableLock (sched_resume i s)"

definition sleep :: "chan \<Rightarrow> lockid option \<Rightarrow> 'a procst_scheme \<Rightarrow> (bool \<times> 'a procst_scheme) res" where
  "sleep ch l s =
     (case myproc s of None \<Rightarrow> Inl (Panic ''sleep'')
      | Some me \<Rightarrow>
        (case l of None \<Rightarrow> Inl (Panic ''sleep without lk'')
         | Some l \<Rightarrow>
           bindr (if l \<noteq> PtableLock then bindr (acquire PtableLock s) (release l) else Inr s) (\<lambda>s.
           sched (upd_proc me (\<lambda>q. q\<lparr>chan := Some ch, state := SLEEPING\<rparr>) s))))"

text \<open>Awake again: \<open>sleep_tidy\<close> is the part up to the release of the table's lock, after which the
  process may have to spin for the lock it came with.\<close>

definition sleep_tidy :: "lockid \<Rightarrow> bool \<Rightarrow> 'a procst_scheme \<Rightarrow> 'a procst_scheme res" where
  "sleep_tidy l i s =
     (let s = sched_resume i s
      in bindr (theproc s) (\<lambda>me.
         let s = upd_proc me (\<lambda>q. q\<lparr>chan := None\<rparr>) s
         in if l \<noteq> PtableLock then release PtableLock s else Inr s))"

definition sleep_resume :: "lockid \<Rightarrow> bool \<Rightarrow> 'a procst_scheme \<Rightarrow> 'a procst_scheme res" where
  "sleep_resume l i s =
     bindr (sleep_tidy l i s) (\<lambda>s. if l \<noteq> PtableLock then acquire l s else Inr s)"

definition wakeup1 :: "schedflag \<Rightarrow> chan option \<Rightarrow> 'a procst_scheme \<Rightarrow> 'a procst_scheme res" where
  "wakeup1 cfg ch s =
     forr 0 NPROC (\<lambda>p s.
       if state (ptable s p) = SLEEPING \<and> chan (ptable s p) = ch
       then enqueue cfg p (upd_proc p (\<lambda>q. q\<lparr>state := RUNNABLE\<rparr>) s)
       else Inr s) s"

definition wakeup :: "schedflag \<Rightarrow> chan option \<Rightarrow> 'a procst_scheme \<Rightarrow> 'a procst_scheme res" where
  "wakeup cfg ch s =
     bindr (acquire PtableLock s) (\<lambda>s. bindr (wakeup1 cfg ch s) (release PtableLock))"

definition kill :: "schedflag \<Rightarrow> u32 \<Rightarrow> 'a procst_scheme \<Rightarrow> (int \<times> 'a procst_scheme) res" where
  "kill cfg pd s =
     bindr (acquire PtableLock s) (\<lambda>s.
     case scan (\<lambda>p. pid (ptable s p) = pd) NPROC of
       None \<Rightarrow> bindr (release PtableLock s) (\<lambda>s. Inr (-1, s))
     | Some p \<Rightarrow>
         let s = upd_proc p (\<lambda>q. q\<lparr>killed := True\<rparr>) s
         in bindr (if state (ptable s p) = SLEEPING
                   then enqueue cfg p (upd_proc p (\<lambda>q. q\<lparr>state := RUNNABLE\<rparr>) s) else Inr s) (\<lambda>s.
            bindr (release PtableLock s) (\<lambda>s. Inr (0, s))))"

definition signal :: "int \<Rightarrow> u32 \<Rightarrow> 'a procst_scheme \<Rightarrow> (u32 \<times> 'a procst_scheme) res" where
  "signal signum handler s =
     (if signum \<ge> 32 \<or> signum < 0 then Inr (-1, s)
      else bindr (theproc s) (\<lambda>me.
        let old = signal_handlers (ptable s me) (nat signum)
        in Inr (old, upd_proc me (\<lambda>q. q\<lparr>signal_handlers := (signal_handlers q)(nat signum := handler)\<rparr>) s)))"

definition sigsend :: "u32 \<Rightarrow> int \<Rightarrow> 'a procst_scheme \<Rightarrow> (int \<times> 'a procst_scheme) res" where
  "sigsend pd signum s =
     (if signum \<ge> 31 \<or> signum < 0 then Inr (-1, s)
      else let signumBits = push_bit (nat signum) 1
        in bindr (acquire PtableLock s) (\<lambda>s.
           case scan (\<lambda>p. pid (ptable s p) = pd) NPROC of
             None \<Rightarrow> bindr (release PtableLock s) (\<lambda>s. Inr (-1, s))
           | Some p \<Rightarrow>
               let s = upd_proc p (\<lambda>q. q\<lparr>pending := pending q OR signumBits\<rparr>) s;
                   s = (if state (ptable s p) = SLEEPING then upd_proc p (\<lambda>q. q\<lparr>state := RUNNABLE\<rparr>) s else s)
               in bindr (release PtableLock s) (\<lambda>s. Inr (0, s))))"

definition advance_proc :: "proc \<Rightarrow> proc" where
  "advance_proc p =
     (if state p = RUNNING then p\<lparr>rutime := rutime p + 1\<rparr>
      else if state p = RUNNABLE then p\<lparr>retime := retime p + 1\<rparr>
      else if state p = SLEEPING then p\<lparr>stime := stime p + 1\<rparr>
      else p)"

definition advanceprocstats :: "'a procst_scheme \<Rightarrow> 'a procst_scheme res" where
  "advanceprocstats s = forr 0 NPROC (\<lambda>p s. Inr (upd_proc p advance_proc s)) s"

text \<open>The end of \<open>fork\<close>: the new process becomes runnable (proc.c, lines 347 to 353).\<close>

definition fork_ready :: "schedflag \<Rightarrow> nat \<Rightarrow> 'a procst_scheme \<Rightarrow> 'a procst_scheme res" where
  "fork_ready cfg np s =
     bindr (acquire PtableLock s) (\<lambda>s.
     bindr (enqueue cfg np (upd_proc np (\<lambda>q. q\<lparr>state := RUNNABLE\<rparr>) s)) (release PtableLock))"

text \<open>The end of \<open>exit\<close>, under the lock of the table (proc.c, lines 383 to 404).\<close>

definition exit_reparent :: "schedflag \<Rightarrow> nat \<Rightarrow> 'a procst_scheme \<Rightarrow> 'a procst_scheme res" where
  "exit_reparent cfg me s =
     forr 0 NPROC (\<lambda>p s.
       if parent (ptable s p) = Some me
       then let s = upd_proc p (\<lambda>q. q\<lparr>parent := initproc s\<rparr>) s
         in if state (ptable s p) = ZOMBIE then wakeup1 cfg (map_option ChanProc (initproc s)) s else Inr s
       else Inr s) s"

definition exit_sched :: "schedflag \<Rightarrow> 'a procst_scheme \<Rightarrow> (bool \<times> 'a procst_scheme) res" where
  "exit_sched cfg s =
     bindr (acquire PtableLock s) (\<lambda>s.
     bindr (theproc s) (\<lambda>me.
     bindr (wakeup1 cfg (map_option ChanProc (parent (ptable s me))) s) (\<lambda>s.
     bindr (exit_reparent cfg me s) (\<lambda>s.
     bindr (acquire TicksLock (upd_proc me (\<lambda>q. q\<lparr>state := ZOMBIE\<rparr>) s)) (\<lambda>s.
     bindr (release TicksLock (upd_proc me (\<lambda>q. q\<lparr>ttime := ticks s\<rparr>) s)) sched)))))"

text \<open>What a call that may sleep has done: returned a value, or switched away with the flag that
  \<open>sched\<close> keeps.\<close>

datatype 'r outcome = Done 'r | Switched bool

definition wait_reap :: "link \<Rightarrow> nat \<Rightarrow> 'a procst_scheme \<Rightarrow> (u32 \<times> 'a procst_scheme) res" where
  "wait_reap lk p s =
     (let pd = pid (ptable s p)
      in bindr (kfree (l_end lk) (kstack (ptable s p)) s) (\<lambda>s.
         let s = upd_proc p (\<lambda>q. q\<lparr>kstack := 0\<rparr>) s
         in bindr (freevm (l_end lk) (pgdir (ptable s p)) s) (\<lambda>s.
            Inr (pd, upd_proc p (\<lambda>q. q\<lparr>state := UNUSED, pid := 0, parent := None,
              pname := (pname q)[0 := 0], killed := False, runQuanta := 0, rutime := 0\<rparr>) s))))"

text \<open>One turn of the loop of \<open>wait\<close>, with the lock of the table held.\<close>

definition wait_turn :: "link \<Rightarrow> 'a procst_scheme \<Rightarrow> (u32 outcome \<times> 'a procst_scheme) res" where
  "wait_turn lk s =
     bindr (theproc s) (\<lambda>me.
     case scan (\<lambda>p. parent (ptable s p) = Some me \<and> state (ptable s p) = ZOMBIE) NPROC of
       Some p \<Rightarrow> bindr (wait_reap lk p s) (\<lambda>(pd, s).
           bindr (release PtableLock s) (\<lambda>s. Inr (Done pd, s)))
     | None \<Rightarrow>
         if scan (\<lambda>p. parent (ptable s p) = Some me) NPROC = None \<or> killed (ptable s me)
         then bindr (release PtableLock s) (\<lambda>s. Inr (Done (-1), s))
         else bindr (sleep (ChanProc me) (Some PtableLock) s) (\<lambda>(i, s). Inr (Switched i, s)))"

definition wait :: "link \<Rightarrow> 'a procst_scheme \<Rightarrow> (u32 outcome \<times> 'a procst_scheme) res" where
  "wait lk s = bindr (acquire PtableLock s) (wait_turn lk)"

definition wait_resume :: "link \<Rightarrow> bool \<Rightarrow> 'a procst_scheme \<Rightarrow> (u32 outcome \<times> 'a procst_scheme) res" where
  "wait_resume lk i s = bindr (sleep_resume PtableLock i s) (wait_turn lk)"

text \<open>\<open>wait_stat\<close> stores the times of the child through a pointer of the calling process and, unlike
  \<open>wait\<close>, does not reset its \<open>runQuanta\<close> and \<open>rutime\<close>.\<close>

definition put_perf :: "u32 \<Rightarrow> nat \<Rightarrow> nat \<Rightarrow> 'a procst_scheme \<Rightarrow> 'a procst_scheme res" where
  "put_perf perfP p me s =
     (let q = ptable s p; d = pgdir (ptable s me)
      in bindr (ustore32 d perfP (ctime q) s) (\<lambda>s.
         bindr (ustore32 d (perfP + 4) (ttime q) s) (\<lambda>s.
         bindr (ustore32 d (perfP + 8) (stime q) s) (\<lambda>s.
         bindr (ustore32 d (perfP + 12) (retime q) s) (\<lambda>s.
         ustore32 d (perfP + 16) (rutime q) s)))))"

definition wait_stat_reap :: "link \<Rightarrow> nat \<Rightarrow> 'a procst_scheme \<Rightarrow> (u32 \<times> 'a procst_scheme) res" where
  "wait_stat_reap lk p s =
     (let pd = pid (ptable s p)
      in bindr (kfree (l_end lk) (kstack (ptable s p)) s) (\<lambda>s.
         let s = upd_proc p (\<lambda>q. q\<lparr>kstack := 0\<rparr>) s
         in bindr (freevm (l_end lk) (pgdir (ptable s p)) s) (\<lambda>s.
            Inr (pd, upd_proc p (\<lambda>q. q\<lparr>state := UNUSED, pid := 0, parent := None,
              pname := (pname q)[0 := 0], killed := False\<rparr>) s))))"

definition wait_stat_turn :: "link \<Rightarrow> u32 \<Rightarrow> 'a procst_scheme \<Rightarrow> (u32 outcome \<times> 'a procst_scheme) res" where
  "wait_stat_turn lk perfP s =
     bindr (theproc s) (\<lambda>me.
     case scan (\<lambda>p. parent (ptable s p) = Some me \<and> state (ptable s p) = ZOMBIE) NPROC of
       Some p \<Rightarrow> bindr (put_perf perfP p me s) (\<lambda>s.
           bindr (wait_stat_reap lk p s) (\<lambda>(pd, s).
           bindr (release PtableLock s) (\<lambda>s. Inr (Done pd, s))))
     | None \<Rightarrow>
         if scan (\<lambda>p. parent (ptable s p) = Some me) NPROC = None \<or> killed (ptable s me)
         then bindr (release PtableLock s) (\<lambda>s. Inr (Done (-1), s))
         else bindr (sleep (ChanProc me) (Some PtableLock) s) (\<lambda>(i, s). Inr (Switched i, s)))"

definition wait_stat :: "link \<Rightarrow> u32 \<Rightarrow> 'a procst_scheme \<Rightarrow> (u32 outcome \<times> 'a procst_scheme) res" where
  "wait_stat lk perfP s = bindr (acquire PtableLock s) (wait_stat_turn lk perfP)"

definition growproc :: "link \<Rightarrow> int \<Rightarrow> 'a procst_scheme \<Rightarrow> (int \<times> 'a procst_scheme) res" where
  "growproc lk n s =
     bindr (theproc s) (\<lambda>me.
     let z = sz (ptable s me); d = pgdir (ptable s me)
     in bindr (if n > 0 then allocuvm (l_end lk) d z (z + of_int n) s
               else if n < 0 then deallocuvm (l_end lk) d z (z + of_int n) s
               else Inr (z, s)) (\<lambda>(z', s).
        if n \<noteq> 0 \<and> z' = 0 then Inr (-1, s)
        else bindr (switchuvm me (upd_proc me (\<lambda>q. q\<lparr>sz := z'\<rparr>) s)) (\<lambda>s. Inr (0, s))))"

end
