(* ===== verification/Xv6_Switch.thy ===== *)
theory Xv6_Switch
  imports Xv6_Sched
begin

text \<open>
  Functional behaviour of the routines of \<open>Xv6_Sched\<close> on the queue and on the states of processes.
\<close>

section \<open>Frames\<close>

text \<open>\<open>quiet s s'\<close>: between \<open>s\<close> and \<open>s'\<close> no lock changed hands, no processor changed its interrupt
  nesting, and no processor switched.\<close>

definition quiet :: "'a procst_scheme \<Rightarrow> 'a procst_scheme \<Rightarrow> bool" where
  "quiet s s' \<longleftrightarrow> locks s' = locks s \<and> cur s' = cur s \<and> (\<forall>c. cproc (cctx s' c) = cproc (cctx s c)) \<and>
     (\<forall>c. ncli (cpus s' c) = ncli (cpus s c) \<and> eflags_if (cpus s' c) = eflags_if (cpus s c))"

lemma quiet_refl [simp]: "quiet s s"
  by (simp add: quiet_def)

lemma quiet_trans [trans]: "quiet s t \<Longrightarrow> quiet t u \<Longrightarrow> quiet s u"
  by (auto simp: quiet_def)

lemma quiet_cycle [simp]: "quiet s (lock_cycle t) = quiet s t" "quiet (lock_cycle s) t = quiet s t"
  by (auto simp: quiet_def cpus_lock_cycle)

lemma quiet_upd_proc [simp]: "quiet s (upd_proc p f t) = quiet s t" "quiet (upd_proc p f s) t = quiet s t"
  by (simp_all add: quiet_def)

lemma quiet_qframe: "qframe s t \<Longrightarrow> quiet s t"
  using qframe_sel(3-6)[of s t] by (auto simp: quiet_def)

lemma quiet_locks: "quiet s s' \<Longrightarrow> lock_free l s' = lock_free l s" "quiet s s' \<Longrightarrow> cpu_ok s' = cpu_ok s"
  by (auto simp: quiet_def lock_free_def cpu_ok_def)

text \<open>States change as \<open>f\<close> says; the fields the queue does not own stay.\<close>

definition states :: "'a procst_scheme \<Rightarrow> nat \<Rightarrow> procstate" where
  "states s p = state (ptable s p)"

definition stateless :: "proc \<Rightarrow> proc" where
  "stateless p = (core p)\<lparr>state := UNUSED\<rparr>"

definition only_states :: "'a procst_scheme \<Rightarrow> 'a procst_scheme \<Rightarrow> bool" where
  "only_states s s' \<longleftrightarrow> (\<forall>p. stateless (ptable s' p) = stateless (ptable s p)) \<and> initproc s' = initproc s"

lemma only_states_refl [simp]: "only_states s s"
  by (simp add: only_states_def)

lemma only_states_trans: "only_states s t \<Longrightarrow> only_states t u \<Longrightarrow> only_states s u"
  by (simp add: only_states_def)

lemma stateless_sel:
  assumes "stateless p = stateless q"
  shows "chan p = chan q" "pid p = pid q" "killed p = killed q" "parent p = parent q" "pgdir p = pgdir q"
    "kstack p = kstack q"
  using assms by (auto simp: stateless_def core_def dest: arg_cong[of _ _ pid] arg_cong[of _ _ chan]
      arg_cong[of _ _ killed] arg_cong[of _ _ pgdir] arg_cong[of _ _ kstack] arg_cong[of _ _ parent])

lemma qframe_only_states: "qframe s t \<Longrightarrow> only_states s t \<and> states t = states s"
proof -
  assume f: "qframe s t"
  then have e: "t = s\<lparr>ptable := ptable t, rr_first := rr_first t, rr_last := rr_last t, totalTickets := totalTickets t\<rparr>"
    and c: "\<And>p. core (ptable t p) = core (ptable s p)" by (auto simp: qframe_def)
  have "initproc t = initproc s" by (subst e, simp)
  with c qframe_sel(1)[OF f] show ?thesis by (auto simp: only_states_def stateless_def states_def)
qed

section \<open>The queue and the states\<close>

text \<open>Every queued process is runnable. With \<open>fst ex\<close> every runnable process is queued; the processes of
  \<open>snd ex\<close> are runnable and not queued. The default policy has no queue.\<close>

definition covered :: "schedflag \<Rightarrow> bool \<times> nat set \<Rightarrow> (nat \<Rightarrow> procstate) \<Rightarrow> nat list \<Rightarrow> bool" where
  "covered cfg ex st qs \<longleftrightarrow> (cfg \<noteq> DEFAULT \<longrightarrow>
     (fst ex \<longrightarrow> (\<forall>p<NPROC. st p = RUNNABLE \<longrightarrow> p \<in> set qs)) \<and> (\<forall>p\<in>snd ex. st p = RUNNABLE \<and> p \<notin> set qs))"

lemma covered_DEFAULT [simp]: "covered DEFAULT ex st qs"
  by (simp add: covered_def)

definition qinv :: "schedflag \<Rightarrow> bool \<times> nat set \<Rightarrow> 'a procst_scheme \<Rightarrow> bool" where
  "qinv cfg ex s \<longleftrightarrow> (\<exists>qs. rrq s qs \<and> (\<forall>p\<in>set qs. states s p = RUNNABLE) \<and> (cfg = DEFAULT \<longrightarrow> qs = []) \<and> covered cfg ex (states s) qs)"

lemma links_upd_proc:
  assumes "\<And>q. rrnext (f q) = rrnext q \<and> rrprev (f q) = rrprev q"
  shows "rrq (upd_proc p f s) qs = rrq s qs"
  by (rule rrq_cong) (auto simp: nx_def pv_def fun_eq_iff assms)

lemma states_upd_proc: "states (upd_proc p f s) = (states s)(p := state (f (ptable s p)))"
  by (auto simp: states_def)

lemma states_lock [simp]: "states (acq_st l s) = states s" "states (lock_cycle s) = states s"
  by (simp_all add: states_def fun_eq_iff)

lemma qinv_lock [simp]: "qinv cfg ex (acq_st l s) = qinv cfg ex s" "qinv cfg ex (lock_cycle s) = qinv cfg ex s"
  by (simp_all add: qinv_def)

lemma qinv_upd_other:
  assumes "qinv cfg ex s" "\<And>q. rrnext (f q) = rrnext q \<and> rrprev (f q) = rrprev q"
    and "state (f (ptable s p)) = state (ptable s p)"
  shows "qinv cfg ex (upd_proc p f s)"
proof -
  have "states (upd_proc p f s) = states s" using assms(3) by (auto simp: states_def)
  with assms(1) links_upd_proc[of f p s, OF assms(2)] show ?thesis by (simp add: qinv_def)
qed

lemma qinv_upd_unready:
  assumes "qinv cfg ex s" "\<And>q. rrnext (f q) = rrnext q \<and> rrprev (f q) = rrprev q"
    and "states s p \<noteq> RUNNABLE" "state (f (ptable s p)) \<noteq> RUNNABLE"
  shows "qinv cfg ex (upd_proc p f s)"
proof -
  from assms(1) obtain qs where qs: "rrq s qs" "\<forall>p\<in>set qs. states s p = RUNNABLE" "cfg = DEFAULT \<longrightarrow> qs = []"
    "covered cfg ex (states s) qs" by (auto simp: qinv_def)
  then have "p \<notin> set qs" using assms(3) by auto
  moreover have "covered cfg ex (states (upd_proc p f s)) qs" using qs(4) assms(3,4) by (auto simp: covered_def states_upd_proc)
  ultimately show ?thesis using qs links_upd_proc[of f p s, OF assms(2)] unfolding qinv_def by (intro exI[of _ qs]) (auto simp: states_upd_proc)
qed

lemma enqueue_ready:
  assumes q: "rrq s qs" and l: "lock_free RrqueueLock s" "cpu_ok s" and p: "p < NPROC" "p \<notin> set qs"
    and cfg: "cfg = DEFAULT \<Longrightarrow> qs = []"
  shows "\<exists>s'. enqueue cfg p (upd_proc p (\<lambda>q. q\<lparr>state := RUNNABLE\<rparr>) s) = Inr s' \<and>
    rrq s' (if cfg = DEFAULT then [] else qs @ [p]) \<and> states s' = (states s)(p := RUNNABLE) \<and>
    only_states s s' \<and> quiet s s'"
proof -
  let ?t = "upd_proc p (\<lambda>q. q\<lparr>state := RUNNABLE\<rparr>) s"
  have t: "rrq ?t qs" "states ?t = (states s)(p := RUNNABLE)" "only_states s ?t"
    using q by (auto simp: links_upd_proc states_upd_proc only_states_def stateless_def core_def)
  show ?thesis
  proof (cases "cfg = DEFAULT")
    case True
    with t cfg show ?thesis by (simp add: enqueue_def)
  next
    case False
    then have "enqueue cfg p ?t = Inr (lock_cycle (rr_push p ?t))"
      using l by (cases cfg) (simp_all add: enqueue_def pushProcToRRqueue_eq)
    moreover have "rrq (rr_push p ?t) (qs @ [p])" by (rule rr_push_rrq[OF t(1) p(2,1)])
    moreover have "only_states s (rr_push p ?t)" "states (rr_push p ?t) = states ?t"
      using qframe_only_states[OF rr_push_qframe[of ?t p]] t(3) only_states_trans by auto
    moreover have "quiet s (rr_push p ?t)" using quiet_qframe[OF rr_push_qframe[of ?t p]] by simp
    ultimately show ?thesis using t(2) False by (auto simp: only_states_def)
  qed
qed

lemma enqueue_qinv:
  assumes q: "qinv cfg ex s" and l: "lock_free RrqueueLock s" "cpu_ok s"
    and p: "p < NPROC" "states s p \<noteq> RUNNABLE"
  shows "\<exists>s'. enqueue cfg p (upd_proc p (\<lambda>q. q\<lparr>state := RUNNABLE\<rparr>) s) = Inr s' \<and>
    qinv cfg ex s' \<and> states s' = (states s)(p := RUNNABLE) \<and> only_states s s' \<and> quiet s s'"
proof -
  from q obtain qs where qs: "rrq s qs" "\<forall>p\<in>set qs. states s p = RUNNABLE" "cfg = DEFAULT \<longrightarrow> qs = []"
    "covered cfg ex (states s) qs" by (auto simp: qinv_def)
  then have "p \<notin> set qs" using p(2) by auto
  then obtain s' where
    s': "enqueue cfg p (upd_proc p (\<lambda>q. q\<lparr>state := RUNNABLE\<rparr>) s) = Inr s'"
    "rrq s' (if cfg = DEFAULT then [] else qs @ [p])" "states s' = (states s)(p := RUNNABLE)"
    "only_states s s'" "quiet s s'"
    using enqueue_ready[OF qs(1) l p(1)] qs(3) by blast
  have "qinv cfg ex s'"
  proof (cases "cfg = DEFAULT")
    case True
    then show ?thesis using s'(2) by (simp add: qinv_def exI[of _ "[]"])
  next
    case False
    then have "rrq s' (qs @ [p])" using s'(2) by simp
    moreover have "\<forall>q\<in>set (qs @ [p]). states s' q = RUNNABLE" using qs(2) s'(3) by simp
    moreover have "covered cfg ex (states s') (qs @ [p])"
      using qs(4) s'(3) p(2) by (auto simp: covered_def)
    ultimately show ?thesis using False unfolding qinv_def by blast
  qed
  with s' show ?thesis by blast
qed

section \<open>Waking up\<close>

definition waits :: "'a procst_scheme \<Rightarrow> chan option \<Rightarrow> nat \<Rightarrow> bool" where
  "waits s ch p \<longleftrightarrow> states s p = SLEEPING \<and> chan (ptable s p) = ch"

definition woken :: "'a procst_scheme \<Rightarrow> chan option \<Rightarrow> nat \<Rightarrow> nat \<Rightarrow> procstate" where
  "woken s ch n p = (if p < n \<and> waits s ch p then RUNNABLE else states s p)"

lemma wakeup1_queue:
  assumes q: "rrq s qs" and r: "\<forall>p\<in>set qs. states s p = RUNNABLE" and l: "lock_free RrqueueLock s" "cpu_ok s"
    and cfg: "cfg = DEFAULT \<Longrightarrow> qs = []"
  shows "\<exists>s'. wakeup1 cfg ch s = Inr s' \<and>
    rrq s' (if cfg = DEFAULT then [] else qs @ filter (waits s ch) [0..<NPROC]) \<and>
    states s' = woken s ch NPROC \<and> only_states s s' \<and> quiet s s'"
proof -
  define QS where "QS j = (if cfg = DEFAULT then [] else qs @ filter (waits s ch) [0..<j])" for j
  have QS0: "QS 0 = qs" using cfg by (auto simp: QS_def)
  have QS_Suc: "QS (Suc j) = (if cfg = DEFAULT then [] else QS j @ [j])" if "waits s ch j" for j
    using that by (simp add: QS_def)
  have QS_skip: "QS (Suc j) = QS j" if "\<not> waits s ch j" for j using that by (simp add: QS_def)
  have QS_nin: "j \<notin> set (QS j)" if "waits s ch j" for j using that r by (auto simp: QS_def waits_def)
  have QS_def0: "cfg = DEFAULT \<Longrightarrow> QS j = []" for j by (simp add: QS_def)
  let ?Q = "\<lambda>j t. rrq t (QS j) \<and> states t = woken s ch j \<and> only_states s t \<and> quiet s t"
  let ?b = "\<lambda>p s. if state (ptable s p) = SLEEPING \<and> chan (ptable s p) = ch
       then enqueue cfg p (upd_proc p (\<lambda>q. q\<lparr>state := RUNNABLE\<rparr>) s) else Inr s"
  have "\<exists>t'. ?b j t = Inr t' \<and> ?Q (Suc j) t'" if j: "j < 0 + NPROC" and t: "?Q j t" for j t
  proof -
    have "stateless (ptable t j) = stateless (ptable s j)" using t by (simp add: only_states_def)
    from stateless_sel(1)[OF this] have c: "chan (ptable t j) = chan (ptable s j)" .
    have "states t j = states s j" using t by (simp add: woken_def)
    then have w: "(state (ptable t j) = SLEEPING \<and> chan (ptable t j) = ch) = waits s ch j"
      using c by (simp add: waits_def states_def)
    have wk: "woken s ch (Suc j) = (if waits s ch j then (woken s ch j)(j := RUNNABLE) else woken s ch j)"
      by (auto simp: woken_def fun_eq_iff less_Suc_eq)
    show ?thesis
    proof (cases "waits s ch j")
      case True
      have rt: "rrq t (QS j)" using t by simp
      have lt: "lock_free RrqueueLock t" "cpu_ok t" using t l quiet_locks by blast+
      have jn: "j < NPROC" using j by simp
      from enqueue_ready[OF rt lt jn QS_nin[OF True] QS_def0]
      obtain t' where t': "enqueue cfg j (upd_proc j (\<lambda>q. q\<lparr>state := RUNNABLE\<rparr>) t) = Inr t'"
        "rrq t' (QS (Suc j))" "states t' = (states t)(j := RUNNABLE)" "only_states t t'" "quiet t t'"
        unfolding QS_Suc[OF True] by blast
      have "only_states s t'" "quiet s t'" using t t'(4,5) only_states_trans quiet_trans by blast+
      then show ?thesis unfolding w using t' t True wk by simp
    next
      case False
      then show ?thesis unfolding w using t wk by (simp add: QS_skip)
    qed
  qed
  then have "\<exists>s'. forr 0 NPROC ?b s = Inr s' \<and> ?Q (0 + NPROC) s'"
    by (intro forr_rule[where Q = ?Q]) (use q QS0 in \<open>auto simp: woken_def\<close>)
  then show ?thesis by (simp add: wakeup1_def QS_def)
qed

lemma wakeup1_qinv:
  assumes q: "qinv cfg ex s" and l: "lock_free RrqueueLock s" "cpu_ok s"
  shows "\<exists>s'. wakeup1 cfg ch s = Inr s' \<and> qinv cfg ex s' \<and> states s' = woken s ch NPROC \<and>
    only_states s s' \<and> quiet s s'"
proof -
  from q obtain qs where qs: "rrq s qs" "\<forall>p\<in>set qs. states s p = RUNNABLE" "cfg = DEFAULT \<longrightarrow> qs = []"
    "covered cfg ex (states s) qs" by (auto simp: qinv_def)
  then obtain s' where s': "wakeup1 cfg ch s = Inr s'"
    "rrq s' (if cfg = DEFAULT then [] else qs @ filter (waits s ch) [0..<NPROC])"
    "states s' = woken s ch NPROC" "only_states s s'" "quiet s s'"
    using wakeup1_queue[OF qs(1,2) l] by blast
  have "qinv cfg ex s'"
  proof (cases "cfg = DEFAULT")
    case True
    then show ?thesis using s'(2) by (simp add: qinv_def exI[of _ "[]"])
  next
    case False
    let ?rs = "qs @ filter (waits s ch) [0..<NPROC]"
    have "rrq s' ?rs" using s'(2) False by simp
    moreover have "\<forall>q\<in>set ?rs. states s' q = RUNNABLE" using qs(2) s'(3) by (auto simp: woken_def)
    moreover have "covered cfg ex (states s') ?rs"
      using qs(4) s'(3) by (auto simp: covered_def woken_def waits_def)
    ultimately show ?thesis using False unfolding qinv_def by blast
  qed
  with s' show ?thesis by blast
qed

lemma woken_only_ready: "woken s ch n p \<noteq> states s p \<Longrightarrow> states s p = SLEEPING \<and> woken s ch n p = RUNNABLE"
  by (auto simp: woken_def waits_def split: if_splits)

text \<open>What waking up may do to states: only sleepers change, and become runnable.\<close>

definition wakes :: "'a procst_scheme \<Rightarrow> 'a procst_scheme \<Rightarrow> bool" where
  "wakes s s' \<longleftrightarrow> (\<forall>p. states s' p = states s p \<or> states s p = SLEEPING \<and> states s' p = RUNNABLE) \<and>
     quiet s s' \<and> initproc s' = initproc s"

lemma wakes_refl [simp]: "wakes s s"
  by (simp add: wakes_def)

lemma wakes_trans: "wakes s t \<Longrightarrow> wakes t u \<Longrightarrow> wakes s u"
  unfolding wakes_def by (metis procstate.distinct(19) quiet_trans)

lemma wakeup1_wakes:
  assumes "qinv cfg ex s" "lock_free RrqueueLock s" "cpu_ok s"
  shows "\<exists>s'. wakeup1 cfg ch s = Inr s' \<and> qinv cfg ex s' \<and> wakes s s'"
proof -
  obtain s' where s': "wakeup1 cfg ch s = Inr s'" "qinv cfg ex s'" "states s' = woken s ch NPROC"
    "only_states s s'" "quiet s s'" using wakeup1_qinv[OF assms] by blast
  have "wakes s s'" using s'(3-5) woken_only_ready[of s ch NPROC] by (auto simp: wakes_def only_states_def)
  with s' show ?thesis by blast
qed

lemma exit_reparent_wakes:
  assumes "qinv cfg ex s" "lock_free RrqueueLock s" "cpu_ok s"
  shows "\<exists>s'. exit_reparent cfg me s = Inr s' \<and> qinv cfg ex s' \<and> wakes s s'"
  unfolding exit_reparent_def
proof (rule forr_rule[where Q = "\<lambda>j t. qinv cfg ex t \<and> wakes s t", simplified])
  show "qinv cfg ex s \<and> wakes s s" using assms(1) by simp
  fix j t assume t: "qinv cfg ex t \<and> wakes s t"
  let ?u = "upd_proc j (\<lambda>q. q\<lparr>parent := initproc t\<rparr>) t"
  have u: "qinv cfg ex ?u" by (rule qinv_upd_other) (use t in auto)
  have w: "wakes t ?u" by (auto simp: wakes_def states_upd_proc states_def)
  have l: "lock_free RrqueueLock ?u" "cpu_ok ?u"
    using t assms(2,3) quiet_locks[of s t] by (auto simp: wakes_def)
  have "wakes s ?u" using t w wakes_trans by blast
  then show "\<exists>t'. (if parent (ptable t j) = Some me
       then let s = ?u in if state (ptable s j) = ZOMBIE then wakeup1 cfg (map_option ChanProc (initproc s)) s else Inr s
       else Inr t) = Inr t' \<and> qinv cfg ex t' \<and> wakes s t'"
    using t u wakeup1_wakes[OF u l, of "map_option ChanProc (initproc ?u)"]
    by (auto simp: Let_def intro: wakes_trans)
qed

section \<open>Locks and switches, step by step\<close>

text \<open>The same process data, whatever happened to locks and processors.\<close>

definition psame :: "'a procst_scheme \<Rightarrow> 'a procst_scheme \<Rightarrow> bool" where
  "psame s s' \<longleftrightarrow> ptable s' = ptable s \<and> rr_first s' = rr_first s \<and> rr_last s' = rr_last s \<and>
     initproc s' = initproc s"

lemma psame_refl [simp]: "psame s s"
  by (simp add: psame_def)

lemma psame_trans: "psame s t \<Longrightarrow> psame t u \<Longrightarrow> psame s u"
  by (simp add: psame_def)

lemma psame_states: "psame s s' \<Longrightarrow> states s' = states s"
  by (simp add: psame_def states_def fun_eq_iff)

lemma psame_rrq: "psame s s' \<Longrightarrow> rrq s' qs = rrq s qs"
  by (simp add: psame_def rrq_def nx_def[abs_def] pv_def[abs_def])

lemma psame_qinv: "psame s s' \<Longrightarrow> qinv cfg ex s' = qinv cfg ex s"
  by (simp add: qinv_def psame_rrq psame_states)

lemma psame_more: "mach.more s' = mach.more s \<Longrightarrow> psame s s' \<and> cctx s' = cctx s"
  by (cases s; cases s'; simp add: psame_def)

text \<open>Processor \<open>c\<close> has nested once deeper, or once less deep.\<close>

definition lock_taken :: "lockid \<Rightarrow> 'a procst_scheme \<Rightarrow> 'a procst_scheme \<Rightarrow> bool" where
  "lock_taken l s s' \<longleftrightarrow> cur s' = cur s \<and> cctx s' = cctx s \<and> psame s s' \<and> locked (locks s l) = 0 \<and>
     locks s' = (locks s)(l := \<lparr>locked = 1, lk_cpu = Some (cur s)\<rparr>) \<and>
     (\<forall>c. c \<noteq> cur s \<longrightarrow> cpus s' c = cpus s c) \<and>
     ncli (mycpu s') = ncli (mycpu s) + 1 \<and> \<not> eflags_if (mycpu s')"

definition lock_given :: "lockid \<Rightarrow> 'a procst_scheme \<Rightarrow> 'a procst_scheme \<Rightarrow> bool" where
  "lock_given l s s' \<longleftrightarrow> cur s' = cur s \<and> cctx s' = cctx s \<and> psame s s' \<and> holding l s \<and>
     locks s' = (locks s)(l := \<lparr>locked = 0, lk_cpu = None\<rparr>) \<and>
     (\<forall>c. c \<noteq> cur s \<longrightarrow> cpus s' c = cpus s c) \<and>
     ncli (mycpu s') = ncli (mycpu s) - 1 \<and> 0 \<le> ncli (mycpu s') \<and> (0 < ncli (mycpu s') \<longrightarrow> \<not> eflags_if (mycpu s'))"

lemma acquire_taken: "acquire l s = Inr s' \<Longrightarrow> lock_taken l s s'"
  by (frule acquire_Inr)
    (auto simp: lock_taken_def psame_def acq_st_def pushcli_def set_lock_def set_cpu_def Let_def)

lemma acquire_runs: "lock_free l s \<Longrightarrow> \<exists>s'. acquire l s = Inr s' \<and> lock_taken l s s'"
  using acquire_free acquire_taken by blast

lemma release_given: "release l s = Inr s' \<Longrightarrow> lock_given l s s'"
  by (auto simp: release_def lock_given_def popcli_def set_lock_def set_cpu_def psame_def holding_def Let_def
      split: if_splits)

lemma release_runs:
  assumes "holding l s" "1 \<le> ncli (mycpu s)" "\<not> eflags_if (mycpu s)"
  shows "\<exists>s'. release l s = Inr s' \<and> lock_given l s s'"
  using release_held[OF assms] release_given by blast

lemma theproc_Inr [simp]: "theproc s = Inr p \<longleftrightarrow> myproc s = Some p"
  by (auto simp: theproc_def split: option.splits)

lemma switchuvm_quiet:
  assumes "switchuvm p s = Inr s'" "1 \<le> ncli (mycpu s)" "\<not> eflags_if (mycpu s)"
  shows "quiet s s' \<and> psame s s'"
  using assms
  by (auto simp: switchuvm_def popcli_def pushcli_def set_cpu_def upd_cctx_def quiet_def psame_def Let_def
      split: if_splits)

lemma switchuvm_runs:
  assumes "myproc s = Some me" "pgdir (ptable s p) \<noteq> 0" "1 \<le> ncli (mycpu s)"
  shows "\<exists>s'. switchuvm p s = Inr s'"
  using assms
  by (auto simp: switchuvm_def popcli_def pushcli_def set_cpu_def upd_cctx_def theproc_def Let_def)

section \<open>The scheduler\<close>

lemma upd_cctx_sel [simp]:
  "ptable (upd_cctx f s) = ptable s" "rr_first (upd_cctx f s) = rr_first s" "rr_last (upd_cctx f s) = rr_last s"
  "initproc (upd_cctx f s) = initproc s" "cur (upd_cctx f s) = cur s" "locks (upd_cctx f s) = locks s"
  "cpus (upd_cctx f s) = cpus s" "cctx (upd_cctx f s) = (cctx s)(cur s := f (cctx s (cur s)))"
  "lock_free l (upd_cctx f s) = lock_free l s" "cpu_ok (upd_cctx f s) = cpu_ok s"
  by (simp_all add: upd_cctx_def)

lemma psame_upd_cctx [simp]: "psame s (upd_cctx f t) = psame s t" "psame (upd_cctx f s) t = psame s t"
  by (simp_all add: psame_def)

lemma qinv_dispatch:
  assumes q: "rrq s qs" "\<forall>p\<in>set qs. states s p = RUNNABLE" "cfg = DEFAULT \<longrightarrow> qs = []"
      "covered cfg ex (states s) qs"
    and s': "rrq s' (remove1 p qs)" "states s' = (states s)(p := st)" "st \<noteq> RUNNABLE" and p: "cfg \<noteq> DEFAULT \<longrightarrow> p \<in> set qs"
  shows "qinv cfg ex s'"
proof -
  have "distinct qs" by (rule rrq_distinct[OF q(1)])
  then have "\<forall>r\<in>set (remove1 p qs). states s' r = RUNNABLE" using q(2) s'(2) by auto
  moreover have "cfg = DEFAULT \<longrightarrow> remove1 p qs = []" using q(3) by auto
  moreover have "covered cfg ex (states s') (remove1 p qs)"
    using q(4) s'(2,3) p by (auto simp: covered_def dest: notin_set_remove1)
  ultimately show ?thesis using s'(1) unfolding qinv_def by blast
qed

lemma scheduler_run_ok:
  assumes run: "scheduler_run cfg p s = Inr s'"
    and q: "rrq s qs" "\<forall>p\<in>set qs. states s p = RUNNABLE" "cfg = DEFAULT \<longrightarrow> qs = []"
      "covered cfg ex (states s) qs"
    and p: "cfg \<noteq> DEFAULT \<longrightarrow> p \<in> set qs"
    and l: "lock_free RrqueueLock s" "cpu_ok s" "1 \<le> ncli (mycpu s)"
  shows "qinv cfg ex s' \<and> states s' = (states s)(p := RUNNING) \<and>
    quiet (upd_cctx (\<lambda>c. c\<lparr>cproc := Some p\<rparr>) s) s'"
proof -
  let ?s = "upd_cctx (\<lambda>c. c\<lparr>cproc := Some p\<rparr>) s"
  have q0: "rrq ?s qs" using q(1) psame_rrq[of s ?s qs] by simp
  define u where "u = (if cfg = DEFAULT then ?s else lock_cycle (removeProcFromRRqueue p ?s))"
  have u: "rrq u (remove1 p qs)"
    using q0 q(3) p rr.deq[OF q0, of p] by (auto simp: u_def)
  have uf: "states u = states s" "quiet ?s u"
    using qframe_only_states[OF remove_qframe[of ?s p]] quiet_qframe[OF remove_qframe[of ?s p]]
    by (auto simp: u_def states_def[abs_def])
  have "(if cfg = DEFAULT then Inr ?s else bindr (acquire RrqueueLock ?s)
      (\<lambda>s. release RrqueueLock (removeProcFromRRqueue p s))) = Inr u"
    using l by (simp add: u_def acquire_free release_acq_st)
  then obtain v where v: "switchuvm p u = Inr v" "s' = upd_proc p (\<lambda>q. q\<lparr>state := RUNNING\<rparr>) v"
    using run by (auto simp: scheduler_run_def Let_def)
  have "1 \<le> ncli (mycpu u)" "\<not> eflags_if (mycpu u)"
    using uf(2) l by (auto simp: quiet_def cpu_ok_def)
  then have w: "quiet u v" "psame u v" using switchuvm_quiet[OF v(1)] by auto
  have st: "states s' = (states s)(p := RUNNING)"
    using uf(1) psame_states[OF w(2)] by (simp add: v(2) states_upd_proc)
  have "rrq s' (remove1 p qs)" using u psame_rrq[OF w(2)] by (simp add: v(2) links_upd_proc)
  then have "qinv cfg ex s'" by (rule qinv_dispatch[OF q _ st _ p]) simp
  moreover have "quiet ?s s'" using quiet_trans[OF uf(2) w(1)] by (simp add: v(2))
  ultimately show ?thesis using st by blast
qed

text \<open>A turn of the scheduler with the lock of the table held in \<open>t\<close>: either it hands the
  processor to a runnable process, or it releases the lock.\<close>

definition turn :: "schedflag \<Rightarrow> bool \<times> nat set \<Rightarrow> 'a procst_scheme \<Rightarrow> nat option \<Rightarrow> 'a procst_scheme \<Rightarrow> bool" where
  "turn cfg ex t r s' \<longleftrightarrow> qinv cfg ex s' \<and>
     (case r of
        None \<Rightarrow> states s' = states t \<and> (\<exists>t'. quiet t t' \<and> lock_given PtableLock t' s')
      | Some p \<Rightarrow> p < NPROC \<and> states t p = RUNNABLE \<and> states s' = (states t)(p := RUNNING) \<and>
          quiet (upd_cctx (\<lambda>c. c\<lparr>cproc := Some p\<rparr>) t) s')"

lemma turn_none:
  assumes "qinv cfg ex t'" "states t' = states t" "quiet t t'" "lock_given PtableLock t' s'"
  shows "turn cfg ex t None s'"
proof -
  have "psame t' s'" using assms(4) by (simp add: lock_given_def)
  then show ?thesis using assms psame_qinv[of t' s'] psame_states[of t' s'] by (auto simp: turn_def)
qed

lemma scheduler_scan_turn:
  assumes run: "scheduler_scan k t = Inr (r, s')" and q: "qinv DEFAULT ex t"
    and l: "lock_free RrqueueLock t" "cpu_ok t" "1 \<le> ncli (mycpu t)" and k: "k \<le> NPROC"
  shows "turn DEFAULT ex t r s'"
proof (cases "scan_from (\<lambda>p. state (ptable t p) = RUNNABLE) k (NPROC - k)")
  case None
  then have "r = None" "release PtableLock t = Inr s'"
    using run by (auto simp: scheduler_scan_def scheduler_end_def)
  then have "lock_given PtableLock t s'" by (simp add: release_given)
  then show ?thesis using \<open>r = None\<close> q turn_none[of DEFAULT ex t t s'] by simp
next
  case (Some p)
  then have p: "r = Some p" "scheduler_run DEFAULT p t = Inr s'"
    using run by (auto simp: scheduler_scan_def)
  have s: "p < NPROC" "states t p = RUNNABLE" using Some k by (auto simp: scan_from_Some states_def)
  have "rrq t []" using q by (auto simp: qinv_def)
  from scheduler_run_ok[OF p(2) this, where ex = ex] l s p(1) show ?thesis by (simp add: turn_def)
qed

lemma acquired_state:
  assumes "lock_taken l s t" "0 \<le> ncli (mycpu s)"
  shows "cpu_ok t" "1 \<le> ncli (mycpu t)" "k \<noteq> l \<Longrightarrow> lock_free k t = lock_free k s" "states t = states s"
    "qinv cfg ex t = qinv cfg ex s"
  using assms psame_states[of s t] psame_qinv[of s t cfg ex]
  by (auto simp: lock_taken_def cpu_ok_def lock_free_def)

lemma scheduler_enter_turn:
  assumes run: "scheduler_enter cfg s = Inr (r, s')" and q: "qinv cfg ex s"
    and l: "lock_free RrqueueLock s" "0 \<le> ncli (mycpu s)"
  shows "\<exists>t. lock_taken PtableLock (sti s) t \<and> turn cfg ex t r s'"
proof -
  from run obtain t where t: "acquire PtableLock (sti s) = Inr t" by (auto simp: scheduler_enter_def)
  note tk = acquire_taken[OF t]
  have "psame s (sti s)" by (simp add: psame_def sti_def set_cpu_def)
  then have sq: "qinv cfg ex (sti s)" using q psame_qinv by blast
  have sl: "lock_free RrqueueLock (sti s)" "0 \<le> ncli (mycpu (sti s))"
    using l by (auto simp: sti_def set_cpu_def lock_free_def)
  have tl: "lock_free RrqueueLock t" "cpu_ok t" "1 \<le> ncli (mycpu t)" and tq: "qinv cfg ex t"
    using acquired_state[OF tk sl(2)] sl(1) sq by auto
  have "turn cfg ex t r s'"
  proof (cases "cfg = DEFAULT")
    case True
    then show ?thesis using run t scheduler_scan_turn[OF _ _ tl, of 0 r s' ex] tq by (simp add: scheduler_enter_def)
  next
    case False
    from tq obtain qs where qs: "rrq t qs" "\<forall>p\<in>set qs. states t p = RUNNABLE" "cfg = DEFAULT \<longrightarrow> qs = []"
      "covered cfg ex (states t) qs" by (auto simp: qinv_def)
    have k: "kept cfg t qs = qs" by (rule kept_ready) (use qs(2) in \<open>auto simp: states_def\<close>)
    from round_ok[OF qs(1) tl(1,2) False] obtain u sel where
      u: "deliverTicketsToFIFOProcs cfg t = Inr (lock_cycle u)" "qframe (t\<lparr>totalTickets := 0\<rparr>) u"
        "pickProcess (lock_cycle u) = Inr (sel, lock_cycle (rolled (lock_cycle u)))"
        "\<forall>p. sel = Some p \<longrightarrow> p \<in> set qs" "rrq (rolled (lock_cycle u)) qs"
      unfolding k by blast
    let ?v = "lock_cycle (rolled (lock_cycle u))"
    have v1: "states ?v = states t"
      using qframe_only_states[OF u(2)] by (simp add: rolled_def states_def[abs_def])
    have v2: "quiet t ?v" using quiet_qframe[OF u(2)]
      by (auto simp: quiet_def rolled_def xorshift128_def Let_def cpus_lock_cycle)
    have v3: "rrq ?v qs" using u(5) by simp
    have vl: "lock_free RrqueueLock ?v" "cpu_ok ?v" "1 \<le> ncli (mycpu ?v)"
      using tl v2 quiet_locks[OF v2] by (auto simp: quiet_def)
    have vq: "qinv cfg ex ?v" using qs v1 v3 unfolding qinv_def by auto
    show ?thesis
    proof (cases sel)
      case None
      then have "r = None" "release PtableLock ?v = Inr s'"
        using run t u(1,3) False by (auto simp: scheduler_enter_def scheduler_end_def)
      then have "lock_given PtableLock ?v s'" by (simp add: release_given)
      then show ?thesis using \<open>r = None\<close> vq v1 v2 turn_none by blast
    next
      case (Some p)
      then have r: "r = Some p" "scheduler_run cfg p ?v = Inr s'"
        using run t u(1,3) False by (auto simp: scheduler_enter_def)
      have p: "p \<in> set qs" using u(4) Some by blast
      then have pn: "p < NPROC" using qs(1) by (auto simp: rrq_def)
      have "qinv cfg ex s' \<and> states s' = (states ?v)(p := RUNNING) \<and>
          quiet (upd_cctx (\<lambda>c. c\<lparr>cproc := Some p\<rparr>) ?v) s'"
        by (rule scheduler_run_ok[OF r(2) v3]) (use qs v1 p vl in auto)
      then show ?thesis using r(1) pn p qs(2) v1 v2 by (auto simp: turn_def quiet_def)
    qed
  qed
  with tk show ?thesis by blast
qed

end
