(* ===== verification/Xv6_SchedInv.thy ===== *)
theory Xv6_SchedInv
  imports Xv6_Switch
begin

text \<open>
  The processes and the schedulers of all processors as one state machine. A step is one call of a
  routine of \<open>Xv6_Sched\<close> by one processor; between the switch to a process and the release of the
  table's lock by that process, and between the switch away from it and the scheduler's part, the
  lock is held and the steps of other processors interleave. The steps are the scheduler, \<open>yield\<close>, \<open>sleep\<close>, \<open>wait\<close>,
  the end of \<open>exit\<close>, \<open>wakeup\<close>, \<open>kill\<close>, \<open>sigsend\<close>, \<open>allocproc\<close>, the end of \<open>fork\<close>, and the locks of other
  components. Two calls are not steps: what a process does while it holds \<open>tickslock\<close>, so the sleep of \<open>sys_sleep\<close> and
  the \<open>wakeup\<close> of the timer under that lock, and \<open>wait_stat\<close>.
\<close>

section \<open>The machine\<close>

text \<open>What a processor executes: its scheduler; a process that was just switched to and holds the lock
  of the table; a process; or its scheduler just after a process switched away, holding the lock.\<close>

datatype phase = InSched | Entering nat | InProc nat | Leaving nat

fun phproc :: "phase \<Rightarrow> nat option" where
  "phproc InSched = None"
| "phproc (Entering p) = Some p"
| "phproc (InProc p) = Some p"
| "phproc (Leaving p) = Some p"

fun switching :: "phase \<Rightarrow> bool" where
  "switching (Entering p) = True"
| "switching (Leaving p) = True"
| "switching InSched = False"
| "switching (InProc p) = False"

definition picked :: "nat option \<Rightarrow> phase" where
  "picked r = (case r of None \<Rightarrow> InSched | Some p \<Rightarrow> Entering p)"

definition settled :: "nat \<Rightarrow> 'r outcome \<Rightarrow> phase" where
  "settled p r = (case r of Done _ \<Rightarrow> InProc p | Switched _ \<Rightarrow> Leaving p)"

abbreviation on :: "nat \<Rightarrow> procst \<Rightarrow> procst" where
  "on c s \<equiv> s\<lparr>cur := c\<rparr>"

definition core_lock :: "lockid \<Rightarrow> bool" where
  "core_lock l \<longleftrightarrow> l = PtableLock \<or> l = RrqueueLock \<or> l = TicksLock"

text \<open>The last argument of the relation tells whether processes send signals with \<open>sigsend\<close>.\<close>

inductive sched_step :: "schedflag \<Rightarrow> link \<Rightarrow> bool \<Rightarrow> procst \<times> (nat \<Rightarrow> phase) \<Rightarrow> procst \<times> (nat \<Rightarrow> phase) \<Rightarrow> bool"
  for cfg lk sig where
  enter: "ph c = InSched \<Longrightarrow> scheduler_enter cfg (on c s) = Inr (r, s') \<Longrightarrow>
    sched_step cfg lk sig (s, ph) (s', ph(c := picked r))"
| switch_back: "ph c = Leaving p \<Longrightarrow> scheduler_back cfg p (on c s) = Inr (r, s') \<Longrightarrow>
    sched_step cfg lk sig (s, ph) (s', ph(c := picked r))"
| start: "ph c = Entering p \<Longrightarrow> release PtableLock (on c s) = Inr s' \<Longrightarrow>
    sched_step cfg lk sig (s, ph) (s', ph(c := InProc p))"
| resume: "ph c = Entering p \<Longrightarrow> yield_resume i (on c s) = Inr s' \<Longrightarrow>
    sched_step cfg lk sig (s, ph) (s', ph(c := InProc p))"
| awake: "ph c = Entering p \<Longrightarrow> \<not> core_lock l \<Longrightarrow> sleep_tidy l i (on c s) = Inr s' \<Longrightarrow>
    sched_step cfg lk sig (s, ph) (s', ph(c := InProc p))"
| wait_again: "ph c = Entering p \<Longrightarrow> wait_resume lk i (on c s) = Inr (r, s') \<Longrightarrow>
    sched_step cfg lk sig (s, ph) (s', ph(c := settled p r))"
| yields: "ph c = InProc p \<Longrightarrow> yield cfg (on c s) = Inr (i, s') \<Longrightarrow>
    sched_step cfg lk sig (s, ph) (s', ph(c := Leaving p))"
| sleeps: "ph c = InProc p \<Longrightarrow> \<not> core_lock l \<Longrightarrow> sleep ch (Some l) (on c s) = Inr (i, s') \<Longrightarrow>
    sched_step cfg lk sig (s, ph) (s', ph(c := Leaving p))"
| waits_for: "ph c = InProc p \<Longrightarrow> wait lk (on c s) = Inr (r, s') \<Longrightarrow>
    sched_step cfg lk sig (s, ph) (s', ph(c := settled p r))"
| exits: "ph c = InProc p \<Longrightarrow> exit_sched cfg (on c s) = Inr (i, s') \<Longrightarrow>
    sched_step cfg lk sig (s, ph) (s', ph(c := Leaving p))"
| wakes_up: "\<not> switching (ph c) \<Longrightarrow> wakeup cfg ch (on c s) = Inr s' \<Longrightarrow> sched_step cfg lk sig (s, ph) (s', ph)"
| kills: "\<not> switching (ph c) \<Longrightarrow> kill cfg pd (on c s) = Inr (r, s') \<Longrightarrow> sched_step cfg lk sig (s, ph) (s', ph)"
| signals: "sig \<Longrightarrow> \<not> switching (ph c) \<Longrightarrow> sigsend pd n (on c s) = Inr (r, s') \<Longrightarrow>
    sched_step cfg lk sig (s, ph) (s', ph)"
| allocs: "\<not> switching (ph c) \<Longrightarrow> allocproc lk (on c s) = Inr (r, s') \<Longrightarrow> sched_step cfg lk sig (s, ph) (s', ph)"
| forks: "\<not> switching (ph c) \<Longrightarrow> np < NPROC \<Longrightarrow> states s np = EMBRYO \<Longrightarrow> fork_ready cfg np (on c s) = Inr s' \<Longrightarrow>
    sched_step cfg lk sig (s, ph) (s', ph)"
| locks_other: "ph c = InProc p \<Longrightarrow> \<not> core_lock l \<Longrightarrow> acquire l (on c s) = Inr s' \<Longrightarrow>
    sched_step cfg lk sig (s, ph) (s', ph)"
| unlocks_other: "ph c = InProc p \<Longrightarrow> \<not> core_lock l \<Longrightarrow> release l (on c s) = Inr s' \<Longrightarrow>
    sched_step cfg lk sig (s, ph) (s', ph)"

text \<open>The machine when the processors call \<open>scheduler\<close>: no core lock is held, no processor runs a
  process, and the run queue holds exactly the runnable processes (none under the default policy).\<close>

definition sched_start :: "schedflag \<Rightarrow> procst \<Rightarrow> bool" where
  "sched_start cfg s \<longleftrightarrow> (\<forall>l. core_lock l \<longrightarrow> lock_free l s) \<and> (\<forall>c. ncli (cpus s c) = 0 \<and> cproc (cctx s c) = None) \<and>
     (\<forall>p. states s p \<noteq> RUNNING) \<and> qinv cfg (True, {}) s"

inductive sched_reach :: "schedflag \<Rightarrow> link \<Rightarrow> bool \<Rightarrow> procst \<times> (nat \<Rightarrow> phase) \<Rightarrow> bool" for cfg lk sig where
  boot: "sched_start cfg s \<Longrightarrow> sched_reach cfg lk sig (s, \<lambda>_. InSched)"
| step: "sched_reach cfg lk sig x \<Longrightarrow> sched_step cfg lk sig x y \<Longrightarrow> sched_reach cfg lk sig y"

section \<open>The invariant\<close>

definition cpus_ok :: "procst \<Rightarrow> (nat \<Rightarrow> phase) \<Rightarrow> bool" where
  "cpus_ok s ph \<longleftrightarrow> (\<forall>c. 0 \<le> ncli (cpus s c) \<and> (0 < ncli (cpus s c) \<longrightarrow> \<not> eflags_if (cpus s c)) \<and>
     (ph c = InSched \<longrightarrow> ncli (cpus s c) = 0) \<and> (switching (ph c) \<longrightarrow> ncli (cpus s c) = 1))"

definition locks_ok :: "procst \<Rightarrow> (nat \<Rightarrow> phase) \<Rightarrow> bool" where
  "locks_ok s ph \<longleftrightarrow> lock_free RrqueueLock s \<and> lock_free TicksLock s \<and>
     (\<forall>c. switching (ph c) \<longrightarrow> locks s PtableLock = \<lparr>locked = 1, lk_cpu = Some c\<rparr>) \<and>
     ((\<forall>c. \<not> switching (ph c)) \<longrightarrow> lock_free PtableLock s)"

definition procs_ok :: "procst \<Rightarrow> (nat \<Rightarrow> phase) \<Rightarrow> bool" where
  "procs_ok s ph \<longleftrightarrow> (\<forall>c. cproc (cctx s c) = phproc (ph c)) \<and>
     (\<forall>c d p. phproc (ph c) = Some p \<and> phproc (ph d) = Some p \<longrightarrow> c = d) \<and>
     (\<forall>c p. phproc (ph c) = Some p \<longrightarrow> p < NPROC \<and> (states s p = RUNNING \<longleftrightarrow> ph c \<noteq> Leaving p)) \<and>
     (\<forall>p. states s p = RUNNING \<longrightarrow> (\<exists>c. phproc (ph c) = Some p))"

definition sinv :: "schedflag \<Rightarrow> bool \<times> nat set \<Rightarrow> procst \<times> (nat \<Rightarrow> phase) \<Rightarrow> bool" where
  "sinv cfg ex x \<longleftrightarrow> (case x of (s, ph) \<Rightarrow> qinv cfg ex s \<and> cpus_ok s ph \<and> locks_ok s ph \<and> procs_ok s ph)"

lemma holder: "sinv cfg ex (s, ph) \<Longrightarrow> switching (ph c) \<Longrightarrow> locks s PtableLock = \<lparr>locked = 1, lk_cpu = Some c\<rparr>"
  by (simp add: sinv_def locks_ok_def)

text \<open>What a call that gives back all it takes does; what a call that switches away does; what a
  process does that was switched to.\<close>

definition called :: "procst \<Rightarrow> procst \<Rightarrow> bool" where
  "called s v \<longleftrightarrow> locked (locks s PtableLock) = 0 \<and> lock_free PtableLock v \<and>
     locks v RrqueueLock = locks s RrqueueLock \<and> locks v TicksLock = locks s TicksLock \<and>
     (\<forall>c. cproc (cctx v c) = cproc (cctx s c)) \<and>
     (\<forall>c. ncli (cpus v c) = ncli (cpus s c) \<and> (c \<noteq> cur s \<longrightarrow> eflags_if (cpus v c) = eflags_if (cpus s c)) \<and>
       (0 < ncli (cpus v (cur s)) \<longrightarrow> \<not> eflags_if (cpus v (cur s))))"

lemma called_sinv:
  assumes inv: "sinv cfg ex (s, ph)" and c: "called (on c s) v" and q: "qinv cfg ex v"
    and run: "\<And>p. states v p = RUNNING \<longleftrightarrow> states s p = RUNNING"
  shows "sinv cfg ex (v, ph)"
proof -
  have ns: "\<not> switching (ph d)" for d
  proof
    assume "switching (ph d)"
    then have "locked (locks s PtableLock) = 1" using holder[OF inv] by simp
    then show False using c by (simp add: called_def)
  qed
  have "cpus_ok v ph" unfolding cpus_ok_def
  proof
    fix d
    show "0 \<le> ncli (cpus v d) \<and> (0 < ncli (cpus v d) \<longrightarrow> \<not> eflags_if (cpus v d)) \<and>
        (ph d = InSched \<longrightarrow> ncli (cpus v d) = 0) \<and> (switching (ph d) \<longrightarrow> ncli (cpus v d) = 1)"
      using inv c ns by (cases "d = c") (auto simp: sinv_def cpus_ok_def called_def)
  qed
  moreover have "locks_ok v ph" using inv c ns by (auto simp: sinv_def locks_ok_def called_def lock_free_def)
  moreover have "procs_ok v ph" using inv c run by (auto simp: sinv_def procs_ok_def called_def)
  ultimately show ?thesis using q by (simp add: sinv_def)
qed

definition calm :: "procst \<Rightarrow> procst \<Rightarrow> bool" where
  "calm t u \<longleftrightarrow> cur u = cur t \<and> (\<forall>l. core_lock l \<longrightarrow> locks u l = locks t l) \<and>
     (\<forall>c. cproc (cctx u c) = cproc (cctx t c)) \<and>
     (\<forall>c. ncli (cpus u c) = ncli (cpus t c) \<and> eflags_if (cpus u c) = eflags_if (cpus t c))"

lemma calm_refl [simp]: "calm t t"
  by (simp add: calm_def)

lemma calm_trans: "calm s t \<Longrightarrow> calm t u \<Longrightarrow> calm s u"
  by (simp add: calm_def)

lemma quiet_calm: "quiet t u \<Longrightarrow> calm t u"
  by (simp add: quiet_def calm_def)

lemma calm_upd [simp]: "calm t (upd_proc p f u) = calm t u" "calm (upd_proc p f t) u = calm t u"
  "calm t (set_ram m u) = calm t u" "calm t (u\<lparr>nextpid := n\<rparr>) = calm t u"
  by (simp_all add: calm_def set_ram_def)

lemma procs_okD:
  assumes "procs_ok s ph"
  shows "cproc (cctx s c) = phproc (ph c)"
    and "phproc (ph c) = Some p \<Longrightarrow> phproc (ph d) = Some p \<Longrightarrow> c = d"
    and "phproc (ph c) = Some p \<Longrightarrow> p < NPROC"
    and "phproc (ph c) = Some p \<Longrightarrow> states s p = RUNNING \<longleftrightarrow> ph c \<noteq> Leaving p"
    and "states s p = RUNNING \<Longrightarrow> \<exists>c. phproc (ph c) = Some p"
  using assms unfolding procs_ok_def by blast+

text \<open>The same process on the same processor, in another phase.\<close>

lemma procs_ok_phase:
  assumes po: "procs_ok s ph" and ph: "phproc (ph c) = Some p" "phproc x = Some p"
    and v: "\<And>d. cproc (cctx v d) = cproc (cctx s d)" "states v p = RUNNING \<longleftrightarrow> x \<noteq> Leaving p"
      "\<And>q. q \<noteq> p \<Longrightarrow> states v q = RUNNING \<longleftrightarrow> states s q = RUNNING"
  shows "procs_ok v (ph(c := x))"
proof -
  have same: "phproc ((ph(c := x)) d) = phproc (ph d)" for d using ph by simp
  have inj: "phproc (ph d) = Some p \<Longrightarrow> d = c" for d using procs_okD(2)[OF po] ph(1) by blast
  show ?thesis unfolding procs_ok_def same
  proof (intro conjI allI impI)
    fix d q assume a: "phproc (ph d) = Some q"
    show "q < NPROC" by (rule procs_okD(3)[OF po a])
    show "states v q = RUNNING \<longleftrightarrow> (ph(c := x)) d \<noteq> Leaving q"
    proof (cases "d = c")
      case True
      then show ?thesis using a ph(1) v(2) by simp
    next
      case False
      then have "q \<noteq> p" using a inj by blast
      then show ?thesis using procs_okD(4)[OF po a] v(3) False by simp
    qed
  next
    fix q assume r: "states v q = RUNNING"
    show "\<exists>d. phproc (ph d) = Some q"
    proof (cases "q = p")
      case False
      then show ?thesis using v(3) r procs_okD(5)[OF po] by blast
    qed (use ph(1) in blast)
  qed (use v(1) procs_okD(1,2)[OF po] in auto)
qed

definition left :: "nat \<Rightarrow> procst \<Rightarrow> procst \<Rightarrow> bool" where
  "left c s v \<longleftrightarrow> locked (locks s PtableLock) = 0 \<and> locks v PtableLock = \<lparr>locked = 1, lk_cpu = Some c\<rparr> \<and>
     locks v RrqueueLock = locks s RrqueueLock \<and> locks v TicksLock = locks s TicksLock \<and>
     (\<forall>d. cproc (cctx v d) = cproc (cctx s d)) \<and> ncli (cpus v c) = 1 \<and> \<not> eflags_if (cpus v c) \<and>
     (\<forall>d. d \<noteq> c \<longrightarrow> ncli (cpus v d) = ncli (cpus s d) \<and> eflags_if (cpus v d) = eflags_if (cpus s d))"

lemma left_sinv:
  assumes inv: "sinv cfg ex (s, ph)" and ph: "ph c = InProc p" and l: "left c s v" and q: "qinv cfg ex v"
    and run: "\<And>q. states v q = RUNNING \<longleftrightarrow> states s q = RUNNING \<and> q \<noteq> p"
  shows "sinv cfg ex (v, ph(c := Leaving p))"
proof -
  have ns: "\<not> switching (ph d)" for d
  proof
    assume "switching (ph d)"
    then have "locked (locks s PtableLock) = 1" using holder[OF inv] by simp
    then show False using l by (simp add: left_def)
  qed
  have "cpus_ok v (ph(c := Leaving p))" unfolding cpus_ok_def
  proof
    fix d
    show "0 \<le> ncli (cpus v d) \<and> (0 < ncli (cpus v d) \<longrightarrow> \<not> eflags_if (cpus v d)) \<and>
        ((ph(c := Leaving p)) d = InSched \<longrightarrow> ncli (cpus v d) = 0) \<and>
        (switching ((ph(c := Leaving p)) d) \<longrightarrow> ncli (cpus v d) = 1)"
      using inv l ns by (cases "d = c") (auto simp: sinv_def cpus_ok_def left_def)
  qed
  moreover have "locks_ok v (ph(c := Leaving p))"
    using inv l ns by (auto simp: sinv_def locks_ok_def left_def lock_free_def)
  moreover have "procs_ok v (ph(c := Leaving p))"
    by (rule procs_ok_phase[of s]) (use inv ph l run in \<open>auto simp: sinv_def left_def\<close>)
  ultimately show ?thesis using q by (simp add: sinv_def)
qed

text \<open>A process releases the lock of the table it was switched to with.\<close>

lemma entered_sinv:
  assumes inv: "sinv cfg ex (s, ph)" and ph: "ph c = Entering p" and g: "lock_given PtableLock t v"
    and t: "calm (on c s) t" "qinv cfg ex t" "\<And>q. states t q = RUNNING \<longleftrightarrow> states s q = RUNNING"
  shows "sinv cfg ex (v, ph(c := InProc p))"
proof -
  have ct: "cur t = c" using t(1) by (simp add: calm_def)
  have only: "\<not> switching (ph d)" if "d \<noteq> c" for d
    using holder[OF inv, of d] holder[OF inv, of c] ph that by auto
  have ps: "psame t v" using g by (simp add: lock_given_def)
  have po: "procs_ok s ph" using inv by (simp add: sinv_def)
  have "cpus_ok v (ph(c := InProc p))" unfolding cpus_ok_def
  proof
    fix d
    have o: "0 \<le> ncli (cpus s d) \<and> (0 < ncli (cpus s d) \<longrightarrow> \<not> eflags_if (cpus s d)) \<and>
      (ph d = InSched \<longrightarrow> ncli (cpus s d) = 0)" using inv by (auto simp: sinv_def cpus_ok_def)
    show "0 \<le> ncli (cpus v d) \<and> (0 < ncli (cpus v d) \<longrightarrow> \<not> eflags_if (cpus v d)) \<and>
        ((ph(c := InProc p)) d = InSched \<longrightarrow> ncli (cpus v d) = 0) \<and>
        (switching ((ph(c := InProc p)) d) \<longrightarrow> ncli (cpus v d) = 1)"
      using o g t(1) ct only[of d] by (cases "d = c") (auto simp: calm_def lock_given_def)
  qed
  moreover have "locks_ok v (ph(c := InProc p))"
    using inv g t(1) only by (auto simp: sinv_def locks_ok_def lock_given_def lock_free_def calm_def core_lock_def)
  moreover have "procs_ok v (ph(c := InProc p))"
  proof (rule procs_ok_phase[OF po])
    have st: "states v = states t" by (rule psame_states[OF ps])
    show "cproc (cctx v d) = cproc (cctx s d)" for d using g t(1) by (simp add: lock_given_def calm_def)
    show "states v p = RUNNING \<longleftrightarrow> InProc p \<noteq> Leaving p"
      using procs_okD(4)[OF po, of c p] ph t(3)[of p] by (simp add: st)
    show "states v q = RUNNING \<longleftrightarrow> states s q = RUNNING" for q using t(3) by (simp add: st)
  qed (simp_all add: ph)
  ultimately show ?thesis using psame_qinv[OF ps] t(2) by (simp add: sinv_def)
qed

text \<open>A process that was switched to switches away again without giving up the lock.\<close>

lemma bounced_sinv:
  assumes inv: "sinv cfg ex (s, ph)" and ph: "ph c = Entering p" and t: "calm (on c s) v" "qinv cfg ex v"
    and st: "states v p \<noteq> RUNNING" "\<And>q. q \<noteq> p \<Longrightarrow> states v q = RUNNING \<longleftrightarrow> states s q = RUNNING"
  shows "sinv cfg ex (v, ph(c := Leaving p))"
proof -
  have po: "procs_ok s ph" using inv by (simp add: sinv_def)
  have sw: "switching ((ph(c := Leaving p)) d) = switching (ph d)" for d using ph by simp
  have isch: "(ph(c := Leaving p)) d = InSched \<longleftrightarrow> ph d = InSched" for d using ph by simp
  have "cpus_ok v (ph(c := Leaving p))" using inv t(1) unfolding cpus_ok_def sw isch
    by (simp add: sinv_def cpus_ok_def calm_def)
  moreover have "locks_ok v (ph(c := Leaving p))" using inv t(1) unfolding locks_ok_def sw
    by (simp add: sinv_def locks_ok_def calm_def core_lock_def lock_free_def)
  moreover have "procs_ok v (ph(c := Leaving p))"
    by (rule procs_ok_phase[OF po]) (use ph t(1) st in \<open>auto simp: calm_def\<close>)
  ultimately show ?thesis using t(2) by (simp add: sinv_def)
qed

section \<open>The scheduler's steps\<close>

lemma turn_sinv:
  assumes t: "turn cfg ex t r v" and c: "cur t = c"
    and po: "procs_ok t (ph(c := InSched))" and ns: "\<And>d. d \<noteq> c \<Longrightarrow> \<not> switching (ph d)"
    and l: "locks t PtableLock = \<lparr>locked = 1, lk_cpu = Some c\<rparr>" "lock_free RrqueueLock t" "lock_free TicksLock t"
    and n: "ncli (cpus t c) = 1" "\<not> eflags_if (cpus t c)"
    and o: "\<And>d. d \<noteq> c \<Longrightarrow> 0 \<le> ncli (cpus t d) \<and> (0 < ncli (cpus t d) \<longrightarrow> \<not> eflags_if (cpus t d)) \<and>
       (ph d = InSched \<longrightarrow> ncli (cpus t d) = 0)"
  shows "sinv cfg ex (v, ph(c := picked r))"
proof (cases r)
  case None
  then obtain t' where t': "quiet t t'" "lock_given PtableLock t' v" and st: "states v = states t" and q: "qinv cfg ex v"
    using t by (auto simp: turn_def)
  have ct: "cur t' = c" using t'(1) c by (simp add: quiet_def)
  have "cpus_ok v (ph(c := InSched))" unfolding cpus_ok_def
  proof
    fix d
    show "0 \<le> ncli (cpus v d) \<and> (0 < ncli (cpus v d) \<longrightarrow> \<not> eflags_if (cpus v d)) \<and>
        ((ph(c := InSched)) d = InSched \<longrightarrow> ncli (cpus v d) = 0) \<and>
        (switching ((ph(c := InSched)) d) \<longrightarrow> ncli (cpus v d) = 1)"
      using t' ct n o[of d] ns[of d] by (cases "d = c") (auto simp: lock_given_def quiet_def)
  qed
  moreover have "locks_ok v (ph(c := InSched))"
    using t' l ns by (auto simp: locks_ok_def lock_given_def quiet_def lock_free_def)
  moreover have "procs_ok v (ph(c := InSched))"
    using po t' st by (simp add: procs_ok_def lock_given_def quiet_def)
  ultimately show ?thesis using q None by (simp add: sinv_def picked_def)
next
  case (Some p)
  let ?ph = "ph(c := Entering p)"
  have p: "p < NPROC" "states t p = RUNNABLE" and st: "states v = (states t)(p := RUNNING)"
    and qu: "quiet (upd_cctx (\<lambda>c. c\<lparr>cproc := Some p\<rparr>) t) v" and q: "qinv cfg ex v"
    using t Some by (auto simp: turn_def)
  have others: "phproc (ph d) = Some q \<Longrightarrow> q < NPROC \<and> states t q = RUNNING \<and> ph d \<noteq> Leaving q" if "d \<noteq> c" for d q
    using procs_okD(3,4)[OF po, of d q] ns[OF that] that by auto
  have fresh: "phproc (ph d) \<noteq> Some p" if "d \<noteq> c" for d
    using others[OF that, of p] p(2) by auto
  have "cpus_ok v ?ph" unfolding cpus_ok_def
  proof
    fix d
    show "0 \<le> ncli (cpus v d) \<and> (0 < ncli (cpus v d) \<longrightarrow> \<not> eflags_if (cpus v d)) \<and>
        (?ph d = InSched \<longrightarrow> ncli (cpus v d) = 0) \<and> (switching (?ph d) \<longrightarrow> ncli (cpus v d) = 1)"
      using qu n o[of d] ns[of d] by (cases "d = c") (auto simp: quiet_def)
  qed
  moreover have "locks_ok v ?ph" using qu l ns by (auto simp: locks_ok_def quiet_def lock_free_def)
  moreover have "procs_ok v ?ph" unfolding procs_ok_def
  proof (intro conjI)
    show "\<forall>d. cproc (cctx v d) = phproc (?ph d)"
    proof
      fix d show "cproc (cctx v d) = phproc (?ph d)"
        using po qu c by (cases "d = c") (auto simp: procs_ok_def quiet_def)
    qed
    show "\<forall>d e q. phproc (?ph d) = Some q \<and> phproc (?ph e) = Some q \<longrightarrow> d = e"
    proof (intro allI impI)
      fix d e q assume a: "phproc (?ph d) = Some q \<and> phproc (?ph e) = Some q"
      show "d = e"
        using a fresh[of d] fresh[of e] procs_okD(2)[OF po, of d q e]
        by (cases "d = c"; cases "e = c") auto
    qed
    show "\<forall>d q. phproc (?ph d) = Some q \<longrightarrow> q < NPROC \<and> (states v q = RUNNING \<longleftrightarrow> ?ph d \<noteq> Leaving q)"
    proof (intro allI impI)
      fix d q assume a: "phproc (?ph d) = Some q"
      show "q < NPROC \<and> (states v q = RUNNING \<longleftrightarrow> ?ph d \<noteq> Leaving q)"
        using a p(1) st others[of d q] by (cases "d = c") auto
    qed
    show "\<forall>q. states v q = RUNNING \<longrightarrow> (\<exists>d. phproc (?ph d) = Some q)"
    proof (intro allI impI)
      fix q assume "states v q = RUNNING"
      then show "\<exists>d. phproc (?ph d) = Some q"
      proof (cases "q = p")
        case False
        with \<open>states v q = RUNNING\<close> st have "states t q = RUNNING" by simp
        then obtain d where "phproc ((ph(c := InSched)) d) = Some q" using po by (auto simp: procs_ok_def)
        then show ?thesis by (intro exI[of _ d]) (auto split: if_splits)
      qed (intro exI[of _ c], simp)
    qed
  qed
  ultimately show ?thesis using q Some by (simp add: sinv_def picked_def)
qed

lemma on_sel [simp]:
  "qinv cfg ex (on c s) = qinv cfg ex s" "states (on c s) = states s" "lock_free l (on c s) = lock_free l s"
  "procs_ok (on c s) ph = procs_ok s ph"
proof -
  have "psame s (on c s)" by (simp add: psame_def)
  then show "qinv cfg ex (on c s) = qinv cfg ex s" "states (on c s) = states s"
    by (simp_all add: psame_qinv psame_states)
  then show "procs_ok (on c s) ph = procs_ok s ph" by (simp add: procs_ok_def)
qed (simp add: lock_free_def)

lemma free_no_switch: "sinv cfg ex (s, ph) \<Longrightarrow> locked (locks s PtableLock) = 0 \<Longrightarrow> \<not> switching (ph d)"
  using holder by fastforce

lemma cpus_okD:
  assumes "sinv cfg ex (s, ph)"
  shows "0 \<le> ncli (cpus s c)" "0 < ncli (cpus s c) \<Longrightarrow> \<not> eflags_if (cpus s c)"
    "ph c = InSched \<Longrightarrow> ncli (cpus s c) = 0" "switching (ph c) \<Longrightarrow> ncli (cpus s c) = 1"
  using assms by (auto simp: sinv_def cpus_ok_def)

lemma sinvD:
  assumes "sinv cfg ex (s, ph)"
  shows "qinv cfg ex s" "lock_free RrqueueLock s" "lock_free TicksLock s" "procs_ok s ph"
  using assms by (auto simp: sinv_def locks_ok_def)

lemma enter_sinv:
  assumes inv: "sinv cfg ex (s, ph)" and ph: "ph c = InSched" and e: "scheduler_enter cfg (on c s) = Inr (r, v)"
  shows "sinv cfg ex (v, ph(c := picked r))"
proof -
  note D = sinvD[OF inv] and C = cpus_okD[OF inv]
  obtain t where t: "lock_taken PtableLock (sti (on c s)) t" "turn cfg ex t r v"
    using scheduler_enter_turn[OF e, of ex] D C(1)[of c] by auto
  have fr: "locked (locks s PtableLock) = 0" using t(1) by (simp add: lock_taken_def sti_def set_cpu_def)
  have st: "states t = states s"
    using t(1) psame_states[of "sti (on c s)" t]
    by (auto simp: lock_taken_def sti_def set_cpu_def states_def fun_eq_iff)
  have eq: "ph(c := InSched) = ph" using ph by auto
  show ?thesis
  proof (rule turn_sinv[OF t(2)])
    show "cur t = c" using t(1) by (simp add: lock_taken_def sti_def set_cpu_def)
    show "procs_ok t (ph(c := InSched))"
      using D(4) t(1) st unfolding eq by (simp add: procs_ok_def lock_taken_def sti_def set_cpu_def)
    show "\<not> switching (ph d)" for d by (rule free_no_switch[OF inv fr])
    show "locks t PtableLock = \<lparr>locked = 1, lk_cpu = Some c\<rparr>" "lock_free RrqueueLock t" "lock_free TicksLock t"
      using t(1) D(2,3) by (auto simp: lock_taken_def sti_def set_cpu_def lock_free_def)
    show "ncli (cpus t c) = 1" "\<not> eflags_if (cpus t c)"
      using t(1) C(3)[OF ph] by (auto simp: lock_taken_def sti_def set_cpu_def)
    show "0 \<le> ncli (cpus t d) \<and> (0 < ncli (cpus t d) \<longrightarrow> \<not> eflags_if (cpus t d)) \<and>
       (ph d = InSched \<longrightarrow> ncli (cpus t d) = 0)" if "d \<noteq> c" for d
      using t(1) C[of d] that by (auto simp: lock_taken_def sti_def set_cpu_def)
  qed
qed

lemma back_sinv:
  assumes inv: "sinv cfg ex (s, ph)" and ph: "ph c = Leaving p" and b: "scheduler_back cfg p (on c s) = Inr (r, v)"
  shows "sinv cfg ex (v, ph(c := picked r))"
proof -
  note D = sinvD[OF inv] and C = cpus_okD[OF inv]
  define t where "t = upd_cctx (\<lambda>c. c\<lparr>cproc := None\<rparr>) (switchkvm (on c s))"
  have ts: "ptable t = ptable s" "cpus t = cpus s" "locks t = locks s" "cur t = c" "psame s t"
    by (simp_all add: t_def switchkvm_def psame_def)
  have tc: "cproc (cctx t d) = (if d = c then None else cproc (cctx s d))" for d
    by (simp add: t_def switchkvm_def)
  have st: "states t = states s" using psame_states[OF ts(5)] .
  have q: "qinv cfg ex t" using psame_qinv[OF ts(5)] D(1) by simp
  have pn: "p < NPROC" using procs_okD(3)[OF D(4), of c p] ph by simp
  have tu: "turn cfg ex t r v"
  proof (cases "cfg = DEFAULT")
    case True
    then have "scheduler_scan (Suc p) t = Inr (r, v)" using b by (simp add: scheduler_back_def t_def)
    moreover have "lock_free RrqueueLock t" "cpu_ok t" "1 \<le> ncli (mycpu t)"
      using D(2) C[of c] ph ts by (auto simp: lock_free_def cpu_ok_def)
    ultimately show ?thesis using scheduler_scan_turn[of "Suc p" t r v ex] q True pn by simp
  next
    case False
    then have "r = None" "release PtableLock t = Inr v"
      using b by (auto simp: scheduler_back_def scheduler_end_def t_def)
    then show ?thesis using turn_none[of cfg ex t t v] q release_given[of PtableLock t v] by simp
  qed
  have only: "\<not> switching (ph d)" if "d \<noteq> c" for d
    using holder[OF inv, of d] holder[OF inv, of c] ph that by auto
  show ?thesis
  proof (rule turn_sinv[OF tu ts(4)])
    show "procs_ok t (ph(c := InSched))" unfolding procs_ok_def
    proof (intro conjI allI impI)
      fix d show "cproc (cctx t d) = phproc ((ph(c := InSched)) d)"
        using tc[of d] procs_okD(1)[OF D(4)] by simp
    next
      fix d e q assume "phproc ((ph(c := InSched)) d) = Some q \<and> phproc ((ph(c := InSched)) e) = Some q"
      then show "d = e" using procs_okD(2)[OF D(4), of d q e] by (auto split: if_splits)
    next
      fix d q assume a: "phproc ((ph(c := InSched)) d) = Some q"
      then show "q < NPROC" using procs_okD(3)[OF D(4), of d q] by (auto split: if_splits)
      show "states t q = RUNNING \<longleftrightarrow> (ph(c := InSched)) d \<noteq> Leaving q"
        using a procs_okD(4)[OF D(4), of d q] st by (auto split: if_splits)
    next
      fix q assume "states t q = RUNNING"
      then have r: "states s q = RUNNING" using st by simp
      then obtain d where d: "phproc (ph d) = Some q" using procs_okD(5)[OF D(4)] by blast
      have "d \<noteq> c" using d r ph procs_okD(4)[OF D(4) d] by auto
      then show "\<exists>d. phproc ((ph(c := InSched)) d) = Some q" using d by (intro exI[of _ d]) simp
    qed
    show "locks t PtableLock = \<lparr>locked = 1, lk_cpu = Some c\<rparr>" "lock_free RrqueueLock t" "lock_free TicksLock t"
      using holder[OF inv, of c] ph D(2,3) ts by (auto simp: lock_free_def)
    show "ncli (cpus t c) = 1" "\<not> eflags_if (cpus t c)" using C(2,4)[of c] ph ts by auto
    show "0 \<le> ncli (cpus t d) \<and> (0 < ncli (cpus t d) \<longrightarrow> \<not> eflags_if (cpus t d)) \<and>
       (ph d = InSched \<longrightarrow> ncli (cpus t d) = 0)" for d using C[of d] ts by auto
  qed (rule only)
qed

section \<open>Calls\<close>

lemma mem_only_same: "mem_only s s' \<Longrightarrow> psame s s' \<and> cctx s' = cctx s"
  by (cases s; cases s'; simp add: mem_only_def psame_def)

lemma mem_only_calm: "mem_only t u \<Longrightarrow> calm t u"
  using mem_only_same[of t u] by (auto simp: mem_only_def calm_def core_lock_def)

lemma section_called:
  assumes "lock_taken PtableLock s t" "calm t u" "lock_given PtableLock u v"
  shows "called s v"
proof -
  have "ncli (cpus v c) = ncli (cpus s c) \<and> (c \<noteq> cur s \<longrightarrow> eflags_if (cpus v c) = eflags_if (cpus s c))" for c
    using assms by (cases "c = cur s") (auto simp: lock_taken_def calm_def lock_given_def)
  moreover have "0 < ncli (cpus v (cur s)) \<longrightarrow> \<not> eflags_if (cpus v (cur s))"
    using assms by (auto simp: lock_taken_def calm_def lock_given_def)
  moreover have "locked (locks s PtableLock) = 0" "lock_free PtableLock v"
    "locks v RrqueueLock = locks s RrqueueLock" "locks v TicksLock = locks s TicksLock"
    "cproc (cctx v c) = cproc (cctx s c)" for c
    using assms by (auto simp: lock_taken_def calm_def lock_given_def core_lock_def lock_free_def)
  ultimately show ?thesis by (simp add: called_def)
qed

lemma section_left:
  assumes "lock_taken PtableLock (on c s) t" "calm t u" "ncli (cpus u c) = 1" "\<not> eflags_if (cpus u c)"
  shows "left c s u"
  using assms unfolding left_def lock_taken_def calm_def core_lock_def by auto

lemma sched_Inr: "sched s = Inr (i, v) \<Longrightarrow> v = s \<and> ncli (mycpu s) = 1 \<and> \<not> eflags_if (mycpu s)"
  by (auto simp: sched_def split: if_splits)

text \<open>The state inside the critical section.\<close>

lemma inside:
  assumes inv: "sinv cfg ex (s, ph)" and t: "lock_taken PtableLock (on c s) t"
  shows "qinv cfg ex t" "states t = states s" "lock_free RrqueueLock t" "lock_free TicksLock t" "cpu_ok t"
    "cur t = c" "myproc t = phproc (ph c)"
proof -
  note D = sinvD[OF inv]
  have n: "0 \<le> ncli (mycpu (on c s))" using cpus_okD(1)[OF inv, of c] by simp
  note a = acquired_state[OF t n]
  show "qinv cfg ex t" "states t = states s" "lock_free RrqueueLock t" "lock_free TicksLock t" "cpu_ok t"
    using a D by simp_all
  show "cur t = c" "myproc t = phproc (ph c)"
    using t procs_okD(1)[OF D(4), of c] by (auto simp: lock_taken_def)
qed

lemma wakes_running: "wakes s s' \<Longrightarrow> states s' p = RUNNING \<longleftrightarrow> states s p = RUNNING"
proof -
  assume "wakes s s'"
  then have "states s' p = states s p \<or> states s p = SLEEPING \<and> states s' p = RUNNABLE" by (simp add: wakes_def)
  then show ?thesis by auto
qed

lemma wakeup_sinv:
  assumes inv: "sinv cfg ex (s, ph)" and w: "wakeup cfg ch (on c s) = Inr v"
  shows "sinv cfg ex (v, ph)"
proof -
  obtain t u where tu: "acquire PtableLock (on c s) = Inr t" "wakeup1 cfg ch t = Inr u" "release PtableLock u = Inr v"
    using w by (auto simp: wakeup_def)
  note t = acquire_taken[OF tu(1)] and g = release_given[OF tu(3)]
  note I = inside[OF inv t]
  have u: "qinv cfg ex u" "wakes t u" using wakeup1_wakes[OF I(1,3,5), of ch] tu(2) by auto
  have pv: "psame u v" using g by (simp add: lock_given_def)
  have "called (on c s) v"
    by (rule section_called[OF t _ g]) (use u(2) quiet_calm in \<open>auto simp: wakes_def\<close>)
  then show ?thesis
    using called_sinv[OF inv] u psame_qinv[OF pv] psame_states[OF pv] wakes_running[OF u(2)] I(2) by simp
qed

lemma ready_sinv:
  assumes inv: "sinv cfg ex (s, ph)" and t: "lock_taken PtableLock (on c s) t"
    and u: "qinv cfg ex u" "calm t u" "states u = states s" and p: "p < NPROC" "states s p \<noteq> RUNNABLE" "states s p \<noteq> RUNNING"
    and e: "enqueue cfg p (upd_proc p (\<lambda>q. q\<lparr>state := RUNNABLE\<rparr>) u) = Inr w" and r: "release PtableLock w = Inr v"
  shows "sinv cfg ex (v, ph)"
proof -
  note I = inside[OF inv t] and g = release_given[OF r]
  have l: "lock_free RrqueueLock u" "cpu_ok u"
    using I(3,5) u(2) by (auto simp: calm_def core_lock_def lock_free_def cpu_ok_def)
  have "states u p \<noteq> RUNNABLE" using p(2) u(3) by simp
  from enqueue_qinv[OF u(1) l p(1) this] e
  have w: "qinv cfg ex w" "states w = (states u)(p := RUNNABLE)" "quiet u w" by auto
  have pv: "psame w v" using g by (simp add: lock_given_def)
  have "called (on c s) v"
    by (rule section_called[OF t calm_trans[OF u(2) quiet_calm[OF w(3)]] g])
  then show ?thesis
    by (rule called_sinv[OF inv]) (use w psame_qinv[OF pv] psame_states[OF pv] u(3) p(3) in auto)
qed

lemma plain_sinv:
  assumes inv: "sinv cfg ex (s, ph)" and t: "lock_taken PtableLock (on c s) t"
    and r: "release PtableLock u = Inr v"
    and u: "qinv cfg ex u" "calm t u" "\<And>p. states u p = RUNNING \<longleftrightarrow> states s p = RUNNING"
  shows "sinv cfg ex (v, ph)"
proof -
  note g = release_given[OF r]
  have pv: "psame u v" using g by (simp add: lock_given_def)
  have "called (on c s) v" by (rule section_called[OF t u(2) g])
  then show ?thesis
    by (rule called_sinv[OF inv]) (use u psame_qinv[OF pv] psame_states[OF pv] in auto)
qed

lemma kill_sinv:
  assumes inv: "sinv cfg ex (s, ph)" and k: "kill cfg pd (on c s) = Inr (r, v)"
  shows "sinv cfg ex (v, ph)"
proof -
  obtain t where a: "acquire PtableLock (on c s) = Inr t" using k by (auto simp: kill_def)
  note t = acquire_taken[OF a]
  note I = inside[OF inv t]
  show ?thesis
  proof (cases "scan (\<lambda>p. pid (ptable t p) = pd) NPROC")
    case None
    then have "release PtableLock t = Inr v" using k a by (auto simp: kill_def)
    then show ?thesis by (rule plain_sinv[OF inv t _ I(1) calm_refl]) (simp add: I(2))
  next
    case (Some p)
    then have pn: "p < NPROC" by (simp add: scan_Some)
    let ?u = "upd_proc p (\<lambda>q. q\<lparr>killed := True\<rparr>) t"
    have u: "qinv cfg ex ?u" by (rule qinv_upd_other) (use I(1) in auto)
    have us: "states ?u = states s" using I(2) by (simp add: states_upd_proc fun_eq_iff states_def)
    have ue: "state (ptable ?u p) = states s p" using fun_cong[OF us, of p] by (simp add: states_def)
    show ?thesis
    proof (cases "states s p = SLEEPING")
      case True
      then obtain w where "enqueue cfg p (upd_proc p (\<lambda>q. q\<lparr>state := RUNNABLE\<rparr>) ?u) = Inr w" "release PtableLock w = Inr v"
        using k a Some ue by (auto simp: kill_def Let_def)
      then show ?thesis by (intro ready_sinv[OF inv t u _ us pn]) (use True in auto)
    next
      case False
      then have "release PtableLock ?u = Inr v" using k a Some ue by (auto simp: kill_def Let_def)
      then show ?thesis by (rule plain_sinv[OF inv t _ u]) (simp_all add: us)
    qed
  qed
qed

end
