(* ===== verification/Xv6_SchedSafe.thy ===== *)
theory Xv6_SchedSafe
  imports Xv6_SchedInv
begin

text \<open>
  Every step of the machine of \<open>Xv6_SchedInv\<close> keeps its invariant, and what follows from it.
\<close>

section \<open>Calls that change other processes\<close>

lemma qinv_upd_wake:
  assumes "qinv cfg (False, X) s" "\<And>q. rrnext (f q) = rrnext q \<and> rrprev (f q) = rrprev q" "states s p \<noteq> RUNNABLE"
  shows "qinv cfg (False, X) (upd_proc p f s)"
proof -
  from assms(1) obtain qs where qs: "rrq s qs" "\<forall>p\<in>set qs. states s p = RUNNABLE" "cfg = DEFAULT \<longrightarrow> qs = []"
    "covered cfg (False, X) (states s) qs" by (auto simp: qinv_def)
  then have "p \<notin> set qs" using assms(3) by auto
  moreover have "covered cfg (False, X) (states (upd_proc p f s)) qs" using qs(4) assms(3) by (auto simp: covered_def states_upd_proc)
  ultimately show ?thesis using qs links_upd_proc[of f p s, OF assms(2)]
    unfolding qinv_def by (intro exI[of _ qs]) (auto simp: states_upd_proc)
qed

lemma sigsend_sinv:
  assumes inv: "sinv cfg (False, X) (s, ph)" and k: "sigsend pd n (on c s) = Inr (r, v)"
  shows "sinv cfg (False, X) (v, ph)"
proof (cases "n \<ge> 31 \<or> n < 0")
  case True
  then have "v = on c s" using k by (simp add: sigsend_def)
  then show ?thesis using inv by (simp add: sinv_def cpus_ok_def locks_ok_def)
next
  case False
  then obtain t where a: "acquire PtableLock (on c s) = Inr t" using k by (auto simp: sigsend_def Let_def)
  note t = acquire_taken[OF a]
  note I = inside[OF inv t]
  show ?thesis
  proof (cases "scan (\<lambda>p. pid (ptable t p) = pd) NPROC")
    case None
    then have "release PtableLock t = Inr v" using k a False by (auto simp: sigsend_def Let_def)
    then show ?thesis by (rule plain_sinv[OF inv t _ I(1) calm_refl]) (simp add: I(2))
  next
    case (Some p)
    let ?u = "upd_proc p (\<lambda>q. q\<lparr>pending := pending q OR push_bit (nat n) 1\<rparr>) t"
    let ?w = "if state (ptable ?u p) = SLEEPING then upd_proc p (\<lambda>q. q\<lparr>state := RUNNABLE\<rparr>) ?u else ?u"
    have u: "qinv cfg (False, X) ?u" by (rule qinv_upd_other) (use I(1) in auto)
    have us: "states ?u = states s" using I(2) by (simp add: states_upd_proc fun_eq_iff states_def)
    have ue: "state (ptable ?u p) = states s p" using fun_cong[OF us, of p] by (simp add: states_def)
    have r: "release PtableLock ?w = Inr v" using k a Some False by (auto simp: sigsend_def Let_def)
    have "qinv cfg (False, X) ?w" using u qinv_upd_wake[OF u, of "\<lambda>q. q\<lparr>state := RUNNABLE\<rparr>" p] us ue by auto
    moreover have "states ?w q = RUNNING \<longleftrightarrow> states s q = RUNNING" for q
      using fun_cong[OF us, of q] ue by (auto simp: states_upd_proc)
    ultimately show ?thesis using plain_sinv[OF inv t r] by simp
  qed
qed

lemma fork_ready_sinv:
  assumes inv: "sinv cfg ex (s, ph)" and np: "np < NPROC" "states s np = EMBRYO"
    and k: "fork_ready cfg np (on c s) = Inr v"
  shows "sinv cfg ex (v, ph)"
proof -
  obtain t w where a: "acquire PtableLock (on c s) = Inr t"
    and w: "enqueue cfg np (upd_proc np (\<lambda>q. q\<lparr>state := RUNNABLE\<rparr>) t) = Inr w" "release PtableLock w = Inr v"
    using k by (auto simp: fork_ready_def)
  note t = acquire_taken[OF a]
  note I = inside[OF inv t]
  show ?thesis by (rule ready_sinv[OF inv t I(1) calm_refl I(2) np(1) _ _ w]) (use np in auto)
qed

text \<open>A change of memory or of other fields of a process, with no lock taken or given back.\<close>

lemma local_sinv:
  assumes inv: "sinv cfg ex (s, ph)" and c: "calm s v" and q: "qinv cfg ex v"
    and run: "\<And>p. states v p = RUNNING \<longleftrightarrow> states s p = RUNNING"
  shows "sinv cfg ex (v, ph)"
  using inv c q run
  by (simp add: sinv_def cpus_ok_def locks_ok_def procs_ok_def calm_def core_lock_def lock_free_def)

lemma calm_cycle [simp]: "calm t (lock_cycle u) = calm t u" "calm (lock_cycle t) u = calm t u"
  by (auto simp: calm_def cpus_lock_cycle)

lemma ticks_section:
  assumes a: "acquire TicksLock s = Inr t" and r: "release TicksLock (upd_proc p f t) = Inr v"
    and l: "lock_free TicksLock s" "cpu_ok s"
  shows "v = lock_cycle (upd_proc p f s)"
proof -
  have "t = acq_st TicksLock s" using a acquire_free[OF l(1)] by simp
  then show ?thesis using r l release_acq_st[of TicksLock "upd_proc p f s"] by simp
qed

lemma allocproc_sinv:
  assumes inv: "sinv cfg ex (s, ph)" and k: "allocproc lk (on c s) = Inr (r, v)"
  shows "sinv cfg ex (v, ph)"
proof -
  obtain t where a: "acquire PtableLock (on c s) = Inr t" using k by (auto simp: allocproc_def)
  note t = acquire_taken[OF a]
  note I = inside[OF inv t]
  show ?thesis
  proof (cases "scan (\<lambda>p. state (ptable t p) = UNUSED) NPROC")
    case None
    then have "release PtableLock t = Inr v" using k a by (auto simp: allocproc_def)
    then show ?thesis by (rule plain_sinv[OF inv t _ I(1) calm_refl]) (simp add: I(2))
  next
    case (Some p)
    then have st: "states s p = UNUSED" using I(2) by (auto simp: scan_Some states_def dest: fun_cong[of _ _ p])
    let ?u = "(upd_proc p (\<lambda>q. q\<lparr>state := EMBRYO, pid := nextpid t\<rparr>) t)\<lparr>nextpid := nextpid t + 1\<rparr>"
    obtain t1 t2 t3 ks t4 where
      b: "acquire TicksLock ?u = Inr t1" "release TicksLock (upd_proc p (\<lambda>q. q\<lparr>ctime := ticks t1\<rparr>) t1) = Inr t2"
        "release PtableLock t2 = Inr t3" "kalloc t3 = Inr (ks, t4)"
      and e: "v = upd_proc p (\<lambda>q. q\<lparr>state := UNUSED\<rparr>) (upd_proc p (\<lambda>q. q\<lparr>kstack := ks\<rparr>) t4) \<or>
        psame (upd_proc p (\<lambda>q. q\<lparr>kstack := ks, tf := tf (ptable v p), ctxt := ctxt (ptable v p)\<rparr>) t4) v \<and>
        calm t4 v"
      using k a Some by (auto simp: allocproc_def Let_def psame_def set_ram_def calm_def split: if_splits)
    have u: "qinv cfg ex ?u"
      using qinv_upd_unready[OF I(1), of "\<lambda>q. q\<lparr>state := EMBRYO, pid := nextpid t\<rparr>" p] st I(2)
        psame_qinv[of "upd_proc p (\<lambda>q. q\<lparr>state := EMBRYO, pid := nextpid t\<rparr>) t" ?u]
      by (simp add: psame_def)
    have us: "states ?u = (states s)(p := EMBRYO)" using I(2) by (auto simp: states_def fun_eq_iff)
    have ul: "lock_free TicksLock ?u" "cpu_ok ?u" using I(4,5) by simp_all
    let ?w = "upd_proc p (\<lambda>q. q\<lparr>ctime := ticks t1\<rparr>) ?u"
    have t2: "t2 = lock_cycle ?w" by (rule ticks_section[OF b(1,2) ul])
    have ws: "states ?w = (states s)(p := EMBRYO)" unfolding us[symmetric] by (auto simp: states_def fun_eq_iff)
    have "qinv cfg ex ?w" by (rule qinv_upd_other[OF u]) auto
    then have i3: "sinv cfg ex (t3, ph)"
      by (intro plain_sinv[OF inv t b(3)]) (use ws st in \<open>auto simp: t2\<close>)
    have s3: "states t3 = (states s)(p := EMBRYO)"
      using release_given[OF b(3)] psame_states[of t2 t3] ws by (simp add: lock_given_def t2)
    have ck: "cpu_ok t3"
    proof -
      have "cur t3 = c" using release_given[OF b(3)] I(6) by (simp add: lock_given_def t2)
      then show ?thesis using cpus_okD(1,2)[OF i3, of c] by (simp add: cpu_ok_def)
    qed
    have m: "mem_only t3 t4" by (rule kalloc_mem[OF b(4) ck])
    have s4: "states t4 = (states s)(p := EMBRYO)" using psame_states[of t3 t4] mem_only_same[OF m] s3 by simp
    have q4: "qinv cfg ex t4" using psame_qinv[of t3 t4] mem_only_same[OF m] sinvD(1)[OF i3] by simp
    have c4: "calm t3 t4" by (rule mem_only_calm[OF m])
    have q5: "qinv cfg ex (upd_proc p (\<lambda>q. q\<lparr>kstack := ks\<rparr>) t4)" by (rule qinv_upd_other[OF q4]) auto
    from e show ?thesis
    proof
      assume v: "v = upd_proc p (\<lambda>q. q\<lparr>state := UNUSED\<rparr>) (upd_proc p (\<lambda>q. q\<lparr>kstack := ks\<rparr>) t4)"
      have "qinv cfg ex v" unfolding v
        by (rule qinv_upd_unready[OF q5]) (use s4 in \<open>auto simp: states_upd_proc states_def dest: fun_cong[of _ _ p]\<close>)
      then show ?thesis
        by (intro local_sinv[OF i3]) (use c4 s3 s4 v in \<open>auto simp: states_upd_proc\<close>)
    next
      assume v: "psame (upd_proc p (\<lambda>q. q\<lparr>kstack := ks, tf := tf (ptable v p), ctxt := ctxt (ptable v p)\<rparr>) t4) v \<and> calm t4 v"
      let ?x = "upd_proc p (\<lambda>q. q\<lparr>kstack := ks, tf := tf (ptable v p), ctxt := ctxt (ptable v p)\<rparr>) t4"
      have x: "qinv cfg ex ?x" by (rule qinv_upd_other[OF q4]) auto
      have xs: "states ?x = states t4" by (auto simp: states_def fun_eq_iff)
      have vp: "psame ?x v" using v by blast
      have "states v = states t3" using psame_states[OF vp] xs s3 s4 by simp
      moreover have "qinv cfg ex v" using psame_qinv[OF vp] x by simp
      moreover have "calm t3 v" using c4 v calm_trans by blast
      ultimately show ?thesis by (intro local_sinv[OF i3]) auto
    qed
  qed
qed

section \<open>Switching away\<close>

lemma yield_sinv:
  assumes inv: "sinv cfg ex (s, ph)" and ph: "ph c = InProc p" and y: "yield cfg (on c s) = Inr (i, v)"
  shows "sinv cfg ex (v, ph(c := Leaving p))"
proof -
  obtain t where a: "acquire PtableLock (on c s) = Inr t" using y by (auto simp: yield_def)
  note t = acquire_taken[OF a]
  note I = inside[OF inv t] and D = sinvD[OF inv]
  have me: "myproc t = Some p" using I(7) ph by simp
  then obtain w where w: "enqueue cfg p (upd_proc p (\<lambda>q. q\<lparr>state := RUNNABLE\<rparr>) t) = Inr w" "sched w = Inr (i, v)"
    using y a by (auto simp: yield_def)
  have p: "p < NPROC" "states s p = RUNNING" using procs_okD(3,4)[OF D(4), of c p] ph by auto
  obtain w' where "enqueue cfg p (upd_proc p (\<lambda>q. q\<lparr>state := RUNNABLE\<rparr>) t) = Inr w'"
    "qinv cfg ex w'" "states w' = (states t)(p := RUNNABLE)" "quiet t w'"
    using enqueue_qinv[OF I(1,3,5) p(1)] I(2) p(2) by auto
  then have q: "qinv cfg ex w" "states w = (states t)(p := RUNNABLE)" "quiet t w" using w(1) by auto
  have v: "v = w" "ncli (cpus w c) = 1" "\<not> eflags_if (cpus w c)"
    using sched_Inr[OF w(2)] q(3) I(6) by (auto simp: quiet_def)
  have "left c s w" by (rule section_left[OF t quiet_calm[OF q(3)] v(2,3)])
  then show ?thesis unfolding v(1)
    by (intro left_sinv[OF inv ph]) (use q I(2) in auto)
qed

lemma in_proc:
  assumes inv: "sinv cfg ex (s, ph)" and ph: "ph c = InProc p"
  shows "p < NPROC" "states s p = RUNNING" "myproc (on c s) = Some p"
  using procs_okD(1,3,4)[OF sinvD(4)[OF inv], of c] ph by auto

lemma leave_sinv:
  assumes inv: "sinv cfg ex (s, ph)" and ph: "ph c = InProc p" and t: "lock_taken PtableLock (on c s) t"
    and w: "qinv cfg ex w" "calm t w" "states w p \<noteq> RUNNING" "\<And>q. q \<noteq> p \<Longrightarrow> states w q = RUNNING \<longleftrightarrow> states s q = RUNNING"
    and sc: "sched w = Inr (i, v)"
  shows "sinv cfg ex (v, ph(c := Leaving p))"
proof -
  have v: "v = w" "ncli (cpus w c) = 1" "\<not> eflags_if (cpus w c)"
    using sched_Inr[OF sc] w(2) inside(6)[OF inv t] by (auto simp: calm_def)
  have "left c s w" by (rule section_left[OF t w(2) v(2,3)])
  then show ?thesis unfolding v(1)
    by (rule left_sinv[OF inv ph _ w(1)]) (metis w(3,4))
qed

lemma sleep_sinv:
  assumes inv: "sinv cfg ex (s, ph)" and ph: "ph c = InProc p" and l: "\<not> core_lock l"
    and y: "sleep ch (Some l) (on c s) = Inr (i, v)"
  shows "sinv cfg ex (v, ph(c := Leaving p))"
proof -
  note P = in_proc[OF inv ph]
  have "l \<noteq> PtableLock" using l by (auto simp: core_lock_def)
  then obtain t u where a: "acquire PtableLock (on c s) = Inr t" and r: "release l t = Inr u"
    and sc: "sched (upd_proc p (\<lambda>q. q\<lparr>chan := Some ch, state := SLEEPING\<rparr>) u) = Inr (i, v)"
    using y P(3) by (auto simp: sleep_def)
  note t = acquire_taken[OF a] and g = release_given[OF r]
  note I = inside[OF inv t]
  let ?w = "upd_proc p (\<lambda>q. q\<lparr>chan := Some ch, state := SLEEPING\<rparr>) u"
  have tu: "psame t u" using g by (simp add: lock_given_def)
  have us: "states u = states s" using psame_states[OF tu] I(2) by simp
  have "qinv cfg ex u" using psame_qinv[OF tu] I(1) by simp
  then have q: "qinv cfg ex ?w"
    by (rule qinv_upd_unready) (use us P(2) in \<open>auto simp: states_def dest: fun_cong[of _ _ p]\<close>)
  have v: "v = ?w" "ncli (mycpu ?w) = 1" "\<not> eflags_if (mycpu ?w)" using sched_Inr[OF sc] by auto
  have cw: "cur ?w = c" using g I(6) by (simp add: lock_given_def)
  have "left c s ?w"
    using t g l v(2,3) cw unfolding left_def lock_taken_def lock_given_def core_lock_def by auto
  then show ?thesis unfolding v(1)
    by (rule left_sinv[OF inv ph _ q]) (use us in \<open>auto simp: states_upd_proc\<close>)
qed

lemma exit_sinv:
  assumes inv: "sinv cfg ex (s, ph)" and ph: "ph c = InProc p" and y: "exit_sched cfg (on c s) = Inr (i, v)"
  shows "sinv cfg ex (v, ph(c := Leaving p))"
proof -
  note P = in_proc[OF inv ph]
  obtain t where a: "acquire PtableLock (on c s) = Inr t" using y by (auto simp: exit_sched_def)
  note t = acquire_taken[OF a]
  note I = inside[OF inv t]
  have me: "myproc t = Some p" using I(7) ph by simp
  let ?ch = "map_option ChanProc (parent (ptable t p))"
  obtain t1 where t1: "wakeup1 cfg ?ch t = Inr t1" "qinv cfg ex t1" "wakes t t1"
    using wakeup1_wakes[OF I(1,3,5)] by blast
  have l1: "lock_free RrqueueLock t1" "cpu_ok t1" using I(3,5) t1(3) quiet_locks[of t t1] by (auto simp: wakes_def)
  obtain t2 where t2: "exit_reparent cfg p t1 = Inr t2" "qinv cfg ex t2" "wakes t1 t2"
    using exit_reparent_wakes[OF t1(2) l1] by blast
  have w2: "wakes t t2" by (rule wakes_trans[OF t1(3) t2(3)])
  let ?z = "upd_proc p (\<lambda>q. q\<lparr>state := ZOMBIE\<rparr>) t2"
  have run: "states t2 q = RUNNING \<longleftrightarrow> states s q = RUNNING" for q using wakes_running[OF w2] I(2) by simp
  have qz: "qinv cfg ex ?z"
    by (rule qinv_upd_unready[OF t2(2)]) (use run[of p] P(2) in auto)
  have lz: "lock_free TicksLock ?z" "cpu_ok ?z" using I(4,5) w2 quiet_locks[of t t2] by (auto simp: wakes_def)
  obtain t3 t4 where b: "acquire TicksLock ?z = Inr t3"
    "release TicksLock (upd_proc p (\<lambda>q. q\<lparr>ttime := ticks t3\<rparr>) t3) = Inr t4" "sched t4 = Inr (i, v)"
    using y a me t1(1) t2(1) by (auto simp: exit_sched_def)
  let ?x = "upd_proc p (\<lambda>q. q\<lparr>ttime := ticks t3\<rparr>) ?z"
  have t4: "t4 = lock_cycle ?x" by (rule ticks_section[OF b(1,2) lz])
  have qx: "qinv cfg ex ?x" by (rule qinv_upd_other[OF qz]) auto
  have sx: "states ?x = (states t2)(p := ZOMBIE)" by (auto simp: states_def fun_eq_iff)
  show ?thesis
  proof (rule leave_sinv[OF inv ph t _ _ _ _ b(3)])
    show "qinv cfg ex t4" using qx by (simp add: t4)
    show "calm t t4" using w2 by (simp add: t4 wakes_def quiet_calm)
    show "states t4 p \<noteq> RUNNING" by (simp add: t4 sx)
    show "states t4 q = RUNNING \<longleftrightarrow> states s q = RUNNING" if "q \<noteq> p" for q using that run by (simp add: t4 sx)
  qed
qed

section \<open>Waiting for children\<close>

lemma reap_effect:
  assumes r: "wait_reap lk q t = Inr (pd, u)" and q: "qinv cfg ex t" and c: "cpu_ok t" and z: "states t q = ZOMBIE"
  shows "qinv cfg ex u \<and> calm t u \<and> states u = (states t)(q := UNUSED)"
proof -
  let ?k = "\<lambda>s. upd_proc q (\<lambda>x. x\<lparr>kstack := 0\<rparr>) s"
  let ?f = "\<lambda>x. x\<lparr>state := UNUSED, pid := 0, parent := None, pname := (pname x)[0 := 0],
      killed := False, runQuanta := 0, rutime := 0\<rparr>"
  obtain t1 t2 where t1: "kfree (l_end lk) (kstack (ptable t q)) t = Inr t1"
    and t2: "freevm (l_end lk) (pgdir (ptable (?k t1) q)) (?k t1) = Inr t2" and u: "u = upd_proc q ?f t2"
    using r by (auto simp: wait_reap_def Let_def)
  have m1: "mem_only t t1" by (rule kfree_mem[OF t1 c])
  have c1: "cpu_ok (?k t1)" using mem_only_cpu_ok[OF m1] c by simp
  have m2: "mem_only (?k t1) t2" by (rule freevm_mem[OF t2 c1])
  have s1: "states (?k t1) = states t"
    using psame_states[of t t1] mem_only_same[OF m1] by (auto simp: states_def fun_eq_iff)
  have q1: "qinv cfg ex (?k t1)"
    by (rule qinv_upd_other) (use psame_qinv[of t t1] mem_only_same[OF m1] q in auto)
  have s2: "states t2 = states t" using psame_states[of "?k t1" t2] mem_only_same[OF m2] s1 by simp
  have q2: "qinv cfg ex t2" using psame_qinv[of "?k t1" t2] mem_only_same[OF m2] q1 by simp
  have "qinv cfg ex u" unfolding u by (rule qinv_upd_unready[OF q2]) (use s2 z in auto)
  moreover have "calm t u"
    using calm_trans[OF mem_only_calm[OF m1]] mem_only_calm[OF m2] by (simp add: u)
  moreover have "states u = (states t)(q := UNUSED)" using s2 by (simp add: u states_upd_proc)
  ultimately show ?thesis by blast
qed

lemma wait_turn_effect:
  assumes w: "wait_turn lk t = Inr (r, v)" and q: "qinv cfg ex t" and c: "cpu_ok t"
    and me: "myproc t = Some p" "states t p = RUNNING"
  shows "\<exists>u. qinv cfg ex u \<and> calm t u \<and>
    (case r of Done _ \<Rightarrow> (\<forall>q. states u q = RUNNING \<longleftrightarrow> states t q = RUNNING) \<and> release PtableLock u = Inr v
     | Switched i \<Rightarrow> sched u = Inr (i, v) \<and> states u = (states t)(p := SLEEPING))"
proof (cases "scan (\<lambda>q. parent (ptable t q) = Some p \<and> state (ptable t q) = ZOMBIE) NPROC")
  case (Some z)
  then have z: "states t z = ZOMBIE" by (simp add: scan_Some states_def)
  from Some w me obtain pd u where u: "wait_reap lk z t = Inr (pd, u)" "release PtableLock u = Inr v" "r = Done pd"
    by (auto simp: wait_turn_def)
  from reap_effect[OF u(1) q c z] u z show ?thesis by (intro exI[of _ u]) auto
next
  case None
  show ?thesis
  proof (cases "scan (\<lambda>q. parent (ptable t q) = Some p) NPROC = None \<or> killed (ptable t p)")
    case True
    with None w me have "release PtableLock t = Inr v" "r = Done (-1)" by (auto simp: wait_turn_def)
    with q show ?thesis by (intro exI[of _ t]) auto
  next
    case False
    let ?u = "upd_proc p (\<lambda>q. q\<lparr>chan := Some (ChanProc p), state := SLEEPING\<rparr>) t"
    from False None w me obtain i where i: "sched ?u = Inr (i, v)" "r = Switched i"
      by (auto simp: wait_turn_def sleep_def)
    have "qinv cfg ex ?u" by (rule qinv_upd_unready[OF q]) (use me(2) in auto)
    with i show ?thesis by (intro exI[of _ ?u]) (auto simp: states_upd_proc)
  qed
qed

lemma wait_sinv:
  assumes inv: "sinv cfg ex (s, ph)" and ph: "ph c = InProc p" and w: "wait lk (on c s) = Inr (r, v)"
  shows "sinv cfg ex (v, ph(c := settled p r))"
proof -
  note P = in_proc[OF inv ph]
  obtain t where a: "acquire PtableLock (on c s) = Inr t" "wait_turn lk t = Inr (r, v)"
    using w by (auto simp: wait_def)
  note t = acquire_taken[OF a(1)]
  note I = inside[OF inv t]
  have me: "myproc t = Some p" "states t p = RUNNING" using I(2,7) ph P(2) by auto
  obtain u where u: "qinv cfg ex u" "calm t u"
    "case r of Done _ \<Rightarrow> (\<forall>q. states u q = RUNNING \<longleftrightarrow> states t q = RUNNING) \<and> release PtableLock u = Inr v
     | Switched i \<Rightarrow> sched u = Inr (i, v) \<and> states u = (states t)(p := SLEEPING)"
    using wait_turn_effect[OF a(2) I(1,5) me] by blast
  show ?thesis
  proof (cases r)
    case (Done x)
    then have "sinv cfg ex (v, ph)" using u I(2) by (intro plain_sinv[OF inv t _ u(1,2)]) auto
    moreover have "ph(c := settled p r) = ph" using ph Done by (auto simp: settled_def)
    ultimately show ?thesis by simp
  next
    case (Switched i)
    then have sc: "sched u = Inr (i, v)" and st: "states u = (states t)(p := SLEEPING)" using u(3) by auto
    have "sinv cfg ex (v, ph(c := Leaving p))"
      by (rule leave_sinv[OF inv ph t u(1,2) _ _ sc]) (use st I(2) in auto)
    then show ?thesis using Switched by (simp add: settled_def)
  qed
qed

section \<open>Being switched to\<close>

lemma sched_resume_calm: "calm s (sched_resume i s)" "psame s (sched_resume i s)"
  by (auto simp: calm_def psame_def sched_resume_def set_cpu_def)

lemma in_entering:
  assumes inv: "sinv cfg ex (s, ph)" and ph: "ph c = Entering p"
  shows "p < NPROC" "states s p = RUNNING" "myproc (on c s) = Some p" "cpu_ok (on c s)"
  using procs_okD(1,3,4)[OF sinvD(4)[OF inv], of c] cpus_okD[OF inv, of c] ph by (auto simp: cpu_ok_def)

lemma resume_sinv:
  assumes inv: "sinv cfg ex (s, ph)" and ph: "ph c = Entering p" and y: "yield_resume i (on c s) = Inr v"
  shows "sinv cfg ex (v, ph(c := InProc p))"
proof (rule entered_sinv[OF inv ph release_given])
  let ?t = "sched_resume i (on c s)"
  show "release PtableLock ?t = Inr v" using y by (simp add: yield_resume_def)
  show "calm (on c s) ?t" "qinv cfg ex ?t" "\<And>q. states ?t q = RUNNING \<longleftrightarrow> states s q = RUNNING"
    using sched_resume_calm[of "on c s" i] psame_qinv[of "on c s" ?t] psame_states[of "on c s" ?t] sinvD(1)[OF inv]
    by auto
qed

lemma awake_state:
  fixes i :: bool
  assumes inv: "sinv cfg ex (s, ph)" and ph: "ph c = Entering p"
  defines "t \<equiv> upd_proc p (\<lambda>q. q\<lparr>chan := None\<rparr>) (sched_resume i (on c s))"
  shows "calm (on c s) t" "qinv cfg ex t" "states t = states s" "myproc t = Some p" "cpu_ok t"
    "theproc (sched_resume i (on c s)) = Inr p"
proof -
  let ?r = "sched_resume i (on c s)"
  note R = sched_resume_calm[of "on c s" i]
  show "calm (on c s) t" using R(1) by (simp add: t_def)
  show st: "states t = states s" using psame_states[OF R(2)] by (auto simp: t_def states_def fun_eq_iff)
  have "qinv cfg ex ?r" using psame_qinv[OF R(2)] sinvD(1)[OF inv] by simp
  then show "qinv cfg ex t" unfolding t_def by (rule qinv_upd_other) auto
  show "myproc t = Some p" "cpu_ok t" "theproc ?r = Inr p"
    using in_entering[OF inv ph] by (auto simp: t_def sched_resume_def set_cpu_def cpu_ok_def)
qed

lemma awake_sinv:
  assumes inv: "sinv cfg ex (s, ph)" and ph: "ph c = Entering p" and l: "\<not> core_lock l"
    and y: "sleep_tidy l i (on c s) = Inr v"
  shows "sinv cfg ex (v, ph(c := InProc p))"
proof -
  note A = awake_state[OF inv ph, where i = i]
  have "l \<noteq> PtableLock" using l by (auto simp: core_lock_def)
  then have "release PtableLock (upd_proc p (\<lambda>q. q\<lparr>chan := None\<rparr>) (sched_resume i (on c s))) = Inr v"
    using y A(6) by (simp add: sleep_tidy_def)
  from entered_sinv[OF inv ph release_given[OF this] A(1,2)] A(3) show ?thesis by simp
qed

lemma wait_again_sinv:
  assumes inv: "sinv cfg ex (s, ph)" and ph: "ph c = Entering p" and w: "wait_resume lk i (on c s) = Inr (r, v)"
  shows "sinv cfg ex (v, ph(c := settled p r))"
proof -
  let ?t = "upd_proc p (\<lambda>q. q\<lparr>chan := None\<rparr>) (sched_resume i (on c s))"
  note A = awake_state[OF inv ph, where i = i]
  have wt: "wait_turn lk ?t = Inr (r, v)"
    using w A(6) by (simp add: wait_resume_def sleep_resume_def sleep_tidy_def)
  have run: "states ?t p = RUNNING" using A(3) in_entering(2)[OF inv ph] by simp
  obtain u where u: "qinv cfg ex u" "calm ?t u"
    "case r of Done _ \<Rightarrow> (\<forall>q. states u q = RUNNING \<longleftrightarrow> states ?t q = RUNNING) \<and> release PtableLock u = Inr v
     | Switched i \<Rightarrow> sched u = Inr (i, v) \<and> states u = (states ?t)(p := SLEEPING)"
    using wait_turn_effect[OF wt A(2,5,4) run] by blast
  have cu: "calm (on c s) u" by (rule calm_trans[OF A(1) u(2)])
  show ?thesis
  proof (cases r)
    case (Done x)
    then have rel: "release PtableLock u = Inr v" and st: "\<forall>q. states u q = RUNNING \<longleftrightarrow> states s q = RUNNING"
      using u(3) A(3) by auto
    from entered_sinv[OF inv ph release_given[OF rel] cu u(1)] st Done show ?thesis by (simp add: settled_def)
  next
    case (Switched j)
    then have "v = u" "states u = (states s)(p := SLEEPING)" using u(3) A(3) sched_Inr by auto
    with bounced_sinv[OF inv ph cu u(1)] Switched show ?thesis by (simp add: settled_def)
  qed
qed

lemma start_sinv:
  assumes inv: "sinv cfg ex (s, ph)" and ph: "ph c = Entering p" and r: "release PtableLock (on c s) = Inr v"
  shows "sinv cfg ex (v, ph(c := InProc p))"
  using entered_sinv[OF inv ph release_given[OF r]] sinvD(1)[OF inv] by simp

section \<open>The locks of other components\<close>

lemma other_lock_sinv:
  assumes inv: "sinv cfg ex (s, ph)" and ph: "ph c = InProc p" and ps: "psame s v"
    and l: "\<And>k. core_lock k \<Longrightarrow> locks v k = locks s k" and cc: "\<And>d. cproc (cctx v d) = cproc (cctx s d)"
    and cpu: "\<And>d. d \<noteq> c \<Longrightarrow> cpus v d = cpus s d" "0 \<le> ncli (cpus v c)" "0 < ncli (cpus v c) \<longrightarrow> \<not> eflags_if (cpus v c)"
  shows "sinv cfg ex (v, ph)"
proof -
  have "qinv cfg ex v" using psame_qinv[OF ps] sinvD(1)[OF inv] by simp
  moreover have "cpus_ok v ph"
    unfolding cpus_ok_def
  proof (intro allI)
    fix d
    show "0 \<le> ncli (cpus v d) \<and> (0 < ncli (cpus v d) \<longrightarrow> \<not> eflags_if (cpus v d)) \<and>
      (ph d = InSched \<longrightarrow> ncli (cpus v d) = 0) \<and> (switching (ph d) \<longrightarrow> ncli (cpus v d) = 1)"
      using cpu ph cpus_okD[OF inv, of d] by (cases "d = c") auto
  qed
  moreover have "locks_ok v ph"
    using l[of PtableLock] l[of RrqueueLock] l[of TicksLock] inv
    by (simp add: sinv_def locks_ok_def lock_free_def core_lock_def)
  moreover have "procs_ok v ph"
    using sinvD(4)[OF inv] cc psame_states[OF ps] by (simp add: procs_ok_def)
  ultimately show ?thesis by (simp add: sinv_def)
qed

lemma locks_other_sinv:
  assumes "sinv cfg ex (s, ph)" "ph c = InProc p" "\<not> core_lock l" "acquire l (on c s) = Inr v"
  shows "sinv cfg ex (v, ph)"
proof (rule other_lock_sinv[OF assms(1,2)])
  have t: "lock_taken l (on c s) v" by (rule acquire_taken[OF assms(4)])
  then show "psame s v" by (auto simp: lock_taken_def psame_def)
  show "\<And>k. core_lock k \<Longrightarrow> locks v k = locks s k" using t assms(3) by (auto simp: lock_taken_def)
  show "\<And>d. cproc (cctx v d) = cproc (cctx s d)" "\<And>d. d \<noteq> c \<Longrightarrow> cpus v d = cpus s d" using t by (auto simp: lock_taken_def)
  show "0 \<le> ncli (cpus v c)" "0 < ncli (cpus v c) \<longrightarrow> \<not> eflags_if (cpus v c)"
    using t cpus_okD[OF assms(1), of c] by (auto simp: lock_taken_def)
qed

lemma unlocks_other_sinv:
  assumes "sinv cfg ex (s, ph)" "ph c = InProc p" "\<not> core_lock l" "release l (on c s) = Inr v"
  shows "sinv cfg ex (v, ph)"
proof (rule other_lock_sinv[OF assms(1,2)])
  have t: "lock_given l (on c s) v" by (rule release_given[OF assms(4)])
  then show "psame s v" by (auto simp: lock_given_def psame_def)
  show "\<And>k. core_lock k \<Longrightarrow> locks v k = locks s k" using t assms(3) by (auto simp: lock_given_def)
  show "\<And>d. cproc (cctx v d) = cproc (cctx s d)" "\<And>d. d \<noteq> c \<Longrightarrow> cpus v d = cpus s d" using t by (auto simp: lock_given_def)
  show "0 \<le> ncli (cpus v c)" "0 < ncli (cpus v c) \<longrightarrow> \<not> eflags_if (cpus v c)" using t by (auto simp: lock_given_def)
qed

section \<open>Every reachable state\<close>

lemma start_ok: "sched_start cfg s \<Longrightarrow> sinv cfg (True, {}) (s, \<lambda>_. InSched)"
  by (auto simp: sched_start_def sinv_def cpus_ok_def locks_ok_def procs_ok_def core_lock_def)

lemma sinv_weaken: "sinv cfg (True, {}) x \<Longrightarrow> sinv cfg (e, {}) x"
  by (cases x) (auto simp: sinv_def qinv_def covered_def)

lemma step_sinv:
  "sched_step cfg lk sig x y \<Longrightarrow> sinv cfg (\<not> sig, X) x \<Longrightarrow> sinv cfg (\<not> sig, X) y"
proof (induction rule: sched_step.induct)
  case (enter ph c s r s') then show ?case using enter_sinv by blast
next
  case (switch_back ph c p s r s') then show ?case using back_sinv by blast
next
  case (start ph c p s s') then show ?case using start_sinv by blast
next
  case (resume ph c p i s s') then show ?case using resume_sinv by blast
next
  case (awake ph c p l i s s') then show ?case using awake_sinv by blast
next
  case (wait_again ph c p i s r s') then show ?case using wait_again_sinv by blast
next
  case (yields ph c p s i s') then show ?case using yield_sinv by blast
next
  case (sleeps ph c p l ch s i s') then show ?case using sleep_sinv by blast
next
  case (waits_for ph c p s r s') then show ?case using wait_sinv by blast
next
  case (exits ph c p s i s') then show ?case using exit_sinv by blast
next
  case (wakes_up ph c ch s s') then show ?case using wakeup_sinv by blast
next
  case (kills ph c pd s r s') then show ?case using kill_sinv by blast
next
  case (signals ph c pd n s r s') then show ?case using sigsend_sinv by simp
next
  case (allocs ph c s r s') then show ?case using allocproc_sinv by blast
next
  case (forks ph c np s s') then show ?case using fork_ready_sinv by blast
next
  case (locks_other ph c p l s s') then show ?case using locks_other_sinv by blast
next
  case (unlocks_other ph c p l s s') then show ?case using unlocks_other_sinv by blast
qed

lemma reach_sinv: "sched_reach cfg lk sig x \<Longrightarrow> sinv cfg (\<not> sig, {}) x"
  by (induction rule: sched_reach.induct) (use start_ok sinv_weaken step_sinv in blast)+

section \<open>The scheduler does not panic\<close>

lemma qframe_pgdir: "qframe s s' \<Longrightarrow> pgdir (ptable s' p) = pgdir (ptable s p)"
proof -
  assume "qframe s s'"
  then have "pgdir (core (ptable s' p)) = pgdir (core (ptable s p))" by (simp add: qframe_def)
  then show ?thesis by (simp add: core_def)
qed

lemma scheduler_run_runs:
  assumes l: "lock_free RrqueueLock s" "cpu_ok s" "1 \<le> ncli (mycpu s)" and pg: "pgdir (ptable s p) \<noteq> 0"
  shows "\<exists>s'. scheduler_run cfg p s = Inr s'"
proof -
  let ?s = "upd_cctx (\<lambda>c. c\<lparr>cproc := Some p\<rparr>) s"
  define u where "u = (if cfg = DEFAULT then ?s else lock_cycle (removeProcFromRRqueue p ?s))"
  have u: "(if cfg = DEFAULT then Inr ?s else bindr (acquire RrqueueLock ?s)
      (\<lambda>s. release RrqueueLock (removeProcFromRRqueue p s))) = Inr u"
    using l by (simp add: u_def acquire_free release_acq_st)
  have q: "qframe ?s (removeProcFromRRqueue p ?s)" by (rule remove_qframe)
  have "quiet ?s u" using quiet_qframe[OF q] by (auto simp: u_def)
  then have m: "myproc u = Some p" "1 \<le> ncli (mycpu u)" using l by (auto simp: quiet_def)
  have "pgdir (ptable u p) = pgdir (ptable ?s p)" using qframe_pgdir[OF q] by (auto simp: u_def)
  then have "\<exists>v. switchuvm p u = Inr v" using switchuvm_runs[OF m(1) _ m(2)] pg by simp
  with u show ?thesis by (auto simp: scheduler_run_def Let_def)
qed

lemma scheduler_enter_runs:
  assumes q: "qinv cfg ex s" and l: "lock_free PtableLock s" "lock_free RrqueueLock s" "0 \<le> ncli (mycpu s)"
    and pg: "\<And>p. p < NPROC \<Longrightarrow> states s p = RUNNABLE \<Longrightarrow> pgdir (ptable s p) \<noteq> 0"
  shows "\<exists>r s'. scheduler_enter cfg s = Inr (r, s') \<and>
    (cfg = DEFAULT \<and> (\<exists>p<NPROC. states s p = RUNNABLE) \<longrightarrow> r \<noteq> None) \<and>
    (cfg \<noteq> DEFAULT \<and> fst ex \<and> (\<exists>p<NPROC. states s p = RUNNABLE) \<and> r = None \<longrightarrow>
      (\<exists>t s1. acquire PtableLock (sti s) = Inr t \<and> deliverTicketsToFIFOProcs cfg t = Inr s1 \<and> draw s1 = 0))"
proof -
  have "lock_free PtableLock (sti s)" using l by (simp add: sti_def set_cpu_def lock_free_def)
  then obtain t where t: "acquire PtableLock (sti s) = Inr t" and tk: "lock_taken PtableLock (sti s) t"
    using acquire_runs by blast
  have ps: "psame s (sti s)" by (simp add: psame_def sti_def set_cpu_def)
  have sl: "lock_free RrqueueLock (sti s)" "0 \<le> ncli (mycpu (sti s))"
    using l by (auto simp: sti_def set_cpu_def lock_free_def)
  note T = acquired_state[OF tk sl(2)]
  have tl: "lock_free RrqueueLock t" using T(3)[of RrqueueLock] sl(1) by simp
  have st: "states t = states s" "ptable t = ptable s"
    using T(4) psame_states[OF ps] tk ps by (auto simp: lock_taken_def psame_def)
  have hold: "holding PtableLock t" using tk by (auto simp: lock_taken_def holding_def)
  have ends: "\<exists>r s'. scheduler_end u = Inr (r, s')" if "quiet t u" for u
  proof -
    have "holding PtableLock u" "1 \<le> ncli (mycpu u)" "\<not> eflags_if (mycpu u)"
      using that hold T(1,2) by (auto simp: quiet_def holding_def cpu_ok_def)
    then show ?thesis using release_runs[of PtableLock u] by (auto simp: scheduler_end_def)
  qed
  show ?thesis
  proof (cases "cfg = DEFAULT")
    case True
    show ?thesis
    proof (cases "scan_from (\<lambda>p. state (ptable t p) = RUNNABLE) 0 (NPROC - 0)")
      case None
      then have "\<not> (\<exists>p<NPROC. states s p = RUNNABLE)"
        using st by (auto simp: scan_from_None states_def)
      moreover have "\<exists>r s'. scheduler_enter cfg s = Inr (r, s')"
        using None True t ends[OF quiet_refl] by (simp add: scheduler_enter_def scheduler_scan_def)
      ultimately show ?thesis using True by blast
    next
      case (Some p)
      then have p: "p < NPROC" "states s p = RUNNABLE" using st by (auto simp: scan_from_Some states_def)
      then have "pgdir (ptable t p) \<noteq> 0" using pg st by simp
      then obtain v where "scheduler_run DEFAULT p t = Inr v" using scheduler_run_runs[OF tl T(1,2)] by blast
      then show ?thesis using Some True t by (auto simp: scheduler_enter_def scheduler_scan_def)
    qed
  next
    case False
    have "qinv cfg ex t" using T(5) q psame_qinv[OF ps] by simp
    then obtain qs where qs: "rrq t qs" "\<forall>p\<in>set qs. states t p = RUNNABLE" "covered cfg ex (states t) qs" by (auto simp: qinv_def)
    have k: "kept cfg t qs = qs" by (rule kept_ready) (use qs(2) in \<open>auto simp: states_def\<close>)
    from round_ok[OF qs(1) tl T(1) False] obtain u sel where
      u: "deliverTicketsToFIFOProcs cfg t = Inr (lock_cycle u)" "qframe (t\<lparr>totalTickets := 0\<rparr>) u"
        "pickProcess (lock_cycle u) = Inr (sel, lock_cycle (rolled (lock_cycle u)))"
        "\<forall>p. sel = Some p \<longrightarrow> p \<in> set qs" "sel = None \<longleftrightarrow> qs = [] \<or> draw (lock_cycle u) = 0"
      unfolding k by blast
    let ?v = "lock_cycle (rolled (lock_cycle u))"
    have "quiet (t\<lparr>totalTickets := 0\<rparr>) u" by (rule quiet_qframe[OF u(2)])
    then have v: "quiet t ?v" by (auto simp: rolled_def quiet_def xorshift128_def lock_cycle_def Let_def set_cpu_def)
    have "\<exists>r s'. scheduler_enter cfg s = Inr (r, s') \<and> (r = None \<longrightarrow> sel = None)"
    proof (cases sel)
      case None
      then show ?thesis using t u ends[OF v] False by (auto simp: scheduler_enter_def)
    next
      case (Some p)
      then have "p \<in> set qs" using u by blast
      then have "p < NPROC" "states s p = RUNNABLE" using qs st by (auto simp: rrq_def)
      then have "pgdir (ptable ?v p) \<noteq> 0" using pg st qframe_pgdir[OF u(2)] by (simp add: rolled_def)
      moreover have "lock_free RrqueueLock ?v" "cpu_ok ?v" "1 \<le> ncli (mycpu ?v)"
        using v tl T(1,2) by (auto simp: quiet_def lock_free_def cpu_ok_def)
      ultimately obtain w where "scheduler_run cfg p ?v = Inr w" using scheduler_run_runs by blast
      then show ?thesis using t u Some False by (auto simp: scheduler_enter_def)
    qed
    moreover have "draw (lock_cycle u) = 0" if "fst ex" "p < NPROC" "states s p = RUNNABLE" "sel = None" for p
      using that u(5) qs(3) False st(1) by (auto simp: covered_def)
    ultimately show ?thesis using False t u(1) by blast
  qed
qed

end
