(* ===== verification/Xv6_SchedClaims.thy ===== *)
theory Xv6_SchedClaims
  imports Xv6_SchedSafe
begin

text \<open>
  What the invariant of the scheduling machine gives: no process runs on two processors, the run queue
  is exactly the runnable processes as long as nobody sends signals, the scheduler finds its next
  process without a panic, and \<open>wakeup\<close> queues the sleepers in slot order. The last property shows what
  \<open>sigsend\<close> does to a sleeping process.
\<close>

section \<open>States for the witnesses\<close>

definition live_procst :: procst where
  "live_procst = demo_procst\<lparr>ptable := (\<lambda>p. (ptable demo_procst p)\<lparr>pgdir := 4096\<rparr>)
     (3 := idle_proc\<lparr>state := SLEEPING, pid := 5, chan := Some (ChanProc 2)\<rparr>)\<rparr>"

lemma demo_sel [simp]:
  "cur demo_procst = 0" "ncli (cpus demo_procst c) = 0" "cproc (cctx demo_procst c) = None"
  "nx demo_procst 3 = None" "pv demo_procst 3 = None"
  by (simp_all add: demo_procst_def rr_push_def upd_proc_def boot_procst_def blank_memst_def boot_mach_def
      memst.defs mach.defs nx_def pv_def idle_proc_def)

lemma live_sel [simp]:
  "lock_free l live_procst" "cpu_ok live_procst" "cur live_procst = 0" "ncli (cpus live_procst c) = 0"
  "cproc (cctx live_procst c) = None" "state (ptable live_procst 3) = SLEEPING" "pid (ptable live_procst 3) = 5"
  "chan (ptable live_procst 3) = Some (ChanProc 2)"
  using demo_locks unfolding live_procst_def by (simp_all add: lock_free_def cpu_ok_def)

lemma live_rrq: "rrq live_procst [4, 7, 9]"
  unfolding live_procst_def
  by (rule iffD2[OF rrq_cong demo_rrq]) (auto simp: nx_def[abs_def] pv_def[abs_def] fun_eq_iff demo_sel[unfolded nx_def pv_def] idle_proc_def)

lemma live_states: "states live_procst p =
    (if p = 3 then SLEEPING else if p = 4 \<or> p = 7 \<or> p = 9 then RUNNABLE else UNUSED)"
  by (auto simp: states_def live_procst_def demo_procst_def rr_push_def upd_proc_def idle_proc_def)

lemma live_qinv: "qinv PRS (True, {}) live_procst"
  using live_rrq by (auto simp: qinv_def covered_def live_states NPROC_def intro!: exI[of _ "[4, 7, 9]"])

lemma live_start: "sched_start PRS live_procst"
  using live_qinv by (simp add: sched_start_def live_states)

lemma live_pgdir: "states live_procst p = RUNNABLE \<Longrightarrow> pgdir (ptable live_procst p) \<noteq> 0"
  unfolding live_states by (auto simp: live_procst_def split: if_splits)

text \<open>One runnable process under the default policy; one turn of the scheduler of processor 0 runs it.\<close>

definition plain_procst :: procst where
  "plain_procst = boot_procst\<lparr>ptable := (\<lambda>_. idle_proc)(4 := idle_proc\<lparr>state := RUNNABLE, pgdir := 4096\<rparr>)\<rparr>"

lemma plain_states: "states plain_procst p = (if p = 4 then RUNNABLE else UNUSED)"
  by (simp add: plain_procst_def states_def idle_proc_def)

lemma plain_pgdir: "states plain_procst p = RUNNABLE \<Longrightarrow> pgdir (ptable plain_procst p) \<noteq> 0"
  by (cases "p = 4") (auto simp: plain_procst_def states_def idle_proc_def)

lemma plain_ready: "\<exists>p<NPROC. states plain_procst p = RUNNABLE"
  by (intro exI[of _ 4]) (simp add: plain_states NPROC_def)

lemma plain_locks: "lock_free l plain_procst" "cur plain_procst = 0" "ncli (cpus plain_procst c) = 0"
  "cproc (cctx plain_procst c) = None"
  using boot_procst_sel(4)
  by (simp_all add: plain_procst_def lock_free_def boot_procst_def blank_memst_def boot_mach_def memst.defs mach.defs)

lemma plain_start: "sched_start DEFAULT plain_procst"
proof -
  have "rrq plain_procst []" by (simp add: plain_procst_def rrq_def dll_def nx_def pv_def idle_proc_def)
  then have "qinv DEFAULT (True, {}) plain_procst" by (auto simp: qinv_def)
  then show ?thesis using plain_locks by (simp add: sched_start_def plain_states)
qed

lemma plain_runs: "\<exists>s ph. sched_reach DEFAULT lk sig (s, ph) \<and> states s 4 = RUNNING"
proof -
  let ?ph = "\<lambda>_. InSched"
  have q: "qinv DEFAULT (True, {}) (on 0 plain_procst)" using plain_start by (simp add: sched_start_def)
  have l: "lock_free PtableLock (on 0 plain_procst)" "lock_free RrqueueLock (on 0 plain_procst)"
    "0 \<le> ncli (mycpu (on 0 plain_procst))" using plain_locks by auto
  have "\<exists>r s'. scheduler_enter DEFAULT (on 0 plain_procst) = Inr (r, s') \<and> r \<noteq> None"
    using scheduler_enter_runs[OF q l] plain_pgdir plain_ready by simp
  then obtain p s' where e: "scheduler_enter DEFAULT (on 0 plain_procst) = Inr (Some p, s')" by auto
  have "turn DEFAULT (True, {}) t (Some p) s' \<Longrightarrow> lock_taken PtableLock (sti (on 0 plain_procst)) t \<Longrightarrow> states s' 4 = RUNNING" for t
    using psame_states[of "sti (on 0 plain_procst)" t] psame_states[of "on 0 plain_procst" "sti (on 0 plain_procst)"]
    by (auto simp: turn_def lock_taken_def plain_states psame_def sti_def set_cpu_def split: if_splits)
  then have "states s' 4 = RUNNING" using scheduler_enter_turn[OF e q l(2,3)] by blast
  moreover have "sched_reach DEFAULT lk sig (s', ?ph(0 := picked (Some p)))"
    by (rule sched_reach.step[OF sched_reach.boot[OF plain_start] sched_step.enter[OF refl e]])
  ultimately show ?thesis by blast
qed

section \<open>Properties of every reachable state\<close>

text \<open>C6. Processors and processes. In every state the machine reaches, under every policy and with any
  interleaving of the processors, no process is current on two processors, every process in state
  RUNNING is current on some processor, and whenever \<open>ptable.lock\<close> is free the current process of a
  processor is RUNNING.\<close>

theorem one_process_one_cpu:
  assumes "sched_reach cfg lk sig (s, ph)"
  shows "(\<forall>c d p. cproc (cctx s c) = Some p \<and> cproc (cctx s d) = Some p \<longrightarrow> c = d) \<and>
    (\<forall>p. states s p = RUNNING \<longrightarrow> (\<exists>c. cproc (cctx s c) = Some p)) \<and>
    (\<forall>c p. cproc (cctx s c) = Some p \<and> locked (locks s PtableLock) = 0 \<longrightarrow> states s p = RUNNING)"
proof -
  have inv: "sinv cfg (\<not> sig, {}) (s, ph)" by (rule reach_sinv[OF assms])
  have P: "procs_ok s ph" using inv by (simp add: sinv_def)
  have "states s p = RUNNING" if "cproc (cctx s c) = Some p" "locked (locks s PtableLock) = 0" for c p
  proof -
    have "\<not> switching (ph c)" by (rule free_no_switch[OF inv that(2)])
    then have "ph c \<noteq> Leaving p" by auto
    with P that(1) show ?thesis by (auto simp: procs_ok_def)
  qed
  with P show ?thesis unfolding procs_ok_def by (intro conjI) auto
qed

theorem one_process_one_cpu_witness:
  "\<exists>(s::procst) c. states s 4 = RUNNING \<and> cproc (cctx s c) = Some 4"
proof -
  obtain s ph where "sched_reach DEFAULT \<lparr>l_end = 0, l_data = 0, l_forkret = 0, l_trapret = 0\<rparr> False (s, ph)"
    "states s 4 = RUNNING" using plain_runs by blast
  with one_process_one_cpu show ?thesis by blast
qed

text \<open>C7. The run queue. Under the queue policies, as long as no signal is sent, the run queue of every
  reachable state holds every RUNNABLE process exactly once and nothing else.\<close>

theorem run_queue_exact:
  assumes "sched_reach cfg lk False (s, ph)" "cfg \<noteq> DEFAULT"
  shows "\<exists>qs. rrq s qs \<and> distinct qs \<and> set qs = {p. p < NPROC \<and> states s p = RUNNABLE}"
proof -
  have "qinv cfg (True, {}) s" using reach_sinv[OF assms(1)] by (simp add: sinv_def)
  then obtain qs where "rrq s qs" "\<forall>p\<in>set qs. states s p = RUNNABLE"
    "\<forall>p<NPROC. states s p = RUNNABLE \<longrightarrow> p \<in> set qs" using assms(2) by (auto simp: qinv_def covered_def)
  then show ?thesis using rrq_distinct by (intro exI[of _ qs]) (auto simp: rrq_def)
qed

theorem run_queue_exact_witness:
  "\<exists>qs. rrq live_procst qs \<and> distinct qs \<and> set qs = {p. p < NPROC \<and> states live_procst p = RUNNABLE}"
  by (rule run_queue_exact[OF sched_reach.boot[OF live_start]]) simp

text \<open>C8. The scheduler goes on. Take a processor in its scheduler loop that finds \<open>ptable.lock\<close> free, in a reachable state in
  which every RUNNABLE process has a page table, without which \<open>switchuvm\<close> panics. It finishes the round without a panic:
  the queue walks end and no lock is taken twice. If it hands the processor to a process, that process was RUNNABLE and is
  RUNNING and current afterwards. The default policy finds a process when there is one. Under a queue policy, as long as no
  signal is sent, it finds one when there is one, except in the round in which the number drawn is 0.\<close>

theorem scheduler_progress:
  assumes reach: "sched_reach cfg lk sig (s, ph)" and c: "ph c = InSched" and l: "locked (locks s PtableLock) = 0"
    and pg: "\<And>p. states s p = RUNNABLE \<Longrightarrow> pgdir (ptable s p) \<noteq> 0"
  shows "\<exists>r s'. scheduler_enter cfg (on c s) = Inr (r, s') \<and>
    (\<forall>p. r = Some p \<longrightarrow> states s p = RUNNABLE \<and> states s' p = RUNNING \<and> cproc (cctx s' c) = Some p) \<and>
    (cfg = DEFAULT \<and> (\<exists>p<NPROC. states s p = RUNNABLE) \<longrightarrow> r \<noteq> None) \<and>
    (cfg \<noteq> DEFAULT \<and> \<not> sig \<and> (\<exists>p<NPROC. states s p = RUNNABLE) \<and> r = None \<longrightarrow>
      (\<exists>t s1. acquire PtableLock (sti (on c s)) = Inr t \<and> deliverTicketsToFIFOProcs cfg t = Inr s1 \<and> draw s1 = 0))"
proof -
  have inv: "sinv cfg (\<not> sig, {}) (s, ph)" by (rule reach_sinv[OF reach])
  have lk: "lock_free PtableLock (on c s)" "lock_free RrqueueLock (on c s)" and n: "0 \<le> ncli (mycpu (on c s))"
    using inv free_no_switch[OF inv l] cpus_okD[OF inv, of c] by (auto simp: sinv_def locks_ok_def lock_free_def)
  have q: "qinv cfg (\<not> sig, {}) (on c s)" using inv by (simp add: sinv_def)
  obtain r s' where r: "scheduler_enter cfg (on c s) = Inr (r, s')"
    "cfg = DEFAULT \<and> (\<exists>p<NPROC. states s p = RUNNABLE) \<longrightarrow> r \<noteq> None"
    "cfg \<noteq> DEFAULT \<and> \<not> sig \<and> (\<exists>p<NPROC. states s p = RUNNABLE) \<and> r = None \<longrightarrow>
      (\<exists>t s1. acquire PtableLock (sti (on c s)) = Inr t \<and> deliverTicketsToFIFOProcs cfg t = Inr s1 \<and> draw s1 = 0)"
    using scheduler_enter_runs[OF q lk n] pg by auto
  obtain t where t: "lock_taken PtableLock (sti (on c s)) t" "turn cfg (\<not> sig, {}) t r s'"
    using scheduler_enter_turn[OF r(1) q lk(2) n] by blast
  have "psame (on c s) (sti (on c s))" "cur (sti (on c s)) = c" by (simp_all add: psame_def sti_def set_cpu_def)
  then have "states t = states s" "cur t = c"
    using t(1) psame_states[of "sti (on c s)" t] psame_states[of "on c s" "sti (on c s)"]
    by (auto simp: lock_taken_def)
  with t(2) have "\<forall>p. r = Some p \<longrightarrow> states s p = RUNNABLE \<and> states s' p = RUNNING \<and> cproc (cctx s' c) = Some p"
    by (auto simp: turn_def quiet_def)
  with r show ?thesis by blast
qed

theorem scheduler_progress_witness:
  "\<exists>p s'. scheduler_enter DEFAULT (on 0 plain_procst) = Inr (Some p, s') \<and> cproc (cctx s' 0) = Some p"
proof -
  have l: "locked (locks plain_procst PtableLock) = 0" using plain_locks(1) by (simp add: lock_free_def)
  show ?thesis
    using scheduler_progress[OF sched_reach.boot[OF plain_start] refl l plain_pgdir, where c = 0] plain_ready
    by fastforce
qed

section \<open>Waking up\<close>

text \<open>A process without its links in the run queue.\<close>

definition no_links :: "proc \<Rightarrow> proc" where
  "no_links q = q\<lparr>rrnext := None, rrprev := None\<rparr>"

lemma no_links_state: "no_links (q\<lparr>state := x\<rparr>) = (no_links q)\<lparr>state := x\<rparr>"
  by (simp add: no_links_def)

lemma forr_Inr:
  assumes "forr i k f s = Inr s'" "Q i s" "\<And>j t t'. j < i + k \<Longrightarrow> Q j t \<Longrightarrow> f j t = Inr t' \<Longrightarrow> Q (Suc j) t'"
  shows "Q (i + k) s'"
  using assms
proof (induction k arbitrary: i s)
  case (Suc k)
  obtain t where t: "f i s = Inr t" "forr (Suc i) k f t = Inr s'" using Suc.prems(1) by (cases "f i s") auto
  have "Q (Suc i) t" using Suc.prems(2,3) t(1) by simp
  from Suc.IH[OF t(2) this] show ?case using Suc.prems(3) by simp
qed simp

lemma enqueue_no_links:
  assumes "enqueue cfg p s = Inr s'"
  shows "no_links (ptable s' q) = no_links (ptable s q)"
proof (cases "cfg = DEFAULT")
  case False
  then obtain t where t: "acquire RrqueueLock s = Inr t" "release RrqueueLock (rr_push p t) = Inr s'"
    using assms by (cases cfg; cases "acquire RrqueueLock s") (auto simp: enqueue_def pushProcToRRqueue_def)
  have "ptable t = ptable s" "ptable s' = ptable (rr_push p t)"
    using acquire_taken[OF t(1)] release_given[OF t(2)] by (simp_all add: lock_taken_def lock_given_def psame_def)
  then show ?thesis by (auto simp: rr_push_def upd_proc_def no_links_def Let_def split: option.splits)
qed (use assms in \<open>simp add: enqueue_def\<close>)

lemma wakeup_no_links:
  assumes "wakeup cfg ch s = Inr s'"
  shows "no_links (ptable s' p) = no_links (if p < NPROC \<and> waits s ch p then (ptable s p)\<lparr>state := RUNNABLE\<rparr> else ptable s p)"
proof -
  obtain t u where t: "acquire PtableLock s = Inr t" "wakeup1 cfg ch t = Inr u" "release PtableLock u = Inr s'"
    using assms by (auto simp: wakeup_def)
  have e: "ptable t = ptable s" "ptable s' = ptable u"
    using acquire_taken[OF t(1)] release_given[OF t(3)] by (simp_all add: lock_taken_def lock_given_def psame_def)
  let ?w = "\<lambda>j p. no_links (if p < j \<and> waits t ch p then (ptable t p)\<lparr>state := RUNNABLE\<rparr> else ptable t p)"
  have "\<forall>p. no_links (ptable u p) = ?w (0 + NPROC) p"
  proof (rule forr_Inr[OF t(2)[unfolded wakeup1_def], where Q = "\<lambda>j u. \<forall>p. no_links (ptable u p) = ?w j p"])
    fix j v v'
    assume v: "\<forall>p. no_links (ptable v p) = ?w j p"
      and b: "(if state (ptable v j) = SLEEPING \<and> chan (ptable v j) = ch
        then enqueue cfg j (upd_proc j (\<lambda>q. q\<lparr>state := RUNNABLE\<rparr>) v) else Inr v) = Inr v'"
    have vj: "no_links (ptable v j) = no_links (ptable t j)" using v by simp
    have sc: "state (ptable v j) = state (ptable t j)" "chan (ptable v j) = chan (ptable t j)"
      using arg_cong[OF vj, of state] arg_cong[OF vj, of chan] by (simp_all add: no_links_def)
    have w: "(state (ptable v j) = SLEEPING \<and> chan (ptable v j) = ch) = waits t ch j" by (simp add: sc waits_def states_def)
    show "\<forall>p. no_links (ptable v' p) = ?w (Suc j) p"
    proof
      fix p
      show "no_links (ptable v' p) = ?w (Suc j) p"
      proof (cases "waits t ch j")
        case True
        then have "no_links (ptable v' p) = no_links (ptable (upd_proc j (\<lambda>q. q\<lparr>state := RUNNABLE\<rparr>) v) p)"
          using b enqueue_no_links[of cfg j _ v' p] unfolding w by simp
        also have "\<dots> = (if p = j then (no_links (ptable t j))\<lparr>state := RUNNABLE\<rparr> else ?w j p)"
          using v vj by (simp add: upd_proc_def no_links_state)
        finally show ?thesis using True by (auto simp: no_links_state less_Suc_eq)
      next
        case False
        then show ?thesis using b v unfolding w by (auto simp: less_Suc_eq)
      qed
    qed
  qed simp
  moreover have "waits t ch = waits s ch" using e(1) by (auto simp: waits_def states_def fun_eq_iff)
  ultimately show ?thesis using e by simp
qed

text \<open>C9. \<open>wakeup\<close>. Under a queue policy, on a queue of RUNNABLE processes, it appends exactly the processes that sleep on
  the channel to the run queue, in the order of their slots, and makes them RUNNABLE. No other field of any process
  changes but the links of the queue, and it returns with the locks as they were.\<close>

theorem wakeup_queues_sleepers:
  assumes q: "rrq s qs" "\<forall>p\<in>set qs. states s p = RUNNABLE" and cfg: "cfg \<noteq> DEFAULT"
    and l: "lock_free PtableLock s" "lock_free RrqueueLock s" "cpu_ok s"
  shows "\<exists>s'. wakeup cfg ch s = Inr s' \<and> rrq s' (qs @ filter (waits s ch) [0..<NPROC]) \<and>
    (\<forall>p. no_links (ptable s' p) = no_links (if p < NPROC \<and> waits s ch p then (ptable s p)\<lparr>state := RUNNABLE\<rparr> else ptable s p)) \<and>
    locks s' = locks s"
proof -
  obtain t where t: "acquire PtableLock s = Inr t" "lock_taken PtableLock s t" using acquire_runs[OF l(1)] by blast
  have n: "0 \<le> ncli (mycpu s)" using l(3) by (auto simp: cpu_ok_def)
  note T = acquired_state[OF t(2) n]
  have ps: "psame s t" using t(2) by (simp add: lock_taken_def)
  have w: "waits t ch = waits s ch" using T(4) ps by (auto simp: waits_def fun_eq_iff psame_def)
  have tl: "lock_free RrqueueLock t" using T(3)[of RrqueueLock] l(2) by simp
  have tq: "rrq t qs" "\<forall>p\<in>set qs. states t p = RUNNABLE" using q psame_rrq[OF ps] T(4) by auto
  obtain u where u: "wakeup1 cfg ch t = Inr u" "rrq u (qs @ filter (waits s ch) [0..<NPROC])"
      "states u = woken t ch NPROC" "quiet t u"
    using wakeup1_queue[OF tq tl T(1), of cfg ch] cfg w by auto
  have "holding PtableLock u" "1 \<le> ncli (mycpu u)" "\<not> eflags_if (mycpu u)"
    using u(4) t(2) T(1,2) by (auto simp: quiet_def holding_def cpu_ok_def lock_taken_def)
  then obtain v where v: "release PtableLock u = Inr v" "lock_given PtableLock u v"
    using release_runs release_given by blast
  have pv: "psame u v" using v(2) by (simp add: lock_given_def)
  have "locks v = locks s" using v(2) u(4) t(2) l(1) by (auto simp: lock_given_def quiet_def lock_taken_def lock_free_def)
  moreover have "wakeup cfg ch s = Inr v" using t(1) u(1) v(1) by (simp add: wakeup_def)
  ultimately show ?thesis using psame_rrq[OF pv] u(2) wakeup_no_links by blast
qed

theorem wakeup_queues_sleepers_witness:
  "\<exists>s'. wakeup FRR (Some (ChanProc 2)) live_procst = Inr s' \<and> rrq s' [4, 7, 9, 3] \<and>
    no_links (ptable s' 3) = no_links ((ptable live_procst 3)\<lparr>state := RUNNABLE\<rparr>) \<and> no_links (ptable s' 4) = no_links (ptable live_procst 4)"
proof -
  have "chan (ptable live_procst p) = Some (ChanProc 2) \<longleftrightarrow> p = 3" if "states live_procst p = SLEEPING" for p
    using that by (auto simp: live_states split: if_splits)
  then have w: "waits live_procst (Some (ChanProc 2)) = (\<lambda>p. p = 3)"
    by (auto simp: waits_def live_states fun_eq_iff split: if_splits)
  have "filter (\<lambda>p. p = 3) [0..<NPROC] = [3]" by (simp add: NPROC_def upt_rec)
  moreover have "\<forall>p\<in>set [4, 7, 9]. states live_procst p = RUNNABLE" by (simp add: live_states)
  ultimately show ?thesis
    using wakeup_queues_sleepers[OF live_rrq _ _ live_sel(1) live_sel(1,2), of FRR "Some (ChanProc 2)"]
    by (auto simp: w NPROC_def)
qed

text \<open>What \<open>sigsend\<close> does to a sleeping process.\<close>

lemma sigsend_wakes:
  assumes q: "rrq s qs" and n: "0 \<le> n" "n < 31"
    and p: "scan (\<lambda>p. pid (ptable s p) = pd) NPROC = Some p" "states s p = SLEEPING"
    and l: "lock_free PtableLock s" "0 \<le> ncli (mycpu s)"
  shows "\<exists>s'. sigsend pd n s = Inr (0, s') \<and> states s' = (states s)(p := RUNNABLE) \<and> bit (pending (ptable s' p)) (nat n) \<and> rrq s' qs"
proof -
  obtain t where t: "acquire PtableLock s = Inr t" "lock_taken PtableLock s t" using acquire_runs[OF l(1)] by blast
  note T = acquired_state[OF t(2) l(2)]
  have ps: "psame s t" using t(2) by (simp add: lock_taken_def)
  have tp: "ptable t = ptable s" using ps by (simp add: psame_def)
  have st: "state (ptable t p) = SLEEPING" using p(2) tp by (simp add: states_def)
  let ?f = "\<lambda>q. q\<lparr>pending := pending q OR push_bit (nat n) 1\<rparr>"
  let ?u = "upd_proc p (\<lambda>q. q\<lparr>state := RUNNABLE\<rparr>) (upd_proc p ?f t)"
  have "holding PtableLock ?u" "1 \<le> ncli (mycpu ?u)" "\<not> eflags_if (mycpu ?u)"
    using t(2) T(1,2) by (auto simp: holding_def cpu_ok_def lock_taken_def)
  then obtain v where v: "release PtableLock ?u = Inr v" "lock_given PtableLock ?u v"
    using release_runs[of PtableLock ?u] release_given by blast
  have pv: "psame ?u v" using v(2) by (simp add: lock_given_def)
  have "sigsend pd n s = Inr (0, v)" using n p(1) t(1) v(1) st tp by (simp add: sigsend_def Let_def)
  moreover have "states v = (states s)(p := RUNNABLE)" using psame_states[OF pv] tp by (auto simp: states_upd_proc states_def)
  moreover have "bit (pending (ptable v p)) (nat n)"
    using pv n by (auto simp: psame_def bit_or_iff bit_exp_iff nat_less_iff)
  moreover have "rrq v qs" using psame_rrq[OF pv] psame_rrq[OF ps] q by (simp add: links_upd_proc)
  ultimately show ?thesis by blast
qed

lemma lost_forever:
  assumes "(sched_step cfg lk True)\<^sup>*\<^sup>* x y" "sinv cfg (False, {p}) x" "cfg \<noteq> DEFAULT"
  shows "states (fst y) p = RUNNABLE \<and> (\<exists>qs. rrq (fst y) qs \<and> p \<notin> set qs)"
proof -
  have "sinv cfg (False, {p}) y" using assms(1,2)
  proof (induction rule: rtranclp_induct)
    case (step y z)
    then show ?case using step_sinv[of cfg lk True y z "{p}"] by simp
  qed simp
  then show ?thesis using assms(3) by (cases y) (auto simp: sinv_def qinv_def covered_def)
qed

text \<open>C40. \<open>sigsend\<close> and the run queue. Under a policy that picks from the queue, in any reachable state with \<open>ptable.lock\<close>
  free, a signal to a sleeping process is recorded in \<open>pending\<close> and makes the process RUNNABLE, but does not queue it. Whatever
  the processors do afterwards, scheduling, sleeping, waking, forking, killing or sending more signals, the process stays
  RUNNABLE outside the queue: it is never run again.\<close>

theorem sigsend_not_queued:
  assumes reach: "sched_reach cfg lk True (s, ph)" and cfg: "cfg \<noteq> DEFAULT" and c: "\<not> switching (ph c)" "locked (locks s PtableLock) = 0"
    and n: "0 \<le> n" "n < 31" and p: "scan (\<lambda>p. pid (ptable s p) = pd) NPROC = Some p" "states s p = SLEEPING"
  shows "\<exists>s'. sigsend pd n (on c s) = Inr (0, s') \<and> sched_step cfg lk True (s, ph) (s', ph) \<and> states s' p = RUNNABLE \<and>
    bit (pending (ptable s' p)) (nat n) \<and>
    (\<forall>t ph'. (sched_step cfg lk True)\<^sup>*\<^sup>* (s', ph) (t, ph') \<longrightarrow> states t p = RUNNABLE \<and> (\<exists>qs. rrq t qs \<and> p \<notin> set qs))"
proof -
  have inv: "sinv cfg (False, {}) (s, ph)" using reach_sinv[OF reach] by simp
  have l: "lock_free PtableLock (on c s)" "0 \<le> ncli (mycpu (on c s))"
    using inv free_no_switch[OF inv c(2)] cpus_okD[OF inv, of c] by (auto simp: sinv_def locks_ok_def lock_free_def)
  obtain qs where qs: "rrq s qs" "\<forall>p\<in>set qs. states s p = RUNNABLE" using inv by (auto simp: sinv_def qinv_def)
  obtain s' where s': "sigsend pd n (on c s) = Inr (0, s')" "states s' = (states s)(p := RUNNABLE)"
    "bit (pending (ptable s' p)) (nat n)" "rrq s' qs"
    using sigsend_wakes[of "on c s" qs n pd p] psame_rrq[of s "on c s" qs] qs(1) n p l by (auto simp: psame_def)
  have st: "sched_step cfg lk True (s, ph) (s', ph)" by (rule sched_step.signals[of True ph c pd n s 0 s', OF _ c(1) s'(1)]) simp
  have "sinv cfg (False, {}) (s', ph)" using step_sinv[OF st, of "{}"] inv by simp
  moreover have "qinv cfg (False, {p}) s'"
    unfolding qinv_def by (rule exI[of _ qs]) (use s' qs p(2) cfg in \<open>auto simp: covered_def\<close>)
  ultimately have "sinv cfg (False, {p}) (s', ph)" by (simp add: sinv_def)
  from lost_forever[OF _ this cfg] show ?thesis using s' st by fastforce
qed

theorem sigsend_not_queued_witness:
  "\<exists>s'. sigsend 5 2 (on 0 live_procst) = Inr (0, s') \<and> states s' 3 = RUNNABLE \<and> (\<exists>qs. rrq s' qs \<and> 3 \<notin> set qs)"
proof -
  have "pid (ptable live_procst p) = 5 \<longleftrightarrow> p = 3" for p
    by (auto simp: live_procst_def demo_procst_def rr_push_def upd_proc_def idle_proc_def)
  then have s: "scan (\<lambda>p. pid (ptable live_procst p) = 5) NPROC = Some 3" by (simp add: scan_Some NPROC_def)
  have l: "locked (locks live_procst PtableLock) = 0" using live_sel(1)[of PtableLock] by (simp add: lock_free_def)
  show ?thesis
    using sigsend_not_queued[OF sched_reach.boot[OF live_start] _ _ l _ _ s, where c = 0 and n = 2
        and lk = "\<lparr>l_end = 0, l_data = 0, l_forkret = 0, l_trapret = 0\<rparr>"] live_sel(6)
    by (fastforce simp: live_states)
qed

end
