(* ===== verification/Xv6_Held.thy ===== *)
theory Xv6_Held
  imports Xv6_Switch
begin

text \<open>
  What the components above the scheduler need of spinlocks and \<open>wakeup\<close>: as long as only the locks of
  a list \<open>L\<close> are held, and by this processor, a further lock can be taken and given back and sleepers
  can be woken; nothing of the state changes by it but the locks, the interrupt nesting, the states of
  sleepers and the run queue.
\<close>

section \<open>The part of the state that locking and waking leave alone\<close>

definition rest :: "'a procst_scheme \<Rightarrow> 'a procst_scheme" where
  "rest s = s\<lparr>locks := \<lambda>_. \<lparr>locked = 0, lk_cpu = None\<rparr>, cpus := \<lambda>_. \<lparr>ncli = 0, intena = False, eflags_if = False\<rparr>,
     ptable := \<lambda>p. stateless (ptable s p), rr_first := None, rr_last := None\<rparr>"

lemma rest_more: "procst.more (rest s) = procst.more s" "ram (rest s) = ram s" "freelist (rest s) = freelist s"
  "cur (rest s) = cur s" "cctx (rest s) = cctx s" "ticks (rest s) = ticks s" "initproc (rest s) = initproc s"
  "use_lock (rest s) = use_lock s" "nextpid (rest s) = nextpid s" "kpgdir (rest s) = kpgdir s"
  "ptable (rest s) = (\<lambda>p. stateless (ptable s p))"
  by (simp_all add: rest_def)

lemma rest_set_cpu [simp]: "rest (set_cpu c s) = rest s" "rest (set_lock l k s) = rest s" "rest (pushcli s) = rest s"
  by (simp_all add: rest_def set_cpu_def set_lock_def pushcli_def Let_def)

lemma rest_acquire: "acquire l s = Inr s' \<Longrightarrow> rest s' = rest s"
  by (auto simp: acquire_def Let_def split: if_splits)

lemma rest_popcli: "popcli s = Inr s' \<Longrightarrow> rest s' = rest s"
  by (auto simp: popcli_def Let_def split: if_splits)

lemma rest_release: "release l s = Inr s' \<Longrightarrow> rest s' = rest s"
  by (auto simp: release_def split: if_splits dest: rest_popcli)

lemma rest_rr_push: "rest (rr_push p s) = rest s"
  by (cases s) (auto simp: rr_push_def rest_def upd_proc_def stateless_def core_def fun_eq_iff Let_def split: option.splits)

lemma rest_enqueue: "enqueue cfg p s = Inr s' \<Longrightarrow> rest s' = rest s"
  by (auto simp: enqueue_def pushProcToRRqueue_def rest_rr_push split: if_splits
      dest!: rest_acquire rest_release)

lemma rest_state [simp]: "rest (upd_proc p (\<lambda>q. q\<lparr>state := x\<rparr>) s) = rest s"
  by (cases s) (auto simp: rest_def upd_proc_def stateless_def core_def fun_eq_iff)

lemma forr_inv:
  "forr i k f s = Inr s' \<Longrightarrow> (\<And>j t t'. f j t = Inr t' \<Longrightarrow> Q t \<Longrightarrow> Q t') \<Longrightarrow> Q s \<Longrightarrow> Q s'"
  by (induction i k f s rule: forr.induct) auto

lemma rest_wakeup1: "wakeup1 cfg ch s = Inr s' \<Longrightarrow> rest s' = rest s"
  unfolding wakeup1_def
  by (erule forr_inv[where Q = "\<lambda>t. rest t = rest s"]) (auto split: if_splits dest: rest_enqueue)

lemma rest_wakeup: "wakeup cfg ch s = Inr s' \<Longrightarrow> rest s' = rest s"
  by (auto simp: wakeup_def dest!: rest_acquire rest_release rest_wakeup1)

section \<open>Holding a list of locks\<close>

definition kheld :: "schedflag \<Rightarrow> lockid list \<Rightarrow> 'a procst_scheme \<Rightarrow> bool" where
  "kheld cfg L s \<longleftrightarrow> qinv cfg (False, {}) s \<and> distinct L \<and> cpu_ok s \<and> int (length L) \<le> ncli (mycpu s) \<and>
     (\<forall>l. locks s l = (if l \<in> set L then \<lparr>locked = 1, lk_cpu = Some (cur s)\<rparr> else \<lparr>locked = 0, lk_cpu = None\<rparr>))"

lemma kheld_acquire:
  assumes "kheld cfg L s" "l \<notin> set L"
  shows "\<exists>t. acquire l s = Inr t \<and> kheld cfg (l # L) t \<and> rest t = rest s"
proof -
  have "lock_free l s" using assms by (simp add: kheld_def lock_free_def)
  then obtain t where t: "acquire l s = Inr t" "lock_taken l s t" using acquire_runs by blast
  have n: "0 \<le> ncli (mycpu s)" using assms(1) by (simp add: kheld_def cpu_ok_def)
  have "kheld cfg (l # L) t"
    using assms t(2) acquired_state(1)[OF t(2) n] acquired_state(5)[OF t(2) n, where cfg = cfg and ex = "(False, {})"]
    by (auto simp: kheld_def lock_taken_def)
  with t(1) rest_acquire[OF t(1)] show ?thesis by blast
qed

lemma kheld_release:
  assumes "kheld cfg (l # L) s"
  shows "\<exists>t. release l s = Inr t \<and> kheld cfg L t \<and> rest t = rest s"
proof -
  have "holding l s" "1 \<le> ncli (mycpu s)" "\<not> eflags_if (mycpu s)"
    using assms by (auto simp: kheld_def holding_def cpu_ok_def)
  then obtain t where t: "release l s = Inr t" "lock_given l s t" using release_runs by blast
  have ps: "psame s t" using t(2) by (simp add: lock_given_def)
  have "kheld cfg L t"
    using assms t(2) psame_qinv[OF ps, of cfg "(False, {})"] by (auto simp: kheld_def lock_given_def cpu_ok_def)
  with t(1) rest_release[OF t(1)] show ?thesis by blast
qed

lemma kheld_wakeup:
  assumes k: "kheld cfg L s" and l: "PtableLock \<notin> set L" "RrqueueLock \<notin> set L"
  shows "\<exists>t. wakeup cfg ch s = Inr t \<and> kheld cfg L t \<and> rest t = rest s"
proof -
  obtain t where t: "acquire PtableLock s = Inr t" "kheld cfg (PtableLock # L) t" using kheld_acquire[OF k l(1)] by blast
  have tl: "lock_free RrqueueLock t" "cpu_ok t" "qinv cfg (False, {}) t" using t(2) l by (auto simp: kheld_def lock_free_def)
  obtain u where u: "wakeup1 cfg ch t = Inr u" "qinv cfg (False, {}) u" "quiet t u"
    using wakeup1_wakes[OF tl(3,1,2)] by (auto simp: wakes_def)
  have "kheld cfg (PtableLock # L) u"
    using t(2) u(2,3) quiet_locks(2)[OF u(3)] by (auto simp: kheld_def quiet_def)
  then obtain v where v: "release PtableLock u = Inr v" "kheld cfg L v" using kheld_release by blast
  have "wakeup cfg ch s = Inr v" using t u v by (simp add: wakeup_def)
  with v(2) rest_wakeup show ?thesis by blast
qed

lemma wakeup_keeps:
  assumes k: "kheld cfg L s" and l: "PtableLock \<notin> set L" "RrqueueLock \<notin> set L" and w: "wakeup cfg ch s = Inr v"
  shows "cur v = cur s" "ncli (mycpu v) = ncli (mycpu s)" "myproc v = myproc s"
proof -
  obtain t where t: "acquire PtableLock s = Inr t" "kheld cfg (PtableLock # L) t" using kheld_acquire[OF k l(1)] by blast
  have tl: "lock_free RrqueueLock t" "cpu_ok t" "qinv cfg (False, {}) t" using t(2) l by (auto simp: kheld_def lock_free_def)
  obtain u where u: "wakeup1 cfg ch t = Inr u" "quiet t u" using wakeup1_wakes[OF tl(3,1,2)] by (auto simp: wakes_def)
  have "release PtableLock u = Inr v" using w t(1) u(1) by (simp add: wakeup_def)
  note g = acquire_taken[OF t(1)] release_given[OF this]
  show "cur v = cur s" "ncli (mycpu v) = ncli (mycpu s)" "myproc v = myproc s"
    using g u(2) by (auto simp: lock_taken_def lock_given_def quiet_def)
qed

text \<open>Only the process table's queue part, the locks and the processors matter to \<open>kheld\<close>.\<close>

lemma kheld_cong:
  fixes s t :: "'a procst_scheme"
  assumes "kheld cfg L s" "ptable t = ptable s" "rr_first t = rr_first s" "rr_last t = rr_last s"
    "initproc t = initproc s" "locks t = locks s" "cpus t = cpus s" "cur t = cur s"
  shows "kheld cfg L t"
proof -
  have "qinv cfg (False, {}) t = qinv cfg (False, {}) s"
    by (rule psame_qinv) (simp add: psame_def assms(2-5))
  with assms show ?thesis by (simp add: kheld_def cpu_ok_def)
qed

end
