(* ===== verification/Xv6_Bio.thy ===== *)
theory Xv6_Bio
  imports Xv6_Held
begin

unbundle bit_operations_syntax

text \<open>
  The buffer cache of bio.c over the memory disk of memide.c. A sector is 512 bytes, so a block is a
  function on 9-bit offsets. The buffers are the slots \<open>0 .. NBUF - 1\<close>; slot \<open>NBUF\<close> stands for
  \<open>bcache.head\<close>, and \<open>bprev\<close> and \<open>bnext\<close> are slots. \<open>writes\<close> is a history variable: the
  sectors written to the disk so far, in order. A process that finds a buffer busy would sleep; that
  is \<open>Blocked\<close>.
\<close>

type_synonym block = "9 word \<Rightarrow> u8"

definition NBUF :: nat where "NBUF = 30"
definition B_BUSY :: u32 where "B_BUSY = 1"
definition B_VALID :: u32 where "B_VALID = 2"
definition B_DIRTY :: u32 where "B_DIRTY = 4"

record buf =
  bflags :: u32                      \<comment> \<open>\<open>flags\<close>\<close>
  bdev :: u32                        \<comment> \<open>\<open>dev\<close>\<close>
  sector :: u32
  bprev :: nat                       \<comment> \<open>\<open>prev\<close>\<close>
  bnext :: nat                       \<comment> \<open>\<open>next\<close>\<close>
  bdata :: block                     \<comment> \<open>\<open>data\<close>\<close>

record bcst = procst +
  bcache :: "nat \<Rightarrow> buf"
  disk :: "u32 \<Rightarrow> block"
  disksize :: u32
  writes :: "(u32 \<times> block) list"

definition upd_buf :: "nat \<Rightarrow> (buf \<Rightarrow> buf) \<Rightarrow> 'a bcst_scheme \<Rightarrow> 'a bcst_scheme" where
  "upd_buf b f s = s\<lparr>bcache := (bcache s)(b := f (bcache s b))\<rparr>"

definition bflag :: "'a bcst_scheme \<Rightarrow> nat \<Rightarrow> u32 \<Rightarrow> bool" where
  "bflag s b m \<longleftrightarrow> bflags (bcache s b) AND m \<noteq> 0"

section \<open>memide.c\<close>

definition ideinit :: "(u32 \<Rightarrow> block) \<Rightarrow> u32 \<Rightarrow> 'a bcst_scheme \<Rightarrow> 'a bcst_scheme" where
  "ideinit img_start img_size s = s\<lparr>disk := img_start, disksize := img_size div 512\<rparr>"

text \<open>The memory disk raises no interrupt and has nothing to do in its handler.\<close>

definition mem_ideintr :: "'a bcst_scheme \<Rightarrow> 'a bcst_scheme" where
  "mem_ideintr s = s"

definition iderw :: "nat \<Rightarrow> 'a bcst_scheme \<Rightarrow> 'a bcst_scheme res" where
  "iderw b s =
     (if \<not> bflag s b B_BUSY then Inl (Panic ''iderw: buf not busy'')
      else if bflags (bcache s b) AND (B_VALID OR B_DIRTY) = B_VALID then Inl (Panic ''iderw: nothing to do'')
      else if bdev (bcache s b) \<noteq> 1 then Inl (Panic ''iderw: request not for disk 1'')
      else if sector (bcache s b) \<ge> disksize s then Inl (Panic ''iderw: sector out of range'')
      else let p = sector (bcache s b);
               s = (if bflag s b B_DIRTY then
                      let s = upd_buf b (\<lambda>x. x\<lparr>bflags := bflags x AND NOT B_DIRTY\<rparr>) s
                      in s\<lparr>disk := (disk s)(p := bdata (bcache s b)), writes := writes s @ [(p, bdata (bcache s b))]\<rparr>
                    else upd_buf b (\<lambda>x. x\<lparr>bdata := disk s p\<rparr>) s)
           in Inr (upd_buf b (\<lambda>x. x\<lparr>bflags := bflags x OR B_VALID\<rparr>) s))"

section \<open>bio.c\<close>

definition binit_one :: "nat \<Rightarrow> 'a bcst_scheme \<Rightarrow> 'a bcst_scheme" where
  "binit_one b s =
     (let s = upd_buf b (\<lambda>x. x\<lparr>bnext := bnext (bcache s NBUF)\<rparr>) s;
          s = upd_buf b (\<lambda>x. x\<lparr>bprev := NBUF\<rparr>) s;
          s = upd_buf b (\<lambda>x. x\<lparr>bdev := - 1\<rparr>) s;
          s = upd_buf (bnext (bcache s NBUF)) (\<lambda>x. x\<lparr>bprev := b\<rparr>) s
      in upd_buf NBUF (\<lambda>x. x\<lparr>bnext := b\<rparr>) s)"

definition binit :: "'a bcst_scheme \<Rightarrow> 'a bcst_scheme" where
  "binit s =
     (let s = initlock BcacheLock s;
          s = upd_buf NBUF (\<lambda>x. x\<lparr>bprev := NBUF\<rparr>) s;
          s = upd_buf NBUF (\<lambda>x. x\<lparr>bnext := NBUF\<rparr>) s
      in fold binit_one [0..<NBUF] s)"

partial_function (option) bget_find :: "(nat \<Rightarrow> buf) \<Rightarrow> u32 \<Rightarrow> u32 \<Rightarrow> nat \<Rightarrow> nat option option" where
  "bget_find bc dev sec b =
     (if b = NBUF then Some None
      else if bdev (bc b) = dev \<and> sector (bc b) = sec then Some (Some b)
      else bget_find bc dev sec (bnext (bc b)))"

partial_function (option) bget_free :: "(nat \<Rightarrow> buf) \<Rightarrow> nat \<Rightarrow> nat option option" where
  "bget_free bc b =
     (if b = NBUF then Some None
      else if bflags (bc b) AND B_BUSY = 0 \<and> bflags (bc b) AND B_DIRTY = 0 then Some (Some b)
      else bget_free bc (bprev (bc b)))"

definition bget :: "u32 \<Rightarrow> u32 \<Rightarrow> 'a bcst_scheme \<Rightarrow> (nat \<times> 'a bcst_scheme) res" where
  "bget dev sec s =
     bindr (acquire BcacheLock s) (\<lambda>s.
     case bget_find (bcache s) dev sec (bnext (bcache s NBUF)) of
       None \<Rightarrow> Inl (Blocked ''loop'')
     | Some (Some b) \<Rightarrow>
         if \<not> bflag s b B_BUSY then
           bindr (release BcacheLock (upd_buf b (\<lambda>x. x\<lparr>bflags := bflags x OR B_BUSY\<rparr>) s)) (\<lambda>s. Inr (b, s))
         else Inl (Blocked ''bget'')
     | Some None \<Rightarrow>
         case bget_free (bcache s) (bprev (bcache s NBUF)) of
           None \<Rightarrow> Inl (Blocked ''loop'')
         | Some None \<Rightarrow> Inl (Panic ''bget: no buffers'')
         | Some (Some b) \<Rightarrow>
             bindr (release BcacheLock (upd_buf b (\<lambda>x. x\<lparr>bdev := dev, sector := sec, bflags := B_BUSY\<rparr>) s)) (\<lambda>s.
             Inr (b, s)))"

definition bread :: "u32 \<Rightarrow> u32 \<Rightarrow> 'a bcst_scheme \<Rightarrow> (nat \<times> 'a bcst_scheme) res" where
  "bread dev sec s =
     bindr (bget dev sec s) (\<lambda>(b, s).
     if \<not> bflag s b B_VALID then bindr (iderw b s) (\<lambda>s. Inr (b, s)) else Inr (b, s))"

definition bwrite :: "nat \<Rightarrow> 'a bcst_scheme \<Rightarrow> 'a bcst_scheme res" where
  "bwrite b s =
     (if \<not> bflag s b B_BUSY then Inl (Panic ''bwrite'')
      else iderw b (upd_buf b (\<lambda>x. x\<lparr>bflags := bflags x OR B_DIRTY\<rparr>) s))"

definition brelse_move :: "nat \<Rightarrow> 'a bcst_scheme \<Rightarrow> 'a bcst_scheme" where
  "brelse_move b s =
     (let s = upd_buf (bnext (bcache s b)) (\<lambda>x. x\<lparr>bprev := bprev (bcache s b)\<rparr>) s;
          s = upd_buf (bprev (bcache s b)) (\<lambda>x. x\<lparr>bnext := bnext (bcache s b)\<rparr>) s;
          s = upd_buf b (\<lambda>x. x\<lparr>bnext := bnext (bcache s NBUF)\<rparr>) s;
          s = upd_buf b (\<lambda>x. x\<lparr>bprev := NBUF\<rparr>) s;
          s = upd_buf (bnext (bcache s NBUF)) (\<lambda>x. x\<lparr>bprev := b\<rparr>) s
      in upd_buf NBUF (\<lambda>x. x\<lparr>bnext := b\<rparr>) s)"

definition brelse :: "schedflag \<Rightarrow> nat \<Rightarrow> 'a bcst_scheme \<Rightarrow> 'a bcst_scheme res" where
  "brelse cfg b s =
     (if \<not> bflag s b B_BUSY then Inl (Panic ''brelse'')
      else bindr (acquire BcacheLock s) (\<lambda>s.
        let s = upd_buf b (\<lambda>x. x\<lparr>bflags := bflags x AND NOT B_BUSY\<rparr>) (brelse_move b s)
        in bindr (wakeup cfg (Some (ChanBuf b)) s) (release BcacheLock)))"

section \<open>The ring of buffers\<close>

text \<open>\<open>cpath fw a xs c\<close>: following \<open>fw\<close> from \<open>a\<close> one meets the slots \<open>xs\<close> and then \<open>c\<close>. The buffers form a
  ring through the head, forwards by \<open>bnext\<close> and backwards by \<open>bprev\<close>.\<close>

fun cpath :: "(nat \<Rightarrow> nat) \<Rightarrow> nat \<Rightarrow> nat list \<Rightarrow> nat \<Rightarrow> bool" where
  "cpath fw a [] c \<longleftrightarrow> fw a = c"
| "cpath fw a (x # xs) c \<longleftrightarrow> fw a = x \<and> cpath fw x xs c"

definition ring :: "nat \<Rightarrow> (nat \<Rightarrow> nat) \<Rightarrow> (nat \<Rightarrow> nat) \<Rightarrow> nat list \<Rightarrow> bool" where
  "ring h fw bw xs \<longleftrightarrow> distinct (h # xs) \<and> cpath fw h xs h \<and> cpath bw h (rev xs) h"

lemma cpath_append: "cpath fw a (xs @ y # ys) c \<longleftrightarrow> cpath fw a xs y \<and> cpath fw y ys c"
  by (induction xs arbitrary: a) auto

lemma cpath_upd_other: "z \<notin> set (a # xs) \<Longrightarrow> cpath (fw(z := c)) a xs b = cpath fw a xs b"
  by (induction xs arbitrary: a) auto

lemma cpath_upd_last: "distinct (a # xs) \<Longrightarrow> cpath fw a xs b \<Longrightarrow> cpath (fw(last (a # xs) := c)) a xs c"
  by (induction xs arbitrary: a) (auto simp: cpath_upd_other)

lemma cpath_first: "cpath fw a xs c \<Longrightarrow> fw a = hd (xs @ [c])"
  by (cases xs) auto

lemma cpath_cut:
  assumes "distinct (h # as @ b # bs)" "cpath fw h (as @ b # bs) h"
  shows "cpath (fw(last (h # as) := fw b)) h (as @ bs) h"
proof (cases bs)
  case Nil
  with assms show ?thesis using cpath_upd_last[of h as fw b] by (simp add: cpath_append)
next
  case (Cons c cs)
  have "last (h # as) \<in> set (h # as)" by (rule last_in_set) simp
  then have "last (h # as) \<notin> set (c # cs)" using assms(1) Cons by (auto simp del: last.simps)
  then have "cpath (fw(last (h # as) := c)) c cs h" using assms(2) Cons by (simp add: cpath_append cpath_upd_other del: last.simps)
  moreover have "cpath (fw(last (h # as) := c)) h as c"
    using assms Cons by (intro cpath_upd_last[of h as fw b]) (auto simp: cpath_append)
  ultimately show ?thesis using Cons assms(2) by (simp add: cpath_append del: last.simps)
qed

lemma ring_unlink:
  assumes "ring h fw bw (as @ b # bs)"
  shows "ring h (fw(bw b := fw b)) (bw(fw b := bw b)) (as @ bs)"
proof -
  have d: "distinct (h # as @ b # bs)" "distinct (h # rev bs @ b # rev as)"
    and n: "cpath fw h (as @ b # bs) h" and p: "cpath bw h (rev bs @ b # rev as) h"
    using assms by (auto simp: ring_def)
  have "bw b = last (h # as)" using p cpath_first[of bw b "rev as" h]
    by (cases as rule: rev_cases) (auto simp: cpath_append)
  moreover have "fw b = last (h # rev bs)" using n cpath_first[of fw b bs h]
    by (cases bs) (auto simp: cpath_append)
  ultimately show ?thesis
    using cpath_cut[OF d(1) n] cpath_cut[OF d(2) p] d(1) by (simp add: ring_def)
qed

lemma ring_insert:
  assumes "ring h fw bw xs" "b \<notin> set (h # xs)"
  shows "ring h (fw(b := fw h, h := b)) (bw(b := h, fw h := b)) (b # xs)"
proof -
  have d: "distinct (h # xs)" and n: "cpath fw h xs h" and p: "cpath bw h (rev xs) h"
    using assms(1) by (auto simp: ring_def)
  have "fw h = last (h # rev xs)" using cpath_first[OF n] by (cases xs) auto
  moreover have "cpath (bw(last (h # rev xs) := b)) h (rev xs) b"
    by (rule cpath_upd_last[OF _ p]) (use d in auto)
  moreover have ne: "b \<noteq> fw h" using assms(2) cpath_first[OF n] by (cases xs) auto
  ultimately have "cpath (bw(b := h, fw h := b)) h (rev xs) b"
    using assms(2) by (simp add: fun_upd_twist[of b] cpath_upd_other del: last.simps)
  moreover have "(bw(b := h, fw h := b)) b = h" using ne by simp
  moreover have "cpath (fw(b := fw h, h := b)) b xs h"
    using n assms(2) d by (cases xs) (auto simp: cpath_upd_other)
  ultimately show ?thesis using d assms(2) by (auto simp: ring_def cpath_append)
qed

section \<open>Flags\<close>

abbreviation is_busy :: "buf \<Rightarrow> bool" where "is_busy b \<equiv> bit (bflags b) 0"
abbreviation is_valid :: "buf \<Rightarrow> bool" where "is_valid b \<equiv> bit (bflags b) 1"
abbreviation is_dirty :: "buf \<Rightarrow> bool" where "is_dirty b \<equiv> bit (bflags b) 2"

lemma flag_zero [simp]:
  "x AND B_BUSY = 0 \<longleftrightarrow> \<not> bit x 0" "x AND B_VALID = 0 \<longleftrightarrow> \<not> bit x 1" "x AND B_DIRTY = 0 \<longleftrightarrow> \<not> bit x 2"
  using and_exp_eq_0_iff_not_bit[of x 0] and_exp_eq_0_iff_not_bit[of x 1] and_exp_eq_0_iff_not_bit[of x 2]
  by (simp_all add: B_BUSY_def B_VALID_def B_DIRTY_def)

lemma flag_bits [simp]:
  "bit B_BUSY n \<longleftrightarrow> n = 0" "bit B_VALID n \<longleftrightarrow> n = 1" "bit B_DIRTY n \<longleftrightarrow> n = 2"
proof -
  have "bit (2 ^ 0 :: u32) n \<longleftrightarrow> n = 0" "bit (2 ^ 1 :: u32) n \<longleftrightarrow> n = 1" "bit (2 ^ 2 :: u32) n \<longleftrightarrow> n = 2"
    unfolding bit_exp_iff by auto
  then show "bit B_BUSY n \<longleftrightarrow> n = 0" "bit B_VALID n \<longleftrightarrow> n = 1" "bit B_DIRTY n \<longleftrightarrow> n = 2"
    by (simp_all add: B_BUSY_def B_VALID_def B_DIRTY_def)
qed

lemma flag_nothing_to_do: "x AND (B_VALID OR B_DIRTY) = B_VALID \<longleftrightarrow> bit x 1 \<and> \<not> bit x 2"
proof
  assume e: "x AND (B_VALID OR B_DIRTY) = B_VALID"
  show "bit x 1 \<and> \<not> bit x 2"
    using arg_cong[OF e, of "\<lambda>w. bit w 1"] arg_cong[OF e, of "\<lambda>w. bit w 2"] by (simp add: bit_and_iff bit_or_iff)
next
  assume "bit x 1 \<and> \<not> bit x 2"
  then show "x AND (B_VALID OR B_DIRTY) = B_VALID"
    by (intro bit_word_eqI) (auto simp: bit_and_iff bit_or_iff)
qed

lemma bit_clear: "bit (x AND NOT (m :: u32)) n \<longleftrightarrow> bit x n \<and> \<not> bit m n"
  by (auto simp: bit_and_iff bit_not_iff dest: bit_imp_le_length)

lemma bflag_bit [simp]: "bflag s b B_BUSY = is_busy (bcache s b)" "bflag s b B_VALID = is_valid (bcache s b)"
  "bflag s b B_DIRTY = is_dirty (bcache s b)"
  by (simp_all add: bflag_def)

lemmas flag_ops [simp] = flag_nothing_to_do bit_clear bit_or_iff

section \<open>The cache as a map from sectors to blocks\<close>

text \<open>The buffers of disk 1 have different sectors, are valid, and agree with the disk unless they are
  busy (somebody may be changing them) or dirty (the log pins them).\<close>

definition cached :: "(nat \<Rightarrow> buf) \<Rightarrow> u32 \<Rightarrow> nat \<Rightarrow> bool" where
  "cached bc sec i \<longleftrightarrow> i < NBUF \<and> bdev (bc i) = 1 \<and> sector (bc i) = sec"

definition content :: "(nat \<Rightarrow> buf) \<Rightarrow> (u32 \<Rightarrow> block) \<Rightarrow> u32 \<Rightarrow> block" where
  "content bc d sec = (case scan (cached bc sec) NBUF of None \<Rightarrow> d sec | Some i \<Rightarrow> bdata (bc i))"

definition busies :: "(nat \<Rightarrow> buf) \<Rightarrow> u32 set" where
  "busies bc = {sec. \<exists>i. cached bc sec i \<and> is_busy (bc i)}"

definition dirties :: "(nat \<Rightarrow> buf) \<Rightarrow> u32 set" where
  "dirties bc = {sec. \<exists>i. cached bc sec i \<and> is_dirty (bc i)}"

definition ring_ok :: "(nat \<Rightarrow> buf) \<Rightarrow> bool" where
  "ring_ok bc \<longleftrightarrow> (\<exists>xs. ring NBUF (\<lambda>i. bnext (bc i)) (\<lambda>i. bprev (bc i)) xs \<and> set xs = {..<NBUF})"

definition slot_ok :: "u32 \<Rightarrow> (u32 \<Rightarrow> block) \<Rightarrow> buf \<Rightarrow> bool" where
  "slot_ok n d b \<longleftrightarrow>
     bdev b = 1 \<and> sector b < n \<and> is_valid b \<and> (is_busy b \<or> is_dirty b \<or> bdata b = d (sector b)) \<or>
     bdev b = - 1 \<and> \<not> is_busy b \<and> \<not> is_dirty b"

definition cache_ok :: "(nat \<Rightarrow> buf) \<Rightarrow> (u32 \<Rightarrow> block) \<Rightarrow> u32 \<Rightarrow> bool" where
  "cache_ok bc d n \<longleftrightarrow> ring_ok bc \<and> (\<forall>i<NBUF. slot_ok n d (bc i)) \<and>
     (\<forall>i j sec. cached bc sec i \<and> cached bc sec j \<longrightarrow> i = j)"

lemma cached_unique: "cache_ok bc d n \<Longrightarrow> cached bc e i \<Longrightarrow> cached bc e j \<Longrightarrow> i = j"
  unfolding cache_ok_def by blast

lemma cached_eq_iff: "cache_ok bc d n \<Longrightarrow> cached bc e i \<Longrightarrow> cached bc f j \<Longrightarrow> i = j \<longleftrightarrow> e = f"
  using cached_unique[of bc d n e i j] by (auto simp: cached_def)

lemma content_cached:
  assumes "cache_ok bc d n" "cached bc sec i"
  shows "content bc d sec = bdata (bc i)"
proof -
  obtain j where j: "scan (cached bc sec) NBUF = Some j"
    using scanI[of "cached bc sec" i NBUF] assms(2) by (auto simp: cached_def)
  then have "cached bc sec j" by (simp add: scan_Some)
  then have "j = i" using cached_unique[OF assms] by simp
  with j show ?thesis by (simp add: content_def)
qed

lemma content_uncached: "\<forall>i. \<not> cached bc sec i \<Longrightarrow> content bc d sec = d sec"
  by (cases "scan (cached bc sec) NBUF") (auto simp: content_def scan_Some)

text \<open>Away from the busy and the dirty sectors the map is the disk.\<close>

lemma content_clean:
  assumes "cache_ok bc d n" "sec \<notin> busies bc" "sec \<notin> dirties bc"
  shows "content bc d sec = d sec"
proof (cases "\<exists>i. cached bc sec i")
  case True
  then obtain i where i: "cached bc sec i" by blast
  then have "slot_ok n d (bc i)" "\<not> is_busy (bc i)" "\<not> is_dirty (bc i)"
    using assms by (auto simp: cache_ok_def cached_def busies_def dirties_def)
  then have "bdata (bc i) = d sec" using i by (auto simp: slot_ok_def cached_def)
  then show ?thesis using content_cached[OF assms(1) i] by simp
qed (use content_uncached in blast)

text \<open>When fewer sectors are busy or dirty than there are buffers, a buffer can be recycled.\<close>

lemma free_buffer:
  assumes ok: "cache_ok bc d n" and c: "card (dirties bc \<union> busies bc) < NBUF"
  shows "\<exists>i<NBUF. \<not> is_busy (bc i) \<and> \<not> is_dirty (bc i)"
proof (rule ccontr)
  assume a: "\<not> ?thesis"
  have dev: "bdev (bc i) = 1" if "i < NBUF" for i
  proof -
    have "slot_ok n d (bc i)" "is_busy (bc i) \<or> is_dirty (bc i)" using ok a that by (auto simp: cache_ok_def)
    then show ?thesis by (auto simp: slot_ok_def)
  qed
  have "inj_on (\<lambda>i. sector (bc i)) {..<NBUF}"
    using ok dev by (auto simp: inj_on_def cache_ok_def cached_def)
  moreover have "(\<lambda>i. sector (bc i)) ` {..<NBUF} \<subseteq> dirties bc \<union> busies bc"
    using a dev by (auto simp: busies_def dirties_def cached_def)
  ultimately have "card {..<NBUF} \<le> card (dirties bc \<union> busies bc)"
    by (rule card_inj_on_le) simp
  with c show False by simp
qed

lemma find_walk:
  assumes "cpath fw a xs NBUF" "NBUF \<notin> set xs" "fw = (\<lambda>i. bnext (bc i))"
  shows "bget_find bc dev sec (fw a) = Some (find (\<lambda>i. bdev (bc i) = dev \<and> sector (bc i) = sec) xs)"
  using assms(1,2)
proof (induction xs arbitrary: a)
  case Nil
  then show ?case by (simp add: bget_find.simps)
next
  case (Cons x xs)
  then show ?case using assms(3) by (simp add: bget_find.simps[of bc dev sec x])
qed

lemma free_walk:
  assumes "cpath bw a xs NBUF" "NBUF \<notin> set xs" "bw = (\<lambda>i. bprev (bc i))"
  shows "bget_free bc (bw a) = Some (find (\<lambda>i. \<not> is_busy (bc i) \<and> \<not> is_dirty (bc i)) xs)"
  using assms(1,2)
proof (induction xs arbitrary: a)
  case Nil
  then show ?case by (simp add: bget_free.simps)
next
  case (Cons x xs)
  then show ?case using assms(3) by (simp add: bget_free.simps[of bc x])
qed

section \<open>Changes to one buffer\<close>

definition same_place :: "buf \<Rightarrow> buf \<Rightarrow> bool" where
  "same_place x y \<longleftrightarrow> bdev x = bdev y \<and> sector x = sector y \<and> bprev x = bprev y \<and> bnext x = bnext y"

lemma ring_ok_cong: "(\<And>i. bnext (bc' i) = bnext (bc i) \<and> bprev (bc' i) = bprev (bc i)) \<Longrightarrow> ring_ok bc' = ring_ok bc"
  by (simp add: ring_ok_def)

lemma cached_upd: "same_place x (bc b) \<Longrightarrow> cached (bc(b := x)) = cached bc"
  by (auto simp: cached_def same_place_def fun_eq_iff)

lemma cache_upd:
  assumes "cache_ok bc d n" "same_place x (bc b)" "b < NBUF \<Longrightarrow> slot_ok n d x"
  shows "cache_ok (bc(b := x)) d n"
proof -
  have "ring_ok (bc(b := x)) = ring_ok bc" by (rule ring_ok_cong) (use assms(2) in \<open>auto simp: same_place_def\<close>)
  with assms cached_upd[of x bc b, OF assms(2)] show ?thesis by (auto simp: cache_ok_def)
qed

lemma content_upd:
  assumes ok: "cache_ok bc d n" and x: "same_place x (bc b)" "b < NBUF \<Longrightarrow> slot_ok n d x" and c: "cached bc sec b"
  shows "content (bc(b := x)) d = (content bc d)(sec := bdata x)"
proof
  fix e
  note ok' = cache_upd[OF ok x]
  show "content (bc(b := x)) d e = ((content bc d)(sec := bdata x)) e"
  proof (cases "\<exists>i. cached bc e i")
    case True
    then obtain i where i: "cached bc e i" by blast
    then have i': "cached (bc(b := x)) e i" using cached_upd[of x bc b, OF x(1)] by simp
    have "i = b \<longleftrightarrow> e = sec" using cached_eq_iff[OF ok i c] by blast
    then show ?thesis using content_cached[OF ok i] content_cached[OF ok' i'] by auto
  next
    case False
    then have "e \<noteq> sec" using c by blast
    then show ?thesis using False cached_upd[of x bc b, OF x(1)] by (simp add: content_uncached)
  qed
qed

lemma busies_upd:
  assumes "cache_ok bc d n" "same_place x (bc b)" "cached bc sec b"
  shows "busies (bc(b := x)) = (if is_busy x then insert sec (busies bc) else busies bc - {sec})"
    "dirties (bc(b := x)) = (if is_dirty x then insert sec (dirties bc) else dirties bc - {sec})"
proof -
  have u: "cached bc e i \<and> i \<noteq> b \<longleftrightarrow> cached bc e i \<and> e \<noteq> sec" for e i
    using cached_eq_iff[OF assms(1) _ assms(3), of e i] by blast
  have b: "cached bc e b \<longleftrightarrow> e = sec" for e using assms(3) by (auto simp: cached_def)
  show "busies (bc(b := x)) = (if is_busy x then insert sec (busies bc) else busies bc - {sec})"
    unfolding busies_def cached_upd[of x bc b, OF assms(2)] using u b by (auto split: if_splits)
  show "dirties (bc(b := x)) = (if is_dirty x then insert sec (dirties bc) else dirties bc - {sec})"
    unfolding dirties_def cached_upd[of x bc b, OF assms(2)] using u b by (auto split: if_splits)
qed

text \<open>A handle is a busy buffer; taking one gives a new handle and changes nothing else.\<close>

definition hnd :: "(nat \<Rightarrow> buf) \<Rightarrow> u32 \<Rightarrow> nat \<Rightarrow> bool" where
  "hnd bc sec b \<longleftrightarrow> cached bc sec b \<and> is_busy (bc b)"

definition taken :: "(nat \<Rightarrow> buf) \<Rightarrow> (u32 \<Rightarrow> block) \<Rightarrow> u32 \<Rightarrow> u32 \<Rightarrow> nat \<Rightarrow> (nat \<Rightarrow> buf) \<Rightarrow> bool" where
  "taken bc d n sec b bc' \<longleftrightarrow> cache_ok bc' d n \<and> hnd bc' sec b \<and> content bc' d = content bc d \<and>
     busies bc' = insert sec (busies bc) \<and> dirties bc' = dirties bc \<and> (\<forall>e c. hnd bc e c \<longrightarrow> hnd bc' e c)"

lemma take_hit:
  assumes ok: "cache_ok bc d n" and c: "cached bc sec b" "\<not> is_busy (bc b)"
  shows "taken bc d n sec b (bc(b := (bc b)\<lparr>bflags := bflags (bc b) OR B_BUSY\<rparr>))"
proof -
  let ?x = "(bc b)\<lparr>bflags := bflags (bc b) OR B_BUSY\<rparr>"
  have p: "same_place ?x (bc b)" by (simp add: same_place_def)
  have "slot_ok n d (bc b)" using ok c by (auto simp: cache_ok_def cached_def)
  then have s: "slot_ok n d ?x" using c by (auto simp: slot_ok_def cached_def)
  have "content (bc(b := ?x)) d = content bc d"
    using content_upd[OF ok p s c(1)] content_cached[OF ok c(1)] by (auto simp: fun_eq_iff)
  moreover have "sec \<in> dirties bc \<longleftrightarrow> is_dirty (bc b)"
  proof -
    have "cached bc sec i \<longleftrightarrow> i = b" for i using c(1) cached_unique[OF ok c(1), of i] by blast
    then show ?thesis by (simp add: dirties_def)
  qed
  ultimately show ?thesis
    using cache_upd[OF ok p s] cached_upd[of ?x bc b, OF p] busies_upd[OF ok p c(1)] c
    by (auto simp: taken_def hnd_def)
qed

lemma take_miss:
  assumes ok: "cache_ok bc d n" and b: "b < NBUF" "\<not> is_busy (bc b)" "\<not> is_dirty (bc b)"
    and c: "\<forall>i. \<not> cached bc sec i" and n: "sec < n"
  shows "taken bc d n sec b
    (bc(b := (bc b)\<lparr>bdev := 1, sector := sec, bflags := B_BUSY OR B_VALID, bdata := d sec\<rparr>))"
proof -
  let ?x = "(bc b)\<lparr>bdev := 1, sector := sec, bflags := B_BUSY OR B_VALID, bdata := d sec\<rparr>"
  let ?bc = "bc(b := ?x)"
  have r: "ring_ok ?bc = ring_ok bc" by (rule ring_ok_cong) auto
  have k: "cached ?bc e i \<longleftrightarrow> (if i = b then e = sec else cached bc e i)" for e i
    using b(1) by (auto simp: cached_def)
  have ok': "cache_ok ?bc d n"
    unfolding cache_ok_def
  proof (intro conjI allI impI)
    show "ring_ok ?bc" using r ok by (simp add: cache_ok_def)
    show "slot_ok n d (?bc i)" if "i < NBUF" for i
      using ok that n by (auto simp: cache_ok_def slot_ok_def)
    show "i = j" if "cached ?bc e i \<and> cached ?bc e j" for i j e
      using that c cached_unique[OF ok, of e i j] by (auto simp: k split: if_splits)
  qed
  have old: "e \<notin> busies bc \<and> e \<notin> dirties bc" if "cached bc e b" for e
  proof -
    have "cached bc e i \<longleftrightarrow> i = b" for i using that cached_unique[OF ok that, of i] by blast
    then show ?thesis using b by (simp add: busies_def dirties_def)
  qed
  have "content ?bc d e = content bc d e" for e
  proof (cases "cached bc e b")
    case True
    then have "e \<noteq> sec" using c by blast
    then have "\<not> cached ?bc e i" for i using cached_unique[OF ok True, of i] by (auto simp: k)
    then show ?thesis using old[OF True] content_clean[OF ok] by (simp add: content_uncached)
  next
    case False
    show ?thesis
    proof (cases "\<exists>i. cached bc e i")
      case True
      then obtain i where i: "cached bc e i" "i \<noteq> b" using False by blast
      then have i': "cached ?bc e i" by (simp add: k)
      show ?thesis using content_cached[OF ok' i'] content_cached[OF ok i(1)] i(2) by simp
    next
      case none: False
      show ?thesis
      proof (cases "e = sec")
        case True
        then have e: "cached ?bc e b" by (simp add: k)
        show ?thesis using content_cached[OF ok' e] none True by (simp add: content_uncached)
      next
        case False
        then show ?thesis using none k by (simp add: content_uncached)
      qed
    qed
  qed
  moreover have "cached ?bc e i \<and> is_busy (?bc i) \<longleftrightarrow> i = b \<and> e = sec \<or> cached bc e i \<and> is_busy (bc i)"
    "cached ?bc e i \<and> is_dirty (?bc i) \<longleftrightarrow> cached bc e i \<and> is_dirty (bc i)" for e i
    using b(2,3) by (auto simp: k)
  then have "busies ?bc = insert sec (busies bc)" "dirties ?bc = dirties bc"
    unfolding busies_def dirties_def by blast+
  moreover have "hnd bc e i \<Longrightarrow> hnd ?bc e i" for e i using b by (auto simp: hnd_def k)
  moreover have "hnd ?bc sec b" by (simp add: hnd_def k)
  ultimately show ?thesis using ok' by (auto simp: taken_def)
qed

text \<open>Writing a busy buffer to the disk.\<close>

definition stored :: "(nat \<Rightarrow> buf) \<Rightarrow> nat \<Rightarrow> nat \<Rightarrow> buf" where
  "stored bc b = bc(b := (bc b)\<lparr>bflags := ((bflags (bc b) OR B_DIRTY) AND NOT B_DIRTY) OR B_VALID\<rparr>)"

lemma store_ok:
  assumes ok: "cache_ok bc d n" and h: "hnd bc sec b"
  defines "d' \<equiv> d(sec := content bc d sec)"
  shows "cache_ok (stored bc b) d' n" "content (stored bc b) d' = content bc d" "busies (stored bc b) = busies bc"
    "dirties (stored bc b) = dirties bc - {sec}" "hnd (stored bc b) e c = hnd bc e c"
proof -
  let ?x = "(bc b)\<lparr>bflags := ((bflags (bc b) OR B_DIRTY) AND NOT B_DIRTY) OR B_VALID\<rparr>"
  have c: "cached bc sec b" "is_busy (bc b)" using h by (auto simp: hnd_def)
  have p: "same_place ?x (bc b)" by (simp add: same_place_def)
  have k: "cached (stored bc b) = cached bc" unfolding stored_def by (rule cached_upd[of ?x bc b, OF p])
  have s: "slot_ok n d (bc i)" if "i < NBUF" for i using ok that by (simp add: cache_ok_def)
  have "slot_ok n d' (stored bc b i)" if i: "i < NBUF" for i
  proof (cases "i = b")
    case True
    then show ?thesis using s[OF i] c by (auto simp: stored_def slot_ok_def cached_def)
  next
    case False
    then have "bdev (bc i) = 1 \<Longrightarrow> sector (bc i) \<noteq> sec"
      using i c(1) cached_unique[OF ok, of sec i b] by (auto simp: cached_def)
    then show ?thesis using s[OF i] False by (auto simp: stored_def slot_ok_def d'_def)
  qed
  moreover have "ring_ok (stored bc b) = ring_ok bc" by (rule ring_ok_cong) (simp add: stored_def)
  ultimately show ok': "cache_ok (stored bc b) d' n" using ok by (simp add: cache_ok_def k)
  show "content (stored bc b) d' = content bc d"
  proof
    fix e
    show "content (stored bc b) d' e = content bc d e"
    proof (cases "\<exists>i. cached bc e i")
      case True
      then obtain i where i: "cached bc e i" by blast
      then show ?thesis using content_cached[OF ok i] content_cached[OF ok', of e i] k
        by (simp add: stored_def)
    next
      case False
      then have "e \<noteq> sec" using c by blast
      then show ?thesis using False k by (simp add: content_uncached d'_def)
    qed
  qed
  have u: "busies (stored bc b) = insert sec (busies bc)" "dirties (stored bc b) = dirties bc - {sec}"
    using busies_upd[OF ok p c(1)] c(2) by (simp_all add: stored_def)
  then show "busies (stored bc b) = busies bc" "dirties (stored bc b) = dirties bc - {sec}"
    using c by (auto simp: busies_def)
  show "hnd (stored bc b) e c = hnd bc e c" by (simp add: hnd_def k) (simp add: stored_def)
qed

text \<open>Giving a buffer back: it moves to the front of the ring.\<close>

definition unlinked :: "buf \<Rightarrow> buf" where
  "unlinked x = x\<lparr>bprev := 0, bnext := 0\<rparr>"

lemma unlinked_sel: "unlinked x = unlinked y \<Longrightarrow>
    bdev x = bdev y \<and> sector x = sector y \<and> bflags x = bflags y \<and> bdata x = bdata y"
  by (cases x; cases y) (simp add: unlinked_def)

definition relinked :: "(nat \<Rightarrow> buf) \<Rightarrow> (nat \<Rightarrow> buf) \<Rightarrow> bool" where
  "relinked bc bc' \<longleftrightarrow> ring_ok bc' \<and> (\<forall>i. unlinked (bc' i) = unlinked (bc i))"

lemma relinked_ok:
  assumes ok: "cache_ok bc d n" and r: "relinked bc bc'"
  shows "cache_ok bc' d n" "content bc' d = content bc d" "busies bc' = busies bc" "dirties bc' = dirties bc"
    "cached bc' = cached bc"
proof -
  have f: "bdev (bc' i) = bdev (bc i)" "sector (bc' i) = sector (bc i)" "bflags (bc' i) = bflags (bc i)"
    "bdata (bc' i) = bdata (bc i)" for i using r unlinked_sel[of "bc' i" "bc i"] by (auto simp: relinked_def)
  show k: "cached bc' = cached bc" by (simp add: cached_def fun_eq_iff f)
  show "cache_ok bc' d n" using ok r by (simp add: cache_ok_def k slot_ok_def f relinked_def)
  show "content bc' d = content bc d" unfolding content_def k f ..
  show "busies bc' = busies bc" "dirties bc' = dirties bc" by (simp_all add: busies_def dirties_def k f)
qed

definition released :: "(nat \<Rightarrow> buf) \<Rightarrow> (u32 \<Rightarrow> block) \<Rightarrow> u32 \<Rightarrow> u32 \<Rightarrow> nat \<Rightarrow> (nat \<Rightarrow> buf) \<Rightarrow> bool" where
  "released bc d n sec b bc' \<longleftrightarrow> cache_ok bc' d n \<and> content bc' d = content bc d \<and>
     busies bc' = busies bc - {sec} \<and> dirties bc' = dirties bc \<and> (\<forall>e c. hnd bc e c \<and> c \<noteq> b \<longrightarrow> hnd bc' e c)"

lemma release_ok:
  assumes ok: "cache_ok bc d n" and h: "hnd bc sec b" and r: "relinked bc bc'"
    and cl: "sec \<in> dirties bc \<or> content bc d sec = d sec"
  shows "released bc d n sec b (bc'(b := (bc' b)\<lparr>bflags := bflags (bc' b) AND NOT B_BUSY\<rparr>))"
proof -
  note R = relinked_ok[OF ok r]
  have f: "bflags (bc' i) = bflags (bc i)" for i using r unlinked_sel[of "bc' i" "bc i"] by (auto simp: relinked_def)
  let ?x = "(bc' b)\<lparr>bflags := bflags (bc' b) AND NOT B_BUSY\<rparr>"
  have c: "cached bc' sec b" using h R by (simp add: hnd_def)
  have p: "same_place ?x (bc' b)" by (simp add: same_place_def)
  have "slot_ok n d (bc' b)" using R(1) c by (auto simp: cache_ok_def cached_def)
  moreover have "is_dirty (bc' b) \<or> bdata (bc' b) = d sec"
  proof (cases "sec \<in> dirties bc")
    case True
    then obtain i where "cached bc' sec i" "is_dirty (bc i)" using R by (auto simp: dirties_def)
    then show ?thesis using cached_unique[OF R(1) c, of i] f by simp
  next
    case False
    then show ?thesis using cl content_cached[OF R(1) c] R(2) by simp
  qed
  ultimately have s: "slot_ok n d ?x" using c by (auto simp: slot_ok_def cached_def)
  have "content (bc'(b := ?x)) d = content bc d"
    using content_upd[OF R(1) p s c] content_cached[OF R(1) c] R(2) by (auto simp: fun_eq_iff)
  moreover have "is_dirty (bc' b) \<longleftrightarrow> sec \<in> dirties bc'"
  proof -
    have "cached bc' sec i \<longleftrightarrow> i = b" for i using c cached_unique[OF R(1) c, of i] by blast
    then show ?thesis by (simp add: dirties_def)
  qed
  then have "busies (bc'(b := ?x)) = busies bc - {sec}" "dirties (bc'(b := ?x)) = dirties bc"
    using busies_upd[OF R(1) p c] R(3,4) by auto
  moreover have "hnd (bc'(b := ?x)) e i" if "hnd bc e i" "i \<noteq> b" for e i
    using that R(5) f[of i] cached_upd[of ?x bc' b, OF p] by (simp add: hnd_def)
  ultimately show ?thesis using cache_upd[OF R(1) p s] by (auto simp: released_def)
qed

definition fwd :: "'a bcst_scheme \<Rightarrow> nat \<Rightarrow> nat" where "fwd s i = bnext (bcache s i)"
definition bwd :: "'a bcst_scheme \<Rightarrow> nat \<Rightarrow> nat" where "bwd s i = bprev (bcache s i)"

lemma links_upd_buf [simp]:
  "fwd (upd_buf b (\<lambda>x. x\<lparr>bnext := v\<rparr>) s) = (fwd s)(b := v)" "bwd (upd_buf b (\<lambda>x. x\<lparr>bnext := v\<rparr>) s) = bwd s"
  "bwd (upd_buf b (\<lambda>x. x\<lparr>bprev := v\<rparr>) s) = (bwd s)(b := v)" "fwd (upd_buf b (\<lambda>x. x\<lparr>bprev := v\<rparr>) s) = fwd s"
  "fwd (upd_buf b (\<lambda>x. x\<lparr>bdev := w\<rparr>) s) = fwd s" "bwd (upd_buf b (\<lambda>x. x\<lparr>bdev := w\<rparr>) s) = bwd s"
  by (auto simp: fwd_def bwd_def upd_buf_def fun_eq_iff)

lemma unlinked_upd_buf [simp]:
  "unlinked (bcache (upd_buf b (\<lambda>x. x\<lparr>bnext := v\<rparr>) s) i) = unlinked (bcache s i)"
  "unlinked (bcache (upd_buf b (\<lambda>x. x\<lparr>bprev := v\<rparr>) s) i) = unlinked (bcache s i)"
  by (auto simp: unlinked_def upd_buf_def)

lemma ring_ok_links: "ring_ok (bcache s) \<longleftrightarrow> (\<exists>xs. ring NBUF (fwd s) (bwd s) xs \<and> set xs = {..<NBUF})"
  by (simp add: ring_ok_def fwd_def[abs_def] bwd_def[abs_def])

lemma brelse_move_links:
  assumes "bwd s b \<noteq> b" "fwd s b \<noteq> b"
  defines "fw \<equiv> (fwd s)(bwd s b := fwd s b)" and "bw \<equiv> (bwd s)(fwd s b := bwd s b)"
  shows "fwd (brelse_move b s) = fw(b := fw NBUF, NBUF := b)"
    "bwd (brelse_move b s) = bw(b := NBUF, (fw(b := fw NBUF)) NBUF := b)"
  using assms(1,2)
  by (simp_all add: brelse_move_def Let_def fwd_def[symmetric] bwd_def[symmetric] fw_def bw_def)

lemma brelse_move_relinked:
  assumes "ring_ok (bcache s)" "b < NBUF"
  shows "relinked (bcache s) (bcache (brelse_move b s))"
proof -
  obtain xs where xs: "ring NBUF (fwd s) (bwd s) xs" "set xs = {..<NBUF}" using assms(1) by (auto simp: ring_ok_links)
  then have "b \<in> set xs" using assms(2) by simp
  then obtain as bs where ab: "xs = as @ b # bs" by (meson split_list)
  define fw bw where "fw = (fwd s)(bwd s b := fwd s b)" and "bw = (bwd s)(fwd s b := bwd s b)"
  have r1: "ring NBUF fw bw (as @ bs)" using ring_unlink xs(1) ab by (simp add: fw_def bw_def)
  have bn: "b \<notin> set (NBUF # as @ bs)" using xs(1) ab assms(2) by (auto simp: ring_def)
  have ne: "fwd s b \<noteq> b" "bwd s b \<noteq> b"
  proof -
    have "cpath (fwd s) b bs NBUF" "cpath (bwd s) b (rev as) NBUF"
      using xs(1) ab by (auto simp: ring_def cpath_append)
    from cpath_first[OF this(1)] cpath_first[OF this(2)]
    have "fwd s b \<in> set (bs @ [NBUF])" "bwd s b \<in> set (rev as @ [NBUF])" by (metis hd_in_set snoc_eq_iff_butlast)+
    with bn show "fwd s b \<noteq> b" "bwd s b \<noteq> b" by auto
  qed
  have "ring NBUF (fwd (brelse_move b s)) (bwd (brelse_move b s)) (b # as @ bs)"
    using ring_insert[OF r1 bn] bn unfolding brelse_move_links[OF ne(2,1)] fw_def[symmetric] bw_def[symmetric] by simp
  moreover have "set (b # as @ bs) = {..<NBUF}" using xs(2) ab by auto
  ultimately have "ring_ok (bcache (brelse_move b s))" unfolding ring_ok_links by blast
  moreover have "unlinked (bcache (brelse_move b s) i) = unlinked (bcache s i)" for i
    by (simp add: brelse_move_def Let_def)
  ultimately show ?thesis by (auto simp: relinked_def)
qed

section \<open>The operations on the state\<close>

lemma rest_bio [simp]: "bcache (rest s) = bcache s" "disk (rest s) = disk s" "disksize (rest s) = disksize s"
  "writes (rest s) = writes s" "rest (upd_buf b f s) = upd_buf b f (rest s)" "rest (s\<lparr>bcache := bc\<rparr>) = (rest s)\<lparr>bcache := bc\<rparr>"
  "rest (s\<lparr>disk := d\<rparr>) = (rest s)\<lparr>disk := d\<rparr>" "rest (s\<lparr>writes := w\<rparr>) = (rest s)\<lparr>writes := w\<rparr>"
  by (cases s; simp add: rest_def upd_buf_def)+

lemma rest_bcst_more: "bcst.more (rest s) = bcst.more s"
  by (simp add: rest_def)

lemma rest_bioD: "rest t = rest s \<Longrightarrow>
    bcache t = bcache s \<and> disk t = disk s \<and> disksize t = disksize s \<and> writes t = writes s"
  using rest_bio(1-4) by metis

lemma upd_buf_sel [simp]:
  "bcache (upd_buf b f s) = (bcache s)(b := f (bcache s b))" "disk (upd_buf b f s) = disk s"
  "disksize (upd_buf b f s) = disksize s" "writes (upd_buf b f s) = writes s"
  by (simp_all add: upd_buf_def)

lemma upd_buf_twice [simp]: "upd_buf b f (upd_buf b g s) = upd_buf b (\<lambda>x. f (g x)) s"
  by (simp add: upd_buf_def)

lemma upd_buf_bcache: "upd_buf b f s = s\<lparr>bcache := (bcache s)(b := f (bcache s b))\<rparr>"
  by (simp add: upd_buf_def)

lemma kheld_bio [simp]: "kheld cfg L (upd_buf b f s) = kheld cfg L s" "kheld cfg L (s\<lparr>disk := d\<rparr>) = kheld cfg L s"
  "kheld cfg L (s\<lparr>writes := w\<rparr>) = kheld cfg L s" "kheld cfg L (s\<lparr>bcache := bc\<rparr>) = kheld cfg L s"
  by (auto simp: upd_buf_def elim: kheld_cong)

lemma kheld_brelse_move [simp]: "kheld cfg L (brelse_move b s) = kheld cfg L s"
  by (simp add: brelse_move_def Let_def)

lemma brelse_move_sel [simp]: "disk (brelse_move b s) = disk s" "disksize (brelse_move b s) = disksize s"
  "writes (brelse_move b s) = writes s" "rest (brelse_move b s) = (rest s)\<lparr>bcache := bcache (brelse_move b s)\<rparr>"
  by (simp_all add: brelse_move_def Let_def upd_buf_bcache)

definition bok :: "schedflag \<Rightarrow> lockid list \<Rightarrow> 'a bcst_scheme \<Rightarrow> bool" where
  "bok cfg L s \<longleftrightarrow> kheld cfg L s \<and> cache_ok (bcache s) (disk s) (disksize s)"

abbreviation cview :: "'a bcst_scheme \<Rightarrow> u32 \<Rightarrow> block" where
  "cview s \<equiv> content (bcache s) (disk s)"

text \<open>\<open>bioframe\<close>: only the cache and the disk changed, besides locks and sleepers.\<close>

definition bioframe :: "'a bcst_scheme \<Rightarrow> 'a bcst_scheme \<Rightarrow> bool" where
  "bioframe s t \<longleftrightarrow> rest t = (rest s)\<lparr>bcache := bcache t, disk := disk t, writes := writes t\<rparr>"

lemma bioframe_refl [simp]: "bioframe s s"
  by (simp add: bioframe_def rest_def)

lemma bioframe_trans: "bioframe s t \<Longrightarrow> bioframe t u \<Longrightarrow> bioframe s u"
  by (simp add: bioframe_def)

lemma bioframe_sel: "bioframe s t \<Longrightarrow> disksize t = disksize s \<and> bcst.more t = bcst.more s \<and> ram t = ram s"
proof -
  assume f: "bioframe s t"
  have "disksize (rest t) = disksize (rest s)" "bcst.more (rest t) = bcst.more (rest s)" "ram (rest t) = ram (rest s)"
    unfolding f[unfolded bioframe_def] by simp_all
  then show ?thesis by (simp add: rest_more rest_bcst_more)
qed

lemma bget_ok:
  assumes s: "bok cfg L s" "BcacheLock \<notin> set L" and sec: "sec \<notin> busies (bcache s)" "sec < disksize s"
    and room: "sec \<in> dirties (bcache s) \<or> card (dirties (bcache s) \<union> busies (bcache s)) < NBUF"
  shows "\<exists>b t. bget 1 sec s = Inr (b, t) \<and> kheld cfg L t \<and> b < NBUF \<and>
    (cached (bcache s) sec b \<and> \<not> is_busy (bcache s b) \<and>
       rest t = upd_buf b (\<lambda>x. x\<lparr>bflags := bflags x OR B_BUSY\<rparr>) (rest s) \<or>
     (\<forall>i. \<not> cached (bcache s) sec i) \<and> \<not> is_busy (bcache s b) \<and> \<not> is_dirty (bcache s b) \<and>
       rest t = upd_buf b (\<lambda>x. x\<lparr>bdev := 1, sector := sec, bflags := B_BUSY\<rparr>) (rest s))"
proof -
  have k: "kheld cfg L s" and ok: "cache_ok (bcache s) (disk s) (disksize s)" using s(1) by (auto simp: bok_def)
  obtain t where t: "acquire BcacheLock s = Inr t" "kheld cfg (BcacheLock # L) t" "rest t = rest s"
    using kheld_acquire[OF k s(2)] by blast
  have bc: "bcache t = bcache s" using rest_bioD[OF t(3)] by simp
  obtain xs where xs: "ring NBUF (fwd s) (bwd s) xs" "set xs = {..<NBUF}" using ok by (auto simp: cache_ok_def ring_ok_links)
  have p: "cpath (fwd s) NBUF xs NBUF" "cpath (bwd s) NBUF (rev xs) NBUF" "NBUF \<notin> set xs" "NBUF \<notin> set (rev xs)"
    using xs by (auto simp: ring_def)
  have f: "bget_find (bcache t) 1 sec (bnext (bcache t NBUF)) =
      Some (find (\<lambda>i. bdev (bcache s i) = 1 \<and> sector (bcache s i) = sec) xs)"
    using find_walk[OF p(1,3)] by (simp add: bc fwd_def[abs_def])
  have g: "bget_free (bcache t) (bprev (bcache t NBUF)) =
      Some (find (\<lambda>i. \<not> is_busy (bcache s i) \<and> \<not> is_dirty (bcache s i)) (rev xs))"
    using free_walk[OF p(2,4)] by (simp add: bc bwd_def[abs_def])
  have rel: "\<exists>u. release BcacheLock (upd_buf b h t) = Inr u \<and> kheld cfg L u \<and> rest u = upd_buf b h (rest s)" for b h
    using kheld_release[of cfg BcacheLock L "upd_buf b h t"] t(2,3) by simp
  show ?thesis
  proof (cases "find (\<lambda>i. bdev (bcache s i) = 1 \<and> sector (bcache s i) = sec) xs")
    case (Some b)
    then have b: "cached (bcache s) sec b" using xs(2) by (auto simp: find_Some_iff cached_def)
    then have nb: "\<not> is_busy (bcache s b)" using sec(1) by (auto simp: busies_def)
    obtain u where u: "release BcacheLock (upd_buf b (\<lambda>x. x\<lparr>bflags := bflags x OR B_BUSY\<rparr>) t) = Inr u" "kheld cfg L u"
      "rest u = upd_buf b (\<lambda>x. x\<lparr>bflags := bflags x OR B_BUSY\<rparr>) (rest s)" using rel by blast
    have "bget 1 sec s = Inr (b, u)" using t(1) f Some nb u(1) by (simp add: bget_def bc)
    moreover have "b < NBUF" using b by (simp add: cached_def)
    ultimately show ?thesis using u b nb by blast
  next
    case None
    then have nc: "\<forall>i. \<not> cached (bcache s) sec i" using xs(2) by (auto simp: find_None_iff cached_def)
    then have "sec \<notin> dirties (bcache s)" by (simp add: dirties_def)
    then obtain i where "i < NBUF" "\<not> is_busy (bcache s i)" "\<not> is_dirty (bcache s i)"
      using free_buffer[OF ok] room by blast
    then obtain b where b: "find (\<lambda>i. \<not> is_busy (bcache s i) \<and> \<not> is_dirty (bcache s i)) (rev xs) = Some b"
      using xs(2) by (cases "find (\<lambda>i. \<not> is_busy (bcache s i) \<and> \<not> is_dirty (bcache s i)) (rev xs)")
        (auto simp: find_None_iff)
    then have "b \<in> set (rev xs)" "\<not> is_busy (bcache s b)" "\<not> is_dirty (bcache s b)"
      unfolding find_Some_iff by (metis nth_mem)+
    moreover obtain u where u: "release BcacheLock (upd_buf b (\<lambda>x. x\<lparr>bdev := 1, sector := sec, bflags := B_BUSY\<rparr>) t) = Inr u"
      "kheld cfg L u" "rest u = upd_buf b (\<lambda>x. x\<lparr>bdev := 1, sector := sec, bflags := B_BUSY\<rparr>) (rest s)" using rel by blast
    moreover have "bget 1 sec s = Inr (b, u)" using t(1) f g None b u(1) by (simp add: bget_def bc)
    ultimately show ?thesis using nc xs(2) by auto
  qed
qed

lemma bread_ok:
  assumes s: "bok cfg L s" "BcacheLock \<notin> set L" and sec: "sec \<notin> busies (bcache s)" "sec < disksize s"
    and room: "sec \<in> dirties (bcache s) \<or> card (dirties (bcache s) \<union> busies (bcache s)) < NBUF"
  shows "\<exists>b t. bread 1 sec s = Inr (b, t) \<and> bok cfg L t \<and> taken (bcache s) (disk s) (disksize s) sec b (bcache t) \<and>
    disk t = disk s \<and> writes t = writes s \<and> bioframe s t \<and> bdata (bcache t b) = cview s sec"
proof -
  have ok: "cache_ok (bcache s) (disk s) (disksize s)" using s(1) by (auto simp: bok_def)
  obtain b t where b: "bget 1 sec s = Inr (b, t)" "kheld cfg L t" "b < NBUF" and
    c: "cached (bcache s) sec b \<and> \<not> is_busy (bcache s b) \<and>
          rest t = upd_buf b (\<lambda>x. x\<lparr>bflags := bflags x OR B_BUSY\<rparr>) (rest s) \<or>
        (\<forall>i. \<not> cached (bcache s) sec i) \<and> \<not> is_busy (bcache s b) \<and> \<not> is_dirty (bcache s b) \<and>
          rest t = upd_buf b (\<lambda>x. x\<lparr>bdev := 1, sector := sec, bflags := B_BUSY\<rparr>) (rest s)"
    using bget_ok[OF assms] by blast
  have fin: "?thesis" if u: "bread 1 sec s = Inr (b, u)" "kheld cfg L u" "rest u = (rest s)\<lparr>bcache := bcache u\<rparr>"
      and tk: "taken (bcache s) (disk s) (disksize s) sec b (bcache u)" for u
  proof -
    have e: "disk u = disk s" "disksize u = disksize s" "writes u = writes s"
      using arg_cong[OF u(3), of disk] arg_cong[OF u(3), of disksize] arg_cong[OF u(3), of writes] by simp_all
    have "rest u = (rest s)\<lparr>bcache := bcache u, disk := disk (rest s), writes := writes (rest s)\<rparr>" using u(3) by simp
    then have "bioframe s u" using e by (simp add: bioframe_def)
    moreover have ou: "cache_ok (bcache u) (disk s) (disksize s)" "hnd (bcache u) sec b"
      "content (bcache u) (disk s) = cview s" using tk by (auto simp: taken_def)
    then have "bdata (bcache u b) = cview s sec" using content_cached[OF ou(1), of sec b] by (simp add: hnd_def)
    ultimately show ?thesis using u tk e ou by (auto simp: bok_def)
  qed
  show ?thesis
  proof (cases "cached (bcache s) sec b")
    case True
    then have r: "rest t = upd_buf b (\<lambda>x. x\<lparr>bflags := bflags x OR B_BUSY\<rparr>) (rest s)" "\<not> is_busy (bcache s b)"
      using c by auto
    have bt: "bcache t = (bcache s)(b := (bcache s b)\<lparr>bflags := bflags (bcache s b) OR B_BUSY\<rparr>)"
      using arg_cong[OF r(1), of bcache] by simp
    have "is_valid (bcache s b)" using ok True by (auto simp: cache_ok_def slot_ok_def cached_def)
    then have "bread 1 sec s = Inr (b, t)" using b(1) by (simp add: bread_def bt)
    moreover have "rest t = (rest s)\<lparr>bcache := bcache t\<rparr>" using r(1) bt by (simp add: upd_buf_bcache)
    ultimately show ?thesis using fin[of t] b(2) take_hit[OF ok True r(2)] bt by simp
  next
    case False
    then have m: "\<forall>i. \<not> cached (bcache s) sec i" "\<not> is_busy (bcache s b)" "\<not> is_dirty (bcache s b)"
      and r: "rest t = upd_buf b (\<lambda>x. x\<lparr>bdev := 1, sector := sec, bflags := B_BUSY\<rparr>) (rest s)" using c by auto
    have bt: "bcache t = (bcache s)(b := (bcache s b)\<lparr>bdev := 1, sector := sec, bflags := B_BUSY\<rparr>)"
      and e: "disk t = disk s" "disksize t = disksize s"
      using arg_cong[OF r, of bcache] arg_cong[OF r, of disk] arg_cong[OF r, of disksize] by simp_all
    let ?u = "upd_buf b (\<lambda>x. x\<lparr>bflags := bflags x OR B_VALID\<rparr>) (upd_buf b (\<lambda>x. x\<lparr>bdata := disk s sec\<rparr>) t)"
    have "iderw b t = Inr ?u" using sec(2) by (simp add: iderw_def bt e)
    then have u: "bread 1 sec s = Inr (b, ?u)" using b(1) by (simp add: bread_def bt)
    have bu: "bcache ?u = (bcache s)(b := (bcache s b)\<lparr>bdev := 1, sector := sec, bflags := B_BUSY OR B_VALID, bdata := disk s sec\<rparr>)"
      by (cases "bcache s b") (simp add: bt)
    have ru: "rest ?u = (rest s)\<lparr>bcache := bcache ?u\<rparr>" using r by (simp add: upd_buf_bcache)
    show ?thesis
      by (rule fin[OF u _ ru]) (use b(2) take_miss[OF ok b(3) m(2,3,1) sec(2)] bu in simp_all)
  qed
qed

lemma bwrite_ok:
  assumes s: "bok cfg L s" and h: "hnd (bcache s) sec b"
  shows "\<exists>t. bwrite b s = Inr t \<and> bok cfg L t \<and> bcache t = stored (bcache s) b \<and>
    disk t = (disk s)(sec := cview s sec) \<and> writes t = writes s @ [(sec, cview s sec)] \<and> bioframe s t"
proof -
  have k: "kheld cfg L s" and ok: "cache_ok (bcache s) (disk s) (disksize s)" using s(1) by (auto simp: bok_def)
  have c: "cached (bcache s) sec b" "is_busy (bcache s b)" using h by (auto simp: hnd_def)
  have v: "cview s sec = bdata (bcache s b)" by (rule content_cached[OF ok c(1)])
  have sl: "sector (bcache s b) = sec" "bdev (bcache s b) = 1" "sec < disksize s"
    using c(1) ok by (auto simp: cached_def cache_ok_def slot_ok_def)
  let ?t = "(upd_buf b (\<lambda>x. x\<lparr>bflags := ((bflags x OR B_DIRTY) AND NOT B_DIRTY) OR B_VALID\<rparr>) s)
     \<lparr>disk := (disk s)(sec := cview s sec), writes := writes s @ [(sec, cview s sec)]\<rparr>"
  have t: "bwrite b s = Inr ?t"
    using c(2) sl by (simp add: bwrite_def iderw_def v Let_def) (cases s, simp add: upd_buf_def)
  moreover have "bcache ?t = stored (bcache s) b" by (simp add: stored_def)
  moreover have "bok cfg L ?t" using k store_ok(1)[OF ok h] by (simp add: bok_def stored_def)
  moreover have "bioframe s ?t" by (simp add: bioframe_def upd_buf_bcache)
  ultimately show ?thesis by (intro exI[of _ ?t]) simp
qed

lemma brelse_ok:
  assumes s: "bok cfg L s" and L: "BcacheLock \<notin> set L" "PtableLock \<notin> set L" "RrqueueLock \<notin> set L"
    and h: "hnd (bcache s) sec b" and cl: "sec \<in> dirties (bcache s) \<or> cview s sec = disk s sec"
  shows "\<exists>t. brelse cfg b s = Inr t \<and> bok cfg L t \<and> released (bcache s) (disk s) (disksize s) sec b (bcache t) \<and>
    disk t = disk s \<and> writes t = writes s \<and> bioframe s t"
proof -
  have k: "kheld cfg L s" and ok: "cache_ok (bcache s) (disk s) (disksize s)" using s(1) by (auto simp: bok_def)
  have c: "b < NBUF" "is_busy (bcache s b)" using h by (auto simp: hnd_def cached_def)
  obtain t where t: "acquire BcacheLock s = Inr t" "kheld cfg (BcacheLock # L) t" "rest t = rest s"
    using kheld_acquire[OF k L(1)] by blast
  have bt: "bcache t = bcache s" "disk t = disk s" "disksize t = disksize s" "writes t = writes s"
    using rest_bioD[OF t(3)] by auto
  have rl: "relinked (bcache s) (bcache (brelse_move b t))"
    using brelse_move_relinked[of t b] c(1) ok bt(1) by (simp add: cache_ok_def)
  let ?u = "upd_buf b (\<lambda>x. x\<lparr>bflags := bflags x AND NOT B_BUSY\<rparr>) (brelse_move b t)"
  have ku: "kheld cfg (BcacheLock # L) ?u" using t(2) by simp
  obtain v where v: "wakeup cfg (Some (ChanBuf b)) ?u = Inr v" "kheld cfg (BcacheLock # L) v" "rest v = rest ?u"
    using kheld_wakeup[OF ku] L by auto
  obtain w where w: "release BcacheLock v = Inr w" "kheld cfg L w" "rest w = rest v" using kheld_release[OF v(2)] by blast
  have run: "brelse cfg b s = Inr w" using c(2) t(1) v(1) w(1) by (simp add: brelse_def Let_def)
  have rw: "rest w = rest ?u" using v(3) w(3) by simp
  have e: "bcache w = bcache ?u" "disk w = disk s" "disksize w = disksize s" "writes w = writes s"
    using rest_bioD[OF rw] bt by auto
  have rel: "released (bcache s) (disk s) (disksize s) sec b (bcache w)"
    using release_ok[OF ok h rl cl] e(1) by simp
  moreover have "bok cfg L w" using w(2) rel e by (simp add: bok_def released_def)
  moreover have "rest w = (rest s)\<lparr>bcache := bcache w\<rparr>" using rw t(3) e(1) by (simp add: upd_buf_bcache)
  then have "rest w = (rest s)\<lparr>bcache := bcache w, disk := disk (rest s), writes := writes (rest s)\<rparr>" by simp
  then have "bioframe s w" using e by (simp add: bioframe_def)
  ultimately show ?thesis using run e by blast
qed

section \<open>The cache after booting\<close>

lemma binit_one_ring:
  assumes "ring NBUF (fwd s) (bwd s) xs" "b \<notin> set xs" "b \<noteq> NBUF"
  shows "ring NBUF (fwd (binit_one b s)) (bwd (binit_one b s)) (b # xs)"
proof -
  have "fwd (binit_one b s) = (fwd s)(b := fwd s NBUF, NBUF := b)"
    "bwd (binit_one b s) = (bwd s)(b := NBUF, fwd s NBUF := b)"
    using assms(3) by (simp_all add: binit_one_def Let_def fwd_def[symmetric] bwd_def[symmetric] del: upd_buf_twice upd_buf_sel)
  then show ?thesis using ring_insert[OF assms(1), of b] assms(2,3) by simp
qed

lemma binit_one_sel: "disk (binit_one b s) = disk s" "disksize (binit_one b s) = disksize s" "writes (binit_one b s) = writes s"
  "bflags (bcache (binit_one b s) i) = bflags (bcache s i)" "kheld cfg L (binit_one b s) = kheld cfg L s"
  "b \<noteq> NBUF \<Longrightarrow> bdev (bcache (binit_one b s) i) = (if i = b then - 1 else bdev (bcache s i))"
  "rest (binit_one b s) = (rest s)\<lparr>bcache := bcache (binit_one b s)\<rparr>"
  by (auto simp: binit_one_def Let_def upd_buf_bcache)

lemma binit_fold:
  assumes "fwd s NBUF = NBUF" "bwd s NBUF = NBUF" "k \<le> NBUF"
  defines "t \<equiv> fold binit_one [0..<k] s"
  shows "ring NBUF (fwd t) (bwd t) (rev [0..<k])" "disk t = disk s" "disksize t = disksize s" "writes t = writes s"
    "bflags (bcache t i) = bflags (bcache s i)" "i < k \<Longrightarrow> bdev (bcache t i) = - 1"
    "kheld cfg L t = kheld cfg L s" "rest t = (rest s)\<lparr>bcache := bcache t\<rparr>"
proof -
  have "ring NBUF (fwd t) (bwd t) (rev [0..<k]) \<and> disk t = disk s \<and> disksize t = disksize s \<and> writes t = writes s \<and>
      (\<forall>i. bflags (bcache t i) = bflags (bcache s i)) \<and> (\<forall>i<k. bdev (bcache t i) = - 1) \<and>
      kheld cfg L t = kheld cfg L s \<and> rest t = (rest s)\<lparr>bcache := bcache t\<rparr>"
    using assms(3) unfolding t_def
  proof (induction k)
    case 0
    then show ?case using assms(1,2) by (simp add: ring_def rest_def)
  next
    case (Suc k)
    let ?u = "fold binit_one [0..<k] s"
    have r: "ring NBUF (fwd ?u) (bwd ?u) (rev [0..<k])" using Suc by simp
    have "ring NBUF (fwd (binit_one k ?u)) (bwd (binit_one k ?u)) (k # rev [0..<k])"
      using Suc.prems by (intro binit_one_ring[OF r]) auto
    then show ?case using Suc binit_one_sel[where b = k and s = ?u] by simp
  qed
  then show "ring NBUF (fwd t) (bwd t) (rev [0..<k])" "disk t = disk s" "disksize t = disksize s" "writes t = writes s"
    "bflags (bcache t i) = bflags (bcache s i)" "i < k \<Longrightarrow> bdev (bcache t i) = - 1"
    "kheld cfg L t = kheld cfg L s" "rest t = (rest s)\<lparr>bcache := bcache t\<rparr>" by auto
qed

lemma blank_cache:
  assumes "ring_ok bc" "\<forall>i<NBUF. bdev (bc i) = - 1 \<and> bflags (bc i) = 0"
  shows "cache_ok bc d n" "busies bc = {}" "dirties bc = {}" "content bc d = d"
proof -
  have c: "\<not> cached bc e i" for e i using assms(2) by (auto simp: cached_def)
  show "cache_ok bc d n" using assms c by (auto simp: cache_ok_def slot_ok_def)
  show "busies bc = {}" "dirties bc = {}" using c by (auto simp: busies_def dirties_def)
  show "content bc d = d" using c by (auto simp: content_uncached)
qed

text \<open>A kernel that has just called \<open>binit\<close> on zeroed memory with the disk \<open>d\<close>.\<close>

lemma binit_blank:
  assumes "\<forall>i<NBUF. bflags (bcache s i) = 0"
  shows "ring_ok (bcache (binit s)) \<and> (\<forall>i<NBUF. bdev (bcache (binit s) i) = - 1 \<and> bflags (bcache (binit s) i) = 0) \<and>
    disk (binit s) = disk s \<and> disksize (binit s) = disksize s \<and> writes (binit s) = writes s"
proof -
  let ?s = "upd_buf NBUF (\<lambda>x. x\<lparr>bnext := NBUF\<rparr>) (upd_buf NBUF (\<lambda>x. x\<lparr>bprev := NBUF\<rparr>) (initlock BcacheLock s))"
  have e: "binit s = fold binit_one [0..<NBUF] ?s" by (simp add: binit_def Let_def)
  have l: "fwd ?s NBUF = NBUF" "bwd ?s NBUF = NBUF" by (simp_all add: fwd_def bwd_def)
  have i: "disk (initlock BcacheLock s) = disk s" "disksize (initlock BcacheLock s) = disksize s"
    "writes (initlock BcacheLock s) = writes s" "bcache (initlock BcacheLock s) = bcache s"
    by (simp_all add: initlock_def set_lock_def)
  note F = binit_fold[OF l order_refl]
  have "ring_ok (bcache (binit s))" unfolding e ring_ok_links using F(1) by (intro exI[of _ "rev [0..<NBUF]"]) auto
  moreover have "bflags (bcache (binit s) i) = 0" if "i < NBUF" for i
    unfolding e F(5) using assms that i by simp
  ultimately show ?thesis using F(2-4,6) i e by simp
qed

end
