(* ===== verification/Xv6_Sectors.thy ===== *)
theory Xv6_Sectors
  imports Xv6_Bio
begin

text \<open>
  The buffer cache as its clients see it: sectors are taken, changed, written and given back. The
  interface is a locale; \<open>bread\<close>, \<open>bwrite\<close> and \<open>brelse\<close> provide it.
\<close>

locale sector_cache =
  fixes rd :: "u32 \<Rightarrow> 's \<Rightarrow> (nat \<times> 's) res"
    and wr :: "nat \<Rightarrow> 's \<Rightarrow> 's res"
    and rl :: "nat \<Rightarrow> 's \<Rightarrow> 's res"
    and put :: "nat \<Rightarrow> block \<Rightarrow> 's \<Rightarrow> 's"
    and get :: "nat \<Rightarrow> 's \<Rightarrow> block"
    and inv :: "'s \<Rightarrow> bool"
    and con :: "'s \<Rightarrow> u32 \<Rightarrow> block"
    and dsk :: "'s \<Rightarrow> u32 \<Rightarrow> block"
    and held :: "'s \<Rightarrow> u32 set"
    and pin :: "'s \<Rightarrow> u32 set"
    and han :: "'s \<Rightarrow> u32 \<Rightarrow> nat \<Rightarrow> bool"
    and lim :: "'s \<Rightarrow> u32"
    and hist :: "'s \<Rightarrow> (u32 \<times> block) list"
    and fr :: "'s \<Rightarrow> 's \<Rightarrow> bool"
    and cap :: nat
  assumes finite_pin: "finite (pin s \<union> held s)"
    and rd_law: "inv s \<Longrightarrow> x \<notin> held s \<Longrightarrow> x < lim s \<Longrightarrow> x \<in> pin s \<or> card (pin s \<union> held s) < cap \<Longrightarrow>
      \<exists>b t. rd x s = Inr (b, t) \<and> inv t \<and> han t x b \<and> con t = con s \<and> dsk t = dsk s \<and>
        held t = insert x (held s) \<and> pin t = pin s \<and> hist t = hist s \<and> fr s t \<and> (\<forall>y c. han s y c \<longrightarrow> han t y c)"
    and get_law: "inv s \<Longrightarrow> han s x b \<Longrightarrow> get b s = con s x"
    and put_law: "inv s \<Longrightarrow> han s x b \<Longrightarrow> inv (put b d s) \<and> con (put b d s) = (con s)(x := d) \<and>
      dsk (put b d s) = dsk s \<and> held (put b d s) = held s \<and> pin (put b d s) = pin s \<and>
      hist (put b d s) = hist s \<and> fr s (put b d s) \<and> (\<forall>y c. han s y c \<longrightarrow> han (put b d s) y c)"
    and wr_law: "inv s \<Longrightarrow> han s x b \<Longrightarrow> \<exists>t. wr b s = Inr t \<and> inv t \<and> con t = con s \<and>
      dsk t = (dsk s)(x := con s x) \<and> held t = held s \<and> pin t = pin s - {x} \<and>
      hist t = hist s @ [(x, con s x)] \<and> fr s t \<and> (\<forall>y c. han s y c \<longrightarrow> han t y c)"
    and rl_law: "inv s \<Longrightarrow> han s x b \<Longrightarrow> x \<in> pin s \<or> con s x = dsk s x \<Longrightarrow>
      \<exists>t. rl b s = Inr t \<and> inv t \<and> con t = con s \<and> dsk t = dsk s \<and> held t = held s - {x} \<and>
        pin t = pin s \<and> hist t = hist s \<and> fr s t \<and> (\<forall>y c. han s y c \<and> y \<noteq> x \<longrightarrow> han t y c)"
    and clean_law: "inv s \<Longrightarrow> x \<notin> held s \<Longrightarrow> x \<notin> pin s \<Longrightarrow> con s x = dsk s x"
    and fr_law: "fr s t \<Longrightarrow> fr t u \<Longrightarrow> fr s u" "fr s t \<Longrightarrow> lim t = lim s"
begin

text \<open>With nothing held, two sectors can be taken one after the other.\<close>

lemma rd_two:
  assumes "inv s" "held s = {}" "x \<noteq> y" "x < lim s" "y < lim s" "card (pin s \<union> {x, y}) \<le> cap"
  shows "\<exists>b c t u. rd x s = Inr (b, t) \<and> fr s t \<and> rd y t = Inr (c, u) \<and> inv u \<and> han u x b \<and> han u y c \<and>
    con u = con s \<and> dsk u = dsk s \<and> held u = {x, y} \<and> pin u = pin s \<and> hist u = hist s \<and> fr s u"
proof -
  have fin: "finite (pin s)" using finite_pin[of s] by simp
  have "x \<in> pin s \<or> card (pin s \<union> held s) < cap"
  proof (cases "x \<in> pin s")
    case False
    have "card (pin s) < card (pin s \<union> {x, y})" by (rule psubset_card_mono) (use fin False in auto)
    then show ?thesis using assms(2,6) by simp
  qed simp
  then obtain b t where t: "rd x s = Inr (b, t)" "inv t" "han t x b" "con t = con s" "dsk t = dsk s"
    "held t = {x}" "pin t = pin s" "hist t = hist s" "fr s t"
    using rd_law[OF assms(1) _ assms(4)] assms(2) by auto
  have "y \<in> pin t \<or> card (pin t \<union> held t) < cap"
  proof (cases "y \<in> pin t")
    case False
    have "card (pin s \<union> {x}) < card (pin s \<union> {x, y})"
      by (rule psubset_card_mono) (use fin False t(7) assms(3) in auto)
    then show ?thesis using assms(6) t(6,7) by simp
  qed simp
  then obtain c u where "rd y t = Inr (c, u)" "inv u" "han u y c" "con u = con t" "dsk u = dsk t"
    "held u = insert y {x}" "pin u = pin t" "hist u = hist t" "fr t u" "\<forall>z d. han t z d \<longrightarrow> han u z d"
    using rd_law[OF t(2), of y] t(6) assms(3,5) fr_law(2)[OF t(9)] by auto
  with t show ?thesis using fr_law(1)[of s t u] by (auto simp: insert_commute)
qed

text \<open>Copying a taken sector over another taken one, to the disk, and giving both back.\<close>

lemma copy_sector:
  assumes "inv s" "held s = {x, y}" "han s x b" "han s y c" "x \<noteq> y" "x \<in> pin s \<or> con s x = dsk s x"
  shows "\<exists>t. bindr (wr c (put c (get b s) s)) (\<lambda>s. bindr (rl b s) (rl c)) = Inr t \<and> inv t \<and> held t = {} \<and>
    con t = (con s)(y := con s x) \<and> dsk t = (dsk s)(y := con s x) \<and> pin t = pin s - {y} \<and>
    hist t = hist s @ [(y, con s x)] \<and> fr s t"
proof -
  let ?p = "put c (get b s) s"
  have g: "get b s = con s x" by (rule get_law[OF assms(1,3)])
  have p: "inv ?p" "con ?p = (con s)(y := con s x)" "dsk ?p = dsk s" "held ?p = held s" "pin ?p = pin s" "hist ?p = hist s"
    "fr s ?p" "han ?p x b" "han ?p y c" using put_law[OF assms(1,4), of "get b s"] assms(3,4) g by auto
  obtain t where t: "wr c ?p = Inr t" "inv t" "con t = con ?p" "dsk t = (dsk s)(y := con s x)" "held t = held s"
    "pin t = pin s - {y}" "hist t = hist s @ [(y, con s x)]" "fr ?p t" "han t x b" "han t y c"
    using wr_law[OF p(1,9)] p by auto
  have "x \<in> pin t \<or> con t x = dsk t x" using assms(5,6) t p by auto
  then obtain u where u: "rl b t = Inr u" "inv u" "con u = con t" "dsk u = dsk t" "held u = held t - {x}" "pin u = pin t"
    "hist u = hist t" "fr t u" "han u y c" using rl_law[OF t(2,9)] t(10) assms(5) by auto
  have "con u y = dsk u y" using u t p by simp
  then obtain v where v: "rl c u = Inr v" "inv v" "con v = con u" "dsk v = dsk u" "held v = held u - {y}" "pin v = pin u"
    "hist v = hist u" "fr u v" using rl_law[OF u(2,9)] by auto
  have "fr s v" using fr_law(1) p(7) t(8) u(8) v(8) by blast
  moreover have "held v = {}" using v u t assms(2) by auto
  ultimately show ?thesis using t u v p by simp
qed

text \<open>Taking one sector, changing it, writing it and giving it back.\<close>

lemma rewrite_sector:
  assumes "inv s" "held s = {}" "x < lim s" "card (pin s \<union> {x}) \<le> cap"
  shows "\<exists>b t. rd x s = Inr (b, t) \<and> fr s t \<and> get b t = con s x \<and> (\<forall>d. \<exists>u. bindr (wr b (put b d t)) (rl b) = Inr u \<and>
    inv u \<and> held u = {} \<and> con u = (con s)(x := d) \<and> dsk u = (dsk s)(x := d) \<and> pin u = pin s - {x} \<and>
    hist u = hist s @ [(x, d)] \<and> fr s u)"
proof -
  have fin: "finite (pin s)" using finite_pin[of s] by simp
  have "x \<in> pin s \<or> card (pin s \<union> held s) < cap"
  proof (cases "x \<in> pin s")
    case False
    have "card (pin s) < card (pin s \<union> {x})" by (rule psubset_card_mono) (use fin False in auto)
    then show ?thesis using assms(2,4) by simp
  qed simp
  then obtain b t where t: "rd x s = Inr (b, t)" "inv t" "han t x b" "con t = con s" "dsk t = dsk s"
    "held t = {x}" "pin t = pin s" "hist t = hist s" "fr s t"
    using rd_law[OF assms(1) _ assms(3)] assms(2) by auto
  have "\<exists>u. bindr (wr b (put b d t)) (rl b) = Inr u \<and> inv u \<and> held u = {} \<and> con u = (con s)(x := d) \<and>
      dsk u = (dsk s)(x := d) \<and> pin u = pin s - {x} \<and> hist u = hist s @ [(x, d)] \<and> fr s u" for d
  proof -
    let ?p = "put b d t"
    have p: "inv ?p" "con ?p = (con s)(x := d)" "dsk ?p = dsk s" "held ?p = {x}" "pin ?p = pin s" "hist ?p = hist s"
      "fr t ?p" "han ?p x b" using put_law[OF t(2,3), of d] t by auto
    obtain u where u: "wr b ?p = Inr u" "inv u" "con u = con ?p" "dsk u = (dsk s)(x := d)" "held u = {x}"
      "pin u = pin s - {x}" "hist u = hist s @ [(x, d)]" "fr ?p u" "han u x b"
      using wr_law[OF p(1,8)] p by auto
    have "con u x = dsk u x" using u p by simp
    then obtain v where "rl b u = Inr v" "inv v" "con v = con u" "dsk v = dsk u" "held v = held u - {x}" "pin v = pin u"
      "hist v = hist u" "fr u v" using rl_law[OF u(2,9)] by auto
    then show ?thesis using u p fr_law(1)[OF t(9) fr_law(1)[OF p(7) fr_law(1)[OF u(8), of v]]] by auto
  qed
  with t get_law[OF t(2,3)] show ?thesis by auto
qed

end

section \<open>bio.c provides it\<close>

definition set_data :: "nat \<Rightarrow> block \<Rightarrow> 'a bcst_scheme \<Rightarrow> 'a bcst_scheme" where
  "set_data b d s = upd_buf b (\<lambda>x. x\<lparr>bdata := d\<rparr>) s"

lemma set_data_ok:
  assumes s: "bok cfg L s" and h: "hnd (bcache s) x b"
  shows "bok cfg L (set_data b d s)" "cview (set_data b d s) = (cview s)(x := d)"
    "busies (bcache (set_data b d s)) = busies (bcache s)" "dirties (bcache (set_data b d s)) = dirties (bcache s)"
    "hnd (bcache (set_data b d s)) = hnd (bcache s)"
proof -
  have k: "kheld cfg L s" and ok: "cache_ok (bcache s) (disk s) (disksize s)" using s(1) by (auto simp: bok_def)
  let ?x = "(bcache s b)\<lparr>bdata := d\<rparr>"
  have c: "cached (bcache s) x b" "is_busy (bcache s b)" using h by (auto simp: hnd_def)
  have p: "same_place ?x (bcache s b)" by (simp add: same_place_def)
  have "slot_ok (disksize s) (disk s) (bcache s b)" using ok c by (auto simp: cache_ok_def cached_def)
  then have sl: "slot_ok (disksize s) (disk s) ?x" using c by (auto simp: slot_ok_def cached_def)
  have e: "bcache (set_data b d s) = (bcache s)(b := ?x)" "disk (set_data b d s) = disk s"
    "disksize (set_data b d s) = disksize s" by (simp_all add: set_data_def)
  show "bok cfg L (set_data b d s)" using k cache_upd[OF ok p sl] e by (simp add: bok_def set_data_def)
  show "cview (set_data b d s) = (cview s)(x := d)" using content_upd[OF ok p sl c(1)] by (simp add: e)
  have m: "x \<in> busies (bcache s)" using c by (auto simp: busies_def)
  show "busies (bcache (set_data b d s)) = busies (bcache s)" using busies_upd(1)[OF ok p c(1)] c(2) m e by auto
  have k: "cached (bcache (set_data b d s)) = cached (bcache s)" unfolding e by (rule cached_upd[of ?x "bcache s" b, OF p])
  show "hnd (bcache (set_data b d s)) = hnd (bcache s)"
    unfolding hnd_def[abs_def] k by (auto simp: e fun_eq_iff)
  show "dirties (bcache (set_data b d s)) = dirties (bcache s)"
    unfolding dirties_def k by (auto simp: e)
qed

lemma bread_law:
  assumes "bok cfg [] s" "x \<notin> busies (bcache s)" "x < disksize s"
    "x \<in> dirties (bcache s) \<or> card (dirties (bcache s) \<union> busies (bcache s)) < NBUF"
  shows "\<exists>b t. bread 1 x s = Inr (b, t) \<and> bok cfg [] t \<and> hnd (bcache t) x b \<and> cview t = cview s \<and> disk t = disk s \<and>
    busies (bcache t) = insert x (busies (bcache s)) \<and> dirties (bcache t) = dirties (bcache s) \<and> writes t = writes s \<and>
    bioframe s t \<and> (\<forall>y c. hnd (bcache s) y c \<longrightarrow> hnd (bcache t) y c)"
proof -
  from bread_ok[OF assms(1) _ assms(2-4)] obtain b t where
    t: "bread 1 x s = Inr (b, t)" "bok cfg [] t" "taken (bcache s) (disk s) (disksize s) x b (bcache t)"
      "disk t = disk s" "writes t = writes s" "bioframe s t" by auto
  then show ?thesis by (intro exI[of _ b] exI[of _ t]) (simp add: taken_def)
qed

lemma bwrite_law:
  assumes "bok cfg [] s" "hnd (bcache s) x b"
  shows "\<exists>t. bwrite b s = Inr t \<and> bok cfg [] t \<and> cview t = cview s \<and> disk t = (disk s)(x := cview s x) \<and>
    busies (bcache t) = busies (bcache s) \<and> dirties (bcache t) = dirties (bcache s) - {x} \<and>
    writes t = writes s @ [(x, cview s x)] \<and> bioframe s t \<and> (\<forall>y c. hnd (bcache s) y c \<longrightarrow> hnd (bcache t) y c)"
proof -
  have ok: "cache_ok (bcache s) (disk s) (disksize s)" using assms(1) by (simp add: bok_def)
  note S = store_ok[OF ok assms(2)]
  from bwrite_ok[OF assms] obtain t where t: "bwrite b s = Inr t" "bok cfg [] t" "bcache t = stored (bcache s) b"
    "disk t = (disk s)(x := cview s x)" "writes t = writes s @ [(x, cview s x)]" "bioframe s t" by blast
  show ?thesis by (intro exI[of _ t] conjI) (use t S in simp_all)
qed

lemma brelse_law:
  assumes "bok cfg [] s" "hnd (bcache s) x b" "x \<in> dirties (bcache s) \<or> cview s x = disk s x"
  shows "\<exists>t. brelse cfg b s = Inr t \<and> bok cfg [] t \<and> cview t = cview s \<and> disk t = disk s \<and>
    busies (bcache t) = busies (bcache s) - {x} \<and> dirties (bcache t) = dirties (bcache s) \<and> writes t = writes s \<and>
    bioframe s t \<and> (\<forall>y c. hnd (bcache s) y c \<and> y \<noteq> x \<longrightarrow> hnd (bcache t) y c)"
proof -
  from brelse_ok[OF assms(1) _ _ _ assms(2,3)] obtain t where
    t: "brelse cfg b s = Inr t" "bok cfg [] t" "released (bcache s) (disk s) (disksize s) x b (bcache t)"
      "disk t = disk s" "writes t = writes s" "bioframe s t" by auto
  have "hnd (bcache t) y c" if "hnd (bcache s) y c" "y \<noteq> x" for y c
  proof -
    have "c \<noteq> b" using that assms(2) by (auto simp: hnd_def cached_def)
    then show ?thesis using t(3) that(1) by (simp add: released_def)
  qed
  with t show ?thesis by (intro exI[of _ t]) (simp add: released_def)
qed

lemma sectors_finite: "finite (dirties bc \<union> busies bc)"
proof -
  have "dirties bc \<union> busies bc \<subseteq> (\<lambda>i. sector (bc i)) ` {..<NBUF}"
    by (auto simp: dirties_def busies_def cached_def)
  then show ?thesis by (rule finite_subset) simp
qed

lemma get_data_law: "bok cfg [] s \<Longrightarrow> hnd (bcache s) x b \<Longrightarrow> bdata (bcache s b) = cview s x"
  using content_cached[of "bcache s" "disk s" "disksize s" x b] by (simp add: bok_def hnd_def)

lemma set_data_law:
  assumes "bok cfg [] s" "hnd (bcache s) x b"
  shows "bok cfg [] (set_data b d s) \<and> cview (set_data b d s) = (cview s)(x := d) \<and>
    disk (set_data b d s) = disk s \<and> busies (bcache (set_data b d s)) = busies (bcache s) \<and>
    dirties (bcache (set_data b d s)) = dirties (bcache s) \<and> writes (set_data b d s) = writes s \<and>
    bioframe s (set_data b d s) \<and> (\<forall>y c. hnd (bcache s) y c \<longrightarrow> hnd (bcache (set_data b d s)) y c)"
  using set_data_ok[OF assms] by (simp add: set_data_def bioframe_def upd_buf_bcache)

lemma clean_sector_law: "bok cfg [] s \<Longrightarrow> x \<notin> busies (bcache s) \<Longrightarrow> x \<notin> dirties (bcache s) \<Longrightarrow> cview s x = disk s x"
  using content_clean[of "bcache s" "disk s" "disksize s" x] by (simp add: bok_def)

definition contents :: "'a bcst_scheme \<Rightarrow> u32 \<Rightarrow> block" where
  "contents s = cview s"

interpretation bio: sector_cache "bread 1" bwrite "brelse cfg" set_data "\<lambda>b s. bdata (bcache s b)" "bok cfg []" contents disk
  "\<lambda>s. busies (bcache s)" "\<lambda>s. dirties (bcache s)" "\<lambda>s. hnd (bcache s)" disksize writes bioframe NBUF
proof
  fix s t u :: "'a bcst_scheme" and x b d
  show "finite (dirties (bcache s) \<union> busies (bcache s))" by (rule sectors_finite)
  show "bioframe s t \<Longrightarrow> bioframe t u \<Longrightarrow> bioframe s u" by (rule bioframe_trans)
  show "bioframe s t \<Longrightarrow> disksize t = disksize s" by (simp add: bioframe_sel)
qed ((unfold contents_def)?, fact bread_law get_data_law set_data_law bwrite_law brelse_law clean_sector_law)+

end
