(* ===== verification/Xv6_Log.thy ===== *)
theory Xv6_Log
  imports Xv6_Sectors
begin

unbundle bit_operations_syntax

text \<open>
  The write-ahead log of log.c, with \<open>readsb\<close> of fs.c, over the buffer cache. The header of the log is
  kept in memory in \<open>lh_n\<close> and \<open>lh_sector\<close> and in the first block of the log on the disk; \<open>commit\<close> and
  \<open>recover_from_log\<close> are translated whole, one \<open>bread\<close>, \<open>bwrite\<close> and \<open>brelse\<close> at a time, so that every
  write to the disk is a point where the machine may stop.
\<close>

section \<open>Words in blocks\<close>

definition bload32 :: "block \<Rightarrow> nat \<Rightarrow> u32" where
  "bload32 d a = ucast (d (of_nat a)) OR push_bit 8 (ucast (d (of_nat a + 1)))
     OR push_bit 16 (ucast (d (of_nat a + 2))) OR push_bit 24 (ucast (d (of_nat a + 3)))"

definition bstore32 :: "block \<Rightarrow> nat \<Rightarrow> u32 \<Rightarrow> block" where
  "bstore32 d a v = d(of_nat a := ucast v, of_nat a + 1 := ucast (drop_bit 8 v),
     of_nat a + 2 := ucast (drop_bit 16 v), of_nat a + 3 := ucast (drop_bit 24 v))"

section \<open>The state\<close>

definition MAXOPBLOCKS :: nat where "MAXOPBLOCKS = 10"
definition LOGSIZE :: nat where "LOGSIZE = MAXOPBLOCKS * 3"
definition ROOTDEV :: u32 where "ROOTDEV = 1"
definition BSIZE :: nat where "BSIZE = 512"

record logst = bcst +
  lg_start :: u32                    \<comment> \<open>\<open>log.start\<close>\<close>
  lg_size :: u32                     \<comment> \<open>\<open>log.size\<close>\<close>
  outstanding :: int
  committing :: bool
  lg_dev :: u32                      \<comment> \<open>\<open>log.dev\<close>\<close>
  lh_n :: u32                        \<comment> \<open>\<open>log.lh.n\<close>\<close>
  lh_sector :: "nat \<Rightarrow> u32"          \<comment> \<open>\<open>log.lh.sector\<close>\<close>

record superblock =
  sb_size :: u32
  sb_nblocks :: u32
  sb_ninodes :: u32
  sb_nlog :: u32

section \<open>Routines\<close>

definition readsb :: "schedflag \<Rightarrow> u32 \<Rightarrow> 'a bcst_scheme \<Rightarrow> (superblock \<times> 'a bcst_scheme) res" where
  "readsb cfg dev s =
     bindr (bread dev 1 s) (\<lambda>(bp, s).
     let d = bdata (bcache s bp);
         sb = \<lparr>sb_size = bload32 d 0, sb_nblocks = bload32 d 4, sb_ninodes = bload32 d 8, sb_nlog = bload32 d 12\<rparr>
     in bindr (brelse cfg bp s) (\<lambda>s. Inr (sb, s)))"

definition install_one :: "schedflag \<Rightarrow> nat \<Rightarrow> 'a logst_scheme \<Rightarrow> 'a logst_scheme res" where
  "install_one cfg tail s =
     bindr (bread (lg_dev s) (lg_start s + of_nat tail + 1) s) (\<lambda>(lbuf, s).
     bindr (bread (lg_dev s) (lh_sector s tail) s) (\<lambda>(dbuf, s).
     bindr (bwrite dbuf (set_data dbuf (bdata (bcache s lbuf)) s)) (\<lambda>s.
     bindr (brelse cfg lbuf s) (brelse cfg dbuf))))"

definition install_trans :: "schedflag \<Rightarrow> 'a logst_scheme \<Rightarrow> 'a logst_scheme res" where
  "install_trans cfg s = forr 0 (nat (sint (lh_n s))) (install_one cfg) s"

text \<open>\<open>read_head\<close> copies as many sector numbers as the header on the disk says; more than \<open>LOGSIZE\<close> would
  run over the end of the array.\<close>

definition read_head :: "schedflag \<Rightarrow> 'a logst_scheme \<Rightarrow> 'a logst_scheme res" where
  "read_head cfg s =
     bindr (bread (lg_dev s) (lg_start s) s) (\<lambda>(buf, s).
     let d = bdata (bcache s buf); n = bload32 d 0
     in if sint n > int LOGSIZE then Inl (Undef ''overrun'')
        else brelse cfg buf (s\<lparr>lh_n := n,
          lh_sector := (\<lambda>i. if i < nat (sint n) then bload32 d (4 + 4 * i) else lh_sector s i)\<rparr>))"

definition head_block :: "u32 \<Rightarrow> (nat \<Rightarrow> u32) \<Rightarrow> block \<Rightarrow> block" where
  "head_block n sec d = fold (\<lambda>i d. bstore32 d (4 + 4 * i) (sec i)) [0..<nat (sint n)] (bstore32 d 0 n)"

definition write_head :: "schedflag \<Rightarrow> 'a logst_scheme \<Rightarrow> 'a logst_scheme res" where
  "write_head cfg s =
     bindr (bread (lg_dev s) (lg_start s) s) (\<lambda>(buf, s).
     bindr (bwrite buf (set_data buf (head_block (lh_n s) (lh_sector s) (bdata (bcache s buf))) s)) (brelse cfg buf))"

definition recover_from_log :: "schedflag \<Rightarrow> 'a logst_scheme \<Rightarrow> 'a logst_scheme res" where
  "recover_from_log cfg s =
     bindr (read_head cfg s) (\<lambda>s.
     bindr (install_trans cfg s) (\<lambda>s. write_head cfg (s\<lparr>lh_n := 0\<rparr>)))"

definition initlog :: "schedflag \<Rightarrow> 'a logst_scheme \<Rightarrow> 'a logst_scheme res" where
  "initlog cfg s =
     bindr (readsb cfg ROOTDEV (initlock LogLock s)) (\<lambda>(sb, s).
     recover_from_log cfg (s\<lparr>lg_start := sb_size sb - sb_nlog sb, lg_size := sb_nlog sb, lg_dev := ROOTDEV\<rparr>))"

definition begin_op :: "'a logst_scheme \<Rightarrow> 'a logst_scheme res" where
  "begin_op s =
     bindr (acquire LogLock s) (\<lambda>s.
     if committing s then Inl (Blocked ''log'')
     else if sint (lh_n s) + (outstanding s + 1) * int MAXOPBLOCKS > int LOGSIZE then Inl (Blocked ''log'')
     else release LogLock (s\<lparr>outstanding := outstanding s + 1\<rparr>))"

definition write_log_one :: "schedflag \<Rightarrow> nat \<Rightarrow> 'a logst_scheme \<Rightarrow> 'a logst_scheme res" where
  "write_log_one cfg tail s =
     bindr (bread (lg_dev s) (lg_start s + of_nat tail + 1) s) (\<lambda>(tob, s).
     bindr (bread (lg_dev s) (lh_sector s tail) s) (\<lambda>(fromb, s).
     bindr (bwrite tob (set_data tob (bdata (bcache s fromb)) s)) (\<lambda>s.
     bindr (brelse cfg fromb s) (brelse cfg tob))))"

definition write_log :: "schedflag \<Rightarrow> 'a logst_scheme \<Rightarrow> 'a logst_scheme res" where
  "write_log cfg s = forr 0 (nat (sint (lh_n s))) (write_log_one cfg) s"

definition commit :: "schedflag \<Rightarrow> 'a logst_scheme \<Rightarrow> 'a logst_scheme res" where
  "commit cfg s =
     (if sint (lh_n s) > 0 then
        bindr (write_log cfg s) (\<lambda>s.
        bindr (write_head cfg s) (\<lambda>s.
        bindr (install_trans cfg s) (\<lambda>s. write_head cfg (s\<lparr>lh_n := 0\<rparr>))))
      else Inr s)"

definition end_op :: "schedflag \<Rightarrow> 'a logst_scheme \<Rightarrow> 'a logst_scheme res" where
  "end_op cfg s =
     bindr (acquire LogLock s) (\<lambda>s.
     let s = s\<lparr>outstanding := outstanding s - 1\<rparr>
     in if committing s then Inl (Panic ''log.committing'')
        else if outstanding s = 0 then
          bindr (release LogLock (s\<lparr>committing := True\<rparr>)) (\<lambda>s.
          bindr (commit cfg s) (\<lambda>s.
          bindr (acquire LogLock s) (\<lambda>s.
          bindr (wakeup cfg (Some ChanLog) (s\<lparr>committing := False\<rparr>)) (release LogLock))))
        else bindr (wakeup cfg (Some ChanLog) s) (release LogLock))"

definition log_write :: "nat \<Rightarrow> 'a logst_scheme \<Rightarrow> 'a logst_scheme res" where
  "log_write b s =
     (if sint (lh_n s) \<ge> int LOGSIZE \<or> sint (lh_n s) \<ge> sint (lg_size s) - 1 then Inl (Panic ''too big a transaction'')
      else if outstanding s < 1 then Inl (Panic ''log_write outside of trans'')
      else bindr (acquire LogLock s) (\<lambda>s.
        let sec = sector (bcache s b); n = nat (sint (lh_n s));
            i = (case scan (\<lambda>i. lh_sector s i = sec) n of Some i \<Rightarrow> i | None \<Rightarrow> n);
            s = s\<lparr>lh_sector := (lh_sector s)(i := sec)\<rparr>;
            s = (if int i = sint (lh_n s) then s\<lparr>lh_n := lh_n s + 1\<rparr> else s);
            s = upd_buf b (\<lambda>x. x\<lparr>bflags := bflags x OR B_DIRTY\<rparr>) s
        in release LogLock s))"

end
