(* ===== verification/Xv6_Fs.thy ===== *)
theory Xv6_Fs
  imports Xv6_Log Xv6_Strings
begin

unbundle bit_operations_syntax

text \<open>
  fs.c: the block allocator, inodes in memory and on the disk, their contents, directories and path
  names. A pointer to an in-memory inode is its slot in \<open>icache\<close>. A routine that fills a buffer of its
  caller returns the bytes; a routine that reads one takes the function from offsets to bytes, which
  may fault. The device switch \<open>devsw\<close> is a table of functions, argument \<open>dv\<close> of the routines that
  look into it. A process that would sleep on a busy inode stops as \<open>Blocked\<close>.
\<close>

section \<open>Layout\<close>

definition ROOTINO :: u32 where "ROOTINO = 1"
definition NDIRECT :: nat where "NDIRECT = 12"
definition NINDIRECT :: nat where "NINDIRECT = BSIZE div 4"
definition MAXFILE :: nat where "MAXFILE = NDIRECT + NINDIRECT"
definition IPB :: nat where "IPB = BSIZE div 64"
definition BPB :: nat where "BPB = BSIZE * 8"
definition DIRSIZ :: nat where "DIRSIZ = 14"
definition NINODE :: nat where "NINODE = 50"
definition NDEV :: nat where "NDEV = 10"
definition I_BUSY :: u32 where "I_BUSY = 1"
definition I_VALID :: u32 where "I_VALID = 2"
definition T_DIR :: u16 where "T_DIR = 1"
definition T_FILE :: u16 where "T_FILE = 2"
definition T_DEV :: u16 where "T_DEV = 3"

definition IBLOCK :: "u32 \<Rightarrow> u32" where
  "IBLOCK i = i div of_nat IPB + 2"

definition BBLOCK :: "u32 \<Rightarrow> u32 \<Rightarrow> u32" where
  "BBLOCK b ninodes = b div of_nat BPB + ninodes div of_nat IPB + 3"

definition bload16 :: "block \<Rightarrow> nat \<Rightarrow> u16" where
  "bload16 d a = ucast (d (of_nat a)) OR push_bit 8 (ucast (d (of_nat a + 1)))"

definition bstore16 :: "block \<Rightarrow> nat \<Rightarrow> u16 \<Rightarrow> block" where
  "bstore16 d a v = d(of_nat a := ucast v, of_nat a + 1 := ucast (drop_bit 8 v))"

text \<open>\<open>memmove\<close> out of a block and into a block.\<close>

definition bslice :: "block \<Rightarrow> nat \<Rightarrow> nat \<Rightarrow> u8 list" where
  "bslice d a m = map (\<lambda>i. d (of_nat (a + i))) [0..<m]"

definition bput :: "block \<Rightarrow> nat \<Rightarrow> u8 list \<Rightarrow> block" where
  "bput d a xs = (\<lambda>i. if a \<le> unat i \<and> unat i < a + length xs then xs ! (unat i - a) else d i)"

record inode =
  idev :: u32                        \<comment> \<open>\<open>dev\<close>\<close>
  inum :: u32
  iref :: int                        \<comment> \<open>\<open>ref\<close>\<close>
  iflags :: u32                      \<comment> \<open>\<open>flags\<close>\<close>
  itype :: u16                       \<comment> \<open>\<open>type\<close>\<close>
  major :: u16
  minor :: u16
  nlink :: u16
  isize :: u32                       \<comment> \<open>\<open>size\<close>\<close>
  addrs :: "nat \<Rightarrow> u32"

text \<open>The inode on the disk: \<open>type\<close>, \<open>major\<close>, \<open>minor\<close>, \<open>nlink\<close>, \<open>size\<close> and thirteen block numbers, 64 bytes.\<close>

definition dinode_off :: "u32 \<Rightarrow> nat" where
  "dinode_off i = 64 * (unat i mod IPB)"

definition load_dinode :: "block \<Rightarrow> nat \<Rightarrow> inode \<Rightarrow> inode" where
  "load_dinode d o1 ip = ip\<lparr>itype := bload16 d o1, major := bload16 d (o1 + 2), minor := bload16 d (o1 + 4),
     nlink := bload16 d (o1 + 6), isize := bload32 d (o1 + 8),
     addrs := (\<lambda>i. if i \<le> NDIRECT then bload32 d (o1 + 12 + 4 * i) else addrs ip i)\<rparr>"

definition store_dinode :: "block \<Rightarrow> nat \<Rightarrow> inode \<Rightarrow> block" where
  "store_dinode d o1 ip =
     (let d = bstore16 d o1 (itype ip); d = bstore16 d (o1 + 2) (major ip); d = bstore16 d (o1 + 4) (minor ip);
          d = bstore16 d (o1 + 6) (nlink ip); d = bstore32 d (o1 + 8) (isize ip)
      in fold (\<lambda>i d. bstore32 d (o1 + 12 + 4 * i) (addrs ip i)) [0..<NDIRECT + 1] d)"

record icst = logst +
  icache :: "nat \<Rightarrow> inode"

definition upd_ino :: "nat \<Rightarrow> (inode \<Rightarrow> inode) \<Rightarrow> 'a icst_scheme \<Rightarrow> 'a icst_scheme" where
  "upd_ino ip f s = s\<lparr>icache := (icache s)(ip := f (icache s ip))\<rparr>"

definition iflag :: "'a icst_scheme \<Rightarrow> nat \<Rightarrow> u32 \<Rightarrow> bool" where
  "iflag s ip m \<longleftrightarrow> iflags (icache s ip) AND m \<noteq> 0"

text \<open>The device switch: what \<open>devsw[major].read\<close> and \<open>.write\<close> are, if set.\<close>

record 's devfns =
  dev_read :: "(nat \<Rightarrow> u32 \<Rightarrow> 's \<Rightarrow> (int \<times> u8 list \<times> 's) res) option"
  dev_write :: "(nat \<Rightarrow> (nat \<Rightarrow> u8 res) \<Rightarrow> u32 \<Rightarrow> 's \<Rightarrow> (int \<times> 's) res) option"

section \<open>Blocks\<close>

definition bzero :: "schedflag \<Rightarrow> u32 \<Rightarrow> u32 \<Rightarrow> 'a logst_scheme \<Rightarrow> 'a logst_scheme res" where
  "bzero cfg dev bno s =
     bindr (bread dev bno s) (\<lambda>(bp, s).
     bindr (log_write bp (set_data bp (\<lambda>_. 0) s)) (brelse cfg bp))"

text \<open>The bit of block \<open>b\<close> in its bitmap block.\<close>

definition bm_bit :: "block \<Rightarrow> nat \<Rightarrow> u8" where
  "bm_bit d bi = d (of_nat (bi div 8)) AND push_bit (bi mod 8) 1"

function balloc_from :: "schedflag \<Rightarrow> u32 \<Rightarrow> superblock \<Rightarrow> nat \<Rightarrow> 'a logst_scheme \<Rightarrow> (u32 \<times> 'a logst_scheme) res" where
  "balloc_from cfg dev sb b s =
     (if b < unat (sb_size sb) then
        bindr (bread dev (BBLOCK (of_nat b) (sb_ninodes sb)) s) (\<lambda>(bp, s).
        let d = bdata (bcache s bp)
        in case scan (\<lambda>bi. bm_bit d bi = 0) (min BPB (unat (sb_size sb) - b)) of
             Some bi \<Rightarrow>
               let d' = d(of_nat (bi div 8) := d (of_nat (bi div 8)) OR push_bit (bi mod 8) 1)
               in bindr (log_write bp (set_data bp d' s)) (\<lambda>s.
                  bindr (brelse cfg bp s) (\<lambda>s.
                  bindr (bzero cfg dev (of_nat (b + bi)) s) (\<lambda>s. Inr (of_nat (b + bi), s))))
           | None \<Rightarrow> bindr (brelse cfg bp s) (\<lambda>s. balloc_from cfg dev sb (b + BPB) s))
      else Inl (Panic ''balloc: out of blocks''))"
  by pat_completeness auto
termination
  by (relation "measure (\<lambda>(cfg, dev, sb, b, s). unat (sb_size sb) - b)") (auto simp: BPB_def BSIZE_def)

definition balloc :: "schedflag \<Rightarrow> u32 \<Rightarrow> 'a logst_scheme \<Rightarrow> (u32 \<times> 'a logst_scheme) res" where
  "balloc cfg dev s = bindr (readsb cfg dev s) (\<lambda>(sb, s). balloc_from cfg dev sb 0 s)"

definition bfree :: "schedflag \<Rightarrow> u32 \<Rightarrow> u32 \<Rightarrow> 'a logst_scheme \<Rightarrow> 'a logst_scheme res" where
  "bfree cfg dev b s =
     bindr (readsb cfg dev s) (\<lambda>(sb, s).
     bindr (bread dev (BBLOCK b (sb_ninodes sb)) s) (\<lambda>(bp, s).
     let bi = unat b mod BPB; d = bdata (bcache s bp)
     in if bm_bit d bi = 0 then Inl (Panic ''freeing free block'')
        else let d' = d(of_nat (bi div 8) := d (of_nat (bi div 8)) AND NOT (push_bit (bi mod 8) 1))
             in bindr (log_write bp (set_data bp d' s)) (brelse cfg bp)))"

section \<open>Inodes\<close>

definition iinit :: "'a icst_scheme \<Rightarrow> 'a icst_scheme" where
  "iinit s = initlock IcacheLock s"

definition iget :: "u32 \<Rightarrow> u32 \<Rightarrow> 'a icst_scheme \<Rightarrow> (nat \<times> 'a icst_scheme) res" where
  "iget dev i s =
     bindr (acquire IcacheLock s) (\<lambda>s.
     case scan (\<lambda>k. iref (icache s k) > 0 \<and> idev (icache s k) = dev \<and> inum (icache s k) = i) NINODE of
       Some ip \<Rightarrow>
         bindr (release IcacheLock (upd_ino ip (\<lambda>x. x\<lparr>iref := iref x + 1\<rparr>) s)) (\<lambda>s. Inr (ip, s))
     | None \<Rightarrow>
         case scan (\<lambda>k. iref (icache s k) = 0) NINODE of
           None \<Rightarrow> Inl (Panic ''iget: no inodes'')
         | Some ip \<Rightarrow>
             bindr (release IcacheLock (upd_ino ip (\<lambda>x. x\<lparr>idev := dev, inum := i, iref := 1, iflags := 0\<rparr>) s)) (\<lambda>s.
             Inr (ip, s)))"

function ialloc_from :: "schedflag \<Rightarrow> u32 \<Rightarrow> u16 \<Rightarrow> superblock \<Rightarrow> nat \<Rightarrow> 'a icst_scheme \<Rightarrow> (nat \<times> 'a icst_scheme) res" where
  "ialloc_from cfg dev ty sb i s =
     (if i < unat (sb_ninodes sb) then
        bindr (bread dev (IBLOCK (of_nat i)) s) (\<lambda>(bp, s).
        let d = bdata (bcache s bp); o1 = dinode_off (of_nat i)
        in if bload16 d o1 = 0 then
             bindr (log_write bp (set_data bp (bstore16 (bput d o1 (replicate 64 0)) o1 ty) s)) (\<lambda>s.
             bindr (brelse cfg bp s) (\<lambda>s. iget dev (of_nat i) s))
           else bindr (brelse cfg bp s) (\<lambda>s. ialloc_from cfg dev ty sb (Suc i) s))
      else Inl (Panic ''ialloc: no inodes''))"
  by pat_completeness auto
termination
  by (relation "measure (\<lambda>(cfg, dev, ty, sb, i, s). unat (sb_ninodes sb) - i)") auto

definition ialloc :: "schedflag \<Rightarrow> u32 \<Rightarrow> u16 \<Rightarrow> 'a icst_scheme \<Rightarrow> (nat \<times> 'a icst_scheme) res" where
  "ialloc cfg dev ty s = bindr (readsb cfg dev s) (\<lambda>(sb, s). ialloc_from cfg dev ty sb 1 s)"

definition iupdate :: "schedflag \<Rightarrow> nat \<Rightarrow> 'a icst_scheme \<Rightarrow> 'a icst_scheme res" where
  "iupdate cfg ip s =
     bindr (bread (idev (icache s ip)) (IBLOCK (inum (icache s ip))) s) (\<lambda>(bp, s).
     let d = store_dinode (bdata (bcache s bp)) (dinode_off (inum (icache s ip))) (icache s ip)
     in bindr (log_write bp (set_data bp d s)) (brelse cfg bp))"

definition idup :: "nat \<Rightarrow> 'a icst_scheme \<Rightarrow> (nat \<times> 'a icst_scheme) res" where
  "idup ip s =
     bindr (acquire IcacheLock s) (\<lambda>s.
     bindr (release IcacheLock (upd_ino ip (\<lambda>x. x\<lparr>iref := iref x + 1\<rparr>) s)) (\<lambda>s. Inr (ip, s)))"

definition ilock :: "schedflag \<Rightarrow> nat \<Rightarrow> 'a icst_scheme \<Rightarrow> 'a icst_scheme res" where
  "ilock cfg ip s =
     (if iref (icache s ip) < 1 then Inl (Panic ''ilock'')
      else bindr (acquire IcacheLock s) (\<lambda>s.
        if iflag s ip I_BUSY then Inl (Blocked ''ilock'')
        else bindr (release IcacheLock (upd_ino ip (\<lambda>x. x\<lparr>iflags := iflags x OR I_BUSY\<rparr>) s)) (\<lambda>s.
          if \<not> iflag s ip I_VALID then
            bindr (bread (idev (icache s ip)) (IBLOCK (inum (icache s ip))) s) (\<lambda>(bp, s).
            let s = upd_ino ip (load_dinode (bdata (bcache s bp)) (dinode_off (inum (icache s ip)))) s
            in bindr (brelse cfg bp s) (\<lambda>s.
               let s = upd_ino ip (\<lambda>x. x\<lparr>iflags := iflags x OR I_VALID\<rparr>) s
               in if itype (icache s ip) = 0 then Inl (Panic ''ilock: no type'') else Inr s))
          else Inr s)))"

definition iunlock :: "schedflag \<Rightarrow> nat \<Rightarrow> 'a icst_scheme \<Rightarrow> 'a icst_scheme res" where
  "iunlock cfg ip s =
     (if \<not> iflag s ip I_BUSY \<or> iref (icache s ip) < 1 then Inl (Panic ''iunlock'')
      else bindr (acquire IcacheLock s) (\<lambda>s.
        bindr (wakeup cfg (Some (ChanInode ip)) (upd_ino ip (\<lambda>x. x\<lparr>iflags := iflags x AND NOT I_BUSY\<rparr>) s))
          (release IcacheLock)))"

definition itrunc_one :: "schedflag \<Rightarrow> nat \<Rightarrow> nat \<Rightarrow> 'a icst_scheme \<Rightarrow> 'a icst_scheme res" where
  "itrunc_one cfg ip i s =
     (if addrs (icache s ip) i \<noteq> 0 then
        bindr (bfree cfg (idev (icache s ip)) (addrs (icache s ip) i) s) (\<lambda>s.
        Inr (upd_ino ip (\<lambda>x. x\<lparr>addrs := (addrs x)(i := 0)\<rparr>) s))
      else Inr s)"

definition itrunc_ind :: "schedflag \<Rightarrow> nat \<Rightarrow> 'a icst_scheme \<Rightarrow> 'a icst_scheme res" where
  "itrunc_ind cfg ip s =
     (if addrs (icache s ip) NDIRECT \<noteq> 0 then
        bindr (bread (idev (icache s ip)) (addrs (icache s ip) NDIRECT) s) (\<lambda>(bp, s).
        bindr (forr 0 NINDIRECT (\<lambda>j s.
            let a = bload32 (bdata (bcache s bp)) (4 * j)
            in if a \<noteq> 0 then bfree cfg (idev (icache s ip)) a s else Inr s) s) (\<lambda>s.
        bindr (brelse cfg bp s) (\<lambda>s.
        bindr (bfree cfg (idev (icache s ip)) (addrs (icache s ip) NDIRECT) s) (\<lambda>s.
        Inr (upd_ino ip (\<lambda>x. x\<lparr>addrs := (addrs x)(NDIRECT := 0)\<rparr>) s)))))
      else Inr s)"

definition itrunc :: "schedflag \<Rightarrow> nat \<Rightarrow> 'a icst_scheme \<Rightarrow> 'a icst_scheme res" where
  "itrunc cfg ip s =
     bindr (forr 0 NDIRECT (itrunc_one cfg ip) s) (\<lambda>s.
     bindr (itrunc_ind cfg ip s) (\<lambda>s.
     iupdate cfg ip (upd_ino ip (\<lambda>x. x\<lparr>isize := 0\<rparr>) s)))"

definition iput :: "schedflag \<Rightarrow> nat \<Rightarrow> 'a icst_scheme \<Rightarrow> 'a icst_scheme res" where
  "iput cfg ip s =
     bindr (acquire IcacheLock s) (\<lambda>s.
     bindr (if iref (icache s ip) = 1 \<and> iflag s ip I_VALID \<and> nlink (icache s ip) = 0 then
              if iflag s ip I_BUSY then Inl (Panic ''iput busy'')
              else bindr (release IcacheLock (upd_ino ip (\<lambda>x. x\<lparr>iflags := iflags x OR I_BUSY\<rparr>) s)) (\<lambda>s.
                bindr (itrunc cfg ip s) (\<lambda>s.
                bindr (iupdate cfg ip (upd_ino ip (\<lambda>x. x\<lparr>itype := 0\<rparr>) s)) (\<lambda>s.
                bindr (acquire IcacheLock s) (\<lambda>s.
                wakeup cfg (Some (ChanInode ip)) (upd_ino ip (\<lambda>x. x\<lparr>iflags := 0\<rparr>) s)))))
            else Inr s) (\<lambda>s.
     release IcacheLock (upd_ino ip (\<lambda>x. x\<lparr>iref := iref x - 1\<rparr>) s)))"

definition iunlockput :: "schedflag \<Rightarrow> nat \<Rightarrow> 'a icst_scheme \<Rightarrow> 'a icst_scheme res" where
  "iunlockput cfg ip s = bindr (iunlock cfg ip s) (iput cfg ip)"

section \<open>Contents\<close>

definition bmap :: "schedflag \<Rightarrow> nat \<Rightarrow> u32 \<Rightarrow> 'a icst_scheme \<Rightarrow> (u32 \<times> 'a icst_scheme) res" where
  "bmap cfg ip bn s =
     (if unat bn < NDIRECT then
        let addr = addrs (icache s ip) (unat bn)
        in if addr = 0 then
             bindr (balloc cfg (idev (icache s ip)) s) (\<lambda>(addr, s).
             Inr (addr, upd_ino ip (\<lambda>x. x\<lparr>addrs := (addrs x)(unat bn := addr)\<rparr>) s))
           else Inr (addr, s)
      else let bn = unat bn - NDIRECT
        in if bn < NINDIRECT then
             bindr (if addrs (icache s ip) NDIRECT = 0 then
                      bindr (balloc cfg (idev (icache s ip)) s) (\<lambda>(addr, s).
                      Inr (addr, upd_ino ip (\<lambda>x. x\<lparr>addrs := (addrs x)(NDIRECT := addr)\<rparr>) s))
                    else Inr (addrs (icache s ip) NDIRECT, s)) (\<lambda>(addr, s).
             bindr (bread (idev (icache s ip)) addr s) (\<lambda>(bp, s).
             let addr = bload32 (bdata (bcache s bp)) (4 * bn)
             in bindr (if addr = 0 then
                         bindr (balloc cfg (idev (icache s ip)) s) (\<lambda>(addr, s).
                         bindr (log_write bp (set_data bp (bstore32 (bdata (bcache s bp)) (4 * bn) addr) s)) (\<lambda>s.
                         Inr (addr, s)))
                       else Inr (addr, s)) (\<lambda>(addr, s).
                bindr (brelse cfg bp s) (\<lambda>s. Inr (addr, s)))))
           else Inl (Panic ''bmap: out of range''))"

record stat =
  st_type :: u16
  st_dev :: u32
  st_ino :: u32
  st_nlink :: u16
  st_size :: u32

definition stati :: "nat \<Rightarrow> 'a icst_scheme \<Rightarrow> stat" where
  "stati ip s = (let i = icache s ip in
     \<lparr>st_type = itype i, st_dev = idev i, st_ino = inum i, st_nlink = nlink i, st_size = isize i\<rparr>)"

function readi_from :: "schedflag \<Rightarrow> nat \<Rightarrow> nat \<Rightarrow> nat \<Rightarrow> u32 \<Rightarrow> u8 list \<Rightarrow> 'a icst_scheme \<Rightarrow> (u8 list \<times> 'a icst_scheme) res" where
  "readi_from cfg ip n tot off dst s =
     (if tot < n then
        bindr (bmap cfg ip (off div of_nat BSIZE) s) (\<lambda>(addr, s).
        bindr (bread (idev (icache s ip)) addr s) (\<lambda>(bp, s).
        let m = min (n - tot) (BSIZE - unat off mod BSIZE);
            dst = dst @ bslice (bdata (bcache s bp)) (unat off mod BSIZE) m
        in bindr (brelse cfg bp s) (\<lambda>s. readi_from cfg ip n (tot + m) (off + of_nat m) dst s)))
      else Inr (dst, s))"
  by pat_completeness auto
termination
  by (relation "measure (\<lambda>(cfg, ip, n, tot, off, dst, s). n - tot)") (auto simp: BSIZE_def)

definition readi :: "(nat \<Rightarrow> 'a icst_scheme devfns) \<Rightarrow> schedflag \<Rightarrow> nat \<Rightarrow> u32 \<Rightarrow> u32 \<Rightarrow> 'a icst_scheme \<Rightarrow>
    (int \<times> u8 list \<times> 'a icst_scheme) res" where
  "readi dv cfg ip off n s =
     (let i = icache s ip
      in if itype i = T_DEV then
           if sint (major i) < 0 \<or> sint (major i) \<ge> int NDEV then Inr (-1, [], s)
           else case dev_read (dv (unat (major i))) of
                  None \<Rightarrow> Inr (-1, [], s)
                | Some f \<Rightarrow> f ip n s
         else if off > isize i \<or> off + n < off then Inr (-1, [], s)
         else let n = (if off + n > isize i then isize i - off else n)
              in bindr (readi_from cfg ip (unat n) 0 off [] s) (\<lambda>(dst, s). Inr (sint n, dst, s)))"

fun mapr :: "('a \<Rightarrow> 'b res) \<Rightarrow> 'a list \<Rightarrow> 'b list res" where
  "mapr f [] = Inr []"
| "mapr f (x # xs) = bindr (f x) (\<lambda>y. bindr (mapr f xs) (\<lambda>ys. Inr (y # ys)))"

function writei_from :: "schedflag \<Rightarrow> nat \<Rightarrow> (nat \<Rightarrow> u8 res) \<Rightarrow> nat \<Rightarrow> nat \<Rightarrow> u32 \<Rightarrow> 'a icst_scheme \<Rightarrow> (u32 \<times> 'a icst_scheme) res" where
  "writei_from cfg ip src n tot off s =
     (if tot < n then
        bindr (bmap cfg ip (off div of_nat BSIZE) s) (\<lambda>(addr, s).
        bindr (bread (idev (icache s ip)) addr s) (\<lambda>(bp, s).
        let m = min (n - tot) (BSIZE - unat off mod BSIZE)
        in bindr (mapr src [tot..<tot + m]) (\<lambda>xs.
           bindr (log_write bp (set_data bp (bput (bdata (bcache s bp)) (unat off mod BSIZE) xs) s)) (\<lambda>s.
           bindr (brelse cfg bp s) (\<lambda>s. writei_from cfg ip src n (tot + m) (off + of_nat m) s)))))
      else Inr (off, s))"
  by pat_completeness auto
termination
  by (relation "measure (\<lambda>(cfg, ip, src, n, tot, off, s). n - tot)") (auto simp: BSIZE_def)

definition writei :: "(nat \<Rightarrow> 'a icst_scheme devfns) \<Rightarrow> schedflag \<Rightarrow> nat \<Rightarrow> (nat \<Rightarrow> u8 res) \<Rightarrow> u32 \<Rightarrow> u32 \<Rightarrow> 'a icst_scheme \<Rightarrow>
    (int \<times> 'a icst_scheme) res" where
  "writei dv cfg ip src off n s =
     (let i = icache s ip
      in if itype i = T_DEV then
           if sint (major i) < 0 \<or> sint (major i) \<ge> int NDEV then Inr (-1, s)
           else case dev_write (dv (unat (major i))) of
                  None \<Rightarrow> Inr (-1, s)
                | Some f \<Rightarrow> f ip src n s
         else if off > isize i \<or> off + n < off then Inr (-1, s)
         else if off + n > of_nat (MAXFILE * BSIZE) then Inr (-1, s)
         else bindr (writei_from cfg ip src (unat n) 0 off s) (\<lambda>(off, s).
              bindr (if n > 0 \<and> off > isize (icache s ip) then
                       iupdate cfg ip (upd_ino ip (\<lambda>x. x\<lparr>isize := off\<rparr>) s)
                     else Inr s) (\<lambda>s. Inr (sint n, s))))"

section \<open>Directories\<close>

text \<open>A directory entry is an inode number of two bytes and a name of fourteen.\<close>

definition de_inum :: "u8 list \<Rightarrow> u16" where
  "de_inum de = ucast (list_view de 0) OR push_bit 8 (ucast (list_view de 1))"

definition de_name :: "u8 list \<Rightarrow> view" where
  "de_name de = list_view (drop 2 de)"

definition namecmp :: "view \<Rightarrow> view \<Rightarrow> int" where
  "namecmp p q = strncmp p q DIRSIZ"

function dirlookup_from :: "(nat \<Rightarrow> 'a icst_scheme devfns) \<Rightarrow> schedflag \<Rightarrow> nat \<Rightarrow> u8 list \<Rightarrow> nat \<Rightarrow> nat \<Rightarrow> 'a icst_scheme \<Rightarrow>
    ((nat \<times> u32) option \<times> 'a icst_scheme) res" where
  "dirlookup_from dv cfg dp name dsize off s =
     (if off < dsize then
        bindr (readi dv cfg dp (of_nat off) 16 s) (\<lambda>(r, de, s).
        if r \<noteq> 16 then Inl (Panic ''dirlink read'')
        else if de_inum de = 0 \<or> namecmp (list_view name) (de_name de) \<noteq> 0 then
          dirlookup_from dv cfg dp name dsize (off + 16) s
        else bindr (iget (idev (icache s dp)) (ucast (de_inum de)) s) (\<lambda>(ip, s). Inr (Some (ip, of_nat off), s)))
      else Inr (None, s))"
  by pat_completeness auto
termination
  by (relation "measure (\<lambda>(dv, cfg, dp, name, dsize, off, s). dsize - off)") auto

definition dirlookup :: "(nat \<Rightarrow> 'a icst_scheme devfns) \<Rightarrow> schedflag \<Rightarrow> nat \<Rightarrow> u8 list \<Rightarrow> 'a icst_scheme \<Rightarrow>
    ((nat \<times> u32) option \<times> 'a icst_scheme) res" where
  "dirlookup dv cfg dp name s =
     (if itype (icache s dp) \<noteq> T_DIR then Inl (Panic ''dirlookup not DIR'')
      else dirlookup_from dv cfg dp name (unat (isize (icache s dp))) 0 s)"

function dirlink_slot :: "(nat \<Rightarrow> 'a icst_scheme devfns) \<Rightarrow> schedflag \<Rightarrow> nat \<Rightarrow> nat \<Rightarrow> nat \<Rightarrow> 'a icst_scheme \<Rightarrow>
    (nat \<times> 'a icst_scheme) res" where
  "dirlink_slot dv cfg dp dsize off s =
     (if off < dsize then
        bindr (readi dv cfg dp (of_nat off) 16 s) (\<lambda>(r, de, s).
        if r \<noteq> 16 then Inl (Panic ''dirlink read'')
        else if de_inum de = 0 then Inr (off, s)
        else dirlink_slot dv cfg dp dsize (off + 16) s)
      else Inr (off, s))"
  by pat_completeness auto
termination
  by (relation "measure (\<lambda>(dv, cfg, dp, dsize, off, s). dsize - off)") auto

definition make_dirent :: "u32 \<Rightarrow> u8 list \<Rightarrow> u8 list" where
  "make_dirent i name = [ucast i, ucast (drop_bit 8 i)] @ strncpy_bytes (list_view name) DIRSIZ"

definition dirlink :: "(nat \<Rightarrow> 'a icst_scheme devfns) \<Rightarrow> schedflag \<Rightarrow> nat \<Rightarrow> u8 list \<Rightarrow> u32 \<Rightarrow> 'a icst_scheme \<Rightarrow>
    (int \<times> 'a icst_scheme) res" where
  "dirlink dv cfg dp name i s =
     bindr (dirlookup dv cfg dp name s) (\<lambda>(r, s).
     case r of
       Some (ip, off) \<Rightarrow> bindr (iput cfg ip s) (\<lambda>s. Inr (-1, s))
     | None \<Rightarrow>
         bindr (dirlink_slot dv cfg dp (unat (isize (icache s dp))) 0 s) (\<lambda>(off, s).
         bindr (writei dv cfg dp (\<lambda>k. Inr (list_view (make_dirent i name) k)) (of_nat off) 16 s) (\<lambda>(r, s).
         if r \<noteq> 16 then Inl (Panic ''dirlink'') else Inr (0, s))))"

section \<open>Paths\<close>

text \<open>A path is the list of its bytes before the NUL. \<open>skipelem\<close> returns the rest of the path and the
  bytes it puts into \<open>name\<close>, at most \<open>DIRSIZ\<close> of them, with a NUL when there is room for one.\<close>

definition slash :: u8 where "slash = 47"

definition skipelem :: "u8 list \<Rightarrow> (u8 list \<times> u8 list) option" where
  "skipelem path =
     (let path = dropWhile (\<lambda>c. c = slash) path
      in if path = [] then None
         else let e = takeWhile (\<lambda>c. c \<noteq> slash) path;
                  path = dropWhile (\<lambda>c. c \<noteq> slash) path;
                  name = (if length e \<ge> DIRSIZ then take DIRSIZ e else e @ [0])
              in Some (dropWhile (\<lambda>c. c = slash) path, name))"

lemma skipelem_shorter: "skipelem path = Some (rst, name) \<Longrightarrow> length rst < length path"
proof -
  assume a: "skipelem path = Some (rst, name)"
  let ?p = "dropWhile (\<lambda>c. c = slash) path"
  from a have ne: "?p \<noteq> []" and r: "rst = dropWhile (\<lambda>c. c = slash) (dropWhile (\<lambda>c. c \<noteq> slash) ?p)"
    by (auto simp: skipelem_def Let_def split: if_splits)
  from ne have "hd ?p \<noteq> slash" by (rule hd_dropWhile)
  with ne have "length (dropWhile (\<lambda>c. c \<noteq> slash) ?p) < length ?p"
    by (cases ?p) (auto simp: length_dropWhile_le le_imp_less_Suc)
  moreover have "length rst \<le> length (dropWhile (\<lambda>c. c \<noteq> slash) ?p)" unfolding r by (rule length_dropWhile_le)
  moreover have "length ?p \<le> length path" by (rule length_dropWhile_le)
  ultimately show ?thesis by linarith
qed

function namex_from :: "(nat \<Rightarrow> 'a icst_scheme devfns) \<Rightarrow> schedflag \<Rightarrow> bool \<Rightarrow> nat \<Rightarrow> u8 list \<Rightarrow> u8 list \<Rightarrow> 'a icst_scheme \<Rightarrow>
    ((nat \<times> u8 list) option \<times> 'a icst_scheme) res" where
  "namex_from dv cfg npar ip path name s =
     (case skipelem path of
        None \<Rightarrow> if npar then bindr (iput cfg ip s) (\<lambda>s. Inr (None, s)) else Inr (Some (ip, name), s)
      | Some (path', name) \<Rightarrow>
          bindr (ilock cfg ip s) (\<lambda>s.
          if itype (icache s ip) \<noteq> T_DIR then bindr (iunlockput cfg ip s) (\<lambda>s. Inr (None, s))
          else if npar \<and> path' = [] then bindr (iunlock cfg ip s) (\<lambda>s. Inr (Some (ip, name), s))
          else bindr (dirlookup dv cfg ip name s) (\<lambda>(r, s).
            bindr (iunlockput cfg ip s) (\<lambda>s.
            case r of None \<Rightarrow> Inr (None, s)
            | Some (nxt, off) \<Rightarrow> namex_from dv cfg npar nxt path' name s))))"
  by pat_completeness auto
termination
  by (relation "measure (\<lambda>(dv, cfg, npar, ip, path, name, s). length path)") (auto dest: skipelem_shorter)

definition namex :: "(nat \<Rightarrow> 'a icst_scheme devfns) \<Rightarrow> schedflag \<Rightarrow> u8 list \<Rightarrow> bool \<Rightarrow> 'a icst_scheme \<Rightarrow>
    ((nat \<times> u8 list) option \<times> 'a icst_scheme) res" where
  "namex dv cfg path npar s =
     bindr (if list_view path 0 = slash then iget ROOTDEV ROOTINO s
            else bindr (theproc s) (\<lambda>me.
              case cwd (ptable s me) of None \<Rightarrow> Inl (Undef ''null'') | Some c \<Rightarrow> idup c s)) (\<lambda>(ip, s).
     namex_from dv cfg npar ip path [] s)"

definition namei :: "(nat \<Rightarrow> 'a icst_scheme devfns) \<Rightarrow> schedflag \<Rightarrow> u8 list \<Rightarrow> 'a icst_scheme \<Rightarrow> (nat option \<times> 'a icst_scheme) res" where
  "namei dv cfg path s = bindr (namex dv cfg path False s) (\<lambda>(r, s). Inr (map_option fst r, s))"

definition nameiparent :: "(nat \<Rightarrow> 'a icst_scheme devfns) \<Rightarrow> schedflag \<Rightarrow> u8 list \<Rightarrow> 'a icst_scheme \<Rightarrow>
    ((nat \<times> u8 list) option \<times> 'a icst_scheme) res" where
  "nameiparent dv cfg path s = namex dv cfg path True s"

end
