(* ===== verification/Xv6_File.thy ===== *)
theory Xv6_File
  imports Xv6_Fs
begin

unbundle bit_operations_syntax

text \<open>
  Open files (file.c) and pipes (pipe.c). A \<open>struct file\<close> is a slot of \<open>ftable\<close>; a pipe is known by the
  address of the page it lives in. A process that has to wait in \<open>pipewrite\<close> or \<open>piperead\<close> goes to sleep:
  the routine then ends in \<open>Sleeping\<close> with what its continuation needs, and the continuation is a
  definition of its own.
\<close>

section \<open>State\<close>

definition NFILE :: nat where "NFILE = 100"
definition PIPESIZE :: nat where "PIPESIZE = 512"

datatype fdtype = FD_NONE | FD_PIPE | FD_INODE

record xfile =
  ftype :: fdtype                    \<comment> \<open>\<open>type\<close>\<close>
  fref :: int                        \<comment> \<open>\<open>ref\<close>\<close>
  readable :: bool
  writable :: bool
  fpipe :: u32                       \<comment> \<open>\<open>pipe\<close>\<close>
  fip :: nat                         \<comment> \<open>\<open>ip\<close>\<close>
  foff :: u32                        \<comment> \<open>\<open>off\<close>\<close>

record pipe =
  pdata :: "9 word \<Rightarrow> u8"            \<comment> \<open>\<open>data\<close>\<close>
  nread :: u32
  nwrite :: u32
  readopen :: bool
  writeopen :: bool

record ftst = icst +
  ftable :: "nat \<Rightarrow> xfile"
  pipes :: "u32 \<Rightarrow> pipe"

definition upd_file :: "nat \<Rightarrow> (xfile \<Rightarrow> xfile) \<Rightarrow> 'a ftst_scheme \<Rightarrow> 'a ftst_scheme" where
  "upd_file f g s = s\<lparr>ftable := (ftable s)(f := g (ftable s f))\<rparr>"

definition upd_pipe :: "u32 \<Rightarrow> (pipe \<Rightarrow> pipe) \<Rightarrow> 'a ftst_scheme \<Rightarrow> 'a ftst_scheme" where
  "upd_pipe p g s = s\<lparr>pipes := (pipes s)(p := g (pipes s p))\<rparr>"

text \<open>Storing bytes through a pointer of the current process.\<close>

fun ustore_bytes :: "u32 \<Rightarrow> u32 \<Rightarrow> u8 list \<Rightarrow> 'a memst_scheme \<Rightarrow> 'a memst_scheme res" where
  "ustore_bytes pg va [] s = Inr s"
| "ustore_bytes pg va (x # xs) s = bindr (ustore8 pg va x s) (ustore_bytes pg (va + 1) xs)"

definition mypgdir :: "'a procst_scheme \<Rightarrow> u32 res" where
  "mypgdir s = bindr (theproc s) (\<lambda>me. Inr (pgdir (ptable s me)))"

section \<open>Pipes\<close>

datatype pipe_end = Finished int | Sleeping nat bool

definition put_byte :: "u8 \<Rightarrow> pipe \<Rightarrow> pipe" where
  "put_byte b q = q\<lparr>pdata := (pdata q)(ucast (nwrite q) := b), nwrite := nwrite q + 1\<rparr>"

definition get_byte :: "pipe \<Rightarrow> u8" where
  "get_byte q = pdata q (ucast (nread q))"

definition pop_byte :: "pipe \<Rightarrow> pipe" where
  "pop_byte q = q\<lparr>nread := nread q + 1\<rparr>"

function pipewrite_from :: "schedflag \<Rightarrow> u32 \<Rightarrow> (nat \<Rightarrow> u8 res) \<Rightarrow> nat \<Rightarrow> nat \<Rightarrow> 'a ftst_scheme \<Rightarrow> (pipe_end \<times> 'a ftst_scheme) res" where
  "pipewrite_from cfg p src n i s =
     (if i < n then
        if nwrite (pipes s p) = nread (pipes s p) + of_nat PIPESIZE then
          bindr (theproc s) (\<lambda>me.
          if \<not> readopen (pipes s p) \<or> killed (ptable s me) then
            bindr (release (PipeLock p) s) (\<lambda>s. Inr (Finished (-1), s))
          else bindr (wakeup cfg (Some (ChanNread p)) s) (\<lambda>s.
               bindr (sleep (ChanNwrite p) (Some (PipeLock p)) s) (\<lambda>(e, s). Inr (Sleeping i e, s))))
        else bindr (src i) (\<lambda>b. pipewrite_from cfg p src n (Suc i) (upd_pipe p (put_byte b) s))
      else bindr (wakeup cfg (Some (ChanNread p)) s) (\<lambda>s.
           bindr (release (PipeLock p) s) (\<lambda>s. Inr (Finished (int n), s))))"
  by pat_completeness auto
termination
  by (relation "measure (\<lambda>(cfg, p, src, n, i, s). n - i)") auto

definition pipewrite :: "schedflag \<Rightarrow> u32 \<Rightarrow> (nat \<Rightarrow> u8 res) \<Rightarrow> int \<Rightarrow> 'a ftst_scheme \<Rightarrow> (pipe_end \<times> 'a ftst_scheme) res" where
  "pipewrite cfg p src n s = bindr (acquire (PipeLock p) s) (\<lambda>s.
     bindr (pipewrite_from cfg p src (nat n) 0 s) (\<lambda>(r, s).
     Inr (if n < 0 then Finished n else r, s)))"

definition pipewrite_resume :: "schedflag \<Rightarrow> u32 \<Rightarrow> (nat \<Rightarrow> u8 res) \<Rightarrow> int \<Rightarrow> nat \<Rightarrow> bool \<Rightarrow> 'a ftst_scheme \<Rightarrow> (pipe_end \<times> 'a ftst_scheme) res" where
  "pipewrite_resume cfg p src n i e s =
     bindr (sleep_resume (PipeLock p) e s) (pipewrite_from cfg p src (nat n) i)"

function piperead_copy :: "u32 \<Rightarrow> nat \<Rightarrow> nat \<Rightarrow> u8 list \<Rightarrow> 'a ftst_scheme \<Rightarrow> u8 list \<times> 'a ftst_scheme" where
  "piperead_copy p n i dst s =
     (if i < n \<and> nread (pipes s p) \<noteq> nwrite (pipes s p) then
        piperead_copy p n (Suc i) (dst @ [get_byte (pipes s p)]) (upd_pipe p pop_byte s)
      else (dst, s))"
  by pat_completeness auto
termination
  by (relation "measure (\<lambda>(p, n, i, dst, s). n - i)") auto

definition piperead_go :: "schedflag \<Rightarrow> u32 \<Rightarrow> int \<Rightarrow> 'a ftst_scheme \<Rightarrow> (pipe_end \<times> u8 list \<times> 'a ftst_scheme) res" where
  "piperead_go cfg p n s =
     (if nread (pipes s p) = nwrite (pipes s p) \<and> writeopen (pipes s p) then
        bindr (theproc s) (\<lambda>me.
        if killed (ptable s me) then bindr (release (PipeLock p) s) (\<lambda>s. Inr (Finished (-1), [], s))
        else bindr (sleep (ChanNread p) (Some (PipeLock p)) s) (\<lambda>(e, s). Inr (Sleeping 0 e, [], s)))
      else case piperead_copy p (nat n) 0 [] s of (dst, s) \<Rightarrow>
        bindr (wakeup cfg (Some (ChanNwrite p)) s) (\<lambda>s.
        bindr (release (PipeLock p) s) (\<lambda>s. Inr (Finished (int (length dst)), dst, s))))"

definition piperead :: "schedflag \<Rightarrow> u32 \<Rightarrow> int \<Rightarrow> 'a ftst_scheme \<Rightarrow> (pipe_end \<times> u8 list \<times> 'a ftst_scheme) res" where
  "piperead cfg p n s = bindr (acquire (PipeLock p) s) (piperead_go cfg p n)"

definition piperead_resume :: "schedflag \<Rightarrow> u32 \<Rightarrow> int \<Rightarrow> bool \<Rightarrow> 'a ftst_scheme \<Rightarrow> (pipe_end \<times> u8 list \<times> 'a ftst_scheme) res" where
  "piperead_resume cfg p n e s = bindr (sleep_resume (PipeLock p) e s) (piperead_go cfg p n)"

definition pipeclose :: "schedflag \<Rightarrow> link \<Rightarrow> u32 \<Rightarrow> bool \<Rightarrow> 'a ftst_scheme \<Rightarrow> 'a ftst_scheme res" where
  "pipeclose cfg lk p wr s =
     bindr (acquire (PipeLock p) s) (\<lambda>s.
     bindr (if wr then wakeup cfg (Some (ChanNread p)) (upd_pipe p (\<lambda>q. q\<lparr>writeopen := False\<rparr>) s)
            else wakeup cfg (Some (ChanNwrite p)) (upd_pipe p (\<lambda>q. q\<lparr>readopen := False\<rparr>) s)) (\<lambda>s.
     if \<not> readopen (pipes s p) \<and> \<not> writeopen (pipes s p) then
       bindr (release (PipeLock p) s) (kfree (l_end lk) p)
     else release (PipeLock p) s))"

section \<open>Files\<close>

definition fileinit :: "'a ftst_scheme \<Rightarrow> 'a ftst_scheme" where
  "fileinit s = initlock FtableLock s"

definition filealloc :: "'a ftst_scheme \<Rightarrow> (nat option \<times> 'a ftst_scheme) res" where
  "filealloc s =
     bindr (acquire FtableLock s) (\<lambda>s.
     case scan (\<lambda>f. fref (ftable s f) = 0) NFILE of
       Some f \<Rightarrow> bindr (release FtableLock (upd_file f (\<lambda>x. x\<lparr>fref := 1\<rparr>) s)) (\<lambda>s. Inr (Some f, s))
     | None \<Rightarrow> bindr (release FtableLock s) (\<lambda>s. Inr (None, s)))"

definition filedup :: "nat \<Rightarrow> 'a ftst_scheme \<Rightarrow> (nat \<times> 'a ftst_scheme) res" where
  "filedup f s =
     bindr (acquire FtableLock s) (\<lambda>s.
     if fref (ftable s f) < 1 then Inl (Panic ''filedup'')
     else bindr (release FtableLock (upd_file f (\<lambda>x. x\<lparr>fref := fref x + 1\<rparr>) s)) (\<lambda>s. Inr (f, s)))"

definition fileclose :: "schedflag \<Rightarrow> link \<Rightarrow> nat \<Rightarrow> 'a ftst_scheme \<Rightarrow> 'a ftst_scheme res" where
  "fileclose cfg lk f s =
     bindr (acquire FtableLock s) (\<lambda>s.
     if fref (ftable s f) < 1 then Inl (Panic ''fileclose'')
     else let s = upd_file f (\<lambda>x. x\<lparr>fref := fref x - 1\<rparr>) s
       in if fref (ftable s f) > 0 then release FtableLock s
          else let ff = ftable s f
            in bindr (release FtableLock (upd_file f (\<lambda>x. x\<lparr>fref := 0, ftype := FD_NONE\<rparr>) s)) (\<lambda>s.
               if ftype ff = FD_PIPE then pipeclose cfg lk (fpipe ff) (writable ff) s
               else if ftype ff = FD_INODE then
                 bindr (begin_op s) (\<lambda>s. bindr (iput cfg (fip ff) s) (end_op cfg))
               else Inr s))"

definition filestat :: "schedflag \<Rightarrow> nat \<Rightarrow> 'a ftst_scheme \<Rightarrow> (int \<times> stat option \<times> 'a ftst_scheme) res" where
  "filestat cfg f s =
     (if ftype (ftable s f) = FD_INODE then
        let ip = fip (ftable s f)
        in bindr (ilock cfg ip s) (\<lambda>s.
           let st = stati ip s
           in bindr (iunlock cfg ip s) (\<lambda>s. Inr (0, Some st, s)))
      else Inr (-1, None, s))"

text \<open>A read or a write that has to wait for the other end of a pipe stops here; its continuation is
  that of the pipe.\<close>

definition fileread :: "(nat \<Rightarrow> 'a ftst_scheme devfns) \<Rightarrow> schedflag \<Rightarrow> nat \<Rightarrow> u32 \<Rightarrow> u32 \<Rightarrow> 'a ftst_scheme \<Rightarrow> (int \<times> 'a ftst_scheme) res" where
  "fileread dv cfg f addr n s =
     (if \<not> readable (ftable s f) then Inr (-1, s)
      else if ftype (ftable s f) = FD_PIPE then
        bindr (piperead cfg (fpipe (ftable s f)) (sint n) s) (\<lambda>(r, dst, s).
        case r of
          Sleeping i e \<Rightarrow> Inl (Blocked ''piperead'')
        | Finished k \<Rightarrow> bindr (mypgdir s) (\<lambda>pg. bindr (ustore_bytes pg addr dst s) (\<lambda>s. Inr (k, s))))
      else if ftype (ftable s f) = FD_INODE then
        let ip = fip (ftable s f)
        in bindr (ilock cfg ip s) (\<lambda>s.
           bindr (readi dv cfg ip (foff (ftable s f)) n s) (\<lambda>(r, dst, s).
           bindr (mypgdir s) (\<lambda>pg.
           bindr (ustore_bytes pg addr dst s) (\<lambda>s.
           let s = (if r > 0 then upd_file f (\<lambda>x. x\<lparr>foff := foff x + of_int r\<rparr>) s else s)
           in bindr (iunlock cfg ip s) (\<lambda>s. Inr (r, s))))))
      else Inl (Panic ''fileread''))"

definition write_max :: nat where
  "write_max = ((LOGSIZE - 1 - 1 - 2) div 2) * 512"

function filewrite_from :: "(nat \<Rightarrow> 'a ftst_scheme devfns) \<Rightarrow> schedflag \<Rightarrow> nat \<Rightarrow> (nat \<Rightarrow> u8 res) \<Rightarrow> nat \<Rightarrow> nat \<Rightarrow> 'a ftst_scheme \<Rightarrow>
    (nat \<times> 'a ftst_scheme) res" where
  "filewrite_from dv cfg f src n i s =
     (if i < n then
        let n1 = min (n - i) write_max; ip = fip (ftable s f)
        in bindr (begin_op s) (\<lambda>s.
           bindr (ilock cfg ip s) (\<lambda>s.
           bindr (writei dv cfg ip (\<lambda>k. src (i + k)) (foff (ftable s f)) (of_nat n1) s) (\<lambda>(r, s).
           let s = (if r > 0 then upd_file f (\<lambda>x. x\<lparr>foff := foff x + of_int r\<rparr>) s else s)
           in bindr (iunlock cfg ip s) (\<lambda>s.
              bindr (end_op cfg s) (\<lambda>s.
              if r < 0 then Inr (i, s)
              else if r \<noteq> int n1 then Inl (Panic ''short filewrite'')
              else filewrite_from dv cfg f src n (i + n1) s)))))
      else Inr (i, s))"
  by pat_completeness auto
termination
  by (relation "measure (\<lambda>(dv, cfg, f, src, n, i, s). n - i)") (auto simp: write_max_def LOGSIZE_def MAXOPBLOCKS_def)

definition filewrite :: "(nat \<Rightarrow> 'a ftst_scheme devfns) \<Rightarrow> schedflag \<Rightarrow> nat \<Rightarrow> u32 \<Rightarrow> u32 \<Rightarrow> 'a ftst_scheme \<Rightarrow> (int \<times> 'a ftst_scheme) res" where
  "filewrite dv cfg f addr n s =
     (if \<not> writable (ftable s f) then Inr (-1, s)
      else bindr (mypgdir s) (\<lambda>pg.
        let src = (\<lambda>i. uload8 pg (addr + of_nat i) s)
        in if ftype (ftable s f) = FD_PIPE then
             bindr (pipewrite cfg (fpipe (ftable s f)) src (sint n) s) (\<lambda>(r, s).
             case r of Sleeping i e \<Rightarrow> Inl (Blocked ''pipewrite'') | Finished k \<Rightarrow> Inr (k, s))
           else if ftype (ftable s f) = FD_INODE then
             bindr (filewrite_from dv cfg f src (nat (sint n)) 0 s) (\<lambda>(i, s).
             Inr (if int i = sint n then sint n else -1, s))
           else Inl (Panic ''filewrite'')))"

text \<open>\<open>pipealloc\<close>: two files and a page, all or nothing.\<close>

definition pipe_bad :: "schedflag \<Rightarrow> link \<Rightarrow> nat option \<Rightarrow> nat option \<Rightarrow> 'a ftst_scheme \<Rightarrow> ((nat \<times> nat) option \<times> 'a ftst_scheme) res" where
  "pipe_bad cfg lk f0 f1 s =
     bindr (case f0 of None \<Rightarrow> Inr s | Some f \<Rightarrow> fileclose cfg lk f s) (\<lambda>s.
     bindr (case f1 of None \<Rightarrow> Inr s | Some f \<Rightarrow> fileclose cfg lk f s) (\<lambda>s. Inr (None, s)))"

definition pipealloc :: "schedflag \<Rightarrow> link \<Rightarrow> 'a ftst_scheme \<Rightarrow> ((nat \<times> nat) option \<times> 'a ftst_scheme) res" where
  "pipealloc cfg lk s =
     bindr (filealloc s) (\<lambda>(f0, s).
     case f0 of None \<Rightarrow> pipe_bad cfg lk None None s
     | Some r \<Rightarrow>
       bindr (filealloc s) (\<lambda>(f1, s).
       case f1 of None \<Rightarrow> pipe_bad cfg lk (Some r) None s
       | Some w \<Rightarrow>
         bindr (kalloc s) (\<lambda>(p, s).
         if p = 0 then pipe_bad cfg lk (Some r) (Some w) s
         else let s = upd_pipe p (\<lambda>q. q\<lparr>readopen := True, writeopen := True, nwrite := 0, nread := 0\<rparr>) s;
                  s = initlock (PipeLock p) s;
                  s = upd_file r (\<lambda>f. f\<lparr>ftype := FD_PIPE, readable := True, writable := False, fpipe := p\<rparr>) s;
                  s = upd_file w (\<lambda>f. f\<lparr>ftype := FD_PIPE, readable := False, writable := True, fpipe := p\<rparr>) s
              in Inr (Some (r, w), s))))"

end
