(* ===== verification/Xv6_Kbd.thy ===== *)
theory Xv6_Kbd
  imports Xv6_Prelude
begin

unbundle bit_operations_syntax

text \<open>
  The keyboard driver's tables and its translation of scan codes (kbd.h, kbd.c). The controller is a
  queue of bytes: its status has the \<open>KBS_DIB\<close> bit exactly when the queue is not empty.
\<close>

section \<open>Tables\<close>

definition SHIFT :: u32 where "SHIFT = 1"
definition CTL :: u32 where "CTL = 2"
definition ALT :: u32 where "ALT = 4"
definition CAPSLOCK :: u32 where "CAPSLOCK = 8"
definition NUMLOCK :: u32 where "NUMLOCK = 16"
definition SCROLLLOCK :: u32 where "SCROLLLOCK = 32"
definition E0ESC :: u32 where "E0ESC = 64"

text \<open>A table of 256 bytes: the entries from 0 on, some later entries by index, 0 elsewhere.\<close>

definition table256 :: "u8 list \<Rightarrow> (nat \<times> u8) list \<Rightarrow> u32 \<Rightarrow> u8" where
  "table256 xs kvs d =
     (if unat d < length xs then xs ! unat d
      else case map_of kvs (unat d) of Some v \<Rightarrow> v | None \<Rightarrow> 0)"

definition shiftcode :: "u32 \<Rightarrow> u8" where
  "shiftcode = table256 [] [(0x1D, 2), (0x2A, 1), (0x36, 1), (0x38, 4), (0x9D, 2), (0xB8, 4)]"

definition togglecode :: "u32 \<Rightarrow> u8" where
  "togglecode = table256 [] [(0x3A, 8), (0x45, 16), (0x46, 32)]"

definition normalmap :: "u32 \<Rightarrow> u8" where
  "normalmap = table256
     [0, 27, 49, 50, 51, 52, 53, 54, 55, 56, 57, 48, 45, 61, 8, 9,
      113, 119, 101, 114, 116, 121, 117, 105, 111, 112, 91, 93, 10, 0, 97, 115,
      100, 102, 103, 104, 106, 107, 108, 59, 39, 96, 0, 92, 122, 120, 99, 118,
      98, 110, 109, 44, 46, 47, 0, 42, 0, 32, 0, 0, 0, 0, 0, 0,
      0, 0, 0, 0, 0, 0, 0, 55, 56, 57, 45, 52, 53, 54, 43, 49,
      50, 51, 48, 46]
     [(0x97, 224), (0x9C, 10), (0xB5, 47), (0xC8, 226), (0xC9, 230), (0xCB, 228), (0xCD, 229), (0xCF, 225), (0xD0, 227), (0xD1, 231), (0xD2, 232), (0xD3, 233)]"

definition shiftmap :: "u32 \<Rightarrow> u8" where
  "shiftmap = table256
     [0, 27, 33, 64, 35, 36, 37, 94, 38, 42, 40, 41, 95, 43, 8, 9,
      81, 87, 69, 82, 84, 89, 85, 73, 79, 80, 123, 125, 10, 0, 65, 83,
      68, 70, 71, 72, 74, 75, 76, 58, 34, 126, 0, 124, 90, 88, 67, 86,
      66, 78, 77, 60, 62, 63, 0, 42, 0, 32, 0, 0, 0, 0, 0, 0,
      0, 0, 0, 0, 0, 0, 0, 55, 56, 57, 45, 52, 53, 54, 43, 49,
      50, 51, 48, 46]
     [(0x97, 224), (0x9C, 10), (0xB5, 47), (0xC8, 226), (0xC9, 230), (0xCB, 228), (0xCD, 229), (0xCF, 225), (0xD0, 227), (0xD1, 231), (0xD2, 232), (0xD3, 233)]"

definition ctlmap :: "u32 \<Rightarrow> u8" where
  "ctlmap = table256
     [0, 0, 0, 0, 0, 0, 0, 0, 0, 0, 0, 0, 0, 0, 0, 0,
      17, 23, 5, 18, 20, 25, 21, 9, 15, 16, 0, 0, 13, 0, 1, 19,
      4, 6, 7, 8, 10, 11, 12, 0, 0, 0, 0, 28, 26, 24, 3, 22,
      2, 14, 13, 0, 0, 239]
     [(0x97, 224), (0x9C, 13), (0xB5, 239), (0xC8, 226), (0xC9, 230), (0xCB, 228), (0xCD, 229), (0xCF, 225), (0xD0, 227), (0xD1, 231), (0xD2, 232), (0xD3, 233)]"

section \<open>\<open>kbdgetc\<close>\<close>

text \<open>The state of the driver is the modifier word \<open>shift\<close> and the controller's queue; the result is the
  character, 0 for a key that gives none, or -1 when there is nothing to read.\<close>

definition charcode :: "u32 \<Rightarrow> u32 \<Rightarrow> u8" where
  "charcode sh d = (if sh = 0 then normalmap d else if sh = 1 then shiftmap d else ctlmap d)"

definition kbd_key :: "u32 \<Rightarrow> u32 \<Rightarrow> int \<times> u32" where
  "kbd_key sh d =
     (let sh = sh OR ucast (shiftcode d);
          sh = sh XOR ucast (togglecode d);
          c = uint (charcode (sh AND (CTL OR SHIFT)) d);
          c = (if sh AND CAPSLOCK \<noteq> 0 then
                 if 97 \<le> c \<and> c \<le> 122 then c - 32 else if 65 \<le> c \<and> c \<le> 90 then c + 32 else c
               else c)
      in (c, sh))"

definition kbdgetc :: "u32 \<Rightarrow> u8 list \<Rightarrow> int \<times> u32 \<times> u8 list" where
  "kbdgetc sh q =
     (case q of
        [] \<Rightarrow> (-1, sh, q)
      | b # q \<Rightarrow>
          let d = ucast b :: u32
          in if d = 0xE0 then (0, sh OR E0ESC, q)
             else if d AND 0x80 \<noteq> 0 then
               let d = (if sh AND E0ESC \<noteq> 0 then d else d AND 0x7F)
               in (0, sh AND NOT (ucast (shiftcode d) OR E0ESC), q)
             else let (d, sh) = (if sh AND E0ESC \<noteq> 0 then (d OR 0x80, sh AND NOT E0ESC) else (d, sh));
                      (c, sh) = kbd_key sh d
                  in (c, sh, q))"

end
