(* ===== verification/Xv6_Console.thy ===== *)
theory Xv6_Console
  imports Xv6_File Xv6_Kbd
begin

unbundle bit_operations_syntax

text \<open>
  The console (console.c), the serial port (uart.c) and the process listing (\<open>procdump\<close> of proc.c).
  The screen is an array of cells with a cursor register; the serial port is the list of bytes sent and
  a queue of bytes received. A processor that finds \<open>panicked\<close> set spins forever: \<open>Blocked\<close>.
\<close>

section \<open>State\<close>

record consst = ftst +
  panicked :: bool
  cons_locking :: bool               \<comment> \<open>\<open>cons.locking\<close>\<close>
  crt :: "nat \<Rightarrow> u16"
  crt_pos :: u16                     \<comment> \<open>the cursor register, read and written in two halves\<close>
  uart_on :: bool                    \<comment> \<open>\<open>uart\<close>\<close>
  serial :: "u8 list"
  serial_in :: "u8 list"
  kbd_shift :: u32                   \<comment> \<open>\<open>shift\<close> of \<open>kbdgetc\<close>\<close>
  kbd_in :: "u8 list"
  in_buf :: "7 word \<Rightarrow> u8"           \<comment> \<open>\<open>input.buf\<close>\<close>
  in_r :: u32
  in_w :: u32
  in_e :: u32

section \<open>Output\<close>

definition BACKSPACE :: int where "BACKSPACE = 0x100"

definition uartputc :: "int \<Rightarrow> 'a consst_scheme \<Rightarrow> 'a consst_scheme" where
  "uartputc c s = (if uart_on s then s\<lparr>serial := serial s @ [of_int c]\<rparr> else s)"

definition uartgetc :: "'a consst_scheme \<Rightarrow> int \<times> 'a consst_scheme" where
  "uartgetc s =
     (if \<not> uart_on s then (-1, s)
      else case serial_in s of [] \<Rightarrow> (-1, s) | b # q \<Rightarrow> (uint b, s\<lparr>serial_in := q\<rparr>))"

definition cga_move :: "int \<Rightarrow> int \<Rightarrow> int" where
  "cga_move c pos =
     (if c = 10 then pos + (80 - pos mod 80)
      else if c = BACKSPACE then if pos > 0 then pos - 1 else pos
      else pos + 1)"

definition cga_scroll :: "(nat \<Rightarrow> u16) \<Rightarrow> nat \<Rightarrow> nat \<Rightarrow> u16" where
  "cga_scroll m pos = (\<lambda>i. if pos \<le> i \<and> i < 24 * 80 then 0
     else if i < 23 * 80 then m (i + 80) else m i)"

text \<open>Clearing the rest of the screen from a position behind its end would have a negative count: the
  \<open>memset\<close> then runs over the memory behind the screen.\<close>

definition cgaputc :: "int \<Rightarrow> 'a consst_scheme \<Rightarrow> 'a consst_scheme res" where
  "cgaputc c s =
     (let pos = uint (crt_pos s);
          m = (if c \<noteq> 10 \<and> c \<noteq> BACKSPACE
               then (crt s)(nat pos := (of_int c AND 0xFF) OR 0x0700) else crt s);
          pos = cga_move c pos
      in bindr (if pos div 80 \<ge> 24 then
                  if pos - 80 > 24 * 80 then Inl (Undef ''overrun'')
                  else Inr (pos - 80, cga_scroll m (nat (pos - 80)))
                else Inr (pos, m)) (\<lambda>(pos, m).
         Inr (s\<lparr>crt_pos := of_int pos, crt := m(nat pos := 0x0720)\<rparr>)))"

definition consputc :: "int \<Rightarrow> 'a consst_scheme \<Rightarrow> 'a consst_scheme res" where
  "consputc c s =
     (if panicked s then Inl (Blocked ''panicked'')
      else if c = BACKSPACE then cgaputc c (uartputc 8 (uartputc 32 (uartputc 8 s)))
      else cgaputc c (uartputc c s))"

fun conswrite :: "int list \<Rightarrow> 'a consst_scheme \<Rightarrow> 'a consst_scheme res" where
  "conswrite [] s = Inr s"
| "conswrite (c # cs) s = bindr (consputc c s) (conswrite cs)"

text \<open>The digits of a number, least significant first; \<open>printint\<close> is called with the bases 10 and
  16.\<close>

definition digit :: "nat \<Rightarrow> int" where
  "digit d = (if d < 10 then 48 + int d else 87 + int d)"

function digits_rev :: "nat \<Rightarrow> nat \<Rightarrow> int list" where
  "digits_rev base x = digit (x mod base) #
     (if x div base = 0 \<or> base < 2 then [] else digits_rev base (x div base))"
  by pat_completeness auto
termination
  by (relation "measure snd") (auto simp: div_eq_0_iff)

declare digits_rev.simps [simp del]

definition int_chars :: "u32 \<Rightarrow> nat \<Rightarrow> bool \<Rightarrow> int list" where
  "int_chars xx base signd =
     (let neg = signd \<and> xx <s 0;
          x = (if neg then - xx else xx)
      in rev (digits_rev base (unat x) @ (if neg then [45] else [])))"

definition printint :: "u32 \<Rightarrow> nat \<Rightarrow> bool \<Rightarrow> 'a consst_scheme \<Rightarrow> 'a consst_scheme res" where
  "printint xx base signd s = conswrite (int_chars xx base signd) s"

text \<open>The arguments of \<open>cprintf\<close>: words and strings, \<open>None\<close> the null pointer. A conversion with no
  argument of its kind reads whatever is on the stack; the kernel has no such call.\<close>

datatype parg = PInt u32 | PStr "u8 list option"

definition cstr :: "string \<Rightarrow> u8 list" where
  "cstr = map of_char"

definition c_chars :: "u8 list \<Rightarrow> int list" where
  "c_chars xs = map sint (takeWhile (\<lambda>b. b \<noteq> 0) xs)"

fun cprintf_loop :: "u8 list \<Rightarrow> parg list \<Rightarrow> 'a consst_scheme \<Rightarrow> 'a consst_scheme res" where
  "cprintf_loop [] args s = Inr s"
| "cprintf_loop (c # fmt) args s =
     (if c = 0 then Inr s
      else if c \<noteq> 37 then bindr (consputc (uint c) s) (cprintf_loop fmt args)
      else case fmt of
        [] \<Rightarrow> Inr s
      | c # fmt \<Rightarrow>
          if c = 0 then Inr s
          else if c = 100 then
            case args of PInt x # args \<Rightarrow> bindr (printint x 10 True s) (cprintf_loop fmt args)
            | _ \<Rightarrow> Inl (Undef ''overrun'')
          else if c = 120 \<or> c = 112 then
            case args of PInt x # args \<Rightarrow> bindr (printint x 16 False s) (cprintf_loop fmt args)
            | _ \<Rightarrow> Inl (Undef ''overrun'')
          else if c = 115 then
            case args of PStr x # args \<Rightarrow>
              bindr (conswrite (c_chars (case x of None \<Rightarrow> cstr ''(null)'' | Some y \<Rightarrow> y)) s) (cprintf_loop fmt args)
            | _ \<Rightarrow> Inl (Undef ''overrun'')
          else if c = 37 then bindr (consputc 37 s) (cprintf_loop fmt args)
          else bindr (consputc 37 s) (\<lambda>s. bindr (consputc (uint c) s) (cprintf_loop fmt args)))"

definition cprintf :: "u8 list option \<Rightarrow> parg list \<Rightarrow> 'a consst_scheme \<Rightarrow> 'a consst_scheme res" where
  "cprintf fmt args s =
     (let locking = cons_locking s
      in bindr (if locking then acquire ConsLock s else Inr s) (\<lambda>s.
         case fmt of None \<Rightarrow> Inl (Panic ''null fmt'')
         | Some fmt \<Rightarrow> bindr (cprintf_loop fmt args s) (\<lambda>s.
             if locking then release ConsLock s else Inr s)))"

text \<open>\<open>panic\<close> up to its last loop, which never ends: the state other processors find. \<open>v\<close> is the
  address of its argument on the stack. Elsewhere in the model a call of \<open>panic\<close> is the value \<open>Panic\<close>
  with its message.\<close>

definition panic :: "u32 \<Rightarrow> u8 list \<Rightarrow> 'a consst_scheme \<Rightarrow> 'a consst_scheme res" where
  "panic v msg s =
     (let s = set_cpu ((mycpu s)\<lparr>eflags_if := False\<rparr>) s;
          s = s\<lparr>cons_locking := False\<rparr>
      in bindr (cprintf (Some (cstr ''cpu%d: panic: '')) [PInt (of_nat (cur s))] s) (\<lambda>s.
         bindr (cprintf (Some msg) [] s) (\<lambda>s.
         bindr (cprintf (Some [10]) [] s) (\<lambda>s.
         let pcs = getcallerpcs (ram s) v
         in bindr (forr 0 10 (\<lambda>i. cprintf (Some (cstr '' %p'')) [PInt (pcs ! i)]) s) (\<lambda>s.
            Inr (s\<lparr>panicked := True\<rparr>))))))"

section \<open>The process listing\<close>

definition state_name :: "procstate \<Rightarrow> string" where
  "state_name st = (case st of UNUSED \<Rightarrow> ''unused'' | EMBRYO \<Rightarrow> ''embryo'' | SLEEPING \<Rightarrow> ''sleep ''
     | RUNNABLE \<Rightarrow> ''runble'' | RUNNING \<Rightarrow> ''run   '' | ZOMBIE \<Rightarrow> ''zombie'')"

fun dump_pcs :: "u32 list \<Rightarrow> 'a consst_scheme \<Rightarrow> 'a consst_scheme res" where
  "dump_pcs [] s = Inr s"
| "dump_pcs (pc # pcs) s =
     (if pc = 0 then Inr s
      else bindr (cprintf (Some (cstr '' %p'')) [PInt pc] s) (dump_pcs pcs))"

definition procdump :: "'a consst_scheme \<Rightarrow> 'a consst_scheme res" where
  "procdump s =
     forr 0 NPROC (\<lambda>p s.
       if state (ptable s p) = UNUSED then Inr s
       else bindr (cprintf (Some (cstr ''%d %s %s''))
              [PInt (pid (ptable s p)), PStr (Some (cstr (state_name (state (ptable s p))))),
               PStr (Some (pname (ptable s p)))] s) (\<lambda>s.
            bindr (if state (ptable s p) = SLEEPING
                   then dump_pcs (getcallerpcs (ram s) (load32 (ram s) (ctxt (ptable s p) + 12) + 8)) s
                   else Inr s) (cprintf (Some [10]) []))) s"

section \<open>Input\<close>

definition INPUT_BUF :: u32 where "INPUT_BUF = 128"

definition in_at :: "'a consst_scheme \<Rightarrow> u32 \<Rightarrow> u8" where
  "in_at s i = in_buf s (ucast i)"

text \<open>The loop of \<open>^U\<close> takes one character off the line in each turn, so as many turns as there are
  unread characters are enough.\<close>

fun kill_line :: "nat \<Rightarrow> 'a consst_scheme \<Rightarrow> 'a consst_scheme res" where
  "kill_line 0 s = Inr s"
| "kill_line (Suc k) s =
     (if in_e s \<noteq> in_w s \<and> in_at s (in_e s - 1) \<noteq> 10
      then bindr (consputc BACKSPACE (s\<lparr>in_e := in_e s - 1\<rparr>)) (kill_line k)
      else Inr s)"

definition console_char :: "schedflag \<Rightarrow> int \<Rightarrow> 'a consst_scheme \<Rightarrow> 'a consst_scheme res" where
  "console_char cfg c s =
     (if c \<noteq> 0 \<and> in_e s - in_r s < INPUT_BUF then
        let c = (if c = 13 then 10 else c);
            s = s\<lparr>in_buf := (in_buf s)(ucast (in_e s) := of_int c), in_e := in_e s + 1\<rparr>
        in bindr (consputc c s) (\<lambda>s.
           if c = 10 \<or> c = 4 \<or> in_e s = in_r s + INPUT_BUF
           then wakeup cfg (Some ChanInput) (s\<lparr>in_w := in_e s\<rparr>)
           else Inr s)
      else Inr s)"

definition console_key :: "schedflag \<Rightarrow> int \<Rightarrow> 'a consst_scheme \<Rightarrow> 'a consst_scheme res" where
  "console_key cfg c s =
     (if c = 16 then procdump s
      else if c = 21 then kill_line (unat (in_e s - in_w s)) s
      else if c = 8 \<or> c = 127 then
        if in_e s \<noteq> in_w s then consputc BACKSPACE (s\<lparr>in_e := in_e s - 1\<rparr>) else Inr s
      else console_char cfg c s)"

partial_function (option) consoleintr_loop ::
    "schedflag \<Rightarrow> ('a consst_scheme \<Rightarrow> int \<times> 'a consst_scheme) \<Rightarrow> 'a consst_scheme \<Rightarrow> 'a consst_scheme res option" where
  "consoleintr_loop cfg getc s =
     (case getc s of (c, s) \<Rightarrow>
        if c \<ge> 0 then bindro (console_key cfg c s) (consoleintr_loop cfg getc) else Some (Inr s))"

definition consoleintr :: "schedflag \<Rightarrow> ('a consst_scheme \<Rightarrow> int \<times> 'a consst_scheme) \<Rightarrow> 'a consst_scheme \<Rightarrow> 'a consst_scheme res" where
  "consoleintr cfg getc s =
     bindr (acquire InputLock s) (\<lambda>s. bindr (loopr (consoleintr_loop cfg getc s)) (release InputLock))"

definition kbd_getc :: "'a consst_scheme \<Rightarrow> int \<times> 'a consst_scheme" where
  "kbd_getc s = (case kbdgetc (kbd_shift s) (kbd_in s) of (c, sh, q) \<Rightarrow> (c, s\<lparr>kbd_shift := sh, kbd_in := q\<rparr>))"

definition kbdintr :: "schedflag \<Rightarrow> 'a consst_scheme \<Rightarrow> 'a consst_scheme res" where
  "kbdintr cfg s = consoleintr cfg kbd_getc s"

definition uartintr :: "schedflag \<Rightarrow> 'a consst_scheme \<Rightarrow> 'a consst_scheme res" where
  "uartintr cfg s = consoleintr cfg uartgetc s"

text \<open>\<open>consoleread\<close> is entered with \<open>n\<close> bytes to go of \<open>target\<close>; it ends when it has a line, the end of
  input or all the bytes, when the process is killed, or goes to sleep until there is a line.\<close>

datatype cons_end = Got int "u8 list" | Waiting nat "u8 list" bool

fun consoleread_loop :: "schedflag \<Rightarrow> nat \<Rightarrow> nat \<Rightarrow> nat \<Rightarrow> u8 list \<Rightarrow> 'a consst_scheme \<Rightarrow> (cons_end \<times> 'a consst_scheme) res" where
  "consoleread_loop cfg ip target 0 dst s =
     bindr (release InputLock s) (\<lambda>s. bindr (ilock cfg ip s) (\<lambda>s. Inr (Got (int target) dst, s)))"
| "consoleread_loop cfg ip target (Suc n) dst s =
     (if in_r s = in_w s then
        bindr (theproc s) (\<lambda>me.
        if killed (ptable s me) then
          bindr (release InputLock s) (\<lambda>s. bindr (ilock cfg ip s) (\<lambda>s. Inr (Got (-1) dst, s)))
        else bindr (sleep ChanInput (Some InputLock) s) (\<lambda>(i, s). Inr (Waiting (Suc n) dst i, s)))
      else let c = in_at s (in_r s)
        in if c = 4 then
             let s = (if Suc n < target then s else s\<lparr>in_r := in_r s + 1\<rparr>)
             in bindr (release InputLock s) (\<lambda>s. bindr (ilock cfg ip s) (\<lambda>s. Inr (Got (int target - int (Suc n)) dst, s)))
           else if c = 10 then
             bindr (release InputLock (s\<lparr>in_r := in_r s + 1\<rparr>)) (\<lambda>s.
             bindr (ilock cfg ip s) (\<lambda>s. Inr (Got (int target - int n) (dst @ [c]), s)))
           else consoleread_loop cfg ip target n (dst @ [c]) (s\<lparr>in_r := in_r s + 1\<rparr>))"

definition consoleread_start :: "schedflag \<Rightarrow> nat \<Rightarrow> u32 \<Rightarrow> 'a consst_scheme \<Rightarrow> (cons_end \<times> 'a consst_scheme) res" where
  "consoleread_start cfg ip n s =
     bindr (iunlock cfg ip s) (\<lambda>s.
     bindr (acquire InputLock s) (\<lambda>s.
     if sint n \<le> 0 then bindr (release InputLock s) (\<lambda>s. bindr (ilock cfg ip s) (\<lambda>s. Inr (Got 0 [], s)))
     else consoleread_loop cfg ip (unat n) (unat n) [] s))"

definition consoleread_resume :: "schedflag \<Rightarrow> nat \<Rightarrow> nat \<Rightarrow> nat \<Rightarrow> u8 list \<Rightarrow> bool \<Rightarrow> 'a consst_scheme \<Rightarrow> (cons_end \<times> 'a consst_scheme) res" where
  "consoleread_resume cfg ip target n dst i s =
     bindr (sleep_resume InputLock i s) (consoleread_loop cfg ip target n dst)"

definition consoleread :: "schedflag \<Rightarrow> nat \<Rightarrow> u32 \<Rightarrow> 'a consst_scheme \<Rightarrow> (int \<times> u8 list \<times> 'a consst_scheme) res" where
  "consoleread cfg ip n s =
     bindr (consoleread_start cfg ip n s) (\<lambda>(r, s).
     case r of Got k dst \<Rightarrow> Inr (k, dst, s) | Waiting m dst i \<Rightarrow> Inl (Blocked ''consoleread''))"

definition consolewrite :: "schedflag \<Rightarrow> nat \<Rightarrow> (nat \<Rightarrow> u8 res) \<Rightarrow> u32 \<Rightarrow> 'a consst_scheme \<Rightarrow> (int \<times> 'a consst_scheme) res" where
  "consolewrite cfg ip buf n s =
     bindr (iunlock cfg ip s) (\<lambda>s.
     bindr (acquire ConsLock s) (\<lambda>s.
     bindr (forr 0 (nat (sint n)) (\<lambda>i s. bindr (buf i) (\<lambda>b. consputc (uint b) s)) s) (\<lambda>s.
     bindr (release ConsLock s) (\<lambda>s.
     bindr (ilock cfg ip s) (\<lambda>s. Inr (sint n, s))))))"

text \<open>\<open>devsw\<close> as \<open>consoleinit\<close> leaves it: the console is the only device.\<close>

definition CONSOLE :: nat where "CONSOLE = 1"

definition devsw :: "schedflag \<Rightarrow> nat \<Rightarrow> 'a consst_scheme devfns" where
  "devsw cfg m = (if m = CONSOLE
     then \<lparr>dev_read = Some (consoleread cfg), dev_write = Some (consolewrite cfg)\<rparr>
     else \<lparr>dev_read = None, dev_write = None\<rparr>)"

end
