(* ===== verification/Xv6_Syscall.thy ===== *)
theory Xv6_Syscall
  imports Xv6_Console
begin

unbundle bit_operations_syntax

text \<open>
  System call arguments (syscall.c) and the system calls on files (sysfile.c). User memory is read
  through the page table of the current process; a string argument is the list of its bytes before the
  NUL. A call returns its \<open>int\<close> result and the new state; a pointer check that fails is \<open>None\<close>.
\<close>

section \<open>Arguments\<close>

text \<open>Fields of the trap frame.\<close>

definition TF_edi :: u32 where "TF_edi = 0"
definition TF_eax :: u32 where "TF_eax = 28"
definition TF_es :: u32 where "TF_es = 40"
definition TF_ds :: u32 where "TF_ds = 44"
definition TF_trapno :: u32 where "TF_trapno = 48"
definition TF_err :: u32 where "TF_err = 52"
definition TF_eip :: u32 where "TF_eip = 56"
definition TF_cs :: u32 where "TF_cs = 60"
definition TF_eflags :: u32 where "TF_eflags = 64"
definition TF_esp :: u32 where "TF_esp = 68"
definition TF_ss :: u32 where "TF_ss = 72"

definition fetchint :: "u32 \<Rightarrow> 'a procst_scheme \<Rightarrow> u32 option res" where
  "fetchint addr s =
     bindr (theproc s) (\<lambda>me.
     let p = ptable s me
     in if addr \<ge> sz p \<or> addr + 4 > sz p then Inr None
        else bindr (uload32 (pgdir p) addr s) (\<lambda>w. Inr (Some w)))"

fun fetchstr_from :: "u32 \<Rightarrow> nat \<Rightarrow> u32 \<Rightarrow> 'a procst_scheme \<Rightarrow> u8 list option res" where
  "fetchstr_from pg 0 a s = Inr None"
| "fetchstr_from pg (Suc k) a s =
     bindr (uload8 pg a s) (\<lambda>b.
     if b = 0 then Inr (Some [])
     else bindr (fetchstr_from pg k (a + 1) s) (\<lambda>r. Inr (map_option ((#) b) r)))"

definition fetchstr :: "u32 \<Rightarrow> 'a procst_scheme \<Rightarrow> u8 list option res" where
  "fetchstr addr s =
     bindr (theproc s) (\<lambda>me.
     let p = ptable s me
     in if addr \<ge> sz p then Inr None
        else fetchstr_from (pgdir p) (unat (sz p - addr)) addr s)"

definition argint :: "nat \<Rightarrow> 'a procst_scheme \<Rightarrow> u32 option res" where
  "argint n s =
     bindr (theproc s) (\<lambda>me. fetchint (load32 (ram s) (tf (ptable s me) + TF_esp) + 4 + 4 * of_nat n) s)"

definition argptr :: "nat \<Rightarrow> u32 \<Rightarrow> 'a procst_scheme \<Rightarrow> u32 option res" where
  "argptr n len s =
     bindr (argint n s) (\<lambda>r.
     case r of None \<Rightarrow> Inr None
     | Some i \<Rightarrow> bindr (theproc s) (\<lambda>me.
         if i \<ge> sz (ptable s me) \<or> i + len > sz (ptable s me) then Inr None else Inr (Some i)))"

definition argstr :: "nat \<Rightarrow> 'a procst_scheme \<Rightarrow> u8 list option res" where
  "argstr n s =
     bindr (argint n s) (\<lambda>r. case r of None \<Rightarrow> Inr None | Some addr \<Rightarrow> fetchstr addr s)"

text \<open>Checks in a row: the first that fails ends the call with -1.\<close>

definition need :: "'b option res \<Rightarrow> 's \<Rightarrow> ('b \<Rightarrow> (int \<times> 's) res) \<Rightarrow> (int \<times> 's) res" where
  "need r s f = bindr r (\<lambda>x. case x of None \<Rightarrow> Inr (-1, s) | Some y \<Rightarrow> f y)"

lemma need_cong [fundef_cong]:
  "r = r' \<Longrightarrow> s = s' \<Longrightarrow> (\<And>y. r' = Inr (Some y) \<Longrightarrow> f y = f' y) \<Longrightarrow> need r s f = need r' s' f'"
  by (auto simp: need_def bindr_def split: sum.splits option.splits)

section \<open>File descriptors\<close>

definition argfd :: "nat \<Rightarrow> 'a procst_scheme \<Rightarrow> (nat \<times> nat) option res" where
  "argfd n s =
     bindr (argint n s) (\<lambda>r.
     case r of None \<Rightarrow> Inr None
     | Some fd \<Rightarrow> bindr (theproc s) (\<lambda>me.
         if sint fd < 0 \<or> sint fd \<ge> int NOFILE then Inr None
         else Inr (map_option (\<lambda>f. (unat fd, f)) (ofile (ptable s me) (unat fd)))))"

definition fdalloc :: "nat \<Rightarrow> 'a procst_scheme \<Rightarrow> (nat option \<times> 'a procst_scheme) res" where
  "fdalloc f s =
     bindr (theproc s) (\<lambda>me.
     case scan (\<lambda>fd. ofile (ptable s me) fd = None) NOFILE of
       None \<Rightarrow> Inr (None, s)
     | Some fd \<Rightarrow> Inr (Some fd, upd_proc me (\<lambda>q. q\<lparr>ofile := (ofile q)(fd := Some f)\<rparr>) s))"

definition fdclear :: "nat \<Rightarrow> 'a procst_scheme \<Rightarrow> 'a procst_scheme res" where
  "fdclear fd s =
     bindr (theproc s) (\<lambda>me. Inr (upd_proc me (\<lambda>q. q\<lparr>ofile := (ofile q)(fd := None)\<rparr>) s))"

definition sys_dup :: "'a ftst_scheme \<Rightarrow> (int \<times> 'a ftst_scheme) res" where
  "sys_dup s =
     need (argfd 0 s) s (\<lambda>(_, f).
     bindr (fdalloc f s) (\<lambda>(fd, s).
     case fd of None \<Rightarrow> Inr (-1, s)
     | Some fd \<Rightarrow> bindr (filedup f s) (\<lambda>(_, s). Inr (int fd, s))))"

definition sys_read :: "schedflag \<Rightarrow> 'a consst_scheme \<Rightarrow> (int \<times> 'a consst_scheme) res" where
  "sys_read cfg s =
     need (argfd 0 s) s (\<lambda>(_, f).
     need (argint 2 s) s (\<lambda>n.
     need (argptr 1 n s) s (\<lambda>p. fileread (devsw cfg) cfg f p n s)))"

definition sys_write :: "schedflag \<Rightarrow> 'a consst_scheme \<Rightarrow> (int \<times> 'a consst_scheme) res" where
  "sys_write cfg s =
     need (argfd 0 s) s (\<lambda>(_, f).
     need (argint 2 s) s (\<lambda>n.
     need (argptr 1 n s) s (\<lambda>p. filewrite (devsw cfg) cfg f p n s)))"

definition sys_close :: "schedflag \<Rightarrow> link \<Rightarrow> 'a ftst_scheme \<Rightarrow> (int \<times> 'a ftst_scheme) res" where
  "sys_close cfg lk s =
     need (argfd 0 s) s (\<lambda>(fd, f).
     bindr (fdclear fd s) (\<lambda>s. bindr (fileclose cfg lk f s) (\<lambda>s. Inr (0, s))))"

text \<open>The layout of \<open>struct stat\<close>, 20 bytes.\<close>

definition le16 :: "u16 \<Rightarrow> u8 list" where
  "le16 w = [ucast w, ucast (drop_bit 8 w)]"

definition le32 :: "u32 \<Rightarrow> u8 list" where
  "le32 w = [ucast w, ucast (drop_bit 8 w), ucast (drop_bit 16 w), ucast (drop_bit 24 w)]"

definition put_stat :: "u32 \<Rightarrow> u32 \<Rightarrow> stat \<Rightarrow> 'a memst_scheme \<Rightarrow> 'a memst_scheme res" where
  "put_stat pg a st s =
     bindr (ustore_bytes pg a (le16 (st_type st)) s) (\<lambda>s.
     bindr (ustore_bytes pg (a + 4) (le32 (st_dev st)) s) (\<lambda>s.
     bindr (ustore_bytes pg (a + 8) (le32 (st_ino st)) s) (\<lambda>s.
     bindr (ustore_bytes pg (a + 12) (le16 (st_nlink st)) s) (\<lambda>s.
     ustore_bytes pg (a + 16) (le32 (st_size st)) s))))"

definition sys_fstat :: "schedflag \<Rightarrow> 'a ftst_scheme \<Rightarrow> (int \<times> 'a ftst_scheme) res" where
  "sys_fstat cfg s =
     need (argfd 0 s) s (\<lambda>(_, f).
     need (argptr 1 20 s) s (\<lambda>a.
     bindr (filestat cfg f s) (\<lambda>(r, st, s).
     case st of None \<Rightarrow> Inr (r, s)
     | Some st \<Rightarrow> bindr (mypgdir s) (\<lambda>pg. bindr (put_stat pg a st s) (\<lambda>s. Inr (r, s))))))"

section \<open>Directory operations\<close>

definition add_nlink :: "int \<Rightarrow> nat \<Rightarrow> 'a icst_scheme \<Rightarrow> 'a icst_scheme" where
  "add_nlink d ip s = upd_ino ip (\<lambda>x. x\<lparr>nlink := nlink x + of_int d\<rparr>) s"

definition fail_op :: "schedflag \<Rightarrow> 'a logst_scheme \<Rightarrow> (int \<times> 'a logst_scheme) res" where
  "fail_op cfg s = bindr (end_op cfg s) (\<lambda>s. Inr (-1, s))"

definition link_bad :: "schedflag \<Rightarrow> nat \<Rightarrow> 'a icst_scheme \<Rightarrow> (int \<times> 'a icst_scheme) res" where
  "link_bad cfg ip s =
     bindr (ilock cfg ip s) (\<lambda>s.
     bindr (iupdate cfg ip (add_nlink (-1) ip s)) (\<lambda>s.
     bindr (iunlockput cfg ip s) (fail_op cfg)))"

definition sys_link :: "schedflag \<Rightarrow> 'a consst_scheme \<Rightarrow> (int \<times> 'a consst_scheme) res" where
  "sys_link cfg s =
     need (argstr 0 s) s (\<lambda>old.
     need (argstr 1 s) s (\<lambda>new.
     bindr (begin_op s) (\<lambda>s.
     bindr (namei (devsw cfg) cfg old s) (\<lambda>(ip, s).
     case ip of None \<Rightarrow> fail_op cfg s
     | Some ip \<Rightarrow>
       bindr (ilock cfg ip s) (\<lambda>s.
       if itype (icache s ip) = T_DIR then bindr (iunlockput cfg ip s) (fail_op cfg)
       else bindr (iupdate cfg ip (add_nlink 1 ip s)) (\<lambda>s.
         bindr (iunlock cfg ip s) (\<lambda>s.
         bindr (nameiparent (devsw cfg) cfg new s) (\<lambda>(r, s).
         case r of None \<Rightarrow> link_bad cfg ip s
         | Some (dp, name) \<Rightarrow>
           bindr (ilock cfg dp s) (\<lambda>s.
           if idev (icache s dp) \<noteq> idev (icache s ip) then bindr (iunlockput cfg dp s) (link_bad cfg ip)
           else bindr (dirlink (devsw cfg) cfg dp name (inum (icache s ip)) s) (\<lambda>(r, s).
             if r < 0 then bindr (iunlockput cfg dp s) (link_bad cfg ip)
             else bindr (iunlockput cfg dp s) (\<lambda>s.
               bindr (iput cfg ip s) (\<lambda>s.
               bindr (end_op cfg s) (\<lambda>s. Inr (0, s))))))))))))))"

function isdirempty_from :: "schedflag \<Rightarrow> nat \<Rightarrow> nat \<Rightarrow> nat \<Rightarrow> 'a consst_scheme \<Rightarrow> (bool \<times> 'a consst_scheme) res" where
  "isdirempty_from cfg dp dsize off s =
     (if off < dsize then
        bindr (readi (devsw cfg) cfg dp (of_nat off) 16 s) (\<lambda>(r, de, s).
        if r \<noteq> 16 then Inl (Panic ''isdirempty: readi'')
        else if de_inum de \<noteq> 0 then Inr (False, s)
        else isdirempty_from cfg dp dsize (off + 16) s)
      else Inr (True, s))"
  by pat_completeness auto
termination
  by (relation "measure (\<lambda>(cfg, dp, dsize, off, s). dsize - off)") auto

definition isdirempty :: "schedflag \<Rightarrow> nat \<Rightarrow> 'a consst_scheme \<Rightarrow> (bool \<times> 'a consst_scheme) res" where
  "isdirempty cfg dp s = isdirempty_from cfg dp (unat (isize (icache s dp))) 32 s"

definition unlink_bad :: "schedflag \<Rightarrow> nat \<Rightarrow> 'a icst_scheme \<Rightarrow> (int \<times> 'a icst_scheme) res" where
  "unlink_bad cfg dp s = bindr (iunlockput cfg dp s) (fail_op cfg)"

text \<open>The second half of \<open>sys_unlink\<close>, with the entry found at \<open>off\<close> and its inode locked.\<close>

definition unlink_entry :: "schedflag \<Rightarrow> nat \<Rightarrow> nat \<Rightarrow> u32 \<Rightarrow> 'a consst_scheme \<Rightarrow> (int \<times> 'a consst_scheme) res" where
  "unlink_entry cfg dp ip off s =
     (if sint (nlink (icache s ip)) < 1 then Inl (Panic ''unlink: nlink < 1'')
      else bindr (if itype (icache s ip) = T_DIR then isdirempty cfg ip s else Inr (True, s)) (\<lambda>(e, s).
        if itype (icache s ip) = T_DIR \<and> \<not> e then bindr (iunlockput cfg ip s) (unlink_bad cfg dp)
        else bindr (writei (devsw cfg) cfg dp (\<lambda>i. Inr 0) off 16 s) (\<lambda>(r, s).
          if r \<noteq> 16 then Inl (Panic ''unlink: writei'')
          else bindr (if itype (icache s ip) = T_DIR then iupdate cfg dp (add_nlink (-1) dp s) else Inr s) (\<lambda>s.
            bindr (iunlockput cfg dp s) (\<lambda>s.
            bindr (iupdate cfg ip (add_nlink (-1) ip s)) (\<lambda>s.
            bindr (iunlockput cfg ip s) (\<lambda>s.
            bindr (end_op cfg s) (\<lambda>s. Inr (0, s)))))))))"

definition sys_unlink :: "schedflag \<Rightarrow> 'a consst_scheme \<Rightarrow> (int \<times> 'a consst_scheme) res" where
  "sys_unlink cfg s =
     need (argstr 0 s) s (\<lambda>path.
     bindr (begin_op s) (\<lambda>s.
     bindr (nameiparent (devsw cfg) cfg path s) (\<lambda>(r, s).
     case r of None \<Rightarrow> fail_op cfg s
     | Some (dp, name) \<Rightarrow>
       bindr (ilock cfg dp s) (\<lambda>s.
       if namecmp (list_view name) (list_view (cstr ''.'')) = 0 \<or>
          namecmp (list_view name) (list_view (cstr ''..'')) = 0 then unlink_bad cfg dp s
       else bindr (dirlookup (devsw cfg) cfg dp name s) (\<lambda>(r, s).
         case r of None \<Rightarrow> unlink_bad cfg dp s
         | Some (ip, off) \<Rightarrow> bindr (ilock cfg ip s) (unlink_entry cfg dp ip off))))))"

definition create_found :: "schedflag \<Rightarrow> u16 \<Rightarrow> nat \<Rightarrow> nat \<Rightarrow> 'a consst_scheme \<Rightarrow> (nat option \<times> 'a consst_scheme) res" where
  "create_found cfg type dp ip s =
     bindr (iunlockput cfg dp s) (\<lambda>s.
     bindr (ilock cfg ip s) (\<lambda>s.
     if type = T_FILE \<and> itype (icache s ip) = T_FILE then Inr (Some ip, s)
     else bindr (iunlockput cfg ip s) (\<lambda>s. Inr (None, s))))"

definition create_dots :: "schedflag \<Rightarrow> nat \<Rightarrow> nat \<Rightarrow> 'a consst_scheme \<Rightarrow> 'a consst_scheme res" where
  "create_dots cfg dp ip s =
     bindr (iupdate cfg dp (add_nlink 1 dp s)) (\<lambda>s.
     bindr (dirlink (devsw cfg) cfg ip (cstr ''.'') (inum (icache s ip)) s) (\<lambda>(r, s).
     if r < 0 then Inl (Panic ''create dots'')
     else bindr (dirlink (devsw cfg) cfg ip (cstr ''..'') (inum (icache s dp)) s) (\<lambda>(r, s).
       if r < 0 then Inl (Panic ''create dots'') else Inr s)))"

definition create_new :: "schedflag \<Rightarrow> u16 \<Rightarrow> u16 \<Rightarrow> u16 \<Rightarrow> nat \<Rightarrow> u8 list \<Rightarrow> 'a consst_scheme \<Rightarrow> (nat option \<times> 'a consst_scheme) res" where
  "create_new cfg type mj mn dp name s =
     bindr (ialloc cfg (idev (icache s dp)) type s) (\<lambda>(ip, s).
     bindr (ilock cfg ip s) (\<lambda>s.
     bindr (iupdate cfg ip (upd_ino ip (\<lambda>x. x\<lparr>major := mj, minor := mn, nlink := 1\<rparr>) s)) (\<lambda>s.
     bindr (if type = T_DIR then create_dots cfg dp ip s else Inr s) (\<lambda>s.
     bindr (dirlink (devsw cfg) cfg dp name (inum (icache s ip)) s) (\<lambda>(r, s).
     if r < 0 then Inl (Panic ''create: dirlink'')
     else bindr (iunlockput cfg dp s) (\<lambda>s. Inr (Some ip, s)))))))"

definition create :: "schedflag \<Rightarrow> u8 list \<Rightarrow> u16 \<Rightarrow> u16 \<Rightarrow> u16 \<Rightarrow> 'a consst_scheme \<Rightarrow> (nat option \<times> 'a consst_scheme) res" where
  "create cfg path type mj mn s =
     bindr (nameiparent (devsw cfg) cfg path s) (\<lambda>(r, s).
     case r of None \<Rightarrow> Inr (None, s)
     | Some (dp, name) \<Rightarrow>
       bindr (ilock cfg dp s) (\<lambda>s.
       bindr (dirlookup (devsw cfg) cfg dp name s) (\<lambda>(r, s).
       case r of Some (ip, off) \<Rightarrow> create_found cfg type dp ip s
       | None \<Rightarrow> create_new cfg type mj mn dp name s)))"

definition O_RDONLY :: u32 where "O_RDONLY = 0"
definition O_WRONLY :: u32 where "O_WRONLY = 1"
definition O_RDWR :: u32 where "O_RDWR = 2"
definition O_CREATE :: u32 where "O_CREATE = 0x200"

text \<open>The inode \<open>sys_open\<close> is to open, locked.\<close>

definition open_inode :: "schedflag \<Rightarrow> u8 list \<Rightarrow> u32 \<Rightarrow> 'a consst_scheme \<Rightarrow> (nat option \<times> 'a consst_scheme) res" where
  "open_inode cfg path omode s =
     (if omode AND O_CREATE \<noteq> 0 then create cfg path T_FILE 0 0 s
      else bindr (namei (devsw cfg) cfg path s) (\<lambda>(ip, s).
        case ip of None \<Rightarrow> Inr (None, s)
        | Some ip \<Rightarrow>
          bindr (ilock cfg ip s) (\<lambda>s.
          if itype (icache s ip) = T_DIR \<and> omode \<noteq> O_RDONLY then
            bindr (iunlockput cfg ip s) (\<lambda>s. Inr (None, s))
          else Inr (Some ip, s))))"

definition open_bad :: "schedflag \<Rightarrow> nat \<Rightarrow> 'a consst_scheme \<Rightarrow> (int \<times> 'a consst_scheme) res" where
  "open_bad cfg ip s = bindr (iunlockput cfg ip s) (fail_op cfg)"

definition sys_open :: "schedflag \<Rightarrow> link \<Rightarrow> 'a consst_scheme \<Rightarrow> (int \<times> 'a consst_scheme) res" where
  "sys_open cfg lk s =
     need (argstr 0 s) s (\<lambda>path.
     need (argint 1 s) s (\<lambda>omode.
     bindr (begin_op s) (\<lambda>s.
     bindr (open_inode cfg path omode s) (\<lambda>(ip, s).
     case ip of None \<Rightarrow> fail_op cfg s
     | Some ip \<Rightarrow>
       bindr (filealloc s) (\<lambda>(f, s).
       case f of None \<Rightarrow> open_bad cfg ip s
       | Some f \<Rightarrow>
         bindr (fdalloc f s) (\<lambda>(fd, s).
         case fd of None \<Rightarrow> bindr (fileclose cfg lk f s) (open_bad cfg ip)
         | Some fd \<Rightarrow>
           bindr (iunlock cfg ip s) (\<lambda>s.
           bindr (end_op cfg s) (\<lambda>s.
           Inr (int fd, upd_file f (\<lambda>x. x\<lparr>ftype := FD_INODE, fip := ip, foff := 0,
             readable := (omode AND O_WRONLY = 0),
             writable := (omode AND O_WRONLY \<noteq> 0 \<or> omode AND O_RDWR \<noteq> 0)\<rparr>) s)))))))))"

text \<open>\<open>sys_mkdir\<close>, \<open>sys_mknod\<close> and \<open>sys_chdir\<close> open the transaction before they look at their arguments.\<close>

definition need_op :: "schedflag \<Rightarrow> 'b option res \<Rightarrow> 'a logst_scheme \<Rightarrow> ('b \<Rightarrow> (int \<times> 'a logst_scheme) res) \<Rightarrow> (int \<times> 'a logst_scheme) res" where
  "need_op cfg r s f = bindr r (\<lambda>x. case x of None \<Rightarrow> fail_op cfg s | Some y \<Rightarrow> f y)"

definition create_op :: "schedflag \<Rightarrow> u8 list \<Rightarrow> u16 \<Rightarrow> u16 \<Rightarrow> u16 \<Rightarrow> 'a consst_scheme \<Rightarrow> (int \<times> 'a consst_scheme) res" where
  "create_op cfg path type mj mn s =
     bindr (create cfg path type mj mn s) (\<lambda>(ip, s).
     case ip of None \<Rightarrow> fail_op cfg s
     | Some ip \<Rightarrow> bindr (iunlockput cfg ip s) (\<lambda>s. bindr (end_op cfg s) (\<lambda>s. Inr (0, s))))"

definition sys_mkdir :: "schedflag \<Rightarrow> 'a consst_scheme \<Rightarrow> (int \<times> 'a consst_scheme) res" where
  "sys_mkdir cfg s =
     bindr (begin_op s) (\<lambda>s.
     need_op cfg (argstr 0 s) s (\<lambda>path. create_op cfg path T_DIR 0 0 s))"

definition sys_mknod :: "schedflag \<Rightarrow> 'a consst_scheme \<Rightarrow> (int \<times> 'a consst_scheme) res" where
  "sys_mknod cfg s =
     bindr (begin_op s) (\<lambda>s.
     need_op cfg (argstr 0 s) s (\<lambda>path.
     need_op cfg (argint 1 s) s (\<lambda>mj.
     need_op cfg (argint 2 s) s (\<lambda>mn. create_op cfg path T_DEV (ucast mj) (ucast mn) s))))"

definition sys_chdir :: "schedflag \<Rightarrow> 'a consst_scheme \<Rightarrow> (int \<times> 'a consst_scheme) res" where
  "sys_chdir cfg s =
     bindr (begin_op s) (\<lambda>s.
     need_op cfg (argstr 0 s) s (\<lambda>path.
     bindr (namei (devsw cfg) cfg path s) (\<lambda>(ip, s).
     case ip of None \<Rightarrow> fail_op cfg s
     | Some ip \<Rightarrow>
       bindr (ilock cfg ip s) (\<lambda>s.
       if itype (icache s ip) \<noteq> T_DIR then bindr (iunlockput cfg ip s) (fail_op cfg)
       else bindr (iunlock cfg ip s) (\<lambda>s.
         bindr (theproc s) (\<lambda>me.
         case cwd (ptable s me) of None \<Rightarrow> Inl (Undef ''null'')
         | Some c \<Rightarrow>
           bindr (iput cfg c s) (\<lambda>s.
           bindr (end_op cfg s) (\<lambda>s.
           Inr (0, upd_proc me (\<lambda>q. q\<lparr>cwd := Some ip\<rparr>) s)))))))))"

definition pipe_undo :: "schedflag \<Rightarrow> link \<Rightarrow> nat \<Rightarrow> nat \<Rightarrow> 'a ftst_scheme \<Rightarrow> (int \<times> 'a ftst_scheme) res" where
  "pipe_undo cfg lk rdf wrf s =
     bindr (fileclose cfg lk rdf s) (\<lambda>s. bindr (fileclose cfg lk wrf s) (\<lambda>s. Inr (-1, s)))"

definition sys_pipe :: "schedflag \<Rightarrow> link \<Rightarrow> 'a ftst_scheme \<Rightarrow> (int \<times> 'a ftst_scheme) res" where
  "sys_pipe cfg lk s =
     need (argptr 0 8 s) s (\<lambda>a.
     bindr (pipealloc cfg lk s) (\<lambda>(r, s).
     case r of None \<Rightarrow> Inr (-1, s)
     | Some (rdf, wrf) \<Rightarrow>
       bindr (fdalloc rdf s) (\<lambda>(fd0, s).
       case fd0 of None \<Rightarrow> pipe_undo cfg lk rdf wrf s
       | Some fd0 \<Rightarrow>
         bindr (fdalloc wrf s) (\<lambda>(fd1, s).
         case fd1 of None \<Rightarrow> bindr (fdclear fd0 s) (pipe_undo cfg lk rdf wrf)
         | Some fd1 \<Rightarrow>
           bindr (mypgdir s) (\<lambda>pg.
           bindr (ustore32 pg a (of_nat fd0) s) (\<lambda>s.
           bindr (ustore32 pg (a + 4) (of_nat fd1) s) (\<lambda>s. Inr (0, s))))))))"

end
