(* ===== verification/Xv6_Exec.thy ===== *)
theory Xv6_Exec
  imports Xv6_Syscall
begin

unbundle bit_operations_syntax

text \<open>
  \<open>exec\<close> (exec.c), with \<open>loaduvm\<close> of vm.c, the headers of elf.h and \<open>sys_exec\<close>. The arguments are byte
  strings; they are read from the old address space, which \<open>exec\<close> frees only at the end.
\<close>

section \<open>ELF headers\<close>

definition ELF_MAGIC :: u32 where "ELF_MAGIC = 0x464C457F"
definition ELF_PROG_LOAD :: u32 where "ELF_PROG_LOAD = 1"

definition view16 :: "view \<Rightarrow> nat \<Rightarrow> u16" where
  "view16 v i = ucast (v i) OR push_bit 8 (ucast (v (i + 1)))"

definition view32 :: "view \<Rightarrow> nat \<Rightarrow> u32" where
  "view32 v i = ucast (v i) OR push_bit 8 (ucast (v (i + 1))) OR push_bit 16 (ucast (v (i + 2))) OR
     push_bit 24 (ucast (v (i + 3)))"

record elfhdr =
  magic :: u32
  entry :: u32
  phoff :: u32
  phnum :: u16

definition elfhdr_of :: "view \<Rightarrow> elfhdr" where
  "elfhdr_of v = \<lparr>magic = view32 v 0, entry = view32 v 24, phoff = view32 v 28, phnum = view16 v 44\<rparr>"

record proghdr =
  ph_type :: u32
  ph_off :: u32
  vaddr :: u32
  filesz :: u32
  memsz :: u32

definition proghdr_of :: "view \<Rightarrow> proghdr" where
  "proghdr_of v = \<lparr>ph_type = view32 v 0, ph_off = view32 v 4, vaddr = view32 v 8, filesz = view32 v 16,
     memsz = view32 v 20\<rparr>"

section \<open>Loading\<close>

partial_function (option) loaduvm_loop ::
    "schedflag \<Rightarrow> u32 \<Rightarrow> u32 \<Rightarrow> nat \<Rightarrow> u32 \<Rightarrow> u32 \<Rightarrow> u32 \<Rightarrow> 'a consst_scheme \<Rightarrow> (int \<times> 'a consst_scheme) res option" where
  "loaduvm_loop cfg pd addr ip offset z i s =
     (if i < z then
        bindro (walkpgdir pd (addr + i) False s) (\<lambda>(pte, s).
          if pte = 0 then Some (Inl (Panic ''loaduvm: address should exist''))
          else let pa = PTE_ADDR (load32 (ram s) pte);
                   n = (if z - i < PGSIZE then z - i else PGSIZE)
            in bindro (readi (devsw cfg) cfg ip (offset + i) n s) (\<lambda>(r, dst, s).
               let s = set_ram (put_view (p2v pa) (list_view dst) (of_nat (length dst)) (ram s)) s
               in if of_int r \<noteq> n then Some (Inr (-1, s))
                  else loaduvm_loop cfg pd addr ip offset z (i + PGSIZE) s))
      else Some (Inr (0, s)))"

definition loaduvm :: "schedflag \<Rightarrow> u32 \<Rightarrow> u32 \<Rightarrow> nat \<Rightarrow> u32 \<Rightarrow> u32 \<Rightarrow> 'a consst_scheme \<Rightarrow> (int \<times> 'a consst_scheme) res" where
  "loaduvm cfg pd addr ip offset z s =
     (if addr mod PGSIZE \<noteq> 0 then Inl (Panic ''loaduvm: addr must be page aligned'')
      else loopr (loaduvm_loop cfg pd addr ip offset z 0 s))"

text \<open>The loop over the program headers; \<open>None\<close> is a jump to \<open>bad\<close>.\<close>

fun exec_load :: "schedflag \<Rightarrow> link \<Rightarrow> nat \<Rightarrow> u32 \<Rightarrow> nat \<Rightarrow> u32 \<Rightarrow> u32 \<Rightarrow> 'a consst_scheme \<Rightarrow> (u32 option \<times> 'a consst_scheme) res" where
  "exec_load cfg lk ip pd 0 off z s = Inr (Some z, s)"
| "exec_load cfg lk ip pd (Suc k) off z s =
     bindr (readi (devsw cfg) cfg ip off 32 s) (\<lambda>(r, dst, s).
     let ph = proghdr_of (list_view dst)
     in if r \<noteq> 32 then Inr (None, s)
        else if ph_type ph \<noteq> ELF_PROG_LOAD then exec_load cfg lk ip pd k (off + 32) z s
        else if memsz ph < filesz ph then Inr (None, s)
        else bindr (allocuvm (l_end lk) pd z (vaddr ph + memsz ph) s) (\<lambda>(z, s).
          if z = 0 then Inr (None, s)
          else bindr (loaduvm cfg pd (vaddr ph) ip (ph_off ph) (filesz ph) s) (\<lambda>(r, s).
            if r < 0 then Inr (None, s)
            else exec_load cfg lk ip pd k (off + 32) z s)))"

section \<open>The user stack\<close>

definition MAXARG :: nat where "MAXARG = 32"

fun exec_args :: "u32 \<Rightarrow> u32 \<Rightarrow> u8 list list \<Rightarrow> nat \<Rightarrow> u32 \<Rightarrow> u32 list \<Rightarrow> 'a consst_scheme \<Rightarrow> ((u32 \<times> u32 list) option \<times> 'a consst_scheme) res" where
  "exec_args pt pd [] argc sp us s = Inr (Some (sp, us), s)"
| "exec_args pt pd (a # argv) argc sp us s =
     (if argc \<ge> MAXARG then Inr (None, s)
      else let n = of_nat (length a + 1); sp = (sp - n) AND NOT 3
        in bindr (copyout pt pd sp (list_view (a @ [0])) n s) (\<lambda>(r, s).
           if r < 0 then Inr (None, s) else exec_args pt pd argv (Suc argc) sp (us @ [sp]) s))"

definition ustack :: "u32 \<Rightarrow> u32 list \<Rightarrow> u32 list" where
  "ustack sp us = [0xFFFFFFFF, of_nat (length us), sp - (of_nat (length us) + 1) * 4] @ us @ [0]"

definition exec_stack :: "u32 \<Rightarrow> u32 \<Rightarrow> u8 list list \<Rightarrow> u32 \<Rightarrow> 'a consst_scheme \<Rightarrow> (u32 option \<times> 'a consst_scheme) res" where
  "exec_stack pt pd argv sp s =
     bindr (exec_args pt pd argv 0 sp [] s) (\<lambda>(r, s).
     case r of None \<Rightarrow> Inr (None, s)
     | Some (sp, us) \<Rightarrow>
         let n = (3 + of_nat (length us) + 1) * 4; sp' = sp - n
         in bindr (copyout pt pd sp' (list_view (concat (map le32 (ustack sp us)))) n s) (\<lambda>(r, s).
            Inr (if r < 0 then None else Some sp', s)))"

section \<open>\<open>exec\<close>\<close>

text \<open>\<open>ip\<close> is still locked when it is \<open>Some\<close>.\<close>

definition exec_bad :: "schedflag \<Rightarrow> link \<Rightarrow> u32 \<Rightarrow> nat option \<Rightarrow> 'a consst_scheme \<Rightarrow> (int \<times> 'a consst_scheme) res" where
  "exec_bad cfg lk pd ip s =
     bindr (if pd \<noteq> 0 then freevm (l_end lk) pd s else Inr s) (\<lambda>s.
     case ip of None \<Rightarrow> Inr (-1, s)
     | Some ip \<Rightarrow> bindr (iunlockput cfg ip s) (fail_op cfg))"

definition path_last :: "u8 list \<Rightarrow> u8 list" where
  "path_last path = rev (takeWhile (\<lambda>c. c \<noteq> slash) (rev path))"

definition set_name :: "u8 list \<Rightarrow> proc \<Rightarrow> proc" where
  "set_name nm q = (let bs = safestrcpy_bytes (list_view nm) 16 in q\<lparr>pname := bs @ drop (length bs) (pname q)\<rparr>)"

definition tf_put :: "nat \<Rightarrow> u32 \<Rightarrow> u32 \<Rightarrow> 'a procst_scheme \<Rightarrow> 'a procst_scheme" where
  "tf_put p f w s = set_ram (store32 (ram s) (tf (ptable s p) + f) w) s"

definition exec_commit :: "link \<Rightarrow> u8 list \<Rightarrow> u32 \<Rightarrow> u32 \<Rightarrow> u32 \<Rightarrow> u32 \<Rightarrow> 'a consst_scheme \<Rightarrow> (int \<times> 'a consst_scheme) res" where
  "exec_commit lk path d z sp ent s =
     bindr (theproc s) (\<lambda>me.
     let s = upd_proc me (set_name (path_last path)) s;
         oldpgdir = pgdir (ptable s me);
         s = upd_proc me (\<lambda>q. q\<lparr>pgdir := d, sz := z\<rparr>) s;
         s = tf_put me TF_esp sp (tf_put me TF_eip ent s)
     in bindr (switchuvm me s) (\<lambda>s. bindr (freevm (l_end lk) oldpgdir s) (\<lambda>s. Inr (0, s))))"

text \<open>The first \<open>readi\<close> is compared with \<open>sizeof(elf)\<close> as an unsigned number, so a result of -1 passes
  and the header is whatever \<open>stk\<close> the stack holds there.\<close>

definition exec :: "schedflag \<Rightarrow> link \<Rightarrow> view \<Rightarrow> u8 list \<Rightarrow> u8 list list \<Rightarrow> 'a consst_scheme \<Rightarrow> (int \<times> 'a consst_scheme) res" where
  "exec cfg lk stk path argv s =
     bindr (begin_op s) (\<lambda>s.
     bindr (namei (devsw cfg) cfg path s) (\<lambda>(ip, s).
     case ip of None \<Rightarrow> fail_op cfg s
     | Some ip \<Rightarrow>
       bindr (ilock cfg ip s) (\<lambda>s.
       bindr (readi (devsw cfg) cfg ip 0 52 s) (\<lambda>(r, dst, s).
       let elf = elfhdr_of (\<lambda>i. if i < length dst then dst ! i else stk i)
       in if (of_int r :: u32) < 52 then exec_bad cfg lk 0 (Some ip) s
          else if magic elf \<noteq> ELF_MAGIC then exec_bad cfg lk 0 (Some ip) s
          else bindr (setupkvm (l_data lk) s) (\<lambda>(pd, s).
            if pd = 0 then exec_bad cfg lk 0 (Some ip) s
            else bindr (exec_load cfg lk ip pd (unat (phnum elf)) (phoff elf) 0 s) (\<lambda>(r, s).
              case r of None \<Rightarrow> exec_bad cfg lk pd (Some ip) s
              | Some z \<Rightarrow>
                bindr (iunlockput cfg ip s) (\<lambda>s.
                bindr (end_op cfg s) (\<lambda>s.
                bindr (allocuvm (l_end lk) pd (PGROUNDUP z) (PGROUNDUP z + 2 * PGSIZE) s) (\<lambda>(z, s).
                if z = 0 then exec_bad cfg lk pd None s
                else bindr (clearpteu pd (z - 2 * PGSIZE) s) (\<lambda>s.
                  bindr (exec_stack (loaded_pgdir s) pd argv z s) (\<lambda>(r, s).
                  case r of None \<Rightarrow> exec_bad cfg lk pd None s
                  | Some sp \<Rightarrow> exec_commit lk path pd z sp (entry elf) s)))))))))))"

text \<open>The loop of \<open>sys_exec\<close> over the argument pointers, \<open>k\<close> of which still fit.\<close>

fun fetch_argv :: "nat \<Rightarrow> u32 \<Rightarrow> u8 list list \<Rightarrow> 'a procst_scheme \<Rightarrow> u8 list list option res" where
  "fetch_argv 0 a argv s = Inr None"
| "fetch_argv (Suc k) a argv s =
     bindr (fetchint a s) (\<lambda>r.
     case r of None \<Rightarrow> Inr None
     | Some uarg \<Rightarrow>
         if uarg = 0 then Inr (Some argv)
         else bindr (fetchstr uarg s) (\<lambda>r.
           case r of None \<Rightarrow> Inr None
           | Some x \<Rightarrow> fetch_argv k (a + 4) (argv @ [x]) s))"

definition sys_exec :: "schedflag \<Rightarrow> link \<Rightarrow> view \<Rightarrow> 'a consst_scheme \<Rightarrow> (int \<times> 'a consst_scheme) res" where
  "sys_exec cfg lk stk s =
     need (argstr 0 s) s (\<lambda>path.
     need (argint 1 s) s (\<lambda>uargv.
     need (fetch_argv MAXARG uargv [] s) s (\<lambda>argv. exec cfg lk stk path argv s)))"

end
