(* ===== verification/Xv6_Life.thy ===== *)
theory Xv6_Life
  imports Xv6_Exec
begin

unbundle bit_operations_syntax

text \<open>
  The rest of the life of a process: \<open>userinit\<close>, \<open>fork\<close>, \<open>exit\<close> and \<open>forkret\<close> (proc.c) and the system
  calls of sysproc.c. The trap frame of a process is in kernel memory at \<open>tf\<close>; \<open>copytf\<close> (trap.c) is
  here because \<open>sys_sigreturn\<close> calls it.
\<close>

section \<open>State\<close>

record kernst = consst +
  forkret_first :: bool              \<comment> \<open>\<open>first\<close> of \<open>forkret\<close>\<close>
  idt :: "nat \<Rightarrow> gatedesc"
  isFCFS :: bool

definition load16 :: "mem \<Rightarrow> u32 \<Rightarrow> u16" where
  "load16 m a = ucast (m a) OR push_bit 8 (ucast (m (a + 1)))"

definition store16 :: "mem \<Rightarrow> u32 \<Rightarrow> u16 \<Rightarrow> mem" where
  "store16 m a w = m(a := ucast w, a + 1 := ucast (drop_bit 8 w))"

definition tf_get :: "nat \<Rightarrow> u32 \<Rightarrow> 'a procst_scheme \<Rightarrow> u32" where
  "tf_get p f s = load32 (ram s) (tf (ptable s p) + f)"

definition tf_put16 :: "nat \<Rightarrow> u32 \<Rightarrow> u16 \<Rightarrow> 'a procst_scheme \<Rightarrow> 'a procst_scheme" where
  "tf_put16 p f w s = set_ram (store16 (ram s) (tf (ptable s p) + f) w) s"

section \<open>Creating and ending processes\<close>

definition DPL_USER :: u16 where "DPL_USER = 3"
definition FL_IF :: u32 where "FL_IF = 0x200"

text \<open>\<open>code\<close> and \<open>len\<close> are the linked-in image of initcode.S. \<open>userinit\<close> runs before there are other
  processes and puts the first one into the queue without the lock of the table.\<close>

definition userinit :: "schedflag \<Rightarrow> link \<Rightarrow> view \<Rightarrow> u32 \<Rightarrow> 'a consst_scheme \<Rightarrow> 'a consst_scheme res" where
  "userinit cfg lk code len s =
     bindr (allocproc lk s) (\<lambda>(p, s).
     let s = s\<lparr>initproc := p\<rparr>
     in case p of None \<Rightarrow> Inl (Undef ''null'')
     | Some p \<Rightarrow>
       bindr (setupkvm (l_data lk) s) (\<lambda>(d, s).
       let s = upd_proc p (\<lambda>q. q\<lparr>pgdir := d\<rparr>) s
       in if d = 0 then Inl (Panic ''userinit: out of memory?'')
          else bindr (inituvm d code len s) (\<lambda>s.
            let s = upd_proc p (\<lambda>q. q\<lparr>sz := PGSIZE\<rparr>) s;
                s = set_ram (memset (tf (ptable s p)) 0 sizeof_trapframe (ram s)) s;
                s = tf_put16 p TF_cs ((of_nat SEG_UCODE * 8) OR DPL_USER) s;
                s = tf_put16 p TF_ds ((of_nat SEG_UDATA * 8) OR DPL_USER) s;
                s = tf_put16 p TF_es (load16 (ram s) (tf (ptable s p) + TF_ds)) s;
                s = tf_put16 p TF_ss (load16 (ram s) (tf (ptable s p) + TF_ds)) s;
                s = tf_put p TF_eflags FL_IF s;
                s = tf_put p TF_esp PGSIZE s;
                s = tf_put p TF_eip 0 s;
                s = upd_proc p (set_name (cstr ''initcode'')) s
            in bindr (namei (devsw cfg) cfg [slash] s) (\<lambda>(ip, s).
               enqueue cfg p (upd_proc p (\<lambda>q. q\<lparr>cwd := ip, state := RUNNABLE, priority := 0\<rparr>) s)))))"

definition fork_files :: "nat \<Rightarrow> nat \<Rightarrow> 'a ftst_scheme \<Rightarrow> 'a ftst_scheme res" where
  "fork_files me np s =
     forr 0 NOFILE (\<lambda>i s.
       case ofile (ptable s me) i of None \<Rightarrow> Inr s
       | Some f \<Rightarrow> bindr (filedup f s) (\<lambda>(f, s).
           Inr (upd_proc np (\<lambda>q. q\<lparr>ofile := (ofile q)(i := Some f)\<rparr>) s))) s"

definition fork_times :: "nat \<Rightarrow> nat \<Rightarrow> 'a procst_scheme \<Rightarrow> 'a procst_scheme res" where
  "fork_times me np s =
     bindr (acquire TicksLock (upd_proc np (\<lambda>q. q\<lparr>runQuanta := 0, rutime := 0\<rparr>) s)) (\<lambda>s.
     bindr (release TicksLock (upd_proc np (\<lambda>q. q\<lparr>ctime := ticks s\<rparr>) s)) (\<lambda>s.
     Inr (upd_proc np (\<lambda>q. q\<lparr>ttime := 0, stime := 0, retime := 0, priority := priority (ptable s me)\<rparr>) s)))"

definition fork :: "schedflag \<Rightarrow> link \<Rightarrow> 'a ftst_scheme \<Rightarrow> (u32 \<times> 'a ftst_scheme) res" where
  "fork cfg lk s =
     bindr (allocproc lk s) (\<lambda>(np, s).
     case np of None \<Rightarrow> Inr (-1, s)
     | Some np \<Rightarrow>
       bindr (theproc s) (\<lambda>me.
       bindr (copyuvm (l_end lk) (l_data lk) (pgdir (ptable s me)) (sz (ptable s me)) s) (\<lambda>(d, s).
       let s = upd_proc np (\<lambda>q. q\<lparr>pgdir := d\<rparr>) s
       in if d = 0 then
            bindr (kfree (l_end lk) (kstack (ptable s np)) s) (\<lambda>s.
            Inr (-1, upd_proc np (\<lambda>q. q\<lparr>kstack := 0, state := UNUSED\<rparr>) s))
          else
            let s = upd_proc np (\<lambda>q. q\<lparr>sz := sz (ptable s me), parent := Some me\<rparr>) s;
                s = set_ram (memmove (tf (ptable s np)) (tf (ptable s me)) sizeof_trapframe (ram s)) s;
                s = tf_put np TF_eax 0 s
            in bindr (fork_files me np s) (\<lambda>s.
               bindr (case cwd (ptable s me) of None \<Rightarrow> Inl (Undef ''null'') | Some c \<Rightarrow> idup c s) (\<lambda>(c, s).
               let s = upd_proc np (\<lambda>q. q\<lparr>cwd := Some c\<rparr>) s;
                   s = upd_proc np (set_name (pname (ptable s me))) s;
                   pd = pid (ptable s np)
               in bindr (fork_times me np s) (\<lambda>s.
                  bindr (fork_ready cfg np s) (\<lambda>s. Inr (pd, s))))))))"

definition exit_files :: "schedflag \<Rightarrow> link \<Rightarrow> nat \<Rightarrow> 'a ftst_scheme \<Rightarrow> 'a ftst_scheme res" where
  "exit_files cfg lk me s =
     forr 0 NOFILE (\<lambda>fd s.
       case ofile (ptable s me) fd of None \<Rightarrow> Inr s
       | Some f \<Rightarrow> bindr (fileclose cfg lk f s) (\<lambda>s.
           Inr (upd_proc me (\<lambda>q. q\<lparr>ofile := (ofile q)(fd := None)\<rparr>) s))) s"

definition exit :: "schedflag \<Rightarrow> link \<Rightarrow> 'a ftst_scheme \<Rightarrow> (bool \<times> 'a ftst_scheme) res" where
  "exit cfg lk s =
     (if myproc s = initproc s then Inl (Panic ''init exiting'')
      else bindr (theproc s) (\<lambda>me.
        bindr (exit_files cfg lk me s) (\<lambda>s.
        bindr (begin_op s) (\<lambda>s.
        bindr (case cwd (ptable s me) of None \<Rightarrow> Inl (Undef ''null'') | Some c \<Rightarrow> iput cfg c s) (\<lambda>s.
        bindr (end_op cfg s) (\<lambda>s.
        exit_sched cfg (upd_proc me (\<lambda>q. q\<lparr>cwd := None\<rparr>) s)))))))"

definition forkret :: "schedflag \<Rightarrow> 'a kernst_scheme \<Rightarrow> 'a kernst_scheme res" where
  "forkret cfg s =
     bindr (release PtableLock s) (\<lambda>s.
     if forkret_first s then initlog cfg (s\<lparr>forkret_first := False\<rparr>) else Inr s)"

end
