(* ===== verification/Xv6_Trap.thy ===== *)
theory Xv6_Trap
  imports Xv6_Life
begin

unbundle bit_operations_syntax

text \<open>
  Signals, the system calls of sysproc.c, the dispatch of syscall.c and \<open>trap\<close> (trap.c). A call that
  switches to the scheduler ends in \<open>Switched\<close>; what follows the switch is the continuation of the
  routine that slept. Acknowledging an interrupt at the local APIC has no effect on the modelled state.
\<close>

section \<open>Signals\<close>

text \<open>The fields of a trap frame with their sizes, in the order in which \<open>copytf\<close> copies them.\<close>

definition tf_fields :: "(u32 \<times> nat) list" where
  "tf_fields =
     [(0, 4), (4, 4), (8, 4), (12, 4), (16, 4), (20, 4), (24, 4), (28, 4),
      (32, 2), (34, 2), (36, 2), (38, 2), (40, 2), (42, 2), (44, 2), (46, 2),
      (48, 4), (52, 4), (56, 4), (60, 2), (62, 2), (64, 4), (68, 4), (72, 2), (74, 2)]"

definition bytes_at :: "mem \<Rightarrow> u32 \<Rightarrow> nat \<Rightarrow> u8 list" where
  "bytes_at m a n = map (\<lambda>i. m (a + of_nat i)) [0..<n]"

definition copy_field :: "u32 \<Rightarrow> u32 \<Rightarrow> u32 \<times> nat \<Rightarrow> mem \<Rightarrow> mem" where
  "copy_field src dst f m =
     put_view (dst + fst f) (list_view (bytes_at m (src + fst f) (snd f))) (of_nat (snd f)) m"

definition copytf :: "u32 \<Rightarrow> u32 \<Rightarrow> mem \<Rightarrow> mem" where
  "copytf src dst m = fold (copy_field src dst) tf_fields m"

partial_function (option) lowest_loop :: "u32 \<Rightarrow> int \<Rightarrow> int option" where
  "lowest_loop num bitNum =
     (if num AND 1 = 0 then lowest_loop (signed_drop_bit 1 num) (bitNum + 1) else Some bitNum)"

definition getLowestSetBit :: "u32 \<Rightarrow> int option" where
  "getLowestSetBit num = (if num = 0 then Some (-1) else lowest_loop num 0)"

text \<open>\<open>int2bin\<close> fills a fresh page with the binary digits of its argument and returns the page.\<close>

fun int2bin_digits :: "nat \<Rightarrow> nat \<Rightarrow> u8 list \<Rightarrow> u8 list" where
  "int2bin_digits 0 a str = str"
| "int2bin_digits (Suc cnt) a str =
     (if a > 0 then int2bin_digits cnt (a div 2) (if a mod 2 = 1 then str[cnt := 49] else str) else str)"

definition int2bin :: "u32 \<Rightarrow> 'a memst_scheme \<Rightarrow> (u32 \<times> 'a memst_scheme) res" where
  "int2bin a s =
     bindr (kalloc s) (\<lambda>(str, s).
     if str = 0 then Inl (Undef ''null'')
     else let bs = int2bin_digits 32 (nat (sint a)) (replicate 32 48)
       in Inr (str, set_ram (put_view str (list_view bs) 32 (ram s)) s))"

text \<open>The pointers \<open>tf\<close> and \<open>backuptf\<close> are kernel addresses, except that \<open>backuptf\<close> may be null: address 0
  is then a user page of the current process like any other.\<close>

definition save_tf :: "nat \<Rightarrow> 'a procst_scheme \<Rightarrow> 'a procst_scheme res" where
  "save_tf me s =
     (let p = ptable s me
      in if backuptf p = 0 then ustore_bytes (pgdir p) 0 (bytes_at (ram s) (tf p) 76) s
         else Inr (set_ram (copytf (tf p) (backuptf p) (ram s)) s))"

definition restore_tf :: "nat \<Rightarrow> 'a procst_scheme \<Rightarrow> 'a procst_scheme res" where
  "restore_tf me s =
     (let p = ptable s me
      in if backuptf p = 0 then
           bindr (mapr (\<lambda>i. uload8 (pgdir p) (of_nat i) s) [0..<76]) (\<lambda>bs.
           Inr (set_ram (put_view (tf p) (list_view bs) 76 (ram s)) s))
         else Inr (set_ram (copytf (backuptf p) (tf p) (ram s)) s))"

text \<open>Delivering signal \<open>signum\<close>: \<open>sig\<close> is the code between \<open>implicit_sigret\<close> and \<open>end_of_sigret\<close>.\<close>

definition deliver :: "u8 list \<Rightarrow> nat \<Rightarrow> nat \<Rightarrow> 'a procst_scheme \<Rightarrow> 'a procst_scheme res" where
  "deliver sig me signum s =
     (let s = upd_proc me (\<lambda>q. q\<lparr>pending := pending q AND NOT (push_bit signum 1), insignal := True\<rparr>) s;
          handler = signal_handlers (ptable s me) signum
      in bindr (if backuptf (ptable s me) = 0
                then bindr (kalloc s) (\<lambda>(a, s). Inr (upd_proc me (\<lambda>q. q\<lparr>backuptf := a\<rparr>) s))
                else Inr s) (\<lambda>s.
         bindr (save_tf me s) (\<lambda>s.
         let sp = tf_get me TF_esp s; pg = pgdir (ptable s me); funcAddr = sp - 20
         in bindr (copyout (loaded_pgdir s) pg funcAddr (list_view sig) (of_nat (length sig)) s) (\<lambda>(_, s).
            bindr (ustore32 pg (sp - 4) (of_nat signum) s) (\<lambda>s.
            bindr (ustore32 pg (sp - 8) funcAddr s) (\<lambda>s.
            let s = tf_put me TF_esp (tf_get me TF_esp s - 8) s
            in Inr (tf_put me TF_eip handler s)))))))"

definition T_SYSCALL :: u32 where "T_SYSCALL = 64"

definition handleSignals :: "u8 list \<Rightarrow> u32 \<Rightarrow> 'a procst_scheme \<Rightarrow> 'a procst_scheme res" where
  "handleSignals sig tfp s =
     (if load32 (ram s) (tfp + TF_trapno) = T_SYSCALL then
        bindr (theproc s) (\<lambda>me.
        if 0 <s pending (ptable s me) \<and> \<not> insignal (ptable s me) then
          case getLowestSetBit (pending (ptable s me)) of
            None \<Rightarrow> Inl (Blocked ''loop'')
          | Some k \<Rightarrow> deliver sig me (nat k) s
        else Inr s)
      else Inr s)"

section \<open>The system calls of sysproc.c\<close>

text \<open>A call that never sleeps.\<close>

definition ret :: "(int \<times> 's) res \<Rightarrow> (u32 outcome \<times> 's) res" where
  "ret r = bindr r (\<lambda>(k, s). Inr (Done (of_int k), s))"

definition sys_fork :: "schedflag \<Rightarrow> link \<Rightarrow> 'a ftst_scheme \<Rightarrow> (u32 outcome \<times> 'a ftst_scheme) res" where
  "sys_fork cfg lk s = bindr (fork cfg lk s) (\<lambda>(r, s). Inr (Done r, s))"

definition sys_exit :: "schedflag \<Rightarrow> link \<Rightarrow> 'a ftst_scheme \<Rightarrow> (u32 outcome \<times> 'a ftst_scheme) res" where
  "sys_exit cfg lk s = bindr (exit cfg lk s) (\<lambda>(i, s). Inr (Switched i, s))"

definition sys_kill :: "schedflag \<Rightarrow> 'a procst_scheme \<Rightarrow> (int \<times> 'a procst_scheme) res" where
  "sys_kill cfg s = need (argint 0 s) s (\<lambda>pd. kill cfg pd s)"

definition sys_getpid :: "'a procst_scheme \<Rightarrow> (u32 outcome \<times> 'a procst_scheme) res" where
  "sys_getpid s = bindr (theproc s) (\<lambda>me. Inr (Done (pid (ptable s me)), s))"

definition sys_sbrk :: "link \<Rightarrow> 'a procst_scheme \<Rightarrow> (int \<times> 'a procst_scheme) res" where
  "sys_sbrk lk s =
     need (argint 0 s) s (\<lambda>n.
     bindr (theproc s) (\<lambda>me.
     let addr = sint (sz (ptable s me))
     in bindr (growproc lk (sint n) s) (\<lambda>(r, s). Inr (if r < 0 then -1 else addr, s))))"

definition sleep_turn :: "u32 \<Rightarrow> u32 \<Rightarrow> 'a procst_scheme \<Rightarrow> (u32 outcome \<times> 'a procst_scheme) res" where
  "sleep_turn n ticks0 s =
     (if ticks s - ticks0 < n then
        bindr (theproc s) (\<lambda>me.
        if killed (ptable s me) then bindr (release TicksLock s) (\<lambda>s. Inr (Done (-1), s))
        else bindr (sleep ChanTicks (Some TicksLock) s) (\<lambda>(i, s). Inr (Switched i, s)))
      else bindr (release TicksLock s) (\<lambda>s. Inr (Done 0, s)))"

definition sys_sleep :: "'a procst_scheme \<Rightarrow> (u32 outcome \<times> 'a procst_scheme) res" where
  "sys_sleep s =
     bindr (argint 0 s) (\<lambda>r.
     case r of None \<Rightarrow> Inr (Done (-1), s)
     | Some n \<Rightarrow> bindr (acquire TicksLock s) (\<lambda>s. sleep_turn n (ticks s) s))"

definition sys_sleep_resume :: "u32 \<Rightarrow> u32 \<Rightarrow> bool \<Rightarrow> 'a procst_scheme \<Rightarrow> (u32 outcome \<times> 'a procst_scheme) res" where
  "sys_sleep_resume n ticks0 i s = bindr (sleep_resume TicksLock i s) (sleep_turn n ticks0)"

definition sys_uptime :: "'a procst_scheme \<Rightarrow> (u32 outcome \<times> 'a procst_scheme) res" where
  "sys_uptime s =
     bindr (acquire TicksLock s) (\<lambda>s.
     let xticks = ticks s in bindr (release TicksLock s) (\<lambda>s. Inr (Done xticks, s)))"

text \<open>\<open>sys_signal\<close> and \<open>sys_sigsend\<close> fetch both arguments before they look at either result.\<close>

definition arg_two :: "'a procst_scheme \<Rightarrow> (u32 \<times> u32) option res" where
  "arg_two s =
     bindr (argint 0 s) (\<lambda>x. bindr (argint 1 s) (\<lambda>y.
     Inr (case (x, y) of (Some x, Some y) \<Rightarrow> Some (x, y) | _ \<Rightarrow> None)))"

definition sys_signal :: "'a procst_scheme \<Rightarrow> (u32 outcome \<times> 'a procst_scheme) res" where
  "sys_signal s =
     bindr (arg_two s) (\<lambda>r.
     case r of None \<Rightarrow> Inr (Done (-1), s)
     | Some (signum, handler) \<Rightarrow> bindr (signal (sint signum) handler s) (\<lambda>(r, s). Inr (Done r, s)))"

definition sys_sigsend :: "'a procst_scheme \<Rightarrow> (int \<times> 'a procst_scheme) res" where
  "sys_sigsend s = need (arg_two s) s (\<lambda>(pd, signum). sigsend pd (sint signum) s)"

definition sys_sigreturn :: "'a procst_scheme \<Rightarrow> (u32 outcome \<times> 'a procst_scheme) res" where
  "sys_sigreturn s =
     bindr (theproc s) (\<lambda>me.
     bindr (restore_tf me s) (\<lambda>s. Inr (Done 0, upd_proc me (\<lambda>q. q\<lparr>insignal := False\<rparr>) s)))"

definition sys_advanceprocstats :: "'a procst_scheme \<Rightarrow> (u32 outcome \<times> 'a procst_scheme) res" where
  "sys_advanceprocstats s = bindr (advanceprocstats s) (\<lambda>s. Inr (Done 0, s))"

definition sys_wait_stat :: "link \<Rightarrow> 'a procst_scheme \<Rightarrow> (u32 outcome \<times> 'a procst_scheme) res" where
  "sys_wait_stat lk s =
     bindr (argint 0 s) (\<lambda>r. case r of None \<Rightarrow> Inr (Done (-1), s) | Some perfP \<Rightarrow> wait_stat lk perfP s)"

definition sys_priority :: "'a procst_scheme \<Rightarrow> (int \<times> 'a procst_scheme) res" where
  "sys_priority s =
     need (argint 0 s) s (\<lambda>pr.
     bindr (theproc s) (\<lambda>me. Inr (0, upd_proc me (\<lambda>q. q\<lparr>priority := pr\<rparr>) s)))"

section \<open>Dispatch\<close>

text \<open>The table \<open>syscalls\<close>, indexed by the numbers of syscall.h.\<close>

definition syscalls :: "schedflag \<Rightarrow> link \<Rightarrow> view \<Rightarrow> (nat \<times> ('a kernst_scheme \<Rightarrow> (u32 outcome \<times> 'a kernst_scheme) res)) list" where
  "syscalls cfg lk stk =
     [(1, sys_fork cfg lk), (2, sys_exit cfg lk), (3, wait lk), (4, \<lambda>s. ret (sys_pipe cfg lk s)),
      (5, \<lambda>s. ret (sys_read cfg s)), (6, \<lambda>s. ret (sys_kill cfg s)), (7, \<lambda>s. ret (sys_exec cfg lk stk s)),
      (8, \<lambda>s. ret (sys_fstat cfg s)), (9, \<lambda>s. ret (sys_chdir cfg s)), (10, \<lambda>s. ret (sys_dup s)),
      (11, sys_getpid), (12, \<lambda>s. ret (sys_sbrk lk s)), (13, sys_sleep), (14, sys_uptime),
      (15, \<lambda>s. ret (sys_open cfg lk s)), (16, \<lambda>s. ret (sys_write cfg s)), (17, \<lambda>s. ret (sys_mknod cfg s)),
      (18, \<lambda>s. ret (sys_unlink cfg s)), (19, \<lambda>s. ret (sys_link cfg s)), (20, \<lambda>s. ret (sys_mkdir cfg s)),
      (21, \<lambda>s. ret (sys_close cfg lk s)), (22, sys_signal), (23, sys_advanceprocstats),
      (24, sys_wait_stat lk), (25, \<lambda>s. ret (sys_sigsend s)), (26, sys_sigreturn),
      (27, \<lambda>s. ret (sys_priority s))]"

text \<open>The end of \<open>syscall\<close>, when the call has returned \<open>r\<close>.\<close>

definition syscall_return :: "u32 \<Rightarrow> 'a procst_scheme \<Rightarrow> 'a procst_scheme res" where
  "syscall_return r s = bindr (theproc s) (\<lambda>me. Inr (tf_put me TF_eax r s))"

definition syscall :: "schedflag \<Rightarrow> link \<Rightarrow> view \<Rightarrow> 'a kernst_scheme \<Rightarrow> (unit outcome \<times> 'a kernst_scheme) res" where
  "syscall cfg lk stk s =
     bindr (theproc s) (\<lambda>me.
     let num = tf_get me TF_eax s
     in case (if 0 <s num then map_of (syscalls cfg lk stk) (unat num) else None) of
          Some f \<Rightarrow>
            bindr (f s) (\<lambda>(r, s).
            case r of Switched i \<Rightarrow> Inr (Switched i, s)
            | Done r \<Rightarrow> bindr (syscall_return r s) (\<lambda>s. Inr (Done (), s)))
        | None \<Rightarrow>
            bindr (cprintf (Some (cstr ''%d %s: unknown sys call %d'' @ [10]))
              [PInt (pid (ptable s me)), PStr (Some (pname (ptable s me))), PInt num] s) (\<lambda>s.
            bindr (syscall_return (-1) s) (\<lambda>s. Inr (Done (), s))))"

section \<open>Traps\<close>

definition tvinit :: "(nat \<Rightarrow> u32) \<Rightarrow> 'a kernst_scheme \<Rightarrow> 'a kernst_scheme" where
  "tvinit vectors s =
     initlock TicksLock (s\<lparr>idt := (\<lambda>i. if i < 256
       then SETGATE (i = 64) (of_nat SEG_KCODE * 8) (vectors i) (if i = 64 then 3 else 0) else idt s i)\<rparr>)"

definition trap_exit :: "schedflag \<Rightarrow> link \<Rightarrow> 'a ftst_scheme \<Rightarrow> (unit outcome \<times> 'a ftst_scheme) res" where
  "trap_exit cfg lk s = bindr (exit cfg lk s) (\<lambda>(i, s). Inr (Switched i, s))"

definition trap_syscall :: "schedflag \<Rightarrow> link \<Rightarrow> view \<Rightarrow> u32 \<Rightarrow> 'a kernst_scheme \<Rightarrow> (unit outcome \<times> 'a kernst_scheme) res" where
  "trap_syscall cfg lk stk tfp s =
     bindr (theproc s) (\<lambda>me.
     if killed (ptable s me) then trap_exit cfg lk s
     else bindr (syscall cfg lk stk (upd_proc me (\<lambda>q. q\<lparr>tf := tfp\<rparr>) s)) (\<lambda>(r, s).
       case r of Switched i \<Rightarrow> Inr (Switched i, s)
       | Done _ \<Rightarrow> if killed (ptable s me) then trap_exit cfg lk s else Inr (Done (), s)))"

definition trap_timer :: "schedflag \<Rightarrow> 'a procst_scheme \<Rightarrow> 'a procst_scheme res" where
  "trap_timer cfg s =
     (if cur s = 0 then
        bindr (acquire TicksLock s) (\<lambda>s.
        bindr (wakeup cfg (Some ChanTicks) (s\<lparr>ticks := ticks s + 1\<rparr>)) (\<lambda>s.
        bindr (advanceprocstats s) (release TicksLock)))
      else Inr s)"

text \<open>A trap that is none of the known interrupts: a fault. \<open>cr2\<close> is the faulting address.\<close>

definition trap_fault :: "u32 \<Rightarrow> u32 \<Rightarrow> 'a consst_scheme \<Rightarrow> 'a consst_scheme res" where
  "trap_fault cr2 tfp s =
     (let no = load32 (ram s) (tfp + TF_trapno); eip = load32 (ram s) (tfp + TF_eip)
      in case myproc s of
           Some me \<Rightarrow>
             if load16 (ram s) (tfp + TF_cs) AND 3 = 0 then Inl (Panic ''trap'')
             else bindr (cprintf (Some (cstr ''pid %d %s: trap %d err %d on cpu %d eip 0x%x addr 0x%x--kill proc'' @ [10]))
                 [PInt (pid (ptable s me)), PStr (Some (pname (ptable s me))), PInt no,
                  PInt (load32 (ram s) (tfp + TF_err)), PInt (of_nat (cur s)), PInt eip, PInt cr2] s) (\<lambda>s.
               Inr (upd_proc me (\<lambda>q. q\<lparr>killed := True\<rparr>) s))
         | None \<Rightarrow> Inl (Panic ''trap''))"

text \<open>The kernel with the memory disk; with ide.c the handler of interrupt 14 is its \<open>ideintr\<close>.\<close>

definition trap_irq :: "schedflag \<Rightarrow> u32 \<Rightarrow> u32 \<Rightarrow> 'a consst_scheme \<Rightarrow> 'a consst_scheme res" where
  "trap_irq cfg cr2 tfp s =
     (let no = load32 (ram s) (tfp + TF_trapno)
      in if no = 32 then trap_timer cfg s
         else if no = 32 + 14 then Inr (mem_ideintr s)
         else if no = 32 + 15 then Inr s
         else if no = 32 + 1 then kbdintr cfg s
         else if no = 32 + 4 then uartintr cfg s
         else if no = 32 + 7 \<or> no = 32 + 31 then
           cprintf (Some (cstr ''cpu%d: spurious interrupt at %x:%x'' @ [10]))
             [PInt (of_nat (cur s)), PInt (ucast (load16 (ram s) (tfp + TF_cs))),
              PInt (load32 (ram s) (tfp + TF_eip))] s
         else trap_fault cr2 tfp s)"

text \<open>The two tests for a killed process in user space, before and after the processor is given up.\<close>

definition trap_killed :: "u32 \<Rightarrow> 'a procst_scheme \<Rightarrow> bool" where
  "trap_killed tfp s =
     (case myproc s of None \<Rightarrow> False
      | Some me \<Rightarrow> killed (ptable s me) \<and> load16 (ram s) (tfp + TF_cs) AND 3 = DPL_USER)"

definition trap_end :: "schedflag \<Rightarrow> link \<Rightarrow> u32 \<Rightarrow> 'a ftst_scheme \<Rightarrow> (unit outcome \<times> 'a ftst_scheme) res" where
  "trap_end cfg lk tfp s = (if trap_killed tfp s then trap_exit cfg lk s else Inr (Done (), s))"

definition QUANTA :: int where "QUANTA = 5"

definition trap_tick :: "schedflag \<Rightarrow> nat \<Rightarrow> 'a kernst_scheme \<Rightarrow> (unit outcome \<times> 'a kernst_scheme) res" where
  "trap_tick cfg me s =
     (let s = (if cfg = FCFS then s\<lparr>isFCFS := True\<rparr> else s)
      in if sint (runQuanta (ptable s me)) mod QUANTA = 0 \<and> \<not> isFCFS s then
           bindr (yield cfg (upd_proc me (\<lambda>q. q\<lparr>runQuanta := rutime q\<rparr>) s)) (\<lambda>(i, s). Inr (Switched i, s))
         else Inr (Done (), upd_proc me (\<lambda>q. q\<lparr>runQuanta := runQuanta q + 1\<rparr>) s))"

definition trap :: "schedflag \<Rightarrow> link \<Rightarrow> view \<Rightarrow> u32 \<Rightarrow> u32 \<Rightarrow> 'a kernst_scheme \<Rightarrow> (unit outcome \<times> 'a kernst_scheme) res" where
  "trap cfg lk stk cr2 tfp s =
     (if load32 (ram s) (tfp + TF_trapno) = T_SYSCALL then trap_syscall cfg lk stk tfp s
      else bindr (trap_irq cfg cr2 tfp s) (\<lambda>s.
        if trap_killed tfp s then trap_exit cfg lk s
        else case myproc s of
          Some me \<Rightarrow>
            if state (ptable s me) = RUNNING \<and> load32 (ram s) (tfp + TF_trapno) = 32 then
              bindr (trap_tick cfg me s) (\<lambda>(r, s).
              case r of Switched i \<Rightarrow> Inr (Switched i, s) | Done _ \<Rightarrow> trap_end cfg lk tfp s)
            else trap_end cfg lk tfp s
        | None \<Rightarrow> trap_end cfg lk tfp s))"

definition trap_resume :: "schedflag \<Rightarrow> link \<Rightarrow> u32 \<Rightarrow> bool \<Rightarrow> 'a kernst_scheme \<Rightarrow> (unit outcome \<times> 'a kernst_scheme) res" where
  "trap_resume cfg lk tfp i s = bindr (yield_resume i s) (trap_end cfg lk tfp)"

end
