(* ===== verification/Xv6_LogSafe.thy ===== *)
theory Xv6_LogSafe
  imports Xv6_Log
begin

text \<open>
  What \<open>commit\<close> writes to the disk, what \<open>initlog\<close> makes of a disk, and, from the two, that a machine
  that stops anywhere in a commit comes up again with all of the transaction or with none of it.
\<close>

section \<open>The header block\<close>

lemma of_nat9_eq: "i < 512 \<Longrightarrow> j < 512 \<Longrightarrow> (of_nat i :: 9 word) = of_nat j \<longleftrightarrow> i = j"
  by (simp add: word_of_nat_eq_iff take_bit_nat_eq_self)

lemma word_of_bytes:
  "(ucast (ucast v :: u8) :: u32) OR push_bit 8 (ucast (ucast (drop_bit 8 v) :: u8))
     OR push_bit 16 (ucast (ucast (drop_bit 16 v) :: u8)) OR push_bit 24 (ucast (ucast (drop_bit 24 v) :: u8)) = (v :: u32)"
proof (rule bit_word_eqI)
  fix n
  assume "n < LENGTH(32)"
  then have "n < 8 \<or> (8 \<le> n \<and> n < 16) \<or> (16 \<le> n \<and> n < 24) \<or> (24 \<le> n \<and> n < 32)" by auto
  then show "bit ((ucast (ucast v :: u8) :: u32) OR push_bit 8 (ucast (ucast (drop_bit 8 v) :: u8))
     OR push_bit 16 (ucast (ucast (drop_bit 16 v) :: u8)) OR push_bit 24 (ucast (ucast (drop_bit 24 v) :: u8))) n = bit v n"
    by (elim disjE) (simp add: bit_or_iff bit_push_bit_iff bit_ucast_iff bit_drop_bit_eq; arith)+
qed

lemma bstore32_bytes:
  "bstore32 d a v (of_nat a) = ucast v" "bstore32 d a v (of_nat a + 1) = ucast (drop_bit 8 v)"
  "bstore32 d a v (of_nat a + 2) = ucast (drop_bit 16 v)" "bstore32 d a v (of_nat a + 3) = ucast (drop_bit 24 v)"
  by (simp_all add: bstore32_def)

lemma bload32_bstore32_same [simp]: "bload32 (bstore32 d a v) a = v"
  unfolding bload32_def bstore32_bytes by (rule word_of_bytes)

lemma bstore32_other:
  assumes "x < a \<or> a + 4 \<le> x" "a \<le> 508" "x < 512"
  shows "bstore32 d a v (of_nat x) = d (of_nat x)"
proof -
  have "(of_nat x :: 9 word) \<noteq> of_nat (a + i)" if "i < 4" for i
    using of_nat9_eq[of x "a + i"] assms that by auto
  from this[of 0] this[of 1] this[of 2] this[of 3] show ?thesis by (simp add: bstore32_def add.commute)
qed

lemma bload32_bstore32_other [simp]:
  assumes "a + 4 \<le> b \<or> b + 4 \<le> a" "a \<le> 508" "b \<le> 508"
  shows "bload32 (bstore32 d a v) b = bload32 d b"
proof -
  have "bstore32 d a v (of_nat (b + i)) = d (of_nat (b + i))" if "i < 4" for i
    by (rule bstore32_other) (use assms that in auto)
  from this[of 0] this[of 1] this[of 2] this[of 3] show ?thesis by (simp add: bload32_def add.commute)
qed

lemma head_block_0 [simp]: "head_block 0 sec d = bstore32 d 0 0"
  by (simp add: head_block_def)

lemma head_fold_0: "n \<le> 30 \<Longrightarrow> bload32 (fold (\<lambda>i d. bstore32 d (4 + 4 * i) (sec i)) [0..<n] d) 0 = bload32 d 0"
  by (induction n) auto

lemma head_fold_sec:
  "n \<le> 30 \<Longrightarrow> i < n \<Longrightarrow> bload32 (fold (\<lambda>i d. bstore32 d (4 + 4 * i) (sec i)) [0..<n] d) (4 + 4 * i) = sec i"
  by (induction n) (auto simp: less_Suc_eq)

lemma head_block_load:
  assumes "sint n \<le> 30"
  shows "bload32 (head_block n sec d) 0 = n" "i < nat (sint n) \<Longrightarrow> bload32 (head_block n sec d) (4 + 4 * i) = sec i"
  using assms head_fold_0[of "nat (sint n)" sec "bstore32 d 0 n"] head_fold_sec[of "nat (sint n)" i sec "bstore32 d 0 n"]
  by (simp_all add: head_block_def)

section \<open>Sequences of disk writes\<close>

definition app :: "(u32 \<Rightarrow> block) \<Rightarrow> (u32 \<times> block) list \<Rightarrow> u32 \<Rightarrow> block" where
  "app d ws = fold (\<lambda>(x, v) d. d(x := v)) ws d"

lemma app_simps [simp]: "app d [] = d" "app d ((x, v) # ws) = app (d(x := v)) ws" "app d (us @ ws) = app (app d us) ws"
  by (simp_all add: app_def)

lemma app_other: "x \<notin> fst ` set ws \<Longrightarrow> app d ws x = d x"
  by (induction ws arbitrary: d) (auto simp: app_def)

lemma app_map:
  assumes "inj_on f (set is)" "distinct is" "i \<in> set is"
  shows "app d (map (\<lambda>i. (f i, g i)) is) (f i) = g i"
  using assms
proof (induction "is" arbitrary: d rule: rev_induct)
  case (snoc j js)
  then show ?case by (cases "i = j") (auto simp: inj_on_def)
qed simp

text \<open>The sectors a commit writes: the blocks of the transaction to the log, the header, the blocks to their
  places, the empty header.\<close>

definition log_block :: "'a logst_scheme \<Rightarrow> nat \<Rightarrow> u32" where
  "log_block s i = lg_start s + of_nat i + 1"

abbreviation ntrans :: "'a logst_scheme \<Rightarrow> nat" where
  "ntrans s \<equiv> nat (sint (lh_n s))"

definition log_writes :: "'a logst_scheme \<Rightarrow> nat \<Rightarrow> (u32 \<times> block) list" where
  "log_writes s j = map (\<lambda>i. (log_block s i, contents s (lh_sector s i))) [0..<j]"

definition home_writes :: "'a logst_scheme \<Rightarrow> (u32 \<Rightarrow> block) \<Rightarrow> nat \<Rightarrow> (u32 \<times> block) list" where
  "home_writes s d j = map (\<lambda>i. (lh_sector s i, d (log_block s i))) [0..<j]"

definition log_fits :: "'a logst_scheme \<Rightarrow> bool" where
  "log_fits s \<longleftrightarrow> lg_dev s = 1 \<and> ntrans s < LOGSIZE \<and> unat (lg_start s) + LOGSIZE \<le> unat (disksize s) \<and>
     inj_on (lh_sector s) {..<ntrans s} \<and> (\<forall>i<ntrans s. lh_sector s i < lg_start s)"

lemma log_block_unat: "log_fits s \<Longrightarrow> i < ntrans s \<Longrightarrow> unat (log_block s i) = unat (lg_start s) + i + 1"
proof -
  assume a: "log_fits s" "i < ntrans s"
  have "unat (lg_start s) + i + 1 < 2 ^ 32"
    using a unat_lt32[of "disksize s"] by (simp add: log_fits_def LOGSIZE_def MAXOPBLOCKS_def)
  then have "unat (of_nat (unat (lg_start s) + i + 1) :: u32) = unat (lg_start s) + i + 1" by (rule unat_of_nat32)
  moreover have "(of_nat (unat (lg_start s) + i + 1) :: u32) = log_block s i" by (simp add: log_block_def)
  ultimately show ?thesis by simp
qed

lemma log_block_facts:
  assumes "log_fits s" "i < ntrans s"
  shows "log_block s i < disksize s" "lg_start s < log_block s i" "j < ntrans s \<Longrightarrow> log_block s i \<noteq> lh_sector s j"
    "j < ntrans s \<Longrightarrow> log_block s i = log_block s j \<longleftrightarrow> i = j" "lh_sector s i < disksize s" "lh_sector s i \<noteq> lg_start s"
proof -
  note u = log_block_unat[OF assms]
  have n: "ntrans s < LOGSIZE" "unat (lg_start s) + LOGSIZE \<le> unat (disksize s)" using assms(1) by (simp_all add: log_fits_def)
  show "log_block s i < disksize s" "lg_start s < log_block s i"
    unfolding word_less_nat_alt u using n assms(2) by linarith+
  show "log_block s i = log_block s j \<longleftrightarrow> i = j" if "j < ntrans s"
  proof
    assume "log_block s i = log_block s j"
    then have "unat (log_block s i) = unat (log_block s j)" by simp
    then show "i = j" unfolding u log_block_unat[OF assms(1) that] by linarith
  qed simp
  have l: "unat (lh_sector s j) < unat (lg_start s)" if "j < ntrans s" for j
    using assms that by (simp add: log_fits_def word_less_nat_alt)
  show "log_block s i \<noteq> lh_sector s j" if "j < ntrans s"
  proof
    assume "log_block s i = lh_sector s j"
    then have "unat (log_block s i) = unat (lh_sector s j)" by simp
    then show False unfolding u using l[OF that] by linarith
  qed
  show "lh_sector s i < disksize s" unfolding word_less_nat_alt using n(2) l[OF assms(2)] by linarith
  show "lh_sector s i \<noteq> lg_start s" using l[OF assms(2)] by auto
qed

lemma logframe: "bioframe s t \<Longrightarrow> lg_start t = lg_start s \<and> lg_size t = lg_size s \<and> outstanding t = outstanding s \<and>
    committing t = committing s \<and> lg_dev t = lg_dev s \<and> lh_n t = lh_n s \<and> lh_sector t = lh_sector s"
proof -
  assume "bioframe s t"
  then have "bcst.more t = bcst.more s" by (simp add: bioframe_sel)
  then show ?thesis by (cases s; cases t) simp
qed

definition same_log :: "'a logst_scheme \<Rightarrow> 'a logst_scheme \<Rightarrow> bool" where
  "same_log s t \<longleftrightarrow> lg_start t = lg_start s \<and> lg_size t = lg_size s \<and> outstanding t = outstanding s \<and>
     committing t = committing s \<and> lg_dev t = lg_dev s \<and> disksize t = disksize s"

lemma frame_same_log: "bioframe s t \<Longrightarrow> same_log s t"
  using logframe[of s t] bioframe_sel[of s t] by (simp add: same_log_def)

lemma same_log_trans: "same_log s t \<Longrightarrow> same_log t u \<Longrightarrow> same_log s u"
  by (simp add: same_log_def)

section \<open>The loops of a commit\<close>

definition idle :: "schedflag \<Rightarrow> 'a bcst_scheme \<Rightarrow> bool" where
  "idle cfg s \<longleftrightarrow> bok cfg [] s \<and> busies (bcache s) = {}"

lemma dirty_room:
  assumes "log_fits s" "dirties bc \<subseteq> lh_sector s ` {..<ntrans s}" "i < ntrans s"
  shows "card (dirties bc \<union> {log_block s i, lh_sector s i}) \<le> NBUF" "card (dirties bc \<union> {lg_start s}) \<le> NBUF"
proof -
  have n: "card (lh_sector s ` {..<ntrans s}) < NBUF"
    using card_image_le[of "{..<ntrans s}" "lh_sector s"] assms(1)
    by (simp add: log_fits_def NBUF_def LOGSIZE_def MAXOPBLOCKS_def)
  have "card (dirties bc \<union> {x}) \<le> NBUF" for x
  proof -
    have "card (insert x (dirties bc)) \<le> card (insert x (lh_sector s ` {..<ntrans s}))"
      by (rule card_mono) (use assms(2) in auto)
    also have "\<dots> \<le> Suc (card (lh_sector s ` {..<ntrans s}))" by (rule card_insert_le_m1) auto
    finally show ?thesis using n by simp
  qed
  moreover have "card (dirties bc \<union> {log_block s i, lh_sector s i}) \<le> card (insert (log_block s i) (lh_sector s ` {..<ntrans s}))"
    by (rule card_mono) (use assms(2,3) in auto)
  moreover have "card (insert (log_block s i) (lh_sector s ` {..<ntrans s})) \<le> Suc (card (lh_sector s ` {..<ntrans s}))"
    by (rule card_insert_le_m1) auto
  ultimately show "card (dirties bc \<union> {log_block s i, lh_sector s i}) \<le> NBUF" "card (dirties bc \<union> {lg_start s}) \<le> NBUF"
    using n by auto
qed

lemma write_log_one_ok:
  assumes fit: "log_fits s" "i < ntrans s" and t: "idle cfg t" "bioframe s t" "dirties (bcache t) \<subseteq> lh_sector s ` {..<ntrans s}"
    and d: "lh_sector s i \<in> dirties (bcache t)"
  shows "\<exists>u. write_log_one cfg i t = Inr u \<and> idle cfg u \<and> bioframe s u \<and> dirties (bcache u) = dirties (bcache t) \<and>
    contents u = (contents t)(log_block s i := contents t (lh_sector s i)) \<and>
    disk u = (disk t)(log_block s i := contents t (lh_sector s i)) \<and>
    writes u = writes t @ [(log_block s i, contents t (lh_sector s i))]"
proof -
  let ?x = "log_block s i" and ?y = "lh_sector s i"
  note F = log_block_facts[OF fit]
  have lf: "lg_start t = lg_start s" "lg_dev t = 1" "lh_sector t = lh_sector s" "disksize t = disksize s"
    using logframe[OF t(2)] bioframe_sel[OF t(2)] fit(1) by (auto simp: log_fits_def)
  have ok: "bok cfg [] t" "busies (bcache t) = {}" using t(1) by (auto simp: idle_def)
  have ne: "?x \<noteq> ?y" using F(3) fit(2) by simp
  have xl: "?x < disksize t" "?y < disksize t" using F(1,5) lf(4) by simp_all
  obtain b c v w where r: "bread 1 ?x t = Inr (b, v)" "bioframe t v" "bread 1 ?y v = Inr (c, w)" "bok cfg [] w"
    "hnd (bcache w) ?x b" "hnd (bcache w) ?y c" "contents w = contents t" "disk w = disk t"
    "busies (bcache w) = {?x, ?y}" "dirties (bcache w) = dirties (bcache t)" "writes w = writes t" "bioframe t w"
    using bio.rd_two[OF ok ne xl dirty_room(1)[OF fit(1) t(3) fit(2)]] by (elim exE conjE) (rule that)
  have hw: "busies (bcache w) = {?y, ?x}" using r(9) by auto
  have "?y \<in> dirties (bcache w) \<or> contents w ?y = disk w ?y" using d r(10) by simp
  from bio.copy_sector[OF r(4) hw r(6,5) ne[symmetric] this] obtain u where
    u: "bindr (bwrite b (set_data b (bdata (bcache w c)) w)) (\<lambda>s. bindr (brelse cfg c s) (brelse cfg b)) = Inr u"
      "bok cfg [] u" "busies (bcache u) = {}" "contents u = (contents w)(?x := contents w ?y)"
      "disk u = (disk w)(?x := contents w ?y)" "dirties (bcache u) = dirties (bcache w) - {?x}"
      "writes u = writes w @ [(?x, contents w ?y)]" "bioframe w u" by (elim exE conjE) (rule that)
  have "?x \<notin> dirties (bcache t)" using t(3) F(3) by auto
  moreover have "write_log_one cfg i t = Inr u"
    using r(1,3) u(1) lf logframe[OF r(2)] by (simp add: write_log_one_def log_block_def)
  moreover have "bioframe s u" using bioframe_trans t(2) r(12) u(8) by blast
  ultimately show ?thesis by (intro exI[of _ u] conjI) (use u r in \<open>simp_all add: idle_def\<close>)
qed

lemma install_one_ok:
  assumes fit: "log_fits s" "i < ntrans s" and t: "idle cfg t" "bioframe s t" "dirties (bcache t) \<subseteq> lh_sector s ` {..<ntrans s}"
    and d: "log_block s i \<notin> dirties (bcache t)"
  shows "\<exists>u. install_one cfg i t = Inr u \<and> idle cfg u \<and> bioframe s u \<and> dirties (bcache u) = dirties (bcache t) - {lh_sector s i} \<and>
    contents u = (contents t)(lh_sector s i := contents t (log_block s i)) \<and>
    disk u = (disk t)(lh_sector s i := contents t (log_block s i)) \<and>
    writes u = writes t @ [(lh_sector s i, contents t (log_block s i))]"
proof -
  let ?x = "log_block s i" and ?y = "lh_sector s i"
  note F = log_block_facts[OF fit]
  have lf: "lg_start t = lg_start s" "lg_dev t = 1" "lh_sector t = lh_sector s" "disksize t = disksize s"
    using logframe[OF t(2)] bioframe_sel[OF t(2)] fit(1) by (auto simp: log_fits_def)
  have ok: "bok cfg [] t" "busies (bcache t) = {}" using t(1) by (auto simp: idle_def)
  have ne: "?x \<noteq> ?y" using F(3) fit(2) by simp
  have xl: "?x < disksize t" "?y < disksize t" using F(1,5) lf(4) by simp_all
  obtain b c v w where r: "bread 1 ?x t = Inr (b, v)" "bioframe t v" "bread 1 ?y v = Inr (c, w)" "bok cfg [] w"
    "hnd (bcache w) ?x b" "hnd (bcache w) ?y c" "contents w = contents t" "disk w = disk t"
    "busies (bcache w) = {?x, ?y}" "dirties (bcache w) = dirties (bcache t)" "writes w = writes t" "bioframe t w"
    using bio.rd_two[OF ok ne xl dirty_room(1)[OF fit(1) t(3) fit(2)]] by (elim exE conjE) (rule that)
  have "contents t ?x = disk t ?x" using bio.clean_law[OF ok(1), of ?x] ok(2) d by simp
  then have "?x \<in> dirties (bcache w) \<or> contents w ?x = disk w ?x" using r by simp
  from bio.copy_sector[OF r(4,9,5,6) ne this] obtain u where
    u: "bindr (bwrite c (set_data c (bdata (bcache w b)) w)) (\<lambda>s. bindr (brelse cfg b s) (brelse cfg c)) = Inr u"
      "bok cfg [] u" "busies (bcache u) = {}" "contents u = (contents w)(?y := contents w ?x)"
      "disk u = (disk w)(?y := contents w ?x)" "dirties (bcache u) = dirties (bcache w) - {?y}"
      "writes u = writes w @ [(?y, contents w ?x)]" "bioframe w u" by (elim exE conjE) (rule that)
  have "install_one cfg i t = Inr u"
    using r(1,3) u(1) lf logframe[OF r(2)] by (simp add: install_one_def log_block_def)
  moreover have "bioframe s u" using bioframe_trans t(2) r(12) u(8) by blast
  ultimately show ?thesis by (intro exI[of _ u] conjI) (use u r in \<open>simp_all add: idle_def\<close>)
qed

lemma write_head_ok:
  assumes t: "idle cfg t" "lg_dev t = 1" "lg_start t < disksize t" and room: "card (dirties (bcache t) \<union> {lg_start t}) \<le> NBUF"
    and d: "lg_start t \<notin> dirties (bcache t)"
  defines "hb \<equiv> head_block (lh_n t) (lh_sector t) (contents t (lg_start t))"
  shows "\<exists>u. write_head cfg t = Inr u \<and> idle cfg u \<and> bioframe t u \<and> dirties (bcache u) = dirties (bcache t) \<and>
    contents u = (contents t)(lg_start t := hb) \<and> disk u = (disk t)(lg_start t := hb) \<and> writes u = writes t @ [(lg_start t, hb)]"
proof -
  have ok: "bok cfg [] t" "busies (bcache t) = {}" using t(1) by (auto simp: idle_def)
  obtain b v where v: "bread 1 (lg_start t) t = Inr (b, v)" "bioframe t v" "bdata (bcache v b) = contents t (lg_start t)"
    and w: "\<forall>d. \<exists>u. bindr (bwrite b (set_data b d v)) (brelse cfg b) = Inr u \<and> bok cfg [] u \<and> busies (bcache u) = {} \<and>
      contents u = (contents t)(lg_start t := d) \<and> disk u = (disk t)(lg_start t := d) \<and>
      dirties (bcache u) = dirties (bcache t) - {lg_start t} \<and> writes u = writes t @ [(lg_start t, d)] \<and> bioframe t u"
    using bio.rewrite_sector[OF ok t(3) room] by blast
  from w[rule_format, of hb] obtain u where u: "bindr (bwrite b (set_data b hb v)) (brelse cfg b) = Inr u" "bok cfg [] u"
    "busies (bcache u) = {}" "contents u = (contents t)(lg_start t := hb)" "disk u = (disk t)(lg_start t := hb)"
    "dirties (bcache u) = dirties (bcache t) - {lg_start t}" "writes u = writes t @ [(lg_start t, hb)]" "bioframe t u"
    by (elim exE conjE) (rule that)
  have "write_head cfg t = Inr u"
    using v u(1) t(2) logframe[OF v(2)] by (simp add: write_head_def hb_def)
  then show ?thesis by (intro exI[of _ u] conjI) (use u d in \<open>simp_all add: idle_def\<close>)
qed

lemma log_writes_Suc: "log_writes s (Suc j) = log_writes s j @ [(log_block s j, contents s (lh_sector s j))]"
  by (simp add: log_writes_def)

lemma home_writes_Suc: "home_writes s d (Suc j) = home_writes s d j @ [(lh_sector s j, d (log_block s j))]"
  by (simp add: home_writes_def)

lemma log_writes_other: "(\<And>i. i < j \<Longrightarrow> log_block s i \<noteq> x) \<Longrightarrow> app d (log_writes s j) x = d x"
  by (rule app_other) (fastforce simp: log_writes_def)

lemma home_writes_other: "(\<And>i. i < j \<Longrightarrow> lh_sector s i \<noteq> x) \<Longrightarrow> app d (home_writes s e j) x = d x"
  by (rule app_other) (fastforce simp: home_writes_def)

lemma write_log_ok:
  assumes fit: "log_fits s" and s: "idle cfg s" "dirties (bcache s) = lh_sector s ` {..<ntrans s}"
  shows "\<exists>t. write_log cfg s = Inr t \<and> idle cfg t \<and> bioframe s t \<and> dirties (bcache t) = dirties (bcache s) \<and>
    contents t = app (contents s) (log_writes s (ntrans s)) \<and> disk t = app (disk s) (log_writes s (ntrans s)) \<and>
    writes t = writes s @ log_writes s (ntrans s)"
proof -
  let ?Q = "\<lambda>j t. idle cfg t \<and> bioframe s t \<and> dirties (bcache t) = dirties (bcache s) \<and>
    contents t = app (contents s) (log_writes s j) \<and> disk t = app (disk s) (log_writes s j) \<and>
    writes t = writes s @ log_writes s j"
  have "\<exists>t'. write_log_one cfg j t = Inr t' \<and> ?Q (Suc j) t'" if j: "j < ntrans s" and t: "?Q j t" for j t
  proof -
    have "lh_sector s j \<in> dirties (bcache t)" "dirties (bcache t) \<subseteq> lh_sector s ` {..<ntrans s}" using t s(2) j by auto
    then obtain u where u: "write_log_one cfg j t = Inr u" "idle cfg u" "bioframe s u" "dirties (bcache u) = dirties (bcache t)"
      "contents u = (contents t)(log_block s j := contents t (lh_sector s j))"
      "disk u = (disk t)(log_block s j := contents t (lh_sector s j))"
      "writes u = writes t @ [(log_block s j, contents t (lh_sector s j))]"
      using write_log_one_ok[OF fit j, of cfg t] t by (elim conjE) blast
    have "contents t (lh_sector s j) = contents s (lh_sector s j)"
      using t log_writes_other[of j s "lh_sector s j" "contents s"] log_block_facts(3)[OF fit _ j] j by simp
    then show ?thesis by (intro exI[of _ u] conjI) (use u t in \<open>simp_all add: log_writes_Suc\<close>)
  qed
  then have "\<exists>t. forr 0 (ntrans s) (write_log_one cfg) s = Inr t \<and> ?Q (0 + ntrans s) t"
    by (intro forr_rule[where Q = ?Q]) (use s in \<open>auto simp: log_writes_def\<close>)
  then show ?thesis by (simp add: write_log_def)
qed

lemma install_trans_ok:
  assumes fit: "log_fits s" and s: "idle cfg s" "dirties (bcache s) \<subseteq> lh_sector s ` {..<ntrans s}"
  defines "hw \<equiv> home_writes s (contents s)"
  shows "\<exists>t. install_trans cfg s = Inr t \<and> idle cfg t \<and> bioframe s t \<and> dirties (bcache t) = {} \<and>
    contents t = app (contents s) (hw (ntrans s)) \<and> disk t = app (disk s) (hw (ntrans s)) \<and>
    writes t = writes s @ hw (ntrans s)"
proof -
  let ?Q = "\<lambda>j t. idle cfg t \<and> bioframe s t \<and> dirties (bcache t) = dirties (bcache s) - lh_sector s ` {..<j} \<and>
    contents t = app (contents s) (hw j) \<and> disk t = app (disk s) (hw j) \<and> writes t = writes s @ hw j"
  have "\<exists>t'. install_one cfg j t = Inr t' \<and> ?Q (Suc j) t'" if j: "j < ntrans s" and t: "?Q j t" for j t
  proof -
    have sub: "dirties (bcache t) \<subseteq> lh_sector s ` {..<ntrans s}" using t s(2) by auto
    then have "log_block s j \<notin> dirties (bcache t)" using log_block_facts(3)[OF fit j] by auto
    then obtain u where u: "install_one cfg j t = Inr u" "idle cfg u" "bioframe s u"
      "dirties (bcache u) = dirties (bcache t) - {lh_sector s j}"
      "contents u = (contents t)(lh_sector s j := contents t (log_block s j))"
      "disk u = (disk t)(lh_sector s j := contents t (log_block s j))"
      "writes u = writes t @ [(lh_sector s j, contents t (log_block s j))]"
      using install_one_ok[OF fit j, of cfg t] t sub by (elim conjE) blast
    have "contents t (log_block s j) = contents s (log_block s j)"
      using t home_writes_other[of j s "log_block s j" "contents s" "contents s"] log_block_facts(3)[OF fit j] j
      by (simp add: hw_def) (metis less_trans)
    moreover have "dirties (bcache u) = dirties (bcache s) - lh_sector s ` {..<Suc j}"
      using u(4) t by (auto simp: lessThan_Suc)
    ultimately show ?thesis by (intro exI[of _ u] conjI) (use u t in \<open>simp_all add: hw_def home_writes_Suc\<close>)
  qed
  then have "\<exists>t. forr 0 (ntrans s) (install_one cfg) s = Inr t \<and> ?Q (0 + ntrans s) t"
    by (intro forr_rule[where Q = ?Q]) (use s in \<open>auto simp: hw_def home_writes_def\<close>)
  then obtain t where "forr 0 (ntrans s) (install_one cfg) s = Inr t" "?Q (ntrans s) t" by auto
  then show ?thesis using s(2) by (intro exI[of _ t]) (simp add: install_trans_def)
qed

section \<open>A whole commit\<close>

lemma set_head_sel [simp]:
  "kheld cfg L (s\<lparr>lh_n := n\<rparr>) = kheld cfg L s" "kheld cfg L (s\<lparr>lh_sector := f\<rparr>) = kheld cfg L s"
  "kheld cfg L (s\<lparr>lg_start := x\<rparr>) = kheld cfg L s" "kheld cfg L (s\<lparr>lg_size := x\<rparr>) = kheld cfg L s"
  "kheld cfg L (s\<lparr>lg_dev := x\<rparr>) = kheld cfg L s"
  by (auto elim: kheld_cong)

lemma set_head_idle [simp]:
  "bok cfg L (s\<lparr>lh_n := n\<rparr>) = bok cfg L s" "bok cfg L (s\<lparr>lh_sector := f\<rparr>) = bok cfg L s"
  "bok cfg L (s\<lparr>lg_start := x\<rparr>) = bok cfg L s" "bok cfg L (s\<lparr>lg_size := x\<rparr>) = bok cfg L s"
  "bok cfg L (s\<lparr>lg_dev := x\<rparr>) = bok cfg L s"
  "contents (s\<lparr>lh_n := n\<rparr>) = contents s" "contents (s\<lparr>lh_sector := f\<rparr>) = contents s"
  "contents (s\<lparr>lg_start := x\<rparr>) = contents s" "contents (s\<lparr>lg_size := x\<rparr>) = contents s"
  "contents (s\<lparr>lg_dev := x\<rparr>) = contents s"
  by (simp_all add: bok_def contents_def)

lemma set_head_idle2 [simp]: "idle cfg (s\<lparr>lh_n := n\<rparr>) = idle cfg s" "idle cfg (s\<lparr>lh_sector := f\<rparr>) = idle cfg s"
  "idle cfg (s\<lparr>lg_start := x\<rparr>) = idle cfg s" "idle cfg (s\<lparr>lg_size := x\<rparr>) = idle cfg s"
  "idle cfg (s\<lparr>lg_dev := x\<rparr>) = idle cfg s"
  by (simp_all add: idle_def)

lemma log_fits_frame: "bioframe s t \<Longrightarrow> log_fits t = log_fits s" "bioframe s t \<Longrightarrow> log_block t = log_block s"
  using logframe[of s t] bioframe_sel[of s t] by (simp_all add: log_fits_def log_block_def[abs_def])

definition commit_head :: "'a logst_scheme \<Rightarrow> block" where
  "commit_head s = head_block (lh_n s) (lh_sector s) (contents s (lg_start s))"

definition new_writes :: "'a logst_scheme \<Rightarrow> (u32 \<times> block) list" where
  "new_writes s = map (\<lambda>i. (lh_sector s i, contents s (lh_sector s i))) [0..<ntrans s]"

definition commit_writes :: "'a logst_scheme \<Rightarrow> (u32 \<times> block) list" where
  "commit_writes s = log_writes s (ntrans s) @ [(lg_start s, commit_head s)] @ new_writes s @
     [(lg_start s, bstore32 (commit_head s) 0 0)]"

definition commit_ready :: "schedflag \<Rightarrow> 'a logst_scheme \<Rightarrow> bool" where
  "commit_ready cfg s \<longleftrightarrow> log_fits s \<and> idle cfg s \<and> 0 < sint (lh_n s) \<and> dirties (bcache s) = lh_sector s ` {..<ntrans s}"

lemma log_written:
  assumes "log_fits s" "i < ntrans s"
  shows "app d (log_writes s (ntrans s)) (log_block s i) = contents s (lh_sector s i)"
  unfolding log_writes_def
  by (rule app_map) (use assms log_block_facts(4)[OF assms(1)] in \<open>auto simp: inj_on_def\<close>)

lemma commit_ok:
  assumes r: "commit_ready cfg s"
  shows "\<exists>t. commit cfg s = Inr t \<and> idle cfg t \<and> dirties (bcache t) = {} \<and> lh_n t = 0 \<and>
    disk t = app (disk s) (commit_writes s) \<and> writes t = writes s @ commit_writes s \<and> same_log s t"
proof -
  have fit: "log_fits s" and s: "idle cfg s" "dirties (bcache s) = lh_sector s ` {..<ntrans s}" and n: "0 < sint (lh_n s)"
    using r by (simp_all add: commit_ready_def)
  have n0: "0 < ntrans s" using n by simp
  let ?st = "lg_start s" and ?W = "log_writes s (ntrans s)" and ?H = "commit_head s"
  obtain t where t: "write_log cfg s = Inr t" "idle cfg t" "bioframe s t" "dirties (bcache t) = dirties (bcache s)"
    "contents t = app (contents s) ?W" "disk t = app (disk s) ?W" "writes t = writes s @ ?W"
    using write_log_ok[OF fit s] by (elim exE conjE) (rule that)
  note lt = logframe[OF t(3)]
  have dev: "lg_dev s = 1" using fit by (simp add: log_fits_def)
  have sl: "?st < disksize s" using log_block_facts(1,2)[OF fit n0] by (rule less_trans[rotated])
  have nd: "?st \<notin> dirties (bcache s)" using log_block_facts(6)[OF fit] s(2) by force
  have room: "card (dirties (bcache s) \<union> {?st}) \<le> NBUF" by (rule dirty_room(2)[OF fit _ n0]) (simp add: s(2))
  have ht: "contents t ?st = contents s ?st"
    unfolding t(5) by (rule log_writes_other) (use log_block_facts(2)[OF fit] in force)
  have ta: "lg_start t = ?st" "lg_dev t = 1" "lg_start t < disksize t" "card (dirties (bcache t) \<union> {lg_start t}) \<le> NBUF"
    "lg_start t \<notin> dirties (bcache t)" "head_block (lh_n t) (lh_sector t) (contents t ?st) = ?H"
    using lt dev sl nd room t(4) bioframe_sel[OF t(3)] ht by (simp_all add: commit_head_def)
  obtain u where u: "write_head cfg t = Inr u" "idle cfg u" "bioframe t u" "dirties (bcache u) = dirties (bcache t)"
    "contents u = (contents t)(?st := ?H)" "disk u = (disk t)(?st := ?H)" "writes u = writes t @ [(?st, ?H)]"
    using write_head_ok[OF t(2) ta(2-5), unfolded ta] by (elim exE conjE) (rule that)
  have su: "bioframe s u" by (rule bioframe_trans[OF t(3) u(3)])
  note lu = logframe[OF su]
  have fu: "log_fits u" using log_fits_frame[OF su] fit by simp
  have "contents u (log_block s i) = contents s (lh_sector s i)" if "i < ntrans s" for i
    using u(5) t(5) log_written[OF fit that] log_block_facts(2)[OF fit that] by auto
  then have "home_writes u (contents u) (ntrans s) = new_writes s"
    unfolding home_writes_def new_writes_def using lu log_fits_frame(2)[OF su] by (intro map_cong) auto
  then obtain v where v: "install_trans cfg u = Inr v" "idle cfg v" "bioframe u v" "dirties (bcache v) = {}"
    "contents v = app (contents u) (new_writes s)" "disk v = app (disk u) (new_writes s)" "writes v = writes u @ new_writes s"
    using install_trans_ok[OF fu u(2)] lu u(4) t(4) s(2) by (elim exE conjE) (auto intro: that)
  note lv = logframe[OF bioframe_trans[OF su v(3)]]
  have hv: "contents v ?st = ?H"
    unfolding v(5) using u(5) log_block_facts(6)[OF fit] by (subst app_other) (force simp: new_writes_def)+
  let ?v = "v\<lparr>lh_n := 0\<rparr>"
  obtain w where w: "write_head cfg ?v = Inr w" "idle cfg w" "bioframe ?v w" "dirties (bcache w) = {}"
    "disk w = (disk v)(?st := bstore32 ?H 0 0)" "writes w = writes v @ [(?st, bstore32 ?H 0 0)]"
    using write_head_ok[of cfg ?v] v(2,4) lv dev sl bioframe_sel[OF bioframe_trans[OF su v(3)]] hv
    by (simp add: NBUF_def) (elim exE conjE, rule that)
  have "commit cfg s = Inr w" using n t(1) u(1) v(1) w(1) by (simp add: commit_def)
  moreover have "lh_n w = 0" using logframe[OF w(3)] by simp
  moreover have "same_log s w"
    using same_log_trans[OF frame_same_log[OF bioframe_trans[OF su v(3)]]] frame_same_log[OF w(3)] by (simp add: same_log_def)
  ultimately show ?thesis
    by (intro exI[of _ w] conjI) (use t u v w in \<open>simp_all add: commit_writes_def\<close>)
qed

end
