(* ===== verification/Xv6_Crash.thy ===== *)
theory Xv6_Crash
  imports Xv6_LogSafe
begin

unbundle bit_operations_syntax

text \<open>
  Recovery: what \<open>initlog\<close> makes of a disk after a restart, and that a machine that stops anywhere in a
  commit comes up again with all of the transaction or with none of it.
\<close>

section \<open>Looking at a sector\<close>

lemma look_sector:
  assumes s: "idle cfg s" "dirties (bcache s) = {}" and x: "x < disksize s"
  shows "\<exists>b t. bread 1 x s = Inr (b, t) \<and> bok cfg [] t \<and> hnd (bcache t) x b \<and> bdata (bcache t b) = disk s x \<and>
    contents t = contents s \<and> disk t = disk s \<and> busies (bcache t) = {x} \<and> dirties (bcache t) = {} \<and>
    writes t = writes s \<and> bioframe s t"
proof -
  have ok: "bok cfg [] s" "busies (bcache s) = {}" using s(1) by (auto simp: idle_def)
  have room: "x \<in> dirties (bcache s) \<or> card (dirties (bcache s) \<union> busies (bcache s)) < NBUF"
    using ok s(2) by (simp add: NBUF_def)
  have nb: "x \<notin> busies (bcache s)" using ok(2) by simp
  obtain b t where t: "bread 1 x s = Inr (b, t)" "bok cfg [] t" "hnd (bcache t) x b" "contents t = contents s"
    "disk t = disk s" "busies (bcache t) = insert x (busies (bcache s))" "dirties (bcache t) = dirties (bcache s)"
    "writes t = writes s" "bioframe s t"
    using bio.rd_law[OF ok(1) nb x room] by (elim exE conjE) (rule that)
  have "contents s x = disk s x" using bio.clean_law[OF ok(1), of x] ok(2) s(2) by simp
  then have "bdata (bcache t b) = disk s x" using bio.get_law[OF t(2,3)] t(4) by simp
  then show ?thesis using t ok s(2) by (intro exI[of _ b] exI[of _ t]) simp
qed

lemma drop_sector:
  assumes t: "bok cfg [] t" "hnd (bcache t) x b" "busies (bcache t) = {x}" "dirties (bcache t) = {}" "contents t x = disk t x"
  shows "\<exists>u. brelse cfg b t = Inr u \<and> idle cfg u \<and> contents u = contents t \<and> disk u = disk t \<and>
    dirties (bcache u) = {} \<and> writes u = writes t \<and> bioframe t u"
proof -
  obtain u where "brelse cfg b t = Inr u" "bok cfg [] u" "contents u = contents t" "disk u = disk t"
    "busies (bcache u) = busies (bcache t) - {x}" "dirties (bcache u) = dirties (bcache t)" "writes u = writes t" "bioframe t u"
    using bio.rl_law[OF t(1,2) disjI2[OF t(5)]] by (elim exE conjE) (rule that)
  then show ?thesis using t(3,4) by (intro exI[of _ u]) (simp add: idle_def)
qed

lemma idle_clean: "idle cfg s \<Longrightarrow> dirties (bcache s) = {} \<Longrightarrow> contents s = disk s"
  using bio.clean_law[of cfg s] by (auto simp: idle_def fun_eq_iff)

definition sb_of :: "block \<Rightarrow> superblock" where
  "sb_of d = \<lparr>sb_size = bload32 d 0, sb_nblocks = bload32 d 4, sb_ninodes = bload32 d 8, sb_nlog = bload32 d 12\<rparr>"

lemma readsb_ok:
  assumes s: "idle cfg s" "dirties (bcache s) = {}" and x: "1 < disksize s"
  shows "\<exists>t. readsb cfg 1 s = Inr (sb_of (disk s 1), t) \<and> idle cfg t \<and> dirties (bcache t) = {} \<and> disk t = disk s \<and> writes t = writes s \<and> bioframe s t"
proof -
  obtain b t where t: "bread 1 1 s = Inr (b, t)" "bok cfg [] t" "hnd (bcache t) 1 b" "bdata (bcache t b) = disk s 1"
    "contents t = contents s" "disk t = disk s" "busies (bcache t) = {1}" "dirties (bcache t) = {}" "writes t = writes s" "bioframe s t"
    using look_sector[OF s x] by (elim exE conjE) (rule that)
  have c: "contents t 1 = disk t 1" using idle_clean[OF s] t(5,6) by simp
  obtain u where u: "brelse cfg b t = Inr u" "idle cfg u" "disk u = disk t" "dirties (bcache u) = {}" "writes u = writes t" "bioframe t u"
    using drop_sector[OF t(2,3,7,8) c] by (elim exE conjE) (rule that)
  have "readsb cfg 1 s = Inr (sb_of (disk s 1), u)" using t(1,4) u(1) by (simp add: readsb_def sb_of_def Let_def)
  then show ?thesis using u t bioframe_trans[OF t(10) u(6)] by (intro exI[of _ u]) simp
qed

section \<open>Recovery\<close>

text \<open>The header of the log on a disk, as \<open>read_head\<close> takes it over.\<close>

definition with_head :: "'a logst_scheme \<Rightarrow> 'a logst_scheme" where
  "with_head s = (let d = disk s (lg_start s); n = bload32 d 0 in s\<lparr>lh_n := n,
     lh_sector := (\<lambda>i. if i < nat (sint n) then bload32 d (4 + 4 * i) else lh_sector s i)\<rparr>)"

lemma with_head_sel [simp]:
  "disk (with_head s) = disk s" "bcache (with_head s) = bcache s" "disksize (with_head s) = disksize s"
  "lg_start (with_head s) = lg_start s" "lg_dev (with_head s) = lg_dev s" "contents (with_head s) = contents s"
  "idle cfg (with_head s) = idle cfg s" "bok cfg L (with_head s) = bok cfg L s" "writes (with_head s) = writes s"
  "lh_n (with_head s) = bload32 (disk s (lg_start s)) 0"
  by (simp_all add: with_head_def Let_def)

lemma with_head_frame: "bioframe s t \<Longrightarrow> disk t = disk s \<Longrightarrow> bioframe (with_head s) (with_head t)"
proof -
  assume f: "bioframe s t" "disk t = disk s"
  note l = logframe[OF f(1)]
  have "with_head t = t\<lparr>lh_n := lh_n (with_head s), lh_sector := lh_sector (with_head s)\<rparr>"
    using l f(2) by (simp add: with_head_def Let_def cong: if_cong)
  moreover have "with_head s = s\<lparr>lh_n := lh_n (with_head s), lh_sector := lh_sector (with_head s)\<rparr>"
    by (simp add: with_head_def Let_def)
  moreover have "bioframe (s\<lparr>lh_n := a, lh_sector := b\<rparr>) (t\<lparr>lh_n := a, lh_sector := b\<rparr>)" for a b
  proof -
    have "rest (u\<lparr>lh_n := a, lh_sector := b\<rparr>) = (rest u)\<lparr>lh_n := a, lh_sector := b\<rparr>" for u :: "'a logst_scheme"
      by (simp add: rest_def)
    then show ?thesis using f(1) by (simp add: bioframe_def)
  qed
  ultimately show ?thesis by metis
qed

lemma read_head_ok:
  assumes s: "idle cfg s" "dirties (bcache s) = {}" "lg_dev s = 1" "lg_start s < disksize s"
    and n: "sint (bload32 (disk s (lg_start s)) 0) \<le> int LOGSIZE"
  shows "\<exists>t. read_head cfg s = Inr t \<and> idle cfg t \<and> dirties (bcache t) = {} \<and> disk t = disk s \<and> writes t = writes s \<and>
    bioframe (with_head s) t"
proof -
  obtain b t where t: "bread 1 (lg_start s) s = Inr (b, t)" "bok cfg [] t" "hnd (bcache t) (lg_start s) b"
    "bdata (bcache t b) = disk s (lg_start s)" "contents t = contents s" "disk t = disk s" "busies (bcache t) = {lg_start s}"
    "dirties (bcache t) = {}" "writes t = writes s" "bioframe s t"
    using look_sector[OF s(1,2,4)] by (elim exE conjE) (rule that)
  let ?t = "with_head t"
  have w: "bok cfg [] ?t" "hnd (bcache ?t) (lg_start s) b" "busies (bcache ?t) = {lg_start s}" "dirties (bcache ?t) = {}"
    using t by simp_all
  have c: "contents ?t (lg_start s) = disk ?t (lg_start s)" using idle_clean[OF s(1,2)] t(5,6) by simp
  obtain u where u: "brelse cfg b ?t = Inr u" "idle cfg u" "disk u = disk ?t" "dirties (bcache u) = {}" "writes u = writes ?t" "bioframe ?t u"
    using drop_sector[OF w c] by (elim exE conjE) (rule that)
  have "read_head cfg s = Inr u"
    using t(1,4,6) u(1) n s(3) logframe[OF t(10)] by (simp add: read_head_def with_head_def Let_def cong: if_cong)
  moreover have "bioframe (with_head s) u" by (rule bioframe_trans[OF with_head_frame[OF t(10,6)] u(6)])
  ultimately show ?thesis using u t(6,9) by (intro exI[of _ u]) simp
qed

lemma recover_ok:
  assumes s: "idle cfg s" "dirties (bcache s) = {}" and fit: "log_fits (with_head s)"
  defines "hw \<equiv> home_writes (with_head s) (disk s) (ntrans (with_head s))" and "h \<equiv> disk s (lg_start s)"
  shows "\<exists>t. recover_from_log cfg s = Inr t \<and> idle cfg t \<and> dirties (bcache t) = {} \<and> lh_n t = 0 \<and>
    lg_start t = lg_start s \<and> disk t = (app (disk s) hw)(lg_start s := bstore32 h 0 0) \<and>
    writes t = writes s @ hw @ [(lg_start s, bstore32 h 0 0)]"
proof -
  have dev: "lg_dev s = 1" and n: "ntrans (with_head s) < LOGSIZE" and sl: "lg_start s < disksize s"
    using fit by (simp_all add: log_fits_def word_less_nat_alt LOGSIZE_def MAXOPBLOCKS_def)
  have n': "sint (bload32 (disk s (lg_start s)) 0) \<le> int LOGSIZE" using n by simp
  obtain t where t: "read_head cfg s = Inr t" "idle cfg t" "dirties (bcache t) = {}" "disk t = disk s" "writes t = writes s"
    "bioframe (with_head s) t" using read_head_ok[OF s dev sl n'] by (elim exE conjE) (rule that)
  have ft: "log_fits t" and lt: "lg_start t = lg_start s" "lg_dev t = 1" "disksize t = disksize s" "ntrans t = ntrans (with_head s)"
    "lh_sector t = lh_sector (with_head s)"
    using log_fits_frame[OF t(6)] fit logframe[OF t(6)] bioframe_sel[OF t(6)] dev by simp_all
  have hw: "home_writes t (contents t) (ntrans t) = hw"
    using idle_clean[OF t(2,3)] lt t(4) by (simp add: hw_def home_writes_def log_block_def)
  obtain u where u: "install_trans cfg t = Inr u" "idle cfg u" "bioframe t u" "dirties (bcache u) = {}"
    "contents u = app (contents t) hw" "disk u = app (disk t) hw" "writes u = writes t @ hw"
    using install_trans_ok[OF ft t(2)] t(3) unfolding hw by (auto intro: that)
  have lu: "lg_start u = lg_start s" "lg_dev u = 1" "disksize u = disksize s"
    using logframe[OF u(3)] bioframe_sel[OF u(3)] lt by simp_all
  have hu: "contents u (lg_start s) = h"
    unfolding u(5) hw_def idle_clean[OF t(2,3)] t(4) h_def
    by (rule home_writes_other) (use log_block_facts(6)[OF fit] in simp)
  let ?u = "u\<lparr>lh_n := 0\<rparr>"
  have w0: "idle cfg ?u" "lg_dev ?u = 1" "lg_start ?u < disksize ?u" "card (dirties (bcache ?u) \<union> {lg_start ?u}) \<le> NBUF"
    "lg_start ?u \<notin> dirties (bcache ?u)" using u(2,4) lu sl by (simp_all add: NBUF_def)
  obtain w where w: "write_head cfg ?u = Inr w" "idle cfg w" "bioframe ?u w" "dirties (bcache w) = {}"
    "disk w = (disk u)(lg_start s := bstore32 h 0 0)" "writes w = writes u @ [(lg_start s, bstore32 h 0 0)]"
    using write_head_ok[OF w0] u(4) lu hu by (auto intro: that)
  have "recover_from_log cfg s = Inr w" using t(1) u(1) w(1) by (simp add: recover_from_log_def)
  then show ?thesis using w u(6,7) t(4,5) lu logframe[OF w(3)] by (intro exI[of _ w]) simp
qed

text \<open>A kernel that has just started: no lock is held and the cache is as \<open>binit\<close> leaves it.\<close>

definition fresh_boot :: "schedflag \<Rightarrow> 'a bcst_scheme \<Rightarrow> bool" where
  "fresh_boot cfg s \<longleftrightarrow> kheld cfg [] s \<and> ring_ok (bcache s) \<and> (\<forall>i<NBUF. bdev (bcache s i) = - 1 \<and> bflags (bcache s i) = 0)"

lemma fresh_boot_idle: "fresh_boot cfg s \<Longrightarrow> idle cfg s \<and> dirties (bcache s) = {}"
  using blank_cache[of "bcache s"] by (simp add: fresh_boot_def idle_def bok_def)

lemma initlock_free: "kheld cfg [] s \<Longrightarrow> initlock l s = s"
  by (simp add: initlock_def set_lock_def kheld_def fun_upd_idem)

text \<open>The log starts where the superblock says.\<close>

definition log_place :: "(u32 \<Rightarrow> block) \<Rightarrow> u32" where
  "log_place d = bload32 (d 1) 0 - bload32 (d 1) 12"

definition at_log :: "'a logst_scheme \<Rightarrow> 'a logst_scheme" where
  "at_log s = s\<lparr>lg_start := log_place (disk s), lg_size := bload32 (disk s 1) 12, lg_dev := 1\<rparr>"

lemma at_log_sel [simp]:
  "disk (at_log s) = disk s" "bcache (at_log s) = bcache s" "disksize (at_log s) = disksize s" "lg_dev (at_log s) = 1"
  "lg_start (at_log s) = log_place (disk s)" "idle cfg (at_log s) = idle cfg s" "writes (at_log s) = writes s"
  by (simp_all add: at_log_def)

lemma initlog_ok:
  assumes s: "fresh_boot cfg s" "1 < disksize s" and fit: "log_fits (with_head (at_log s))"
  defines "r \<equiv> with_head (at_log s)" and "st \<equiv> log_place (disk s)"
  shows "\<exists>t. initlog cfg s = Inr t \<and> idle cfg t \<and> dirties (bcache t) = {} \<and> lh_n t = 0 \<and> lg_start t = st \<and>
    disk t = (app (disk s) (home_writes r (disk s) (ntrans r)))(st := bstore32 (disk s st) 0 0) \<and>
    writes t = writes s @ home_writes r (disk s) (ntrans r) @ [(st, bstore32 (disk s st) 0 0)]"
proof -
  have k: "kheld cfg [] s" and id: "idle cfg s" "dirties (bcache s) = {}" using s(1) fresh_boot_idle[OF s(1)] by (auto simp: fresh_boot_def)
  obtain t where t: "readsb cfg 1 s = Inr (sb_of (disk s 1), t)" "idle cfg t" "dirties (bcache t) = {}" "disk t = disk s" "writes t = writes s"
    "bioframe s t" using readsb_ok[OF id s(2)] by (elim exE conjE) (rule that)
  have l: "disksize t = disksize s" "lh_sector t = lh_sector s" using bioframe_sel[OF t(6)] logframe[OF t(6)] by simp_all
  have e: "lh_sector (with_head (at_log t)) = lh_sector r" "lh_n (with_head (at_log t)) = lh_n r"
    using t(4) l by (simp_all add: r_def with_head_def at_log_def Let_def cong: if_cong)
  have "log_fits (with_head (at_log t))" using fit e t(4) l by (simp add: log_fits_def r_def)
  then obtain u where u: "recover_from_log cfg (at_log t) = Inr u" "idle cfg u" "dirties (bcache u) = {}" "lh_n u = 0" "lg_start u = st"
    "disk u = (app (disk s) (home_writes (with_head (at_log t)) (disk s) (ntrans r)))(st := bstore32 (disk s st) 0 0)"
    "writes u = writes s @ home_writes (with_head (at_log t)) (disk s) (ntrans r) @ [(st, bstore32 (disk s st) 0 0)]"
    using recover_ok[of cfg "at_log t"] t e unfolding st_def by auto
  have "initlog cfg s = Inr u"
    using t(1,4) u(1) by (simp add: initlog_def initlock_free[OF k] ROOTDEV_def sb_of_def at_log_def log_place_def)
  moreover have "home_writes (with_head (at_log t)) (disk s) = home_writes r (disk s)"
    by (rule ext) (use e t(4) in \<open>simp add: home_writes_def log_block_def r_def\<close>)
  ultimately show ?thesis using u by (intro exI[of _ u]) simp
qed

section \<open>Stopping in a commit\<close>

abbreviation secs :: "'a logst_scheme \<Rightarrow> u32 set" where
  "secs s \<equiv> lh_sector s ` {..<ntrans s}"

lemma new_writes_app: "app d (new_writes s) x = (if x \<in> secs s then contents s x else d x)"
proof -
  have "app d (map (\<lambda>i. (f i, g (f i))) xs) x = (if x \<in> f ` set xs then g x else d x)" for f g and xs :: "nat list"
    by (induction xs arbitrary: d) auto
  then show ?thesis by (auto simp: new_writes_def atLeast0LessThan)
qed

lemma take_writes_other: "x \<notin> fst ` set ws \<Longrightarrow> app d (take k ws) x = d x"
  by (rule app_other) (auto dest: in_set_takeD)

text \<open>The three stages: the header is still empty, it lists the transaction, it is empty again.\<close>

lemma commit_stages:
  assumes "log_fits s"
  obtains (before) j where "take k (commit_writes s) = take j (log_writes s (ntrans s))"
  | (during) j where "take k (commit_writes s) = log_writes s (ntrans s) @ [(lg_start s, commit_head s)] @ take j (new_writes s)"
  | (after) "take k (commit_writes s) = commit_writes s"
proof -
  let ?n = "ntrans s"
  have l: "length (log_writes s ?n) = ?n" "length (new_writes s) = ?n" by (simp_all add: log_writes_def new_writes_def)
  consider "k \<le> ?n" | "?n < k" "k \<le> 2 * ?n + 1" | "2 * ?n + 1 < k" by linarith
  then show thesis
  proof cases
    case 1
    then show thesis using before[of k] l by (simp add: commit_writes_def)
  next
    case 2
    then obtain j where j: "k = ?n + 1 + j" "j \<le> ?n" using less_imp_Suc_add[of ?n k] by auto
    then show thesis using during[of j] l by (simp add: commit_writes_def)
  next
    case 3
    then show thesis using after l by (simp add: commit_writes_def)
  qed
qed

text \<open>What the recovery sees and leaves in each of them.\<close>

lemma recover_empty:
  assumes s: "fresh_boot cfg r" "1 < disksize r" and p: "log_place (disk r) = st" "unat st + LOGSIZE \<le> unat (disksize r)"
    and h: "bload32 (disk r st) 0 = 0"
  shows "\<exists>u. initlog cfg r = Inr u \<and> idle cfg u \<and> lh_n u = 0 \<and> disk u = (disk r)(st := bstore32 (disk r st) 0 0) \<and>
    writes u = writes r @ [(st, bstore32 (disk r st) 0 0)]"
proof -
  have n: "lh_n (with_head (at_log r)) = 0" using h p(1) by simp
  have "log_fits (with_head (at_log r))" using n p by (simp add: log_fits_def LOGSIZE_def MAXOPBLOCKS_def)
  from initlog_ok[OF s this] show ?thesis using n p(1) by (auto simp: home_writes_def)
qed

lemma recover_full:
  fixes r s :: "'a logst_scheme"
  assumes r: "fresh_boot cfg r" "1 < disksize r" and p: "log_place (disk r) = lg_start s" "disksize r = disksize s"
    and fit: "log_fits s" and h: "disk r (lg_start s) = commit_head s"
    and l: "\<And>i. i < ntrans s \<Longrightarrow> disk r (log_block s i) = contents s (lh_sector s i)"
  shows "\<exists>u. initlog cfg r = Inr u \<and> idle cfg u \<and> lh_n u = 0 \<and>
    disk u = (app (disk r) (new_writes s))(lg_start s := bstore32 (commit_head s) 0 0) \<and>
    writes u = writes r @ new_writes s @ [(lg_start s, bstore32 (commit_head s) 0 0)]"
proof -
  let ?r = "with_head (at_log r)"
  have le: "sint (lh_n s) \<le> 30" using fit by (auto simp: log_fits_def LOGSIZE_def MAXOPBLOCKS_def)
  have n: "lh_n ?r = lh_n s" using h p(1) head_block_load(1)[OF le] by (simp add: commit_head_def)
  have sec: "lh_sector ?r i = lh_sector s i" if "i < ntrans s" for i
    using h p(1) n that head_block_load(2)[OF le that] by (simp add: with_head_def Let_def commit_head_def)
  have lb: "log_block ?r = log_block s" using p(1) by (simp add: log_block_def fun_eq_iff)
  have "inj_on (lh_sector ?r) {..<ntrans s} = inj_on (lh_sector s) {..<ntrans s}" by (rule inj_on_cong) (simp add: sec)
  then have f: "log_fits ?r" using fit n p sec by (simp add: log_fits_def)
  have "home_writes ?r (disk r) (ntrans ?r) = new_writes s"
    unfolding home_writes_def new_writes_def lb n by (rule map_cong) (auto simp: sec l)
  with initlog_ok[OF r f] show ?thesis using p(1) h by auto
qed

text \<open>What must hold of a running system for its commits to survive: the transaction is in the cache,
  the superblock locates the log, is not itself part of the transaction, and the header on the disk is
  empty.\<close>

definition commit_safe :: "schedflag \<Rightarrow> 'a logst_scheme \<Rightarrow> bool" where
  "commit_safe cfg s \<longleftrightarrow> commit_ready cfg s \<and> log_place (disk s) = lg_start s \<and> 1 < lg_start s \<and> 1 \<notin> secs s \<and>
     bload32 (disk s (lg_start s)) 0 = 0"

definition all_or_nothing :: "'a logst_scheme \<Rightarrow> 'a logst_scheme \<Rightarrow> bool" where
  "all_or_nothing s u \<longleftrightarrow> lh_n u = 0 \<and> bload32 (disk u (lg_start s)) 0 = 0 \<and>
     ((\<forall>x. x < lg_start s \<longrightarrow> disk u x = disk s x) \<or> (\<forall>x. x < lg_start s \<longrightarrow> disk u x = contents s x))"

text \<open>The disks that a commit or a recovery may leave when it stops: the transaction has not begun, it is in the log and
  perhaps partly at home, it is done.\<close>

definition old_disk :: "'a logst_scheme \<Rightarrow> (u32 \<Rightarrow> block) \<Rightarrow> bool" where
  "old_disk s d \<longleftrightarrow> log_place d = lg_start s \<and> bload32 (d (lg_start s)) 0 = 0 \<and> (\<forall>x. x < lg_start s \<longrightarrow> d x = disk s x)"

definition half_disk :: "'a logst_scheme \<Rightarrow> (u32 \<Rightarrow> block) \<Rightarrow> bool" where
  "half_disk s d \<longleftrightarrow> log_place d = lg_start s \<and> d (lg_start s) = commit_head s \<and>
     (\<forall>i<ntrans s. d (log_block s i) = contents s (lh_sector s i)) \<and>
     (\<forall>x. x < lg_start s \<longrightarrow> x \<notin> secs s \<longrightarrow> d x = contents s x)"

definition new_disk :: "'a logst_scheme \<Rightarrow> (u32 \<Rightarrow> block) \<Rightarrow> bool" where
  "new_disk s d \<longleftrightarrow> log_place d = lg_start s \<and> bload32 (d (lg_start s)) 0 = 0 \<and> (\<forall>x. x < lg_start s \<longrightarrow> d x = contents s x)"

definition safe_disk :: "'a logst_scheme \<Rightarrow> (u32 \<Rightarrow> block) \<Rightarrow> bool" where
  "safe_disk s d \<longleftrightarrow> old_disk s d \<or> half_disk s d \<or> new_disk s d"

lemma commit_safeD:
  assumes s: "commit_safe cfg s"
  shows "log_fits s" "log_place (disk s) = lg_start s" "1 < lg_start s" "\<not> lg_start s < 1" "1 \<notin> secs s" "lg_start s \<notin> secs s"
    "bload32 (disk s (lg_start s)) 0 = 0"
    "i < ntrans s \<Longrightarrow> lg_start s < log_block s i" "i < ntrans s \<Longrightarrow> log_block s i \<notin> secs s" "x \<in> secs s \<Longrightarrow> x < lg_start s"
    "x \<notin> secs s \<Longrightarrow> contents s x = disk s x" "fst ` set (new_writes s) = secs s"
    "\<not> lg_start s < x \<Longrightarrow> x \<notin> fst ` set (log_writes s (ntrans s))"
proof -
  show fit: "log_fits s" and "log_place (disk s) = lg_start s" and one: "1 < lg_start s" and "1 \<notin> secs s" "bload32 (disk s (lg_start s)) 0 = 0"
    using s by (simp_all add: commit_safe_def commit_ready_def)
  have id: "idle cfg s" "dirties (bcache s) = secs s" using s by (simp_all add: commit_safe_def commit_ready_def)
  show "\<not> lg_start s < 1" using one by auto
  have sec: "x < lg_start s" if "x \<in> secs s" for x using that fit by (auto simp: log_fits_def)
  then show "x \<in> secs s \<Longrightarrow> x < lg_start s" "lg_start s \<notin> secs s" by blast+
  have lg: "lg_start s < log_block s i" if "i < ntrans s" for i using log_block_facts(2)[OF fit that] .
  then show "i < ntrans s \<Longrightarrow> lg_start s < log_block s i" .
  show "i < ntrans s \<Longrightarrow> log_block s i \<notin> secs s" using sec lg by force
  show "x \<notin> secs s \<Longrightarrow> contents s x = disk s x" using bio.clean_law[of cfg s x] id by (simp add: idle_def)
  show "fst ` set (new_writes s) = secs s" by (auto simp: new_writes_def image_image atLeast0LessThan)
  show "\<not> lg_start s < x \<Longrightarrow> x \<notin> fst ` set (log_writes s (ntrans s))" using lg by (auto simp: log_writes_def)
qed

lemma installing:
  assumes s: "commit_safe cfg s" and d: "half_disk s d"
  shows "half_disk s (app d (take j (new_writes s)))"
    "new_disk s ((app d (new_writes s))(lg_start s := bstore32 (commit_head s) 0 0))"
proof -
  note S = commit_safeD[OF s]
  have e: "app d (take j (new_writes s)) x = d x" if "x \<notin> secs s" for x j using take_writes_other S(12) that by metis
  show "half_disk s (app d (take j (new_writes s)))"
    using d e[OF S(5)] e[OF S(6)] e[OF S(9)] e by (simp add: half_disk_def log_place_def)
  let ?n = "app d (new_writes s)"
  have n: "?n x = contents s x" if "x < lg_start s" for x using d that by (simp add: new_writes_app half_disk_def)
  have "?n 1 = d 1" using S(5) by (simp add: new_writes_app)
  then show "new_disk s (?n(lg_start s := bstore32 (commit_head s) 0 0))"
    using d n S(3,4) by (auto simp: new_disk_def half_disk_def log_place_def)
qed

lemma commit_stage:
  assumes s: "commit_safe cfg s"
  shows "safe_disk s (app (disk s) (take k (commit_writes s)))"
proof -
  note S = commit_safeD[OF s]
  let ?st = "lg_start s" and ?L = "log_writes s (ntrans s)"
  have L: "app (disk s) (take j ?L) x = disk s x" if "\<not> ?st < x" for x j using take_writes_other[OF S(13)[OF that]] .
  have L': "app (disk s) ?L x = disk s x" if "\<not> ?st < x" for x by (rule app_other[OF S(13)[OF that]])
  let ?d = "(app (disk s) ?L)(?st := commit_head s)"
  have "log_place ?d = ?st" using L'[OF S(4)] S(2,3) by (auto simp: log_place_def)
  moreover have "?d (log_block s i) = contents s (lh_sector s i)" if "i < ntrans s" for i
    using S(8)[OF that] log_written[OF S(1) that] by auto
  moreover have "?d x = contents s x" if "x < ?st" "x \<notin> secs s" for x using L'[of x] S(11)[of x] that by auto
  ultimately have h: "half_disk s ?d" by (simp add: half_disk_def)
  show ?thesis
  proof (rule commit_stages[OF S(1), of k])
    fix j assume k: "take k (commit_writes s) = take j ?L"
    have "old_disk s (app (disk s) (take j ?L))" using L[OF S(4)] L[of ?st] L S(2,7) by (simp add: old_disk_def log_place_def)
    then show ?thesis by (simp add: k safe_disk_def)
  next
    fix j assume k: "take k (commit_writes s) = ?L @ [(?st, commit_head s)] @ take j (new_writes s)"
    show ?thesis using installing(1)[OF s h, of j] by (simp add: k safe_disk_def)
  next
    assume k: "take k (commit_writes s) = commit_writes s"
    show ?thesis unfolding k using installing(2)[OF s h] by (simp add: commit_writes_def safe_disk_def)
  qed
qed

text \<open>A recovery finishes on each of them, and may itself stop after any of its writes.\<close>

lemma recover_stage:
  fixes r s :: "'a logst_scheme"
  assumes s: "commit_safe cfg s" and r: "fresh_boot cfg r" "disksize r = disksize s" and d: "safe_disk s (disk r)"
  shows "\<exists>u W. initlog cfg r = Inr u \<and> idle cfg u \<and> all_or_nothing s u \<and> writes u = writes r @ W \<and> (\<forall>j. safe_disk s (app (disk r) (take j W)))"
proof -
  note S = commit_safeD[OF s]
  let ?st = "lg_start s" and ?e = "bstore32 (disk r (lg_start s)) 0 0"
  have up: "unat ?st + LOGSIZE \<le> unat (disksize r)" using S(1) r(2) by (simp add: log_fits_def)
  have sl: "1 < disksize r" using S(3) up by (simp add: word_less_nat_alt)
  consider (empty) "old_disk s (disk r) \<or> new_disk s (disk r)" | (full) "half_disk s (disk r)" using d by (auto simp: safe_disk_def)
  then show ?thesis
  proof cases
    case empty
    then have "log_place (disk r) = ?st" "bload32 (disk r ?st) 0 = 0" by (auto simp: old_disk_def new_disk_def)
    then obtain u where u: "initlog cfg r = Inr u" "idle cfg u" "lh_n u = 0" "disk u = (disk r)(?st := ?e)" "writes u = writes r @ [(?st, ?e)]"
      using recover_empty[OF r(1) sl _ up] by auto
    have e: "safe_disk s ((disk r)(?st := ?e))"
      using empty S(3,4) by (auto simp: safe_disk_def old_disk_def new_disk_def log_place_def)
    have "safe_disk s (app (disk r) (take j [(?st, ?e)]))" for j using e d by (cases j) simp_all
    moreover have "all_or_nothing s u" using u(3,4) empty by (auto simp: all_or_nothing_def old_disk_def new_disk_def)
    ultimately show ?thesis using u by blast
  next
    case full
    let ?h = "bstore32 (commit_head s) 0 0"
    obtain u where u: "initlog cfg r = Inr u" "idle cfg u" "lh_n u = 0" "disk u = (app (disk r) (new_writes s))(?st := ?h)"
      "writes u = writes r @ new_writes s @ [(?st, ?h)]"
      using recover_full[OF r(1) sl _ r(2) S(1)] full by (auto simp: half_disk_def)
    note I = installing[OF s full]
    have "safe_disk s (app (disk r) (take j (new_writes s @ [(?st, ?h)])))" for j
    proof (cases "j \<le> length (new_writes s)")
      case True
      then show ?thesis using I(1)[of j] by (simp add: safe_disk_def)
    next
      case False
      then show ?thesis using I(2) by (simp add: safe_disk_def)
    qed
    moreover have "all_or_nothing s u" using u(3,4) I(2) by (simp add: all_or_nothing_def new_disk_def)
    ultimately show ?thesis using u by blast
  qed
qed

text \<open>The disks that any number of restarts may leave, each of them stopped after some of the writes of its recovery.\<close>

inductive crashes :: "schedflag \<Rightarrow> 'a logst_scheme \<Rightarrow> (u32 \<Rightarrow> block) \<Rightarrow> (u32 \<Rightarrow> block) \<Rightarrow> bool"
  for cfg and s :: "'a logst_scheme" and d where
  stop: "crashes cfg s d d"
| again: "crashes cfg s d (disk (r :: 'a logst_scheme)) \<Longrightarrow> fresh_boot cfg r \<Longrightarrow> disksize r = disksize s \<Longrightarrow> initlog cfg r = Inr u \<Longrightarrow>
    writes u = writes r @ W \<Longrightarrow> crashes cfg s d (app (disk r) (take j W))"

lemma crashes_safe:
  assumes s: "commit_safe cfg s" and c: "crashes cfg s d e" and d: "safe_disk s d"
  shows "safe_disk s e"
  using c
proof induction
  case stop
  show ?case by (rule d)
next
  case (again r u W j)
  then show ?case using recover_stage[OF s again(2,3)] by auto
qed

lemma commit_all:
  assumes s: "commit_safe cfg s" and x: "x < lg_start s"
  shows "app (disk s) (commit_writes s) x = contents s x"
proof -
  have fit: "log_fits s" and id: "idle cfg s" "dirties (bcache s) = secs s"
    using s by (simp_all add: commit_safe_def commit_ready_def)
  have cl: "contents s x = disk s x" if "x \<notin> secs s" using bio.clean_law[of cfg s x] id that by (simp add: idle_def)
  have "x \<notin> fst ` set (log_writes s (ntrans s))" using log_block_facts(2)[OF fit] x by (fastforce simp: log_writes_def)
  then show ?thesis using cl x by (auto simp: commit_writes_def new_writes_app app_other)
qed

text \<open>C1. A commit runs through and brings the disk up to date. It may stop after any number of its writes, and the
  recovery of any number of restarts after that may stop after any number of its own: the recovery that finishes leaves all of
  the transaction on the disk or none of it, and an empty log. A write of one sector happens or does not happen.\<close>

theorem commit_crash_atomic:
  assumes "commit_safe cfg s"
  shows "\<exists>t W. commit cfg s = Inr t \<and> idle cfg t \<and> lh_n t = 0 \<and> writes t = writes s @ W \<and> disk t = app (disk s) W \<and>
    (\<forall>x. x < lg_start s \<longrightarrow> disk t x = contents s x) \<and>
    (\<forall>k r. crashes cfg s (app (disk s) (take k W)) (disk r) \<and> fresh_boot cfg r \<and> disksize r = disksize s \<longrightarrow>
      (\<exists>u. initlog cfg r = Inr u \<and> idle cfg u \<and> all_or_nothing s u))"
proof -
  have "commit_ready cfg s" using assms by (simp add: commit_safe_def)
  then obtain t where t: "commit cfg s = Inr t" "idle cfg t" "lh_n t = 0" "disk t = app (disk s) (commit_writes s)"
    "writes t = writes s @ commit_writes s" using commit_ok by blast
  have "\<exists>u. initlog cfg r = Inr u \<and> idle cfg u \<and> all_or_nothing s u"
    if "crashes cfg s (app (disk s) (take k (commit_writes s))) (disk r)" "fresh_boot cfg r" "disksize r = disksize s" for k r
    using recover_stage[OF assms that(2,3) crashes_safe[OF assms that(1) commit_stage[OF assms]]] by blast
  then show ?thesis using t commit_all[OF assms]
    by (intro exI[of _ t] exI[of _ "commit_writes s"]) auto
qed

section \<open>A concrete machine\<close>

text \<open>A disk of 100 sectors with the log at 50, an empty cache, and a transaction with the one sector 2 in
  it.\<close>

definition blank_buf :: "nat \<Rightarrow> buf" where
  "blank_buf i = \<lparr>bflags = 0, bdev = - 1, sector = 0, bprev = (if i = 0 then 30 else i - 1),
     bnext = (if i = 30 then 0 else i + 1), bdata = (\<lambda>_. 0)\<rparr>"

definition demo_disk :: "u32 \<Rightarrow> block" where
  "demo_disk = (\<lambda>_ _. 0)(1 := bstore32 (bstore32 (\<lambda>_. 0) 0 80) 12 30)"

definition demo_logst :: "(nat \<Rightarrow> buf) \<Rightarrow> (u32 \<Rightarrow> block) \<Rightarrow> logst" where
  "demo_logst bc d = bcst.extend (procst.extend boot_procst (bcst.fields bc d 100 []))
     (logst.fields 50 30 0 True 1 1 (\<lambda>_. 2))"

definition trans_logst :: logst where
  "trans_logst = demo_logst (blank_buf(0 := (blank_buf 0)\<lparr>bflags := B_VALID OR B_DIRTY, bdev := 1, sector := 2, bdata := (\<lambda>_. 7)\<rparr>)) demo_disk"

lemma demo_logst_sel [simp]:
  "bcache (demo_logst bc d) = bc" "disk (demo_logst bc d) = d" "disksize (demo_logst bc d) = 100"
  "lg_start (demo_logst bc d) = 50" "lg_dev (demo_logst bc d) = 1" "lh_n (demo_logst bc d) = 1"
  "lh_sector (demo_logst bc d) = (\<lambda>_. 2)"
  by (simp_all add: demo_logst_def bcst.defs procst.defs logst.defs boot_procst_def blank_memst_def boot_mach_def memst.defs mach.defs)

lemma demo_kheld: "kheld DEFAULT [] (demo_logst bc d)"
proof -
  have "rrq (demo_logst bc d) []"
    by (simp add: rrq_def dll_def nx_def pv_def demo_logst_def bcst.defs procst.defs logst.defs boot_procst_def blank_memst_def
        boot_mach_def memst.defs mach.defs idle_proc_def)
  then have "qinv DEFAULT (False, {}) (demo_logst bc d)" by (auto simp: qinv_def covered_def)
  then show ?thesis
    by (simp add: kheld_def cpu_ok_def demo_logst_def bcst.defs procst.defs logst.defs boot_procst_def blank_memst_def boot_mach_def memst.defs mach.defs)
qed

lemma blank_ring: "ring_ok blank_buf"
proof -
  have "ring 30 (\<lambda>i. if i = 30 then 0 else i + 1) (\<lambda>i. if i = 0 then 30 else i - 1) [0..<30]" by code_simp
  then show ?thesis unfolding ring_ok_def NBUF_def
    by (intro exI[of _ "[0..<30]"]) (auto simp: blank_buf_def)
qed

lemma demo_fresh: "fresh_boot DEFAULT (demo_logst blank_buf d)"
  using blank_ring demo_kheld by (simp add: fresh_boot_def blank_buf_def)

lemma trans_cached: "cached (bcache trans_logst) x i \<longleftrightarrow> i = 0 \<and> x = 2"
  by (auto simp: trans_logst_def cached_def blank_buf_def NBUF_def)

lemma trans_safe: "commit_safe DEFAULT trans_logst"
proof -
  let ?s = trans_logst
  have sel: "lg_start ?s = 50" "lg_dev ?s = 1" "lh_n ?s = 1" "lh_sector ?s = (\<lambda>_. 2)" "disk ?s = demo_disk" "disksize ?s = 100"
    by (simp_all add: trans_logst_def)
  have ring: "ring_ok (bcache ?s)"
  proof -
    have "(\<lambda>i. bnext (bcache ?s i)) = (\<lambda>i. bnext (blank_buf i))" "(\<lambda>i. bprev (bcache ?s i)) = (\<lambda>i. bprev (blank_buf i))"
      by (auto simp: trans_logst_def fun_eq_iff)
    then show ?thesis using blank_ring by (simp add: ring_ok_def)
  qed
  have "slot_ok 100 demo_disk (bcache ?s i)" for i
    by (auto simp: trans_logst_def slot_ok_def blank_buf_def B_VALID_def B_DIRTY_def B_BUSY_def)
  then have "cache_ok (bcache ?s) demo_disk 100" using ring trans_cached by (auto simp: cache_ok_def)
  moreover have "busies (bcache ?s) = {}" "dirties (bcache ?s) = {2}"
    unfolding busies_def dirties_def trans_cached by (auto simp: trans_logst_def B_VALID_def B_DIRTY_def B_BUSY_def)
  moreover have "kheld DEFAULT [] ?s" unfolding trans_logst_def by (rule demo_kheld)
  moreover have "log_place demo_disk = 50" by (simp add: log_place_def demo_disk_def)
  ultimately show ?thesis
    using sel by (auto simp: commit_safe_def commit_ready_def log_fits_def idle_def bok_def LOGSIZE_def MAXOPBLOCKS_def
        demo_disk_def bload32_def lessThan_Suc)
qed

text \<open>A stop after two writes of the commit, a restart whose recovery stops after its first write, and one more.\<close>

theorem commit_crash_atomic_witness:
  "\<exists>t W v V u. commit DEFAULT trans_logst = Inr t \<and> writes t = writes trans_logst @ W \<and>
    initlog DEFAULT (demo_logst blank_buf (app (disk trans_logst) (take 2 W))) = Inr v \<and>
    writes v = writes (demo_logst blank_buf (app (disk trans_logst) (take 2 W))) @ V \<and>
    initlog DEFAULT (demo_logst blank_buf (app (app (disk trans_logst) (take 2 W)) (take 1 V))) = Inr u \<and> all_or_nothing trans_logst u"
proof -
  have n: "disksize (demo_logst bc d) = disksize trans_logst" for bc d by (simp add: trans_logst_def)
  obtain t W where W: "commit DEFAULT trans_logst = Inr t" "writes t = writes trans_logst @ W"
    and c: "\<forall>k r. crashes DEFAULT trans_logst (app (disk trans_logst) (take k W)) (disk r) \<and> fresh_boot DEFAULT r \<and>
      disksize r = disksize trans_logst \<longrightarrow> (\<exists>u. initlog DEFAULT r = Inr u \<and> idle DEFAULT u \<and> all_or_nothing trans_logst u)"
    using commit_crash_atomic[OF trans_safe] by blast
  have "commit_ready DEFAULT trans_logst" using trans_safe by (simp add: commit_safe_def)
  then have "W = commit_writes trans_logst" using W commit_ok[of DEFAULT trans_logst] by auto
  then have s: "safe_disk trans_logst (app (disk trans_logst) (take 2 W))" using commit_stage[OF trans_safe] by simp
  define d where "d = app (disk trans_logst) (take 2 W)"
  let ?r = "demo_logst blank_buf d"
  obtain v V where v: "initlog DEFAULT ?r = Inr v" "writes v = writes ?r @ V"
    using recover_stage[OF trans_safe demo_fresh n, of d] s by (auto simp: d_def)
  have "crashes DEFAULT trans_logst d (app (disk ?r) (take 1 V))"
    by (rule crashes.again[OF _ demo_fresh n v]) (simp add: crashes.stop)
  then obtain u where "initlog DEFAULT (demo_logst blank_buf (app d (take 1 V))) = Inr u" "all_or_nothing trans_logst u"
    using c[rule_format, of 2 "demo_logst blank_buf (app d (take 1 V))"] demo_fresh n by (auto simp: d_def)
  then show ?thesis using W v unfolding d_def by blast
qed

end
