(* ===== verification/Xv6_Trans.thy ===== *)
theory Xv6_Trans
  imports Xv6_Crash
begin

unbundle bit_operations_syntax

text \<open>
  Transactions: \<open>begin_op\<close>, updates of sectors through the cache, \<open>end_op\<close>. \<open>log_write\<close> enters a sector
  into the transaction once and pins its buffer; the last \<open>end_op\<close> brings every update to the disk.
\<close>

section \<open>\<open>log_write\<close>\<close>

lemma sint_of_nat31: "k < 2 ^ 31 \<Longrightarrow> sint (of_nat k :: u32) = int k"
  by (simp add: signed_of_nat signed_take_bit_int_eq_self)

lemma sint_succ: "0 \<le> sint (w :: u32) \<Longrightarrow> sint w < 2 ^ 31 - 1 \<Longrightarrow> sint (w + 1) = sint w + 1"
proof -
  assume a: "0 \<le> sint w" "sint w < 2 ^ 31 - 1"
  let ?k = "nat (sint w)"
  have "w = word_of_int (sint w)" by simp
  also have "\<dots> = of_nat ?k" using a(1) by simp
  finally have "w + 1 = of_nat (Suc ?k)" by (metis of_nat_Suc add.commute)
  moreover have "Suc ?k < 2 ^ 31" using a by auto
  ultimately have "sint (w + 1) = int (Suc ?k)" using sint_of_nat31 by metis
  then show ?thesis using a(1) by simp
qed

lemma mark_dirty:
  assumes ok: "cache_ok bc d n" and h: "hnd bc x b"
  defines "bc' \<equiv> bc(b := (bc b)\<lparr>bflags := bflags (bc b) OR B_DIRTY\<rparr>)"
  shows "cache_ok bc' d n" "content bc' d = content bc d" "busies bc' = busies bc" "dirties bc' = insert x (dirties bc)" "hnd bc' = hnd bc"
proof -
  let ?x = "(bc b)\<lparr>bflags := bflags (bc b) OR B_DIRTY\<rparr>"
  have c: "cached bc x b" "is_busy (bc b)" using h by (auto simp: hnd_def)
  have p: "same_place ?x (bc b)" by (simp add: same_place_def)
  have "slot_ok n d (bc b)" using ok c by (auto simp: cache_ok_def cached_def)
  then have sl: "slot_ok n d ?x" using c by (auto simp: slot_ok_def cached_def)
  show "cache_ok bc' d n" unfolding bc'_def by (rule cache_upd[OF ok p sl])
  show "content bc' d = content bc d"
    unfolding bc'_def using content_upd[OF ok p sl c(1)] content_cached[OF ok c(1)] by (auto simp: fun_eq_iff)
  have m: "x \<in> busies bc" using c by (auto simp: busies_def)
  show "busies bc' = busies bc" unfolding bc'_def using busies_upd(1)[OF ok p c(1)] c(2) m by auto
  show "dirties bc' = insert x (dirties bc)" unfolding bc'_def using busies_upd(2)[OF ok p c(1)] by simp
  have k: "cached bc' = cached bc" unfolding bc'_def by (rule cached_upd[of ?x bc b, OF p])
  show "hnd bc' = hnd bc" unfolding hnd_def[abs_def] k by (auto simp: bc'_def fun_eq_iff)
qed

text \<open>The header in memory after \<open>log_write\<close> of sector \<open>x\<close>.\<close>

lemma head_insert:
  assumes inj: "inj_on f {..<n}" and i: "i = (case scan (\<lambda>i. f i = x) n of Some i \<Rightarrow> i | None \<Rightarrow> n)"
  defines "m \<equiv> if i = n then Suc n else n"
  shows "f(i := x) ` {..<m} = insert x (f ` {..<n})" "inj_on (f(i := x)) {..<m}" "i \<le> n"
proof -
  have "f(i := x) ` {..<m} = insert x (f ` {..<n}) \<and> inj_on (f(i := x)) {..<m} \<and> i \<le> n"
  proof (cases "scan (\<lambda>i. f i = x) n")
    case None
    then have "x \<notin> f ` {..<n}" "i = n" using i None[unfolded scan_None] by simp_all blast
    then show ?thesis using inj by (auto simp: m_def lessThan_Suc inj_on_def image_def)
  next
    case (Some j)
    then have j: "j < n" "f j = x" "i = j" using i Some[unfolded scan_Some] by simp_all
    then have "f(i := x) = f" by auto
    then show ?thesis using inj j by (auto simp: m_def)
  qed
  then show "f(i := x) ` {..<m} = insert x (f ` {..<n})" "inj_on (f(i := x)) {..<m}" "i \<le> n" by blast+
qed

lemma log_write_ok:
  assumes s: "bok cfg [] s" "hnd (bcache s) x b" and o: "1 \<le> outstanding s"
    and n: "0 \<le> sint (lh_n s)" "sint (lh_n s) < 29" "sint (lg_size s) = 30" and inj: "inj_on (lh_sector s) {..<ntrans s}"
  shows "\<exists>t. log_write b s = Inr t \<and> bok cfg [] t \<and> hnd (bcache t) = hnd (bcache s) \<and> contents t = contents s \<and>
    disk t = disk s \<and> writes t = writes s \<and> busies (bcache t) = busies (bcache s) \<and>
    dirties (bcache t) = insert x (dirties (bcache s)) \<and> secs t = insert x (secs s) \<and>
    inj_on (lh_sector t) {..<ntrans t} \<and> 0 \<le> sint (lh_n t) \<and> sint (lh_n t) \<le> sint (lh_n s) + 1 \<and> same_log s t"
proof -
  have k: "kheld cfg [] s" and ok: "cache_ok (bcache s) (disk s) (disksize s)" using s(1) by (auto simp: bok_def)
  obtain t where t: "acquire LogLock s = Inr t" "kheld cfg [LogLock] t" "rest t = rest s" using kheld_acquire[OF k, of LogLock] by auto
  have bt: "bcache t = bcache s" "disk t = disk s" "disksize t = disksize s" "writes t = writes s" using rest_bioD[OF t(3)] by auto
  have lt: "lg_start t = lg_start s \<and> lg_size t = lg_size s \<and> outstanding t = outstanding s \<and>
    committing t = committing s \<and> lg_dev t = lg_dev s \<and> lh_n t = lh_n s \<and> lh_sector t = lh_sector s"
    by (rule logframe) (use t(3) bt in \<open>simp add: bioframe_def rest_def\<close>)
  define i where "i = (case scan (\<lambda>i. lh_sector s i = x) (ntrans s) of Some i \<Rightarrow> i | None \<Rightarrow> ntrans s)"
  let ?n = "if i = ntrans s then lh_n s + 1 else lh_n s"
  let ?u = "upd_buf b (\<lambda>y. y\<lparr>bflags := bflags y OR B_DIRTY\<rparr>) (t\<lparr>lh_sector := (lh_sector t)(i := x), lh_n := ?n\<rparr>)"
  have ku: "kheld cfg [LogLock] ?u" using t(2) by simp
  obtain v where v: "release LogLock ?u = Inr v" "kheld cfg [] v" "rest v = rest ?u" using kheld_release[OF ku] by blast
  have bv: "bcache v = bcache ?u" "disk v = disk s" "disksize v = disksize s" "writes v = writes s" using rest_bioD[OF v(3)] bt by auto
  have lv: "lg_start v = lg_start ?u \<and> lg_size v = lg_size ?u \<and> outstanding v = outstanding ?u \<and>
    committing v = committing ?u \<and> lg_dev v = lg_dev ?u \<and> lh_n v = lh_n ?u \<and> lh_sector v = lh_sector ?u"
    by (rule logframe) (use v(3) bv bt in \<open>simp add: bioframe_def rest_def\<close>)
  have e: "lh_n v = ?n" "lh_sector v = (lh_sector s)(i := x)" "same_log s v"
    using lv lt bv by (simp_all add: upd_buf_def same_log_def)
  have m: "ntrans v = (if i = ntrans s then Suc (ntrans s) else ntrans s)" "0 \<le> sint (lh_n v)" "sint (lh_n v) \<le> sint (lh_n s) + 1"
    using e(1) n(1,2) sint_succ[OF n(1)] by auto
  note H = head_insert[OF inj i_def]
  have x: "sector (bcache t b) = x" using s(2) bt by (auto simp: hnd_def cached_def)
  have i': "(case scan (\<lambda>i. lh_sector s i = x) (ntrans s) of Some i \<Rightarrow> i | None \<Rightarrow> ntrans t) = i"
    using lt x by (simp add: i_def split: option.split)
  have c: "int i = sint (lh_n s) \<longleftrightarrow> i = ntrans s" using n(1) by auto
  have nn: "t\<lparr>lh_sector := f, lh_n := lh_n s\<rparr> = t\<lparr>lh_sector := f\<rparr>" for f using lt by (cases t) simp
  have "log_write b s = Inr v"
    using v(1) t(1) n o lt x nn c unfolding log_write_def Let_def
    by (cases "i = ntrans s") (simp_all add: LOGSIZE_def MAXOPBLOCKS_def i')
  moreover have "bcache v = (bcache s)(b := (bcache s b)\<lparr>bflags := bflags (bcache s b) OR B_DIRTY\<rparr>)" using bv(1) bt by simp
  moreover note mark_dirty[OF ok s(2)]
  ultimately show ?thesis
    by (intro exI[of _ v]) (use v(2) bv m e H in \<open>simp add: bok_def contents_def\<close>)
qed

section \<open>Updating a sector in a transaction\<close>

text \<open>The way fs.c changes a block: read it, change it, log it, give it back.\<close>

definition log_update :: "schedflag \<Rightarrow> u32 \<times> block \<Rightarrow> 'a logst_scheme \<Rightarrow> 'a logst_scheme res" where
  "log_update cfg xd s =
     bindr (bread 1 (fst xd) s) (\<lambda>(b, s). bindr (log_write b (set_data b (snd xd) s)) (brelse cfg b))"

fun log_updates :: "schedflag \<Rightarrow> (u32 \<times> block) list \<Rightarrow> 'a logst_scheme \<Rightarrow> 'a logst_scheme res" where
  "log_updates cfg [] s = Inr s"
| "log_updates cfg (u # us) s = bindr (log_update cfg u s) (log_updates cfg us)"

definition in_trans :: "schedflag \<Rightarrow> 'a logst_scheme \<Rightarrow> bool" where
  "in_trans cfg s \<longleftrightarrow> idle cfg s \<and> log_fits s \<and> dirties (bcache s) = secs s \<and> 1 \<le> outstanding s \<and>
     0 \<le> sint (lh_n s) \<and> sint (lg_size s) = 30"

lemma log_update_ok:
  assumes s: "in_trans cfg s" and x: "x < lg_start s" and n: "sint (lh_n s) < 29"
  shows "\<exists>t. log_update cfg (x, d) s = Inr t \<and> in_trans cfg t \<and> contents t = (contents s)(x := d) \<and> disk t = disk s \<and>
    writes t = writes s \<and> secs t = insert x (secs s) \<and> sint (lh_n t) \<le> sint (lh_n s) + 1 \<and> same_log s t"
proof -
  have ok: "bok cfg [] s" "busies (bcache s) = {}" and fit: "log_fits s" and dt: "dirties (bcache s) = secs s"
    and o: "1 \<le> outstanding s" "0 \<le> sint (lh_n s)" "sint (lg_size s) = 30" using s by (auto simp: in_trans_def idle_def)
  have xl: "x < disksize s" using fit x by (auto simp: log_fits_def word_less_nat_alt)
  have "card (secs s) \<le> ntrans s" using card_image_le[of "{..<ntrans s}" "lh_sector s"] by simp
  then have room: "x \<in> dirties (bcache s) \<or> card (dirties (bcache s) \<union> busies (bcache s)) < NBUF"
    using dt ok(2) n o(2) by (auto simp: NBUF_def)
  have nb: "x \<notin> busies (bcache s)" using ok(2) by simp
  obtain b t where t: "bread 1 x s = Inr (b, t)" "bok cfg [] t" "hnd (bcache t) x b" "contents t = contents s"
    "disk t = disk s" "busies (bcache t) = insert x (busies (bcache s))" "dirties (bcache t) = dirties (bcache s)"
    "writes t = writes s" "bioframe s t"
    using bio.rd_law[OF ok(1) nb xl room] by (elim exE conjE) (rule that)
  let ?p = "set_data b d t"
  have p: "bok cfg [] ?p" "contents ?p = (contents s)(x := d)" "disk ?p = disk s" "busies (bcache ?p) = {x}"
    "dirties (bcache ?p) = secs s" "writes ?p = writes s" "bioframe s ?p" "hnd (bcache ?p) x b"
    using bio.put_law[OF t(2,3), of d] t ok(2) dt bioframe_trans[OF t(9)] by auto
  note lp = logframe[OF p(7)] and sp = frame_same_log[OF p(7)]
  have a: "1 \<le> outstanding ?p" "0 \<le> sint (lh_n ?p)" "sint (lh_n ?p) < 29" "sint (lg_size ?p) = 30" "inj_on (lh_sector ?p) {..<ntrans ?p}"
    using lp o n fit by (simp_all add: log_fits_def)
  obtain u where u: "log_write b ?p = Inr u" "bok cfg [] u" "hnd (bcache u) = hnd (bcache ?p)" "contents u = contents ?p"
    "disk u = disk ?p" "writes u = writes ?p" "busies (bcache u) = busies (bcache ?p)"
    "dirties (bcache u) = insert x (dirties (bcache ?p))" "secs u = insert x (secs ?p)"
    "inj_on (lh_sector u) {..<ntrans u}" "0 \<le> sint (lh_n u)" "sint (lh_n u) \<le> sint (lh_n ?p) + 1" "same_log ?p u"
    using log_write_ok[OF p(1,8) a] by (elim exE conjE) (rule that)
  have h: "hnd (bcache u) x b" "x \<in> dirties (bcache u) \<or> contents u x = disk u x" using u(3,8) p(8) by simp_all
  obtain v where v: "brelse cfg b u = Inr v" "bok cfg [] v" "contents v = contents u" "disk v = disk u"
    "busies (bcache v) = busies (bcache u) - {x}" "dirties (bcache v) = dirties (bcache u)" "writes v = writes u" "bioframe u v"
    using bio.rl_law[OF u(2) h] by (elim exE conjE) (rule that)
  note lv = logframe[OF v(8)]
  have sv: "same_log s v" by (rule same_log_trans[OF sp same_log_trans[OF u(13) frame_same_log[OF v(8)]]])
  have sx: "secs v = insert x (secs s)" using lv u(9) lp by simp
  have "\<forall>y \<in> secs v. y < lg_start s" using sx fit x by (auto simp: log_fits_def)
  then have "log_fits v"
    using fit sv lv u(10-12) lp n by (auto simp: log_fits_def same_log_def LOGSIZE_def MAXOPBLOCKS_def)
  then have "in_trans cfg v"
    using sv sx v u p o lv by (simp add: in_trans_def idle_def same_log_def)
  moreover have "log_update cfg (x, d) s = Inr v" using t(1) u(1) v(1) by (simp add: log_update_def)
  ultimately show ?thesis using sx sv v u p lv lp by (intro exI[of _ v]) simp
qed

lemma log_updates_ok:
  "in_trans cfg s \<Longrightarrow> \<forall>x \<in> fst ` set us. x < lg_start s \<Longrightarrow> sint (lh_n s) + int (length us) \<le> 29 \<Longrightarrow>
    \<exists>t. log_updates cfg us s = Inr t \<and> in_trans cfg t \<and> contents t = app (contents s) us \<and> disk t = disk s \<and>
      writes t = writes s \<and> secs t = secs s \<union> fst ` set us \<and> same_log s t"
proof (induction us arbitrary: s)
  case Nil
  then show ?case by (simp add: same_log_def)
next
  case (Cons u us)
  obtain x d where u: "u = (x, d)" by fastforce
  have "x < lg_start s" "sint (lh_n s) < 29" using Cons.prems(2,3) u by auto
  from log_update_ok[OF Cons.prems(1) this, of d] obtain t where t: "log_update cfg u s = Inr t" "in_trans cfg t"
    "contents t = (contents s)(x := d)" "disk t = disk s" "writes t = writes s" "secs t = insert x (secs s)"
    "sint (lh_n t) \<le> sint (lh_n s) + 1" "same_log s t" using u by (elim exE conjE) (rule that, simp_all)
  have p: "\<forall>x \<in> fst ` set us. x < lg_start t" "sint (lh_n t) + int (length us) \<le> 29"
    using Cons.prems(2,3) t(7,8) by (auto simp: same_log_def)
  obtain v where v: "log_updates cfg us t = Inr v" "in_trans cfg v" "contents v = app (contents t) us" "disk v = disk t"
    "writes v = writes t" "secs v = secs t \<union> fst ` set us" "same_log t v"
    using Cons.IH[OF t(2) p] by (elim exE conjE) (rule that)
  then show ?case using t u same_log_trans[OF t(8) v(7)] by (intro exI[of _ v]) auto
qed

section \<open>Whole transactions\<close>

text \<open>Locking and waking leave the log and the cache alone.\<close>

lemma rest_log: "rest t = rest s \<Longrightarrow> same_log s t \<and> lh_n t = lh_n s \<and> lh_sector t = lh_sector s \<and> bcache t = bcache s \<and>
    disk t = disk s \<and> writes t = writes s \<and> contents t = contents s"
proof -
  assume r: "rest t = rest s"
  note b = rest_bioD[OF r]
  have f: "bioframe s t" using r b by (simp add: bioframe_def rest_def)
  then show ?thesis using b logframe[OF f] frame_same_log[OF f] by (simp add: contents_def)
qed

lemma log_fields [simp]:
  "kheld cfg L (s\<lparr>outstanding := k\<rparr>) = kheld cfg L s" "kheld cfg L (s\<lparr>committing := c\<rparr>) = kheld cfg L s"
  by (auto elim: kheld_cong)

text \<open>Between transactions: nothing is pinned, the log is empty in memory and on the disk, and lies where
  the superblock says.\<close>

definition log_quiet :: "schedflag \<Rightarrow> 'a logst_scheme \<Rightarrow> bool" where
  "log_quiet cfg s \<longleftrightarrow> idle cfg s \<and> dirties (bcache s) = {} \<and> outstanding s = 0 \<and> \<not> committing s \<and> lh_n s = 0 \<and>
     lg_dev s = 1 \<and> sint (lg_size s) = 30 \<and> unat (lg_start s) + LOGSIZE \<le> unat (disksize s) \<and>
     log_place (disk s) = lg_start s \<and> 1 < lg_start s \<and> bload32 (disk s (lg_start s)) 0 = 0"

lemma begin_op_ok:
  assumes s: "log_quiet cfg s"
  shows "\<exists>t. begin_op s = Inr t \<and> in_trans cfg t \<and> outstanding t = 1 \<and> \<not> committing t \<and> lh_n t = 0 \<and> contents t = contents s \<and>
    disk t = disk s \<and> lg_start t = lg_start s \<and> writes t = writes s \<and> disksize t = disksize s"
proof -
  have k: "kheld cfg [] s" "cache_ok (bcache s) (disk s) (disksize s)" "busies (bcache s) = {}" using s by (auto simp: log_quiet_def idle_def bok_def)
  obtain t where t: "acquire LogLock s = Inr t" "kheld cfg [LogLock] t" "rest t = rest s" using kheld_acquire[OF k(1), of LogLock] by auto
  note lt = rest_log[OF t(3)]
  let ?t = "t\<lparr>outstanding := outstanding t + 1\<rparr>"
  obtain u where u: "release LogLock ?t = Inr u" "kheld cfg [] u" "rest u = rest ?t" using kheld_release[of cfg LogLock "[]" ?t] t(2) by auto
  note lu = rest_log[OF u(3)]
  have c: "contents ?t = contents t" by (simp add: contents_def)
  have e: "begin_op s = Inr u" using t(1) u(1) lt s by (simp add: begin_op_def same_log_def log_quiet_def MAXOPBLOCKS_def LOGSIZE_def)
  have id: "idle cfg u" using lu lt u(2) k by (simp add: idle_def bok_def same_log_def)
  then have "in_trans cfg u" using s lu lt by (simp add: in_trans_def log_fits_def log_quiet_def same_log_def LOGSIZE_def MAXOPBLOCKS_def)
  then show ?thesis using e lu lt s c by (intro exI[of _ u]) (simp add: log_quiet_def same_log_def)
qed

lemma header_after:
  assumes "commit_safe cfg s"
  shows "bload32 (app (disk s) (commit_writes s) (lg_start s)) 0 = 0"
  by (simp add: commit_writes_def)

lemma commit_quiet:
  assumes i: "idle cfg s" "log_fits s" "dirties (bcache s) = secs s" "0 \<le> sint (lh_n s)"
    and s: "log_place (disk s) = lg_start s" "1 < lg_start s" "1 \<notin> secs s" "bload32 (disk s (lg_start s)) 0 = 0"
  shows "\<exists>t. commit cfg s = Inr t \<and> idle cfg t \<and> dirties (bcache t) = {} \<and> lh_n t = 0 \<and> same_log s t \<and>
    (\<forall>x. x < lg_start s \<longrightarrow> disk t x = contents s x) \<and> bload32 (disk t (lg_start s)) 0 = 0"
proof (cases "sint (lh_n s) > 0")
  case True
  then have c: "commit_safe cfg s" "commit_ready cfg s" using i s by (simp_all add: commit_safe_def commit_ready_def)
  obtain t where "commit cfg s = Inr t" "idle cfg t" "dirties (bcache t) = {}" "lh_n t = 0"
    "disk t = app (disk s) (commit_writes s)" "same_log s t" using commit_ok[OF c(2)] by (elim exE conjE) (rule that)
  then show ?thesis using commit_all[OF c(1)] header_after[OF c(1)] by (intro exI[of _ t]) simp
next
  case False
  then have n: "sint (lh_n s) = 0" using i(4) by simp
  then have "lh_n s = 0" by (intro signed_word_eqI) simp
  moreover have d: "idle cfg s" "dirties (bcache s) = {}" using i n by auto
  ultimately show ?thesis using False i s idle_clean[OF d] by (intro exI[of _ s]) (simp add: commit_def same_log_def)
qed

lemma end_op_ok:
  assumes s: "in_trans cfg s" "log_place (disk s) = lg_start s" "1 < lg_start s" "1 \<notin> secs s" "bload32 (disk s (lg_start s)) 0 = 0"
    and o: "outstanding s = 1" "\<not> committing s"
  shows "\<exists>t. end_op cfg s = Inr t \<and> log_quiet cfg t \<and> lg_start t = lg_start s \<and> (\<forall>x. x < lg_start s \<longrightarrow> disk t x = contents s x)"
proof -
  have k: "kheld cfg [] s" "cache_ok (bcache s) (disk s) (disksize s)" "busies (bcache s) = {}" using s(1) by (auto simp: in_trans_def idle_def bok_def)
  obtain t where t: "acquire LogLock s = Inr t" "kheld cfg [LogLock] t" "rest t = rest s" using kheld_acquire[OF k(1), of LogLock] by auto
  note lt = rest_log[OF t(3)]
  let ?t = "t\<lparr>outstanding := 0, committing := True\<rparr>"
  obtain u where u: "release LogLock ?t = Inr u" "kheld cfg [] u" "rest u = rest ?t" using kheld_release[of cfg LogLock "[]" ?t] t(2) by auto
  note lu = rest_log[OF u(3)]
  have c: "contents ?t = contents t" by (simp add: contents_def)
  have fu: "lg_start u = lg_start s" "lh_n u = lh_n s" "lh_sector u = lh_sector s" "disk u = disk s" "contents u = contents s"
    "bcache u = bcache s" "lg_dev u = lg_dev s" "disksize u = disksize s" "lg_size u = lg_size s" "outstanding u = 0" "committing u"
    using lu lt c by (simp_all add: same_log_def)
  have iu: "idle cfg u" "log_fits u" "dirties (bcache u) = secs u" "0 \<le> sint (lh_n u)"
    using fu k u(2) s(1) by (simp_all add: idle_def bok_def log_fits_def in_trans_def)
  have su: "log_place (disk u) = lg_start u" "1 < lg_start u" "1 \<notin> secs u" "bload32 (disk u (lg_start u)) 0 = 0" using fu s by simp_all
  obtain v where v: "commit cfg u = Inr v" "idle cfg v" "dirties (bcache v) = {}" "lh_n v = 0" "same_log u v"
    "\<forall>x. x < lg_start u \<longrightarrow> disk v x = contents u x" "bload32 (disk v (lg_start u)) 0 = 0"
    using commit_quiet[OF iu su] by (elim exE conjE) (rule that)
  have kv: "kheld cfg [] v" using v(2) by (simp add: idle_def bok_def)
  obtain w where w: "acquire LogLock v = Inr w" "kheld cfg [LogLock] w" "rest w = rest v" using kheld_acquire[OF kv, of LogLock] by auto
  let ?w = "w\<lparr>committing := False\<rparr>"
  obtain x where x: "wakeup cfg (Some ChanLog) ?w = Inr x" "kheld cfg [LogLock] x" "rest x = rest ?w"
    using kheld_wakeup[of cfg "[LogLock]" ?w "Some ChanLog"] w(2) by auto
  obtain y where y: "release LogLock x = Inr y" "kheld cfg [] y" "rest y = rest x" using kheld_release[OF x(2)] by blast
  note lw = rest_log[OF w(3)] and ly = rest_log[of y ?w]
  have e: "end_op cfg s = Inr y"
    using t(1) u(1) v(1) w(1) x(1) y(1) lt o by (simp add: end_op_def same_log_def)
  have ry: "rest y = rest ?w" using x(3) y(3) by simp
  have fy: "lg_start y = lg_start s" "lh_n y = 0" "disk y = disk v" "bcache y = bcache v" "lg_dev y = lg_dev s" "disksize y = disksize s"
    "lg_size y = lg_size s" "outstanding y = 0" "\<not> committing y"
    using ly[OF ry] lw v(4,5) fu by (simp_all add: same_log_def)
  have "contents s 1 = disk s 1" using bio.clean_law[of cfg s 1] s(1,4) by (simp add: in_trans_def idle_def)
  then have "disk y 1 = disk s 1" using v(6) fu fy(3) s(3) by simp
  then have "log_place (disk y) = lg_start y" using s(2) fy(1) by (simp add: log_place_def)
  moreover have "idle cfg y" using y(2) fy v(2,5) fu by (simp add: idle_def bok_def same_log_def)
  ultimately have "log_quiet cfg y"
    using fy v(3,7) fu s by (simp add: log_quiet_def in_trans_def log_fits_def)
  then show ?thesis using e fy v(6) fu by (intro exI[of _ y]) simp
qed

text \<open>C2. A whole transaction on a quiet log: \<open>begin_op\<close>, at most 29 updates of sectors in front of the log, each a
  \<open>bread\<close>, a change of the data, \<open>log_write\<close> and \<open>brelse\<close>, and \<open>end_op\<close>. It neither panics nor blocks, the updates
  are on the disk afterwards in their order, every other sector in front of the log is as before, and the log
  is quiet again.\<close>

theorem log_transaction:
  assumes s: "log_quiet cfg s" and us: "\<forall>x \<in> fst ` set us. x \<noteq> 1 \<and> x < lg_start s" "length us \<le> 29"
  shows "\<exists>t. bindr (begin_op s) (\<lambda>s. bindr (log_updates cfg us s) (end_op cfg)) = Inr t \<and> log_quiet cfg t \<and>
    (\<forall>x. x < lg_start s \<longrightarrow> disk t x = app (disk s) us x)"
proof -
  have q: "idle cfg s" "dirties (bcache s) = {}" using s by (simp_all add: log_quiet_def)
  obtain t where t: "begin_op s = Inr t" "in_trans cfg t" "outstanding t = 1" "\<not> committing t" "lh_n t = 0" "contents t = contents s"
    "disk t = disk s" "lg_start t = lg_start s" using begin_op_ok[OF s] by (elim exE conjE) (rule that)
  have p: "\<forall>x \<in> fst ` set us. x < lg_start t" "sint (lh_n t) + int (length us) \<le> 29" using us t(5,8) by auto
  obtain u where u: "log_updates cfg us t = Inr u" "in_trans cfg u" "contents u = app (contents t) us" "disk u = disk t"
    "secs u = secs t \<union> fst ` set us" "same_log t u" using log_updates_ok[OF t(2) p] by (elim exE conjE) (rule that)
  have e: "log_place (disk u) = lg_start u" "1 < lg_start u" "1 \<notin> secs u" "bload32 (disk u (lg_start u)) 0 = 0"
    "outstanding u = 1" "\<not> committing u"
    using s t u us by (auto simp: log_quiet_def same_log_def)
  obtain v where v: "end_op cfg u = Inr v" "log_quiet cfg v" "\<forall>x. x < lg_start u \<longrightarrow> disk v x = contents u x"
    using end_op_ok[OF u(2) e] by (elim exE conjE) (rule that)
  then show ?thesis using t u idle_clean[OF q] by (intro exI[of _ v]) (simp add: same_log_def)
qed

text \<open>The machine of the previous section between transactions.\<close>

definition quiet_logst :: logst where
  "quiet_logst = (demo_logst blank_buf demo_disk)\<lparr>lh_n := 0, committing := False\<rparr>"

lemma quiet_demo: "log_quiet DEFAULT quiet_logst"
proof -
  have i: "idle DEFAULT (demo_logst blank_buf demo_disk)" "dirties blank_buf = {}"
    using fresh_boot_idle[OF demo_fresh[of demo_disk]] by simp_all
  have d: "log_place demo_disk = 50" "bload32 (demo_disk 50) 0 = 0"
    by (simp add: log_place_def demo_disk_def) (simp add: demo_disk_def bload32_def)
  have f: "outstanding quiet_logst = 0" "lg_size quiet_logst = 30"
    by (simp_all add: quiet_logst_def demo_logst_def bcst.defs procst.defs logst.defs boot_procst_def blank_memst_def boot_mach_def
        memst.defs mach.defs)
  have "idle DEFAULT quiet_logst" unfolding quiet_logst_def using i(1) by (simp add: idle_def bok_def contents_def)
  then show ?thesis using i(2) d f by (simp add: log_quiet_def quiet_logst_def LOGSIZE_def MAXOPBLOCKS_def)
qed

theorem log_transaction_witness:
  "\<exists>t. bindr (begin_op quiet_logst) (\<lambda>s. bindr (log_updates DEFAULT [(2, \<lambda>_. 5), (3, \<lambda>_. 6), (2, \<lambda>_. 7)] s) (end_op DEFAULT)) = Inr t \<and>
    disk t 2 = (\<lambda>_. 7) \<and> disk t 3 = (\<lambda>_. 6)"
proof -
  have "lg_start quiet_logst = 50" by (simp add: quiet_logst_def)
  with log_transaction[OF quiet_demo, of "[(2, \<lambda>_. 5), (3, \<lambda>_. 6), (2, \<lambda>_. 7)]"] show ?thesis by auto
qed

lemma begin_op_next:
  assumes s: "idle cfg s" "dirties (bcache s) = {}" "lh_n s = 0" "\<not> committing s" and o: "0 \<le> outstanding s" "outstanding s \<le> 2"
    and l: "lg_dev s = 1" "sint (lg_size s) = 30" "unat (lg_start s) + LOGSIZE \<le> unat (disksize s)"
  shows "\<exists>t. begin_op s = Inr t \<and> in_trans cfg t \<and> dirties (bcache t) = {} \<and> outstanding t = outstanding s + 1 \<and> lh_n t = 0 \<and> \<not> committing t \<and>
    lg_start t = lg_start s \<and> lg_dev t = 1 \<and> lg_size t = lg_size s \<and> disksize t = disksize s"
proof -
  have k: "kheld cfg [] s" "cache_ok (bcache s) (disk s) (disksize s)" "busies (bcache s) = {}" using s by (auto simp: idle_def bok_def)
  obtain t where t: "acquire LogLock s = Inr t" "kheld cfg [LogLock] t" "rest t = rest s" using kheld_acquire[OF k(1), of LogLock] by auto
  note lt = rest_log[OF t(3)]
  let ?t = "t\<lparr>outstanding := outstanding t + 1\<rparr>"
  obtain u where u: "release LogLock ?t = Inr u" "kheld cfg [] u" "rest u = rest ?t" using kheld_release[of cfg LogLock "[]" ?t] t(2) by auto
  note lu = rest_log[OF u(3)]
  have e: "begin_op s = Inr u" using t(1) u(1) lt s(3,4) o by (simp add: begin_op_def same_log_def MAXOPBLOCKS_def LOGSIZE_def)
  have "idle cfg u" using lu lt u(2) k by (simp add: idle_def bok_def same_log_def)
  then have "in_trans cfg u" using lu lt s o l by (simp add: in_trans_def log_fits_def same_log_def LOGSIZE_def MAXOPBLOCKS_def)
  then show ?thesis using e lu lt s l by (intro exI[of _ u]) (simp add: same_log_def)
qed

lemma three_begin_ops:
  assumes s: "log_quiet cfg s"
  shows "\<exists>t. bindr (begin_op s) (\<lambda>s. bindr (begin_op s) begin_op) = Inr t \<and> in_trans cfg t \<and> outstanding t = 3 \<and> lh_n t = 0 \<and> lg_start t = lg_start s"
proof -
  obtain t where t: "begin_op s = Inr t" "in_trans cfg t" "dirties (bcache t) = {}" "outstanding t = 1" "lh_n t = 0" "\<not> committing t"
    "lg_start t = lg_start s" "lg_dev t = 1" "lg_size t = lg_size s" "disksize t = disksize s"
    using begin_op_next[of cfg s] s by (auto simp: log_quiet_def)
  obtain u where u: "begin_op t = Inr u" "in_trans cfg u" "dirties (bcache u) = {}" "outstanding u = 2" "lh_n u = 0" "\<not> committing u"
    "lg_start u = lg_start s" "lg_dev u = 1" "lg_size u = lg_size s" "disksize u = disksize s"
    using begin_op_next[of cfg t] t s by (auto simp: log_quiet_def in_trans_def)
  show ?thesis using begin_op_next[of cfg u] t(1) u s by (auto simp: log_quiet_def in_trans_def)
qed

lemma log_updates_append: "log_updates cfg (us @ vs) s = bindr (log_updates cfg us s) (log_updates cfg vs)"
  by (induction us arbitrary: s) (auto simp: bindr_def split: sum.split)

text \<open>The log holds 29 blocks and no more.\<close>

lemma log_update_full:
  assumes s: "in_trans cfg s" and x: "x < lg_start s" and n: "sint (lh_n s) = 29"
  shows "log_update cfg (x, d) s = Inl (Panic ''too big a transaction'')"
proof -
  have ok: "bok cfg [] s" "busies (bcache s) = {}" and fit: "log_fits s" and dt: "dirties (bcache s) = secs s" and l: "sint (lg_size s) = 30"
    using s by (auto simp: in_trans_def idle_def)
  have xl: "x < disksize s" using fit x by (auto simp: log_fits_def word_less_nat_alt)
  have "card (secs s) \<le> ntrans s" using card_image_le[of "{..<ntrans s}" "lh_sector s"] by simp
  then have room: "x \<in> dirties (bcache s) \<or> card (dirties (bcache s) \<union> busies (bcache s)) < NBUF" using dt ok(2) n by (simp add: NBUF_def)
  obtain b t where t: "bread 1 x s = Inr (b, t)" "bok cfg [] t" "hnd (bcache t) x b" "bioframe s t"
    using bio.rd_law[OF ok(1) _ xl room] ok(2) by auto
  have "bioframe s (set_data b d t)" using bio.put_law[OF t(2,3), of d] bioframe_trans[OF t(4)] by auto
  from logframe[OF this] have "log_write b (set_data b d t) = Inl (Panic ''too big a transaction'')" using n l by (simp add: log_write_def)
  then show ?thesis using t(1) by (simp add: log_update_def)
qed

lemma log_updates_count:
  assumes s: "in_trans cfg s" "lh_n s = 0" and us: "\<forall>x \<in> fst ` set us. x < lg_start s" "distinct (map fst us)" "length us \<le> 29"
  shows "\<exists>t. log_updates cfg us s = Inr t \<and> in_trans cfg t \<and> sint (lh_n t) = int (length us) \<and> lg_start t = lg_start s"
proof -
  obtain t where t: "log_updates cfg us s = Inr t" "in_trans cfg t" "secs t = secs s \<union> fst ` set us" "same_log s t"
    using log_updates_ok[OF s(1) us(1)] s(2) us(3) by auto
  have f: "inj_on (lh_sector t) {..<ntrans t}" "0 \<le> sint (lh_n t)" using t(2) by (auto simp: in_trans_def log_fits_def)
  have "ntrans t = card (secs t)" using card_image[OF f(1)] by simp
  also have "\<dots> = length us" using t(3) s(2) distinct_card[OF us(2)] by simp
  finally have "sint (lh_n t) = int (length us)" using f(2) by simp
  then show ?thesis using t by (auto simp: same_log_def)
qed

text \<open>C34. \<open>begin_op\<close> admits three operations to a log of thirty sectors, which reserves thirty blocks for them, ten
  each, but one of the sectors is the header. On a quiet log three operations start; when each of them then logs ten blocks and
  no two the same, the last block of the last operation is a panic, and everything before it succeeds.\<close>

theorem log_overcommit:
  assumes s: "log_quiet cfg s" and us: "\<forall>x \<in> fst ` set us. x \<noteq> 1 \<and> x < lg_start s" "distinct (map fst us)" "length us = 3 * MAXOPBLOCKS"
  defines "op \<equiv> \<lambda>i. take MAXOPBLOCKS (drop (i * MAXOPBLOCKS) us)"
  shows "\<exists>t u. bindr (begin_op s) (\<lambda>s. bindr (begin_op s) begin_op) = Inr t \<and> outstanding t = 3 \<and>
    log_updates cfg (butlast us) t = Inr u \<and>
    bindr (log_updates cfg (op 0) t) (\<lambda>s. bindr (log_updates cfg (op 1) s) (log_updates cfg (op 2))) = Inl (Panic ''too big a transaction'')"
proof -
  obtain t where t: "bindr (begin_op s) (\<lambda>s. bindr (begin_op s) begin_op) = Inr t" "in_trans cfg t" "outstanding t = 3" "lh_n t = 0" "lg_start t = lg_start s"
    using three_begin_ops[OF s] by (elim exE conjE) (rule that)
  have l: "length us = 30" "us \<noteq> []" using us(3) by (auto simp: MAXOPBLOCKS_def)
  obtain x d where x: "last us = (x, d)" by fastforce
  have e: "us = butlast us @ [(x, d)]" using append_butlast_last_id[OF l(2)] x by simp
  have xs: "x < lg_start t" using us(1) last_in_set[OF l(2)] x t(5) by (auto simp: image_iff)
  have "\<forall>x \<in> fst ` set (butlast us). x < lg_start t" using us(1) t(5) by (auto dest: in_set_butlastD)
  moreover have "distinct (map fst (butlast us))" using us(2) by (simp add: map_butlast distinct_butlast)
  ultimately obtain u where u: "log_updates cfg (butlast us) t = Inr u" "in_trans cfg u" "sint (lh_n u) = 29" "lg_start u = lg_start t"
    using log_updates_count[OF t(2,4), of "butlast us"] l(1) by auto
  have "log_updates cfg us t = Inl (Panic ''too big a transaction'')"
    using log_update_full[OF u(2) _ u(3), of x d] xs u(1,4) by (subst e) (simp add: log_updates_append)
  moreover have "log_updates cfg us t = log_updates cfg (op 0 @ op 1 @ op 2) t"
    unfolding op_def MAXOPBLOCKS_def using l(1) append_take_drop_id[of 10 us] append_take_drop_id[of 10 "drop 10 us"] by simp
  ultimately have "bindr (log_updates cfg (op 0) t) (\<lambda>s. bindr (log_updates cfg (op 1) s) (log_updates cfg (op 2))) = Inl (Panic ''too big a transaction'')"
    by (simp add: log_updates_append[abs_def])
  with t(1,3) u(1) show ?thesis by (intro exI[of _ t] exI[of _ u] conjI)
qed

theorem log_overcommit_witness:
  "\<exists>t u. bindr (begin_op quiet_logst) (\<lambda>s. bindr (begin_op s) begin_op) = Inr t \<and> outstanding t = 3 \<and>
    log_updates DEFAULT (map (\<lambda>i. (of_nat i, \<lambda>_. 7)) [2..<31]) t = Inr u \<and>
    bindr (log_updates DEFAULT (map (\<lambda>i. (of_nat i, \<lambda>_. 7)) [2..<12]) t) (\<lambda>s.
      bindr (log_updates DEFAULT (map (\<lambda>i. (of_nat i, \<lambda>_. 7)) [12..<22]) s)
        (log_updates DEFAULT (map (\<lambda>i. (of_nat i, \<lambda>_. 7)) [22..<32]))) = Inl (Panic ''too big a transaction'')"
proof -
  let ?f = "\<lambda>i. (of_nat i :: u32, (\<lambda>_. 7) :: block)"
  let ?us = "map ?f [2..<32]"
  have st: "lg_start quiet_logst = 50" by (simp add: quiet_logst_def)
  have us: "\<forall>x \<in> fst ` set ?us. x \<noteq> 1 \<and> x < lg_start quiet_logst" "distinct (map fst ?us)" "length ?us = 3 * MAXOPBLOCKS"
    unfolding st by (simp_all add: upt_rec MAXOPBLOCKS_def)
  have e: "butlast ?us = map ?f [2..<31]" "take MAXOPBLOCKS (drop (0 * MAXOPBLOCKS) ?us) = map ?f [2..<12]"
    "take MAXOPBLOCKS (drop (1 * MAXOPBLOCKS) ?us) = map ?f [12..<22]" "take MAXOPBLOCKS (drop (2 * MAXOPBLOCKS) ?us) = map ?f [22..<32]"
    by (simp_all add: upt_rec MAXOPBLOCKS_def)
  show ?thesis using log_overcommit[OF quiet_demo us] unfolding e .
qed

end
