(* ===== verification/Xv6_Demo.thy ===== *)
theory Xv6_Demo
  imports Xv6_Trap Xv6_Trans
begin

text \<open>
  A concrete kernel state, on which the properties of the upper components are instantiated: the small
  disk of the log's example, nothing open, one processor, no process.
\<close>

section \<open>A concrete state\<close>

definition demo_inode :: inode where
  "demo_inode = \<lparr>idev = 0, inum = 0, iref = 0, iflags = 0, itype = 0, major = 0, minor = 0, nlink = 0, isize = 0, addrs = (\<lambda>_. 0)\<rparr>"

definition demo_file :: xfile where
  "demo_file = \<lparr>ftype = FD_NONE, fref = 0, readable = False, writable = False, fpipe = 0, fip = 0, foff = 0\<rparr>"

definition demo_pipe :: pipe where
  "demo_pipe = \<lparr>pdata = (\<lambda>_. 0), nread = 0xFFFFFFFF, nwrite = 0xFFFFFFFF, readopen = True, writeopen = True\<rparr>"

definition demo_kernst :: kernst where
  "demo_kernst = consst.extend (ftst.extend (icst.extend (logst.extend quiet_logst (icst.fields (\<lambda>_. demo_inode)))
     (ftst.fields (\<lambda>_. demo_file) (\<lambda>_. demo_pipe)))
     (consst.fields False True (\<lambda>_. 0) 0 True [] [] 0 [] (\<lambda>_. 0) 0 0 0))
     (kernst.fields False (\<lambda>_. SETGATE False 0 0 0) False)"

lemmas demo_unfold = demo_kernst_def quiet_logst_def demo_logst_def boot_procst_def blank_memst_def boot_mach_def
  kernst.defs consst.defs ftst.defs icst.defs logst.defs bcst.defs procst.defs memst.defs mach.defs

lemma demo_kernst_sel [simp]:
  "cur demo_kernst = 0" "ram demo_kernst = (\<lambda>_. 0)" "freelist demo_kernst = 0" "use_lock demo_kernst = False"
  "ptable demo_kernst = (\<lambda>_. idle_proc)" "initproc demo_kernst = None" "ticks demo_kernst = 0"
  "bcache demo_kernst = blank_buf" "disk demo_kernst = demo_disk" "disksize demo_kernst = 100"
  "icache demo_kernst = (\<lambda>_. demo_inode)" "ftable demo_kernst = (\<lambda>_. demo_file)" "pipes demo_kernst = (\<lambda>_. demo_pipe)"
  "panicked demo_kernst = False" "crt_pos demo_kernst = 0" "crt demo_kernst = (\<lambda>_. 0)" "kbd_in demo_kernst = []" "kbd_shift demo_kernst = 0"
  "in_r demo_kernst = 0" "in_w demo_kernst = 0" "in_e demo_kernst = 0" "uart_on demo_kernst = True" "serial demo_kernst = []"
  "cons_locking demo_kernst = True" "serial_in demo_kernst = []"
  by (simp_all add: demo_unfold)

lemma demo_kernst_held: "kheld DEFAULT [] demo_kernst"
proof -
  have "rrq demo_kernst []" by (simp add: rrq_def dll_def nx_def pv_def demo_unfold idle_proc_def)
  then have "qinv DEFAULT (False, {}) demo_kernst" by (auto simp: qinv_def covered_def)
  then show ?thesis by (simp add: kheld_def cpu_ok_def demo_unfold)
qed

section \<open>The table of inodes under locking\<close>

lemma icache_upd [simp]: "icache (upd_ino ip f s) = (icache s)(ip := f (icache s ip))"
  by (simp add: upd_ino_def)

lemma kheld_ino [simp]: "kheld cfg L (upd_ino ip f s) = kheld cfg L s"
  unfolding upd_ino_def by (auto elim: kheld_cong)

lemma rest_icache: "rest t = rest s \<Longrightarrow> icache t = icache s"
proof -
  assume "rest t = rest s"
  then have "bcst.more (rest t) = bcst.more (rest s)" by simp
  then show ?thesis by (simp add: rest_bcst_more) (cases s; cases t; simp)
qed

end
