(* ===== verification/Xv6_Ring.thy ===== *)
theory Xv6_Ring
  imports Xv6_Prelude
begin

text \<open>
  Ring buffers: an array whose size is a power of two, indexed by the low bits of 32-bit counters that only
  ever count up and wrap around. The pipes and the line buffer of the console are made of it.
\<close>

lemma ucast_add32:
  assumes "LENGTH('n::len) \<le> 32"
  shows "(ucast (a + b :: u32) :: 'n word) = ucast a + ucast b"
proof -
  have "(2::nat) ^ LENGTH('n) dvd 2 ^ 32" by (rule le_imp_power_dvd[OF assms])
  then show ?thesis
    by (simp only: word_unat_eq_iff unat_word_ariths unsigned_ucast_eq)
      (simp add: unsigned_ucast_eq take_bit_nat_def mod_mod_cancel mod_add_eq unat_word_ariths)
qed

lemma ucast_of_nat32:
  assumes "LENGTH('n::len) \<le> 32"
  shows "(ucast (of_nat i :: u32) :: 'n word) = of_nat i"
proof -
  have "(2::nat) ^ LENGTH('n) dvd 2 ^ 32" by (rule le_imp_power_dvd[OF assms])
  then show ?thesis by (simp add: word_unat_eq_iff unsigned_ucast_eq take_bit_nat_def unsigned_of_nat mod_mod_cancel)
qed

text \<open>The slots of \<open>n\<close> counters from \<open>a\<close> on.\<close>

definition win :: "('n::len word \<Rightarrow> 'x) \<Rightarrow> u32 \<Rightarrow> nat \<Rightarrow> 'x list" where
  "win b a n = map (\<lambda>i. b (ucast (a + of_nat i))) [0..<n]"

lemma length_win [simp]: "length (win b a n) = n"
  by (simp add: win_def)

lemma win_0 [simp]: "win b a 0 = []"
  by (simp add: win_def)

lemma win_add: "win b a (m + n) = win b a m @ win b (a + of_nat m) n"
  by (induction n) (simp_all add: win_def add.assoc)

lemma win_snoc: "win b a (Suc n) = win b a n @ [b (ucast (a + of_nat n))]"
  by (simp add: win_def)

lemma win_Cons: "win b a (Suc n) = b (ucast a) # win b (a + 1) n"
  using win_add[of b a 1 n] win_snoc[of b a 0] by simp

text \<open>Within the capacity different counters name different slots, also when the counters wrap.\<close>

lemma win_slot:
  fixes a :: u32
  assumes "LENGTH('n::len) \<le> 32" "i < 2 ^ LENGTH('n)" "j < 2 ^ LENGTH('n)" "(ucast (a + of_nat i) :: 'n word) = ucast (a + of_nat j)"
  shows "i = j"
proof -
  have "(of_nat i :: 'n word) = of_nat j" using assms(4) by (simp add: ucast_add32[OF assms(1)] ucast_of_nat32[OF assms(1)])
  then have "unat (of_nat i :: 'n word) = unat (of_nat j :: 'n word)" by simp
  then show ?thesis using assms(2,3) by (simp add: unsigned_of_nat take_bit_nat_eq_self)
qed

lemma win_upd:
  fixes b :: "'n::len word \<Rightarrow> 'x"
  assumes "LENGTH('n) \<le> 32" "m \<le> n" "n < 2 ^ LENGTH('n)"
  shows "win (b(ucast (a + of_nat n) := x)) a m = win b a m"
proof -
  have "(ucast (a + of_nat i) :: 'n word) \<noteq> ucast (a + of_nat n)" if "i < m" for i
    using win_slot[where 'n = 'n, of i n a] assms that by auto
  then show ?thesis by (auto simp: win_def)
qed

lemma win_put:
  fixes b :: "'n::len word \<Rightarrow> 'x"
  assumes "LENGTH('n) \<le> 32" "n < 2 ^ LENGTH('n)"
  shows "win (b(ucast (a + of_nat n) := x)) a (Suc n) = win b a n @ [x]"
  using win_upd[OF assms(1) order_refl assms(2)] by (simp add: win_snoc)

text \<open>Distances between counters.\<close>

lemma counter_succ: "unat (e - a) < k \<Longrightarrow> k < 2 ^ 32 \<Longrightarrow> unat (e + 1 - a :: u32) = Suc (unat (e - a))"
  using unat_word_ariths(1)[of "e - a" 1] by (simp add: add_diff_eq diff_add_eq)

lemma counter_pred: "e \<noteq> a \<Longrightarrow> unat (e - 1 - a :: u32) = unat (e - a) - 1"
  using unat_minus_one[of "e - a"] by (simp add: diff_diff_eq add.commute)

lemma counter_at: "e = a + of_nat (unat (e - a :: u32))"
  by simp

end
