(* ===== verification/Xv6_Fifo.thy ===== *)
theory Xv6_Fifo
  imports Xv6_Demo Xv6_Ring
begin

unbundle bit_operations_syntax

text \<open>
  Bounded queues. The locale \<open>fifo\<close> is the contract of a queue with a capacity, whatever it is made of;
  what comes out of it is what went in, in order. The ring buffer of a pipe provides it.
\<close>

section \<open>The contract\<close>

text \<open>Running a sequence of requests against a queue: \<open>Some x\<close> puts \<open>x\<close> unless the queue is full, \<open>None\<close> takes
  from it unless it is empty. The results are the queue, what was put and what was taken.\<close>

fun fifo_run :: "('x \<Rightarrow> 'q \<Rightarrow> 'q) \<Rightarrow> ('q \<Rightarrow> 'x) \<Rightarrow> ('q \<Rightarrow> 'q) \<Rightarrow> ('q \<Rightarrow> nat) \<Rightarrow> nat \<Rightarrow> 'x option list \<Rightarrow> 'q \<Rightarrow> 'q \<times> 'x list \<times> 'x list" where
  "fifo_run put front pop len cap [] q = (q, [], [])"
| "fifo_run put front pop len cap (op # ops) q =
     (case op of
        Some x \<Rightarrow> if len q < cap then (case fifo_run put front pop len cap ops (put x q) of (q', i, os) \<Rightarrow> (q', x # i, os))
                  else fifo_run put front pop len cap ops q
      | None \<Rightarrow> if 0 < len q then (case fifo_run put front pop len cap ops (pop q) of (q', i, os) \<Rightarrow> (q', i, front q # os))
                else fifo_run put front pop len cap ops q)"

locale fifo =
  fixes wf_q :: "'q \<Rightarrow> bool"
    and items :: "'q \<Rightarrow> 'x list"
    and cap :: nat
    and may :: "'x \<Rightarrow> 'q \<Rightarrow> bool"
    and put :: "'x \<Rightarrow> 'q \<Rightarrow> 'q"
    and front :: "'q \<Rightarrow> 'x"
    and pop :: "'q \<Rightarrow> 'q"
  assumes put_law: "wf_q q \<Longrightarrow> length (items q) < cap \<Longrightarrow> may x q \<Longrightarrow> wf_q (put x q) \<and> items (put x q) = items q @ [x]"
    and front_law: "wf_q q \<Longrightarrow> items q \<noteq> [] \<Longrightarrow> front q = hd (items q)"
    and pop_law: "wf_q q \<Longrightarrow> items q \<noteq> [] \<Longrightarrow> wf_q (pop q) \<and> items (pop q) = tl (items q)"
begin

text \<open>Items that fit go in in order.\<close>

lemma put_all:
  "wf_q q \<Longrightarrow> length (items q) + length xs \<le> cap \<Longrightarrow> (\<And>x r. x \<in> set xs \<Longrightarrow> may x r) \<Longrightarrow>
    wf_q (fold put xs q) \<and> items (fold put xs q) = items q @ xs"
proof (induction xs arbitrary: q)
  case (Cons x xs)
  have "wf_q (put x q)" "items (put x q) = items q @ [x]" using put_law[of q x] Cons.prems by auto
  then show ?case using Cons.IH[of "put x q"] Cons.prems by auto
qed simp

text \<open>Any mixture of puts and takes: what has been taken, followed by what is still there, is what was
  there followed by what was put.\<close>

lemma stream:
  "wf_q q \<Longrightarrow> (\<And>x r. Some x \<in> set ops \<Longrightarrow> may x r) \<Longrightarrow>
    fifo_run put front pop (\<lambda>q. length (items q)) cap ops q = (q', ins, outs) \<Longrightarrow> wf_q q' \<and> items q @ ins = outs @ items q'"
proof (induction ops arbitrary: q ins outs)
  case (Cons op ops)
  show ?case
  proof (cases op)
    case None
    then show ?thesis
      using Cons.IH[of "pop q"] Cons.IH[of q] Cons.prems pop_law[of q] front_law[of q]
      by (cases "items q") (auto split: if_splits prod.splits)
  next
    case (Some x)
    then show ?thesis
      using Cons.IH[of "put x q"] Cons.IH[of q] Cons.prems put_law[of q x]
      by (auto split: if_splits prod.splits)
  qed
qed simp

end

section \<open>The ring buffer of a pipe\<close>

definition pipe_len :: "pipe \<Rightarrow> nat" where
  "pipe_len q = unat (nwrite q - nread q)"

definition pipe_items :: "pipe \<Rightarrow> u8 list" where
  "pipe_items q = win (pdata q) (nread q) (pipe_len q)"

definition pipe_wf :: "pipe \<Rightarrow> bool" where
  "pipe_wf q \<longleftrightarrow> pipe_len q \<le> PIPESIZE"

lemma length_pipe_items [simp]: "length (pipe_items q) = pipe_len q"
  by (simp add: pipe_items_def)

lemma put_byte_law:
  assumes "pipe_wf q" "pipe_len q < PIPESIZE"
  shows "pipe_wf (put_byte b q) \<and> pipe_items (put_byte b q) = pipe_items q @ [b]"
proof -
  have l: "pipe_len q < 512" using assms(2) by (simp add: PIPESIZE_def)
  have n: "pipe_len (put_byte b q) = Suc (pipe_len q)"
    using counter_succ[of "nwrite q" "nread q" 512] l by (simp add: put_byte_def pipe_len_def)
  have "win ((pdata q)(ucast (nread q + of_nat (pipe_len q)) := b)) (nread q) (Suc (pipe_len q)) = pipe_items q @ [b]"
    unfolding pipe_items_def by (rule win_put) (use l in simp_all)
  then have "pipe_items (put_byte b q) = pipe_items q @ [b]" by (simp add: pipe_items_def n) (simp add: put_byte_def pipe_len_def)
  then show ?thesis using n assms(2) by (simp add: pipe_wf_def)
qed

lemma get_byte_law: "pipe_items q \<noteq> [] \<Longrightarrow> get_byte q = hd (pipe_items q)"
  by (cases "pipe_len q") (simp_all add: pipe_items_def get_byte_def win_Cons)

lemma pop_byte_law:
  assumes "pipe_wf q" "pipe_items q \<noteq> []"
  shows "pipe_wf (pop_byte q) \<and> pipe_items (pop_byte q) = tl (pipe_items q)"
proof -
  obtain k where k: "pipe_len q = Suc k" using assms(2) by (cases "pipe_len q") (simp_all add: pipe_items_def)
  then have "nwrite q - nread q \<noteq> 0" by (auto simp: pipe_len_def)
  then have n: "pipe_len (pop_byte q) = k"
    using unat_minus_one[of "nwrite q - nread q"] k by (simp add: pop_byte_def pipe_len_def diff_diff_eq)
  then show ?thesis using k assms(1) by (simp add: pipe_wf_def pipe_items_def win_Cons) (simp add: pop_byte_def)
qed

interpretation pipe_ring: fifo pipe_wf pipe_items PIPESIZE "\<lambda>b q. True" put_byte get_byte pop_byte
  by unfold_locales (simp_all add: put_byte_law get_byte_law pop_byte_law)

section \<open>Reading and writing\<close>

lemma pipes_upd [simp]: "pipes (upd_pipe p f s) = (pipes s)(p := f (pipes s p))"
  by (simp add: upd_pipe_def)

lemma kheld_pipe [simp]: "kheld cfg L (upd_pipe p f s) = kheld cfg L s"
  unfolding upd_pipe_def by (auto elim: kheld_cong)

lemma rest_pipes: "rest t = rest s \<Longrightarrow> pipes t = pipes s"
proof -
  assume "rest t = rest s"
  then have "bcst.more (rest t) = bcst.more (rest s)" by simp
  then show ?thesis by (simp add: rest_bcst_more) (cases s; cases t; simp)
qed

lemma put_put: "upd_pipe p f (upd_pipe p g s) = upd_pipe p (\<lambda>q. f (g q)) s"
  by (simp add: upd_pipe_def)

lemma full_len: "pipe_wf q \<Longrightarrow> nwrite q = nread q + of_nat PIPESIZE \<longleftrightarrow> pipe_len q = PIPESIZE"
proof -
  assume "pipe_wf q"
  have "nwrite q = nread q + of_nat PIPESIZE \<longleftrightarrow> nwrite q - nread q = of_nat PIPESIZE" by (auto simp: algebra_simps)
  also have "\<dots> \<longleftrightarrow> unat (nwrite q - nread q) = PIPESIZE" by (auto simp: PIPESIZE_def word_unat_eq_iff)
  finally show ?thesis by (simp add: pipe_len_def)
qed

lemma empty_len: "nread q = nwrite q \<longleftrightarrow> pipe_len q = 0"
  by (auto simp: pipe_len_def unsigned_eq_0_iff)

text \<open>Bytes that fit are appended one by one.\<close>

lemma pipewrite_fits:
  "pipe_wf (pipes s p) \<Longrightarrow> i \<le> length xs \<Longrightarrow> pipe_len (pipes s p) + (length xs - i) \<le> PIPESIZE \<Longrightarrow> kheld cfg (PipeLock p # L) s \<Longrightarrow>
    PtableLock \<notin> set L \<Longrightarrow> RrqueueLock \<notin> set L \<Longrightarrow>
    \<exists>t. pipewrite_from cfg p (\<lambda>i. Inr (xs ! i)) (length xs) i s = Inr (Finished (int (length xs)), t) \<and> kheld cfg L t \<and>
      rest t = rest (upd_pipe p (\<lambda>_. fold put_byte (drop i xs) (pipes s p)) s)"
proof (induction "length xs - i" arbitrary: i s)
  case 0
  then have i: "i = length xs" by simp
  obtain t where t: "wakeup cfg (Some (ChanNread p)) s = Inr t" "kheld cfg (PipeLock p # L) t" "rest t = rest s"
    using kheld_wakeup[OF 0(5), of "Some (ChanNread p)"] 0(6,7) by auto
  obtain u where u: "release (PipeLock p) t = Inr u" "kheld cfg L u" "rest u = rest t" using kheld_release[OF t(2)] by blast
  have "upd_pipe p (\<lambda>_. pipes s p) s = s" by (simp add: upd_pipe_def)
  then show ?case using t u i by (intro exI[of _ u]) (simp add: pipewrite_from.simps[of cfg p _ _ i])
next
  case (Suc k)
  then have i: "i < length xs" by simp
  have nf: "nwrite (pipes s p) \<noteq> nread (pipes s p) + of_nat PIPESIZE" using full_len[OF Suc(3)] Suc(5) i by simp
  let ?s = "upd_pipe p (put_byte (xs ! i)) s"
  have lt: "pipe_len (pipes s p) < PIPESIZE" using Suc(5) i by simp
  note pb = put_byte_law[OF Suc(3) lt, of "xs ! i"]
  have "pipe_len (pipes ?s p) = Suc (pipe_len (pipes s p))" using pb length_pipe_items[of "pipes ?s p"] by simp
  then have "\<exists>t. pipewrite_from cfg p (\<lambda>i. Inr (xs ! i)) (length xs) (Suc i) ?s = Inr (Finished (int (length xs)), t) \<and> kheld cfg L t \<and>
      rest t = rest (upd_pipe p (\<lambda>_. fold put_byte (drop (Suc i) xs) (pipes ?s p)) ?s)"
    using Suc pb i by (intro Suc(1)) simp_all
  then show ?case using i nf
    by (simp add: pipewrite_from.simps[of cfg p _ _ i] Cons_nth_drop_Suc[symmetric] put_put)
qed

lemma piperead_copy_takes:
  "pipe_wf (pipes s p) \<Longrightarrow> i \<le> n \<Longrightarrow>
    \<exists>q. piperead_copy p n i dst s = (dst @ take (n - i) (pipe_items (pipes s p)), upd_pipe p (\<lambda>_. q) s) \<and> pipe_wf q \<and>
      pipe_items q = drop (n - i) (pipe_items (pipes s p))"
proof (induction "n - i" arbitrary: i s dst)
  case 0
  have "upd_pipe p (\<lambda>_. pipes s p) s = s" by (simp add: upd_pipe_def)
  then show ?case using 0 by (intro exI[of _ "pipes s p"]) (simp add: piperead_copy.simps[of p n i])
next
  case (Suc k)
  have s: "upd_pipe p (\<lambda>_. pipes s p) s = s" by (simp add: upd_pipe_def)
  show ?case
  proof (cases "pipe_len (pipes s p) = 0")
    case True
    then have "nread (pipes s p) = nwrite (pipes s p)" "pipe_items (pipes s p) = []" by (simp_all add: empty_len pipe_items_def)
    then show ?thesis using s Suc(3) by (intro exI[of _ "pipes s p"]) (simp add: piperead_copy.simps[of p n i])
  next
    case False
    then have ne: "pipe_items (pipes s p) \<noteq> []" and d: "nread (pipes s p) \<noteq> nwrite (pipes s p)"
      using length_pipe_items[of "pipes s p"] empty_len by fastforce+
    let ?s = "upd_pipe p pop_byte s"
    have e: "pipes ?s p = pop_byte (pipes s p)" by simp
    note P = pop_byte_law[OF Suc(3) ne]
    have a: "k = n - Suc i" "pipe_wf (pipes ?s p)" "Suc i \<le> n" using Suc P e by auto
    obtain q where q: "piperead_copy p n (Suc i) (dst @ [get_byte (pipes s p)]) ?s =
        ((dst @ [get_byte (pipes s p)]) @ take (n - Suc i) (pipe_items (pipes ?s p)), upd_pipe p (\<lambda>_. q) ?s)" "pipe_wf q"
        "pipe_items q = drop (n - Suc i) (pipe_items (pipes ?s p))"
      using Suc(1)[OF a, of "dst @ [get_byte (pipes s p)]"] by blast
    obtain x xs where x: "pipe_items (pipes s p) = x # xs" using ne by (cases "pipe_items (pipes s p)") auto
    have g: "get_byte (pipes s p) = x" "pipe_items (pipes ?s p) = xs" using get_byte_law[OF ne] P e x by simp_all
    have ni: "n - i = Suc (n - Suc i)" "i < n" using Suc(2) by simp_all
    have "piperead_copy p n i dst s = (dst @ take (n - i) (pipe_items (pipes s p)), upd_pipe p (\<lambda>_. q) s)"
      using q(1) g x ni d by (simp add: piperead_copy.simps[of p n i dst s] put_put)
    then show ?thesis using q g x ni by (intro exI[of _ q]) simp
  qed
qed

text \<open>C13. Any sequence of single bytes written to and read from the ring buffer: the bytes read so far, and
  then the bytes still in the buffer, are the bytes that were in it and the bytes written, in order. The
  32-bit counters may wrap around any number of times.\<close>

theorem pipe_stream:
  assumes "pipe_wf q" "fifo_run put_byte get_byte pop_byte pipe_len PIPESIZE ops q = (q', ins, outs)"
  shows "pipe_wf q' \<and> pipe_items q @ ins = outs @ pipe_items q'"
proof (rule pipe_ring.stream[OF assms(1)])
  show "fifo_run put_byte get_byte pop_byte (\<lambda>q. length (pipe_items q)) PIPESIZE ops q = (q', ins, outs)" using assms(2) by simp
qed simp

lemma demo_pipe_wf: "pipe_wf demo_pipe"
  by (simp add: pipe_wf_def pipe_len_def demo_pipe_def)

theorem pipe_stream_witness:
  "\<exists>q' ins outs. fifo_run put_byte get_byte pop_byte pipe_len PIPESIZE [Some 1, Some 2, None, Some 3, None] demo_pipe = (q', ins, outs) \<and>
    pipe_wf q' \<and> pipe_items demo_pipe @ ins = outs @ pipe_items q'"
proof -
  obtain q' ins outs where "fifo_run put_byte get_byte pop_byte pipe_len PIPESIZE [Some 1, Some 2, None, Some 3, None] demo_pipe = (q', ins, outs)"
    by (metis surj_pair)
  with pipe_stream[OF demo_pipe_wf this] show ?thesis by blast
qed

lemma puts_readopen: "readopen (fold put_byte xs q) = readopen q"
  by (induction xs arbitrary: q) (simp_all add: put_byte_def)

lemma full_stops:
  assumes k: "kheld cfg [PipeLock p] s" and me: "myproc s = Some me" "ncli (mycpu s) = 1"
    and f: "i < n" "nwrite (pipes s p) = nread (pipes s p) + of_nat PIPESIZE"
  shows "\<exists>r t. pipewrite_from cfg p src n i s = Inr (r, t) \<and> pipes t = pipes s \<and>
    (if \<not> readopen (pipes s p) \<or> killed (ptable s me) then r = Finished (-1)
     else (\<exists>e. r = Sleeping i e) \<and> states t me = SLEEPING \<and> chan (ptable t me) = Some (ChanNwrite p))"
proof -
  have tp: "theproc s = Inr me" by (simp add: theproc_def me(1))
  show ?thesis
  proof (cases "\<not> readopen (pipes s p) \<or> killed (ptable s me)")
    case True
    obtain t where t: "release (PipeLock p) s = Inr t" "rest t = rest s" using kheld_release[OF k] by blast
    then show ?thesis using True f rest_pipes[OF t(2)] by (subst pipewrite_from.simps) (auto simp: tp)
  next
    case False
    have nl: "PtableLock \<notin> set [PipeLock p]" "RrqueueLock \<notin> set [PipeLock p]" by simp_all
    obtain t where t: "wakeup cfg (Some (ChanNread p)) s = Inr t" "kheld cfg [PipeLock p] t" "rest t = rest s"
      using kheld_wakeup[OF k nl] by blast
    note w = wakeup_keeps[OF k nl t(1)]
    obtain u where u: "acquire PtableLock t = Inr u" "kheld cfg [PtableLock, PipeLock p] u" "rest u = rest t"
      using kheld_acquire[OF t(2) nl(1)] by auto
    note ut = acquire_taken[OF u(1)]
    have "holding (PipeLock p) u" "1 \<le> ncli (mycpu u)" "\<not> eflags_if (mycpu u)"
      using u(2) by (auto simp: kheld_def holding_def cpu_ok_def)
    then obtain v where v: "release (PipeLock p) u = Inr v" "lock_given (PipeLock p) u v" using release_runs by blast
    let ?v = "upd_proc me (\<lambda>q. q\<lparr>chan := Some (ChanNwrite p), state := SLEEPING\<rparr>) v"
    have c: "cur v = cur s" "myproc v = Some me" "ncli (mycpu v) = 1" "\<not> eflags_if (mycpu v)" "holding PtableLock v"
    proof -
      have g: "cur v = cur u" "cctx v = cctx u" "ncli (mycpu v) = ncli (mycpu u) - 1" "0 < ncli (mycpu v) \<longrightarrow> \<not> eflags_if (mycpu v)"
        "locks v PtableLock = locks u PtableLock" using v(2) unfolding lock_given_def by (blast, blast, blast, blast, simp)
      have a: "cur u = cur t" "cctx u = cctx t" "ncli (mycpu u) = ncli (mycpu t) + 1" "locks u PtableLock = \<lparr>locked = 1, lk_cpu = Some (cur t)\<rparr>"
        using ut unfolding lock_taken_def by (blast, blast, blast, simp)
      show "cur v = cur s" "myproc v = Some me" using g a w me by simp_all
      show n: "ncli (mycpu v) = 1" using g(3) a(3) w(2) me(2) by linarith
      show "\<not> eflags_if (mycpu v)" using g(4) n by linarith
      show "holding PtableLock v" using g(1,5) a(1,4) by (simp add: holding_def)
    qed
    have "sched ?v = Inr (intena (mycpu ?v), ?v)"
      using c by (simp add: sched_def holding_def theproc_def upd_proc_def)
    then have "sleep (ChanNwrite p) (Some (PipeLock p)) t = Inr (intena (mycpu ?v), ?v)"
      using u(1) v(1) w me(1) by (simp add: sleep_def)
    then have "pipewrite_from cfg p src n i s = Inr (Sleeping i (intena (mycpu ?v)), ?v)"
      using False f t(1) by (subst pipewrite_from.simps) (simp add: tp)
    moreover have "pipes ?v = pipes s"
      using rest_pipes[OF t(3)] rest_pipes[OF u(3)] rest_pipes[OF rest_release[OF v(1)]] by (simp add: upd_proc_def)
    ultimately show ?thesis using False by (intro exI[of _ "Sleeping i (intena (mycpu ?v))"] exI[of _ ?v]) (simp add: states_def upd_proc_def)
  qed
qed

text \<open>More bytes than fit: those that fit are stored, then the writer stops at the full pipe.\<close>

lemma pipewrite_fills:
  "pipe_wf (pipes s p) \<Longrightarrow> i + k < length xs \<Longrightarrow> pipe_len (pipes s p) + k = PIPESIZE \<Longrightarrow>
    pipewrite_from cfg p (\<lambda>i. Inr (xs ! i)) (length xs) i s =
    pipewrite_from cfg p (\<lambda>i. Inr (xs ! i)) (length xs) (i + k) (upd_pipe p (\<lambda>_. fold put_byte (take k (drop i xs)) (pipes s p)) s)"
proof (induction k arbitrary: i s)
  case 0
  have "upd_pipe p (\<lambda>_. pipes s p) s = s" by (simp add: upd_pipe_def)
  then show ?case by simp
next
  case (Suc k)
  have nf: "nwrite (pipes s p) \<noteq> nread (pipes s p) + of_nat PIPESIZE" using full_len[OF Suc.prems(1)] Suc.prems(3) by simp
  let ?s = "upd_pipe p (put_byte (xs ! i)) s"
  have lt: "pipe_len (pipes s p) < PIPESIZE" using Suc.prems(3) by simp
  note pb = put_byte_law[OF Suc.prems(1) lt, of "xs ! i"]
  have l: "pipe_len (pipes ?s p) = Suc (pipe_len (pipes s p))" using pb length_pipe_items[of "pipes ?s p"] by simp
  have i: "i < length xs" using Suc.prems(2) by simp
  have t: "take (Suc k) (drop i xs) = xs ! i # take k (drop (Suc i) xs)" using i by (simp add: Cons_nth_drop_Suc[symmetric])
  have "pipewrite_from cfg p (\<lambda>i. Inr (xs ! i)) (length xs) i s = pipewrite_from cfg p (\<lambda>i. Inr (xs ! i)) (length xs) (Suc i) ?s"
    using i nf by (subst pipewrite_from.simps) simp
  also have "\<dots> = pipewrite_from cfg p (\<lambda>i. Inr (xs ! i)) (length xs) (Suc i + k)
      (upd_pipe p (\<lambda>_. fold put_byte (take k (drop (Suc i) xs)) (pipes ?s p)) ?s)"
    by (rule Suc.IH) (use pb l Suc.prems in simp_all)
  finally show ?case by (simp add: t put_put)
qed

lemma pipewrite_over:
  assumes k: "kheld cfg [] s" and me: "myproc s = Some me" "ncli (mycpu s) = 0" and q: "pipe_wf (pipes s p)"
  defines "free \<equiv> PIPESIZE - pipe_len (pipes s p)"
  assumes f: "free < length xs"
  shows "\<exists>r t. pipewrite cfg p (\<lambda>i. Inr (xs ! i)) (int (length xs)) s = Inr (r, t) \<and>
    pipe_items (pipes t p) = pipe_items (pipes s p) @ take free xs \<and>
    (if \<not> readopen (pipes s p) \<or> killed (ptable s me) then r = Finished (-1)
     else (\<exists>e. r = Sleeping free e) \<and> states t me = SLEEPING \<and> chan (ptable t me) = Some (ChanNwrite p))"
proof -
  obtain s1 where s1: "acquire (PipeLock p) s = Inr s1" "kheld cfg [PipeLock p] s1" "rest s1 = rest s"
    using kheld_acquire[OF k, of "PipeLock p"] by auto
  have p1: "pipes s1 = pipes s" by (rule rest_pipes[OF s1(3)])
  note tk = acquire_taken[OF s1(1)]
  have le: "pipe_len (pipes s p) \<le> PIPESIZE" using q by (simp add: pipe_wf_def)
  let ?q = "fold put_byte (take free xs) (pipes s p)"
  have Q: "pipe_wf ?q" "pipe_items ?q = pipe_items (pipes s p) @ take free xs"
    using pipe_ring.put_all[OF q, of "take free xs"] le by (simp_all add: free_def)
  have "length (pipe_items ?q) = PIPESIZE" using Q(2) f le length_pipe_items[of "pipes s p"] by (simp add: free_def)
  then have full: "nwrite ?q = nread ?q + of_nat PIPESIZE" using full_len[OF Q(1)] length_pipe_items[of ?q] by simp
  have ro: "readopen ?q = readopen (pipes s p)" by (rule puts_readopen)
  let ?s = "upd_pipe p (\<lambda>_. ?q) s1"
  have g: "pipewrite_from cfg p (\<lambda>i. Inr (xs ! i)) (length xs) 0 s1 = pipewrite_from cfg p (\<lambda>i. Inr (xs ! i)) (length xs) free ?s"
    using pipewrite_fills[of s1 p 0 free xs cfg] q p1 f le by (simp add: free_def)
  have a: "kheld cfg [PipeLock p] ?s" "myproc ?s = Some me" "ncli (mycpu ?s) = 1" "nwrite (pipes ?s p) = nread (pipes ?s p) + of_nat PIPESIZE"
    "readopen (pipes ?s p) = readopen (pipes s p)" "ptable ?s = ptable s" "pipes ?s p = ?q"
    using s1(2) me tk full ro by (simp, auto simp: lock_taken_def upd_pipe_def psame_def)
  obtain r t where r: "pipewrite_from cfg p (\<lambda>i. Inr (xs ! i)) (length xs) free ?s = Inr (r, t)" "pipes t = pipes ?s"
    "if \<not> readopen (pipes s p) \<or> killed (ptable s me) then r = Finished (-1)
     else (\<exists>e. r = Sleeping free e) \<and> states t me = SLEEPING \<and> chan (ptable t me) = Some (ChanNwrite p)"
    using full_stops[OF a(1-3) f a(4), of "\<lambda>i. Inr (xs ! i)"] unfolding a(5,6) by blast
  have "pipewrite cfg p (\<lambda>i. Inr (xs ! i)) (int (length xs)) s = Inr (r, t)" using s1(1) g r(1) by (simp add: pipewrite_def)
  moreover have "pipe_items (pipes t p) = pipe_items (pipes s p) @ take free xs" using r(2) a(7) Q(2) by simp
  ultimately show ?thesis using r(3) by blast
qed

lemma pipe_fits:
  assumes k: "kheld cfg [] s" and q: "pipe_wf (pipes s p)" "pipe_len (pipes s p) + length xs \<le> PIPESIZE" "pipe_items (pipes s p) @ xs \<noteq> []"
  shows "\<exists>t u. pipewrite cfg p (\<lambda>i. Inr (xs ! i)) (int (length xs)) s = Inr (Finished (int (length xs)), t) \<and>
    pipe_items (pipes t p) = pipe_items (pipes s p) @ xs \<and>
    piperead cfg p (int n) t = Inr (Finished (int (min n (pipe_len (pipes s p) + length xs))), take n (pipe_items (pipes s p) @ xs), u) \<and>
    pipe_items (pipes u p) = drop n (pipe_items (pipes s p) @ xs)"
proof -
  let ?q = "fold put_byte xs (pipes s p)"
  have Q: "pipe_wf ?q" "pipe_items ?q = pipe_items (pipes s p) @ xs" using pipe_ring.put_all[OF q(1), of xs] q(2) by simp_all
  obtain s1 where s1: "acquire (PipeLock p) s = Inr s1" "kheld cfg [PipeLock p] s1" "rest s1 = rest s"
    using kheld_acquire[OF k, of "PipeLock p"] by auto
  have p1: "pipes s1 = pipes s" by (rule rest_pipes[OF s1(3)])
  have f: "pipe_wf (pipes s1 p)" "0 \<le> length xs" "pipe_len (pipes s1 p) + (length xs - 0) \<le> PIPESIZE"
    "PtableLock \<notin> set []" "RrqueueLock \<notin> set []" using q p1 by simp_all
  obtain t where t: "pipewrite_from cfg p (\<lambda>i. Inr (xs ! i)) (length xs) 0 s1 = Inr (Finished (int (length xs)), t)" "kheld cfg [] t"
    "rest t = rest (upd_pipe p (\<lambda>_. fold put_byte xs (pipes s1 p)) s1)"
    using pipewrite_fits[OF f(1-3) s1(2) f(4,5)] unfolding drop_0 by (elim exE conjE) (rule that)
  have pt: "pipes t p = ?q" using rest_pipes[OF t(3)] p1 by simp
  have w: "pipewrite cfg p (\<lambda>i. Inr (xs ! i)) (int (length xs)) s = Inr (Finished (int (length xs)), t)"
    using s1(1) t(1) by (simp add: pipewrite_def)
  obtain t1 where t1: "acquire (PipeLock p) t = Inr t1" "kheld cfg [PipeLock p] t1" "rest t1 = rest t"
    using kheld_acquire[OF t(2), of "PipeLock p"] by auto
  have pt1: "pipes t1 p = ?q" using rest_pipes[OF t1(3)] pt by simp
  obtain q' where q': "piperead_copy p n 0 [] t1 = (take n (pipe_items ?q), upd_pipe p (\<lambda>_. q') t1)"
    "pipe_items q' = drop n (pipe_items ?q)"
    using piperead_copy_takes[of t1 p 0 n "[]", unfolded pt1, OF Q(1) le0] unfolding append_Nil diff_zero by (elim exE conjE) (rule that)
  let ?t = "upd_pipe p (\<lambda>_. q') t1"
  obtain v where v: "wakeup cfg (Some (ChanNwrite p)) ?t = Inr v" "kheld cfg [PipeLock p] v" "rest v = rest ?t"
    using kheld_wakeup[of cfg "[PipeLock p]" ?t "Some (ChanNwrite p)"] t1(2) by auto
  obtain u where u: "release (PipeLock p) v = Inr u" "rest u = rest v" using kheld_release[OF v(2)] by blast
  have ne: "nread (pipes t1 p) \<noteq> nwrite (pipes t1 p)"
  proof -
    have "pipe_items ?q \<noteq> []" unfolding Q(2) by (rule q(3))
    then have "pipe_len ?q \<noteq> 0" by (metis length_0_conv length_pipe_items)
    then show ?thesis unfolding pt1 empty_len .
  qed
  have l: "length (pipe_items ?q) = pipe_len (pipes s p) + length xs" unfolding Q(2) by simp
  have "piperead cfg p (int n) t = Inr (Finished (int (length (take n (pipe_items ?q)))), take n (pipe_items ?q), u)"
    using t1(1) q'(1) v(1) u(1) ne by (simp add: piperead_def piperead_go_def)
  moreover have "pipes u p = q'" using rest_pipes[OF u(2)] rest_pipes[OF v(3)] by simp
  ultimately show ?thesis using w pt Q(2) q'(2) l by (intro exI[of _ t] exI[of _ u]) (simp add: min.commute)
qed

text \<open>C14. Writing to a pipe and reading it back, for a running process that holds no lock. Bytes that fit are appended to what
  is in the pipe, and a read of a pipe that is not empty then returns the first bytes of it, as many as it asks for and there
  are, and leaves the others. Of more bytes than fit \<open>pipewrite\<close> stores those that fill the pipe and no more: it then fails if the
  read end is closed or the process was killed, and otherwise the process sleeps until there is room.\<close>

theorem pipe_write_read:
  assumes k: "kheld cfg [] s" and me: "myproc s = Some me" "ncli (mycpu s) = 0" and q: "pipe_wf (pipes s p)"
  defines "free \<equiv> PIPESIZE - pipe_len (pipes s p)" and "old \<equiv> pipe_items (pipes s p)"
  shows "(length xs \<le> free \<and> old @ xs \<noteq> [] \<longrightarrow>
      (\<exists>t u. pipewrite cfg p (\<lambda>i. Inr (xs ! i)) (int (length xs)) s = Inr (Finished (int (length xs)), t) \<and>
        pipe_items (pipes t p) = old @ xs \<and>
        piperead cfg p (int n) t = Inr (Finished (int (min n (length (old @ xs)))), take n (old @ xs), u) \<and>
        pipe_items (pipes u p) = drop n (old @ xs))) \<and>
    (free < length xs \<longrightarrow>
      (\<exists>r t. pipewrite cfg p (\<lambda>i. Inr (xs ! i)) (int (length xs)) s = Inr (r, t) \<and> pipe_items (pipes t p) = old @ take free xs \<and>
        (if \<not> readopen (pipes s p) \<or> killed (ptable s me) then r = Finished (-1)
         else (\<exists>e. r = Sleeping free e) \<and> states t me = SLEEPING \<and> chan (ptable t me) = Some (ChanNwrite p))))"
proof -
  have "pipe_len (pipes s p) \<le> PIPESIZE" using q by (simp add: pipe_wf_def)
  then have "length xs \<le> free \<Longrightarrow> pipe_len (pipes s p) + length xs \<le> PIPESIZE" by (simp add: free_def)
  moreover have "length (old @ xs) = pipe_len (pipes s p) + length xs" by (simp add: old_def)
  ultimately show ?thesis
    using pipe_fits[OF k q, of xs n] pipewrite_over[OF k me q, of xs] unfolding free_def old_def by simp
qed

text \<open>A running process and a pipe; three bytes fit, 513 do not.\<close>

definition demo_pipest :: kernst where
  "demo_pipest = demo_kernst\<lparr>cctx := (\<lambda>c. (cctx demo_kernst c)\<lparr>cproc := Some 4\<rparr>)\<rparr>"

lemma demo_pipest_ok: "kheld DEFAULT [] demo_pipest" "myproc demo_pipest = Some 4" "ncli (mycpu demo_pipest) = 0" "pipes demo_pipest = (\<lambda>_. demo_pipe)"
  "ptable demo_pipest = ptable demo_kernst"
proof -
  show "kheld DEFAULT [] demo_pipest" unfolding demo_pipest_def using demo_kernst_held by (auto elim: kheld_cong)
  show "ncli (mycpu demo_pipest) = 0" by (simp add: demo_pipest_def) (simp add: demo_unfold)
qed (simp_all add: demo_pipest_def)

theorem pipe_write_read_witness:
  "(\<exists>t u. pipewrite DEFAULT 4096 (\<lambda>i. Inr ([1, 2, 3] ! i)) 3 demo_pipest = Inr (Finished 3, t) \<and>
      piperead DEFAULT 4096 2 t = Inr (Finished 2, [1, 2], u) \<and> pipe_items (pipes u 4096) = [3]) \<and>
   (\<exists>e t. pipewrite DEFAULT 4096 (\<lambda>i. Inr (replicate 513 7 ! i)) 513 demo_pipest = Inr (Sleeping 512 e, t) \<and>
      pipe_items (pipes t 4096) = replicate 512 7 \<and> states t 4 = SLEEPING)"
proof
  have e: "pipe_items demo_pipe = []" "pipe_len demo_pipe = 0" "readopen demo_pipe" "\<not> killed (ptable demo_pipest 4)"
    by (simp_all add: pipe_items_def pipe_len_def demo_pipe_def demo_pipest_ok idle_proc_def)
  have w: "pipe_wf (pipes demo_pipest 4096)" using demo_pipe_wf by (simp add: demo_pipest_ok)
  note P = pipe_write_read[OF demo_pipest_ok(1-3) w]
  show "\<exists>t u. pipewrite DEFAULT 4096 (\<lambda>i. Inr ([1, 2, 3] ! i)) 3 demo_pipest = Inr (Finished 3, t) \<and>
      piperead DEFAULT 4096 2 t = Inr (Finished 2, [1, 2], u) \<and> pipe_items (pipes u 4096) = [3]"
    using P[of "[1, 2, 3]" 2] e by (auto simp: PIPESIZE_def eval_nat_numeral demo_pipest_ok)
  show "\<exists>e t. pipewrite DEFAULT 4096 (\<lambda>i. Inr (replicate 513 7 ! i)) 513 demo_pipest = Inr (Sleeping 512 e, t) \<and>
      pipe_items (pipes t 4096) = replicate 512 7 \<and> states t 4 = SLEEPING"
    using conjunct2[OF P[of "replicate 513 7"]] e by (simp add: PIPESIZE_def demo_pipest_ok) metis
qed

end
