(* ===== verification/Xv6_FsProp.thy ===== *)
theory Xv6_FsProp
  imports Xv6_Demo
begin

unbundle bit_operations_syntax

text \<open>
  Properties of the file system's data structures: inodes on the disk, directory entries, paths, and the
  table of inodes in memory.
\<close>

section \<open>Inodes on the disk\<close>

lemma word_of_bytes16: "(ucast (ucast v :: u8) :: u16) OR push_bit 8 (ucast (ucast (drop_bit 8 v) :: u8)) = (v :: u16)"
proof (rule bit_word_eqI)
  fix n
  assume "n < LENGTH(16)"
  then have "n < 8 \<or> (8 \<le> n \<and> n < 16)" by auto
  then show "bit ((ucast (ucast v :: u8) :: u16) OR push_bit 8 (ucast (ucast (drop_bit 8 v) :: u8))) n = bit v n"
    by (elim disjE) (simp add: bit_or_iff bit_push_bit_iff bit_ucast_iff bit_drop_bit_eq; arith)+
qed

lemma of_nat9_neq: "i < 512 \<Longrightarrow> j < 512 \<Longrightarrow> i \<noteq> j \<Longrightarrow> (of_nat i :: 9 word) \<noteq> of_nat j"
  by (simp add: of_nat9_eq)

lemma bstore16_other:
  assumes "x < a \<or> a + 2 \<le> x" "a \<le> 510" "x < 512"
  shows "bstore16 d a v (of_nat x) = d (of_nat x)"
proof -
  have "(of_nat x :: 9 word) \<noteq> of_nat (a + i)" if "i < 2" for i
    by (rule of_nat9_neq) (use assms that in auto)
  from this[of 0] this[of 1] show ?thesis by (simp add: bstore16_def add.commute)
qed

text \<open>Reading where nothing was written, by bytes.\<close>

definition same_bytes :: "block \<Rightarrow> block \<Rightarrow> nat \<Rightarrow> nat \<Rightarrow> bool" where
  "same_bytes d e a n \<longleftrightarrow> (\<forall>x. a \<le> x \<and> x < a + n \<longrightarrow> d (of_nat x) = e (of_nat x))"

lemma bload16_cong: "same_bytes d e a 2 \<Longrightarrow> bload16 d a = bload16 e a"
proof -
  assume s: "same_bytes d e a 2"
  have "d (of_nat a) = e (of_nat a)" "d (of_nat (Suc a)) = e (of_nat (Suc a))"
    using s by (auto simp: same_bytes_def simp del: of_nat_Suc)
  then show ?thesis by (simp add: bload16_def add.commute)
qed

lemma bload32_cong: "same_bytes d e a 4 \<Longrightarrow> bload32 d a = bload32 e a"
proof -
  assume s: "same_bytes d e a 4"
  have "d (of_nat (a + i)) = e (of_nat (a + i))" if "i < 4" for i using s that by (auto simp: same_bytes_def simp del: of_nat_add)
  from this[of 0] this[of 1] this[of 2] this[of 3] show ?thesis by (simp add: bload32_def add.commute)
qed

lemma same_bytes_store16: "b \<le> 510 \<Longrightarrow> a + n \<le> 512 \<Longrightarrow> a + n \<le> b \<or> b + 2 \<le> a \<Longrightarrow> same_bytes (bstore16 d b v) d a n"
  by (auto simp: same_bytes_def intro!: bstore16_other)

lemma same_bytes_store32: "b \<le> 508 \<Longrightarrow> a + n \<le> 512 \<Longrightarrow> a + n \<le> b \<or> b + 4 \<le> a \<Longrightarrow> same_bytes (bstore32 d b v) d a n"
  by (auto simp: same_bytes_def intro!: bstore32_other)

lemma same_bytes_trans: "same_bytes d e a n \<Longrightarrow> same_bytes e f a n \<Longrightarrow> same_bytes d f a n"
  by (auto simp: same_bytes_def)

lemma bload16_bstore16_same [simp]: "bload16 (bstore16 d a v) a = v"
  by (simp add: bload16_def bstore16_def word_of_bytes16)

text \<open>The block numbers of an inode.\<close>

definition put_addrs :: "nat \<Rightarrow> (nat \<Rightarrow> u32) \<Rightarrow> nat \<Rightarrow> block \<Rightarrow> block" where
  "put_addrs a f n d = fold (\<lambda>i d. bstore32 d (a + 4 * i) (f i)) [0..<n] d"

lemma put_addrs_Suc: "put_addrs a f (Suc n) d = bstore32 (put_addrs a f n d) (a + 4 * n) (f n)"
  by (simp add: put_addrs_def)

lemma put_addrs_other:
  "a + 4 * n \<le> 512 \<Longrightarrow> b + k \<le> 512 \<Longrightarrow> b + k \<le> a \<or> a + 4 * n \<le> b \<Longrightarrow> same_bytes (put_addrs a f n d) d b k"
proof (induction n)
  case 0
  then show ?case by (simp add: put_addrs_def same_bytes_def)
next
  case (Suc n)
  then have "same_bytes (bstore32 (put_addrs a f n d) (a + 4 * n) (f n)) (put_addrs a f n d) b k"
    by (intro same_bytes_store32) auto
  with Suc show ?case by (auto simp: put_addrs_Suc intro: same_bytes_trans)
qed

lemma put_addrs_load: "a + 4 * n \<le> 512 \<Longrightarrow> i < n \<Longrightarrow> bload32 (put_addrs a f n d) (a + 4 * i) = f i"
proof (induction n)
  case (Suc n)
  show ?case
  proof (cases "i = n")
    case False
    then have "i < n" using Suc(3) by simp
    moreover have "bload32 (bstore32 (put_addrs a f n d) (a + 4 * n) (f n)) (a + 4 * i) = bload32 (put_addrs a f n d) (a + 4 * i)"
      by (rule bload32_cong, rule same_bytes_store32) (use Suc(2) \<open>i < n\<close> in auto)
    ultimately show ?thesis using Suc by (simp add: put_addrs_Suc)
  qed (simp add: put_addrs_Suc)
qed simp

lemma store_dinode_alt:
  "store_dinode d a ip = put_addrs (a + 12) (addrs ip) 13
     (bstore32 (bstore16 (bstore16 (bstore16 (bstore16 d a (itype ip)) (a + 2) (major ip)) (a + 4) (minor ip)) (a + 6) (nlink ip))
       (a + 8) (isize ip))"
  by (simp add: store_dinode_def put_addrs_def Let_def NDIRECT_def)

lemma store_dinode_other:
  assumes "a + 64 \<le> 512" "b + 64 \<le> 512" "a + 64 \<le> b \<or> b + 64 \<le> a"
  shows "same_bytes (store_dinode d a ip) d b 64"
  unfolding store_dinode_alt
  by (intro same_bytes_trans[OF put_addrs_other] same_bytes_trans[OF same_bytes_store32] same_bytes_trans[OF same_bytes_store16]
      same_bytes_store16) (use assms in \<open>auto simp: same_bytes_def\<close>)

lemma same_bytes_mono: "same_bytes d e a n \<Longrightarrow> a \<le> b \<Longrightarrow> b + k \<le> a + n \<Longrightarrow> same_bytes d e b k"
  by (auto simp: same_bytes_def)

lemma load_dinode_cong: "same_bytes d e a 64 \<Longrightarrow> load_dinode d a jp = load_dinode e a jp"
proof -
  assume s: "same_bytes d e a 64"
  have "bload16 d (a + i) = bload16 e (a + i)" if "i \<le> 6" for i
    by (rule bload16_cong, rule same_bytes_mono[OF s]) (use that in auto)
  from this[of 0] this[of 2] this[of 4] this[of 6] have h: "bload16 d a = bload16 e a" "bload16 d (a + 2) = bload16 e (a + 2)"
    "bload16 d (a + 4) = bload16 e (a + 4)" "bload16 d (a + 6) = bload16 e (a + 6)" by simp_all
  have w: "bload32 d (a + i) = bload32 e (a + i)" if "i \<le> 60" for i
    by (rule bload32_cong, rule same_bytes_mono[OF s]) (use that in auto)
  have "bload32 d (a + 12 + 4 * i) = bload32 e (a + 12 + 4 * i)" if "i \<le> NDIRECT" for i
    using w[of "12 + 4 * i"] that by (simp add: NDIRECT_def add.assoc)
  with h w[of 8] show ?thesis by (simp add: load_dinode_def cong: if_cong)
qed

text \<open>C31. Writing an inode into its block and reading it back gives its type, device numbers, link count, size
  and block numbers; the other inodes of the block are as they were.\<close>

theorem dinode_roundtrip:
  "load_dinode (store_dinode d (dinode_off i) ip) (dinode_off j) jp =
     (if dinode_off j = dinode_off i
      then jp\<lparr>itype := itype ip, major := major ip, minor := minor ip, nlink := nlink ip, isize := isize ip,
        addrs := (\<lambda>k. if k \<le> NDIRECT then addrs ip k else addrs jp k)\<rparr>
      else load_dinode d (dinode_off j) jp)"
proof -
  have lim: "dinode_off k + 64 \<le> 512" for k by (simp add: dinode_off_def IPB_def BSIZE_def)
  show ?thesis
  proof (cases "dinode_off j = dinode_off i")
    case False
    then have "dinode_off i + 64 \<le> dinode_off j \<or> dinode_off j + 64 \<le> dinode_off i" by (auto simp: dinode_off_def)
    from load_dinode_cong[OF store_dinode_other[OF lim lim this]] False show ?thesis by simp
  next
    case True
    let ?a = "dinode_off i"
    let ?h = "bstore32 (bstore16 (bstore16 (bstore16 (bstore16 d ?a (itype ip)) (?a + 2) (major ip)) (?a + 4) (minor ip)) (?a + 6) (nlink ip))
       (?a + 8) (isize ip)"
    have a: "?a + 64 \<le> 512" by (rule lim)
    have p: "same_bytes (store_dinode d ?a ip) ?h b k" if "?a \<le> b" "b + k \<le> ?a + 12" for b k
      unfolding store_dinode_alt by (rule put_addrs_other) (use a that in auto)
    have t16: "bload16 (store_dinode d ?a ip) b = bload16 e b" if "same_bytes ?h e b 2" "?a \<le> b" "b + 2 \<le> ?a + 12" for b e
      by (rule bload16_cong, rule same_bytes_trans[OF p that(1)]) (use that in auto)
    have "bload16 (store_dinode d ?a ip) ?a = itype ip"
      by (subst t16[where e = "bstore16 d ?a (itype ip)"])
        (use a in \<open>auto intro!: same_bytes_trans[OF same_bytes_store32] same_bytes_trans[OF same_bytes_store16] same_bytes_store16\<close>)
    moreover have "bload16 (store_dinode d ?a ip) (?a + 2) = major ip"
      by (subst t16[where e = "bstore16 (bstore16 d ?a (itype ip)) (?a + 2) (major ip)"])
        (use a in \<open>auto intro!: same_bytes_trans[OF same_bytes_store32] same_bytes_trans[OF same_bytes_store16] same_bytes_store16\<close>)
    moreover have "bload16 (store_dinode d ?a ip) (?a + 4) = minor ip"
      by (subst t16[where e = "bstore16 (bstore16 (bstore16 d ?a (itype ip)) (?a + 2) (major ip)) (?a + 4) (minor ip)"])
        (use a in \<open>auto intro!: same_bytes_trans[OF same_bytes_store32] same_bytes_store16\<close>)
    moreover have "bload16 (store_dinode d ?a ip) (?a + 6) = nlink ip"
      by (subst t16[where e = "bstore16 (bstore16 (bstore16 (bstore16 d ?a (itype ip)) (?a + 2) (major ip)) (?a + 4) (minor ip)) (?a + 6) (nlink ip)"])
        (use a in \<open>auto intro!: same_bytes_store32\<close>)
    moreover have "bload32 (store_dinode d ?a ip) (?a + 8) = isize ip" using bload32_cong[OF p, of "?a + 8"] by simp
    moreover have "bload32 (store_dinode d ?a ip) (?a + 12 + 4 * k) = addrs ip k" if "k \<le> NDIRECT" for k
      unfolding store_dinode_alt by (rule put_addrs_load) (use a that in \<open>auto simp: NDIRECT_def\<close>)
    ultimately show ?thesis using True by (simp add: load_dinode_def cong: if_cong)
  qed
qed

section \<open>Directory entries\<close>

lemma strncmp_bytes: "strncmp p q n = 0 \<longleftrightarrow> strncpy_bytes p n = strncpy_bytes q n"
  by (induction p q n rule: strncmp.induct) (auto simp: word_uint_eq_iff)

lemma strncpy_bytes_again: "strncpy_bytes (list_view (strncpy_bytes t n)) n = strncpy_bytes t n"
  using strncmp_strncpy_bytes[of t n] strncmp_bytes[of t "list_view (strncpy_bytes t n)" n] by simp

lemma ucast16_bytes: "(ucast (ucast i :: u8) :: u16) OR push_bit 8 (ucast (ucast (drop_bit 8 i) :: u8)) = ucast (i :: u32)"
proof (rule bit_word_eqI)
  fix n
  assume "n < LENGTH(16)"
  then have "n < 8 \<or> (8 \<le> n \<and> n < 16)" by auto
  then show "bit ((ucast (ucast i :: u8) :: u16) OR push_bit 8 (ucast (ucast (drop_bit 8 i) :: u8))) n = bit (ucast i :: u16) n"
    by (elim disjE) (simp add: bit_or_iff bit_push_bit_iff bit_ucast_iff bit_drop_bit_eq; arith)+
qed

text \<open>C32. A directory entry as \<open>dirlink\<close> writes it is found by \<open>dirlookup\<close> under the name it was made for, under no
  name that differs from it in the first 14 bytes, and leads to the inode it was made for.\<close>

theorem dirent_match:
  "de_inum (make_dirent i name) = ucast i \<and>
   (namecmp (list_view other) (de_name (make_dirent i name)) = 0 \<longleftrightarrow>
     strncpy_bytes (list_view other) DIRSIZ = strncpy_bytes (list_view name) DIRSIZ)"
proof -
  have "de_name (make_dirent i name) = list_view (strncpy_bytes (list_view name) DIRSIZ)" by (simp add: de_name_def make_dirent_def)
  moreover have "de_inum (make_dirent i name) = ucast i"
    by (simp add: de_inum_def make_dirent_def list_view_def ucast16_bytes)
  ultimately show ?thesis by (simp add: namecmp_def strncmp_bytes strncpy_bytes_again)
qed

section \<open>Paths\<close>

text \<open>The elements of a path: what is between the slashes, empty ones left out.\<close>

fun split_slash :: "u8 list \<Rightarrow> u8 list list" where
  "split_slash [] = [[]]"
| "split_slash (c # cs) = (if c = slash then [] # split_slash cs
     else case split_slash cs of [] \<Rightarrow> [[c]] | e # es \<Rightarrow> (c # e) # es)"

definition path_elems :: "u8 list \<Rightarrow> u8 list list" where
  "path_elems path = filter (\<lambda>e. e \<noteq> []) (split_slash path)"

lemma split_slash_first:
  "split_slash p = takeWhile (\<lambda>c. c \<noteq> slash) p #
     (case dropWhile (\<lambda>c. c \<noteq> slash) p of [] \<Rightarrow> [] | c # q \<Rightarrow> split_slash q)"
  by (induction p) (auto split: list.splits)

lemma elems_skip: "path_elems (dropWhile (\<lambda>c. c = slash) p) = path_elems p"
  by (induction p) (auto simp: path_elems_def)

lemma elems_empty: "path_elems p = [] \<longleftrightarrow> dropWhile (\<lambda>c. c = slash) p = []"
proof
  assume e: "path_elems p = []"
  show "dropWhile (\<lambda>c. c = slash) p = []"
  proof (rule ccontr)
    assume ne: "dropWhile (\<lambda>c. c = slash) p \<noteq> []"
    then obtain c q where q: "dropWhile (\<lambda>c. c = slash) p = c # q" by (cases "dropWhile (\<lambda>c. c = slash) p") auto
    then have "c \<noteq> slash" using hd_dropWhile[OF ne] by simp
    then have "path_elems (c # q) \<noteq> []" unfolding path_elems_def by (subst split_slash_first) simp
    then show False using e elems_skip[of p] q by simp
  qed
next
  assume d: "dropWhile (\<lambda>c. c = slash) p = []"
  have "path_elems p = path_elems []" using elems_skip[of p] unfolding d by simp
  then show "path_elems p = []" by (simp add: path_elems_def)
qed

text \<open>C33. \<open>skipelem\<close> takes the elements off a path one by one: nothing is left exactly when the element was the
  last, and the name it stores is the element, cut off after 14 bytes and ended by a NUL if it is shorter.\<close>

theorem skipelem_elems:
  "case skipelem path of
     None \<Rightarrow> path_elems path = []
   | Some (rst, name) \<Rightarrow> \<exists>e. path_elems path = e # path_elems rst \<and> (rst = [] \<longleftrightarrow> path_elems rst = []) \<and>
       name = (if DIRSIZ \<le> length e then take DIRSIZ e else e @ [0])"
proof -
  let ?p = "dropWhile (\<lambda>c. c = slash) path"
  show ?thesis
  proof (cases "?p = []")
    case True
    then show ?thesis using elems_empty[of path] by (simp add: skipelem_def)
  next
    case False
    let ?e = "takeWhile (\<lambda>c. c \<noteq> slash) ?p" and ?q = "dropWhile (\<lambda>c. c \<noteq> slash) ?p"
    let ?r = "dropWhile (\<lambda>c. c = slash) ?q"
    have "hd ?p \<noteq> slash" by (rule hd_dropWhile[OF False])
    then have ne: "?e \<noteq> []" using False by (cases ?p) auto
    have "path_elems ?p = ?e # path_elems ?r"
    proof (cases ?q)
      case Nil
      have "split_slash ?p = [?e]" unfolding split_slash_first[of ?p] Nil by simp
      then have "path_elems ?p = [?e]" unfolding path_elems_def using ne by simp
      then show ?thesis unfolding Nil by (simp add: path_elems_def)
    next
      case (Cons c q)
      then have c: "c = slash" using hd_dropWhile[of "\<lambda>c. c \<noteq> slash" ?p] by simp
      have "path_elems ?p = ?e # path_elems q" unfolding path_elems_def by (subst split_slash_first) (simp add: ne Cons)
      then show ?thesis using elems_skip[of ?q] Cons c by (simp add: path_elems_def)
    qed
    moreover have "?r = [] \<longleftrightarrow> path_elems ?r = []" using elems_empty[of ?q] elems_skip[of ?q] by simp
    ultimately show ?thesis using False elems_skip[of path] by (simp add: skipelem_def Let_def)
  qed
qed

section \<open>The table of inodes\<close>

text \<open>No inode is in the table twice, and no reference count is negative.\<close>

definition icache_ok :: "(nat \<Rightarrow> inode) \<Rightarrow> bool" where
  "icache_ok ic \<longleftrightarrow> (\<forall>k<NINODE. 0 \<le> iref (ic k)) \<and>
     (\<forall>j<NINODE. \<forall>k<NINODE. 0 < iref (ic j) \<and> 0 < iref (ic k) \<and> idev (ic j) = idev (ic k) \<and> inum (ic j) = inum (ic k) \<longrightarrow> j = k)"

definition refs :: "(nat \<Rightarrow> inode) \<Rightarrow> u32 \<Rightarrow> u32 \<Rightarrow> int" where
  "refs ic dev i = (\<Sum>k<NINODE. if idev (ic k) = dev \<and> inum (ic k) = i then iref (ic k) else 0)"

lemma refs_upd:
  assumes "ip < NINODE"
  shows "refs (ic(ip := x)) dev i = refs ic dev i - (if idev (ic ip) = dev \<and> inum (ic ip) = i then iref (ic ip) else 0) +
    (if idev x = dev \<and> inum x = i then iref x else 0)"
proof -
  have f: "{..<NINODE} = insert ip ({..<NINODE} - {ip})" using assms by auto
  have "(\<Sum>k\<in>{..<NINODE} - {ip}. if idev ((ic(ip := x)) k) = dev \<and> inum ((ic(ip := x)) k) = i then iref ((ic(ip := x)) k) else 0) =
      (\<Sum>k\<in>{..<NINODE} - {ip}. if idev (ic k) = dev \<and> inum (ic k) = i then iref (ic k) else 0)"
    by (rule sum.cong) auto
  then show ?thesis unfolding refs_def by (subst (1 2) f) (simp add: sum.insert_remove)
qed

lemma icache_ok_put:
  assumes ok: "icache_ok ic" and x: "0 \<le> iref x"
    and u: "\<And>k. k < NINODE \<Longrightarrow> k \<noteq> ip \<Longrightarrow> 0 < iref (ic k) \<Longrightarrow> \<not> (idev (ic k) = idev x \<and> inum (ic k) = inum x)"
  shows "icache_ok (ic(ip := x))"
proof -
  have a: "\<forall>k<NINODE. 0 \<le> iref (ic k)" using ok by (simp add: icache_ok_def)
  have b: "j = k" if "j < NINODE" "k < NINODE" "0 < iref (ic j)" "0 < iref (ic k)" "idev (ic j) = idev (ic k)" "inum (ic j) = inum (ic k)" for j k
    using ok that unfolding icache_ok_def by blast
  have c: "j = k" if h: "j < NINODE" "k < NINODE" "0 < iref ((ic(ip := x)) j)" "0 < iref ((ic(ip := x)) k)"
    "idev ((ic(ip := x)) j) = idev ((ic(ip := x)) k)" "inum ((ic(ip := x)) j) = inum ((ic(ip := x)) k)" for j k
  proof (cases "j = ip")
    case True
    then show ?thesis using h u[of k] by (cases "k = ip") simp_all
  next
    case False
    then show ?thesis using h u[of j] b[of j k] by (cases "k = ip") simp_all
  qed
  have "\<forall>k<NINODE. 0 \<le> iref ((ic(ip := x)) k)" using a x by simp
  then show ?thesis unfolding icache_ok_def using c by blast
qed

text \<open>C19. With a free slot in the table, \<open>iget\<close> returns a slot that holds the inode asked for, adds one reference to
  it and none to any other inode, and keeps the table free of duplicates.\<close>

theorem iget_ref:
  assumes k: "kheld cfg [] s" and ok: "icache_ok (icache s)" and free: "\<exists>k<NINODE. iref (icache s k) = 0"
  shows "\<exists>ip t. iget dev i s = Inr (ip, t) \<and> kheld cfg [] t \<and> ip < NINODE \<and> idev (icache t ip) = dev \<and> inum (icache t ip) = i \<and>
    icache_ok (icache t) \<and> 0 < iref (icache t ip) \<and>
    (\<forall>d j. refs (icache t) d j = refs (icache s) d j + (if d = dev \<and> j = i then 1 else 0))"
proof -
  obtain t where t: "acquire IcacheLock s = Inr t" "kheld cfg [IcacheLock] t" "rest t = rest s" using kheld_acquire[OF k, of IcacheLock] by auto
  have it: "icache t = icache s" by (rule rest_icache[OF t(3)])
  have fin: ?thesis if ip: "ip < NINODE" and e: "iget dev i s = bindr (release IcacheLock (upd_ino ip f t)) (\<lambda>s. Inr (ip, s))"
    and f: "idev (f (icache s ip)) = dev" "inum (f (icache s ip)) = i" "0 < iref (f (icache s ip))" "icache_ok ((icache s)(ip := f (icache s ip)))"
    and r: "iref (f (icache s ip)) = (if idev (icache s ip) = dev \<and> inum (icache s ip) = i then iref (icache s ip) else 0) + 1"
      "idev (icache s ip) = dev \<and> inum (icache s ip) = i \<or> iref (icache s ip) = 0" for ip f
  proof -
    obtain u where u: "release IcacheLock (upd_ino ip f t) = Inr u" "kheld cfg [] u" "rest u = rest (upd_ino ip f t)"
      using kheld_release[of cfg IcacheLock "[]" "upd_ino ip f t"] t(2) by auto
    have iu: "icache u = (icache s)(ip := f (icache s ip))" using rest_icache[OF u(3)] it by simp
    have "refs (icache u) d j = refs (icache s) d j + (if d = dev \<and> j = i then 1 else 0)" for d j
      unfolding iu refs_upd[OF ip] using f(1,2) r by auto
    then show ?thesis using e u iu f ip by (intro exI[of _ ip] exI[of _ u]) simp
  qed
  show ?thesis
  proof (cases "scan (\<lambda>k. 0 < iref (icache s k) \<and> idev (icache s k) = dev \<and> inum (icache s k) = i) NINODE")
    case (Some ip)
    then have ip: "ip < NINODE" "0 < iref (icache s ip)" "idev (icache s ip) = dev" "inum (icache s ip) = i" by (auto simp: scan_Some)
    show ?thesis
    proof (rule fin[of ip "\<lambda>x. x\<lparr>iref := iref x + 1\<rparr>"])
      show "icache_ok ((icache s)(ip := (icache s ip)\<lparr>iref := iref (icache s ip) + 1\<rparr>))"
      proof (rule icache_ok_put[OF ok])
        show "\<not> (idev (icache s k) = idev ((icache s ip)\<lparr>iref := iref (icache s ip) + 1\<rparr>) \<and>
            inum (icache s k) = inum ((icache s ip)\<lparr>iref := iref (icache s ip) + 1\<rparr>))"
          if "k < NINODE" "k \<noteq> ip" "0 < iref (icache s k)" for k
          using ok that ip unfolding icache_ok_def by simp metis
      qed (use ip in simp)
    qed (use ip t(1) Some it in \<open>simp_all add: iget_def\<close>)
  next
    case None
    obtain ip where sc: "scan (\<lambda>k. iref (icache s k) = 0) NINODE = Some ip" using free scanI[of "\<lambda>k. iref (icache s k) = 0"] by blast
    then have ip: "ip < NINODE" "iref (icache s ip) = 0" by (auto simp: scan_Some)
    have no: "\<not> (0 < iref (icache s k) \<and> idev (icache s k) = dev \<and> inum (icache s k) = i)" if "k < NINODE" for k
      using None that by (simp add: scan_None)
    show ?thesis
    proof (rule fin[of ip "\<lambda>x. x\<lparr>idev := dev, inum := i, iref := 1, iflags := 0\<rparr>"])
      show "icache_ok ((icache s)(ip := (icache s ip)\<lparr>idev := dev, inum := i, iref := 1, iflags := 0\<rparr>))"
        by (rule icache_ok_put[OF ok]) (use no in auto)
    qed (use ip t(1) None sc it in \<open>simp_all add: iget_def\<close>)
  qed
qed

theorem iget_ref_witness:
  "\<exists>ip t. iget 1 7 demo_kernst = Inr (ip, t) \<and> idev (icache t ip) = 1 \<and> inum (icache t ip) = 7 \<and> icache_ok (icache t)"
proof -
  have "icache_ok (icache demo_kernst)" by (simp add: icache_ok_def demo_inode_def)
  moreover have "\<exists>k<NINODE. iref (icache demo_kernst k) = 0" by (simp add: demo_inode_def NINODE_def) (rule exI[of _ 0], simp)
  ultimately show ?thesis using iget_ref[OF demo_kernst_held, of 1 7] by blast
qed

end
