(* ===== verification/Xv6_ConsOut.thy ===== *)
theory Xv6_ConsOut
  imports Xv6_Demo
begin

unbundle bit_operations_syntax

text \<open>
  Printing on the console never leaves the screen: as long as the kernel has not panicked and the cursor is
  on the screen, every routine that prints returns, with the cursor on the screen again and nothing changed
  but the screen, the cursor and the serial line.
\<close>

section \<open>The state without the output devices\<close>

definition clr :: "'a consst_scheme \<Rightarrow> 'a consst_scheme" where
  "clr s = s\<lparr>crt := \<lambda>_. 0, crt_pos := 0, serial := []\<rparr>"

definition cga_ok :: "'a consst_scheme \<Rightarrow> bool" where
  "cga_ok s \<longleftrightarrow> \<not> panicked s \<and> crt_pos s < 24 * 80"

text \<open>\<open>printed cfg L s r\<close>: the run \<open>r\<close> from \<open>s\<close> has only printed, under the locks \<open>L\<close>.\<close>

definition printed :: "schedflag \<Rightarrow> lockid list \<Rightarrow> 'a consst_scheme \<Rightarrow> 'a consst_scheme res \<Rightarrow> bool" where
  "printed cfg L s r \<longleftrightarrow> (\<exists>t. r = Inr t \<and> kheld cfg L t \<and> cga_ok t \<and> rest (clr t) = rest (clr s))"

definition printing :: "schedflag \<Rightarrow> lockid list \<Rightarrow> 'a consst_scheme \<Rightarrow> bool" where
  "printing cfg L s \<longleftrightarrow> kheld cfg L s \<and> cga_ok s"

lemma printed_Inr [simp, intro]: "printing cfg L s \<Longrightarrow> printed cfg L s (Inr s)"
  by (simp add: printed_def printing_def)

lemma printed_bind [intro!]:
  assumes "printed cfg L s r" "\<And>t. printing cfg L t \<Longrightarrow> printed cfg L t (f t)"
  shows "printed cfg L s (bindr r f)"
proof -
  obtain t where t: "r = Inr t" "kheld cfg L t" "cga_ok t" "rest (clr t) = rest (clr s)"
    using assms(1) by (auto simp: printed_def)
  then have "printed cfg L t (f t)" using assms(2) by (simp add: printing_def)
  with t show ?thesis by (simp add: printed_def)
qed

lemma printed_forr:
  "printing cfg L s \<Longrightarrow> (\<And>i t. printing cfg L t \<Longrightarrow> printed cfg L t (f i t)) \<Longrightarrow> printed cfg L s (forr i k f s)"
  by (induction k arbitrary: i s) auto

lemma clr_sel [simp]: "ptable (clr s) = ptable s" "rr_first (clr s) = rr_first s" "rr_last (clr s) = rr_last s"
  "initproc (clr s) = initproc s" "locks (clr s) = locks s" "cpus (clr s) = cpus s" "cur (clr s) = cur s"
  by (simp_all add: clr_def)

lemma kheld_clr [simp]: "kheld cfg L (clr s) = kheld cfg L s"
  by (auto elim: kheld_cong)

lemma printed_same: "printing cfg L s \<Longrightarrow> r = Inr t \<Longrightarrow> cga_ok t \<Longrightarrow> clr t = clr s \<Longrightarrow> printed cfg L s r"
  using kheld_clr[of cfg L t] kheld_clr[of cfg L s] by (simp add: printed_def printing_def)

section \<open>The routines that print\<close>

lemma cga_move_bounds:
  assumes "0 \<le> pos" "pos < 24 * 80"
  shows "0 \<le> cga_move c pos \<and> cga_move c pos \<le> 24 * 80"
proof -
  have "80 - pos mod 80 = 80 - (pos - 80 * (pos div 80))" by (simp add: minus_mult_div_eq_mod)
  moreover have "pos div 80 \<le> 23" "0 \<le> pos mod 80" "pos mod 80 < 80" using assms by auto
  ultimately show ?thesis using assms by (auto simp: cga_move_def)
qed

lemma cgaputc_ok:
  assumes "cga_ok s"
  shows "\<exists>t. cgaputc c s = Inr t \<and> cga_ok t \<and> clr t = clr s"
proof -
  let ?p = "cga_move c (uint (crt_pos s))"
  have "uint (crt_pos s) < 24 * 80" using assms by (simp add: cga_ok_def word_less_def)
  then have p: "0 \<le> ?p" "?p \<le> 24 * 80" using cga_move_bounds[of "uint (crt_pos s)" c] by simp_all
  have w: "(of_int x :: u16) < 24 * 80" if "0 \<le> x" "x < 24 * 80" for x
    using that by (simp add: word_less_def uint_word_of_int)
  show ?thesis
  proof (cases "?p div 80 \<ge> 24")
    case True
    then have "?p = 24 * 80" using p by auto
    then show ?thesis using assms w[of "23 * 80"] by (simp add: cgaputc_def Let_def cga_ok_def clr_def)
  next
    case False
    then have "?p < 24 * 80" using p by auto
    then show ?thesis using assms w[of ?p] p False by (simp add: cgaputc_def Let_def cga_ok_def clr_def)
  qed
qed

lemma uartputc_clr [simp]: "clr (uartputc c s) = clr s" "cga_ok (uartputc c s) = cga_ok s"
  by (simp_all add: uartputc_def clr_def cga_ok_def)

lemma consputc_ok:
  assumes "cga_ok s"
  shows "\<exists>t. consputc c s = Inr t \<and> cga_ok t \<and> clr t = clr s"
proof -
  have "\<not> panicked s" using assms by (simp add: cga_ok_def)
  then show ?thesis
    using assms cgaputc_ok[of "uartputc 8 (uartputc 32 (uartputc 8 s))" c] cgaputc_ok[of "uartputc c s" c]
    by (cases "c = BACKSPACE") (simp_all add: consputc_def)
qed

lemma consputc_prints [intro]: "printing cfg L s \<Longrightarrow> printed cfg L s (consputc c s)"
  using consputc_ok[of s c] by (auto simp: printing_def intro: printed_same)

lemma conswrite_prints [intro]: "printing cfg L s \<Longrightarrow> printed cfg L s (conswrite cs s)"
  by (induction cs arbitrary: s) auto

lemma printint_prints [intro]: "printing cfg L s \<Longrightarrow> printed cfg L s (printint x b d s)"
  by (auto simp: printint_def)

text \<open>A format and its arguments agree when every conversion finds an argument of its kind.\<close>

fun fmt_ok :: "u8 list \<Rightarrow> parg list \<Rightarrow> bool" where
  "fmt_ok [] args = True"
| "fmt_ok (c # fmt) args =
     (if c = 0 then True
      else if c \<noteq> 37 then fmt_ok fmt args
      else case fmt of [] \<Rightarrow> True
        | c # fmt \<Rightarrow>
            if c = 0 then True
            else if c = 100 \<or> c = 120 \<or> c = 112 then (case args of PInt x # args \<Rightarrow> fmt_ok fmt args | _ \<Rightarrow> False)
            else if c = 115 then (case args of PStr x # args \<Rightarrow> fmt_ok fmt args | _ \<Rightarrow> False)
            else fmt_ok fmt args)"

lemma cprintf_loop_prints: "fmt_ok fmt args \<Longrightarrow> printing cfg L s \<Longrightarrow> printed cfg L s (cprintf_loop fmt args s)"
proof (induction fmt args arbitrary: s rule: fmt_ok.induct)
  case (1 args)
  then show ?case by simp
next
  case (2 c fmt args)
  note IH = 2(1-4) and ok = 2(5) and pr = 2(6)
  show ?case
  proof (cases "c = 0 \<or> c \<noteq> 37")
    case True
    then show ?thesis using IH(1) ok pr by auto
  next
    case False
    show ?thesis
    proof (cases fmt)
      case Nil
      then show ?thesis using False pr by simp
    next
      case (Cons d fmt')
      show ?thesis
        using False Cons IH(2)[OF _ _ Cons] IH(3)[OF _ _ Cons] IH(4)[OF _ _ Cons] ok pr
        by (auto split: list.splits parg.splits)
    qed
  qed
qed

lemma rest_clr: "rest (clr s) = clr (rest s)"
  by (simp add: rest_def clr_def)

lemma rest_cons [simp]: "panicked (rest s) = panicked s" "crt_pos (rest s) = crt_pos s" "cons_locking (rest s) = cons_locking s"
  "in_buf (rest s) = in_buf s" "in_r (rest s) = in_r s" "in_w (rest s) = in_w s" "in_e (rest s) = in_e s"
  "kbd_shift (rest s) = kbd_shift s" "kbd_in (rest s) = kbd_in s" "uart_on (rest s) = uart_on s" "serial_in (rest s) = serial_in s"
  by (simp_all add: rest_def)

lemma rest_printing: "rest t = rest s \<Longrightarrow> cga_ok t = cga_ok s"
  using rest_cons(1,2)[of t] rest_cons(1,2)[of s] by (simp add: cga_ok_def)

lemma cprintf_prints:
  assumes s: "printing cfg L s" and l: "ConsLock \<notin> set L" and f: "fmt_ok fmt args"
  shows "printed cfg L s (cprintf (Some fmt) args s)"
proof (cases "cons_locking s")
  case False
  then show ?thesis using cprintf_loop_prints[OF f s] by (auto simp: cprintf_def)
next
  case True
  have k: "kheld cfg L s" "cga_ok s" using s by (simp_all add: printing_def)
  obtain t where t: "acquire ConsLock s = Inr t" "kheld cfg (ConsLock # L) t" "rest t = rest s" using kheld_acquire[OF k(1) l] by blast
  then have pt: "printing cfg (ConsLock # L) t" using k(2) rest_printing[OF t(3)] by (simp add: printing_def)
  obtain u where u: "cprintf_loop fmt args t = Inr u" "kheld cfg (ConsLock # L) u" "cga_ok u" "rest (clr u) = rest (clr t)"
    using cprintf_loop_prints[OF f pt] unfolding printed_def by blast
  obtain v where v: "release ConsLock u = Inr v" "kheld cfg L v" "rest v = rest u" using kheld_release[OF u(2)] by blast
  have "rest (clr v) = rest (clr s)" using u(4) t(3) v(3) by (simp add: rest_clr)
  moreover have "cga_ok v" using u(3) rest_printing[OF v(3)] by simp
  ultimately show ?thesis using True t(1) u(1) v by (simp add: printed_def cprintf_def)
qed

lemma dump_pcs_prints: "printing cfg L s \<Longrightarrow> ConsLock \<notin> set L \<Longrightarrow> printed cfg L s (dump_pcs pcs s)"
proof (induction pcs arbitrary: s)
  case (Cons pc pcs)
  have "fmt_ok (cstr '' %p'') [PInt pc]" by (simp add: cstr_def)
  then show ?case using Cons cprintf_prints[of cfg L s] by auto
qed simp

lemma procdump_prints:
  assumes "printing cfg L s" "ConsLock \<notin> set L"
  shows "printed cfg L s (procdump s)"
proof -
  have f: "fmt_ok (cstr ''%d %s %s'') [PInt a, PStr b, PStr c]" "fmt_ok [10] []" for a b c by (simp_all add: cstr_def)
  have p: "printed cfg L t (if b then Inr t else bindr (cprintf (Some (cstr ''%d %s %s'')) [PInt x, PStr y, PStr z] t) (\<lambda>s.
      bindr (if c s then dump_pcs (d s) s else Inr s) (cprintf (Some [10]) [])))" if "printing cfg L t" for b c d t x y z
    using that cprintf_prints[OF _ assms(2) f(1)] cprintf_prints[OF _ assms(2) f(2)] dump_pcs_prints[OF _ assms(2)] by auto
  show ?thesis unfolding procdump_def by (rule printed_forr[OF assms(1)]) (rule p)
qed

end
