(* ===== verification/Xv6_ConsIn.thy ===== *)
theory Xv6_ConsIn
  imports Xv6_ConsOut Xv6_Ring
begin

unbundle bit_operations_syntax

text \<open>
  The line editor of the console. The ring \<open>input.buf\<close> with its three counters holds a pair of byte lists:
  the lines that a reader may take and the line under the cursor. \<open>edit\<close> says what a key does to the pair;
  \<open>consoleintr\<close> implements it for every source of keys. The keyboard and the serial port are the two sources.
\<close>

section \<open>The abstract editor\<close>

type_synonym lines = "u8 list \<times> u8 list"

definition edit :: "int \<Rightarrow> lines \<Rightarrow> lines" where
  "edit c dl =
     (let (d, l) = dl
      in if c = 16 then (d, l)
         else if c = 21 then (d, [])
         else if c = 8 \<or> c = 127 then (d, butlast l)
         else if c \<noteq> 0 \<and> length d + length l < 128 then
           let c = (if c = 13 then 10 else c); l = l @ [of_int c]
           in if c = 10 \<or> c = 4 \<or> length d + length l = 128 then (d @ l, []) else (d, l)
         else (d, l))"

section \<open>The ring holds the two lists\<close>

definition in_done :: "'a consst_scheme \<Rightarrow> u8 list" where
  "in_done s = win (in_buf s) (in_r s) (unat (in_w s - in_r s))"

definition in_line :: "'a consst_scheme \<Rightarrow> u8 list" where
  "in_line s = win (in_buf s) (in_w s) (unat (in_e s - in_w s))"

definition in_abs :: "'a consst_scheme \<Rightarrow> lines" where
  "in_abs s = (in_done s, in_line s)"

definition in_wf :: "'a consst_scheme \<Rightarrow> bool" where
  "in_wf s \<longleftrightarrow> unat (in_w s - in_r s) + unat (in_e s - in_w s) \<le> 128 \<and> 10 \<notin> set (in_line s)"

definition noinput :: "'a consst_scheme \<Rightarrow> 'a consst_scheme" where
  "noinput s = (clr s)\<lparr>in_buf := \<lambda>_. 0, in_r := 0, in_w := 0, in_e := 0\<rparr>"

lemma in_cong: "in_buf t = in_buf s \<Longrightarrow> in_r t = in_r s \<Longrightarrow> in_w t = in_w s \<Longrightarrow> in_e t = in_e s \<Longrightarrow>
    in_abs t = in_abs s \<and> in_wf t = in_wf s"
  by (simp add: in_abs_def in_done_def in_line_def in_wf_def)

lemma rest_clr_in:
  assumes "rest (clr t) = rest (clr s)"
  shows "in_abs t = in_abs s" "in_wf t = in_wf s" "rest (noinput t) = rest (noinput s)" "in_r t = in_r s" "in_w t = in_w s" "in_e t = in_e s"
proof -
  have e: "in_buf t = in_buf s" "in_r t = in_r s" "in_w t = in_w s" "in_e t = in_e s"
    using arg_cong[OF assms, of in_buf] arg_cong[OF assms, of in_r] arg_cong[OF assms, of in_w] arg_cong[OF assms, of in_e]
    by (simp_all add: clr_def)
  have r: "rest (noinput x) = (rest (clr x))\<lparr>in_buf := \<lambda>_. 0, in_r := 0, in_w := 0, in_e := 0\<rparr>" for x :: "'a consst_scheme"
    by (simp add: rest_def noinput_def)
  show "in_abs t = in_abs s" "in_wf t = in_wf s" using in_cong[of t s] e by simp_all
  show "rest (noinput t) = rest (noinput s)" unfolding r assms ..
  show "in_r t = in_r s" "in_w t = in_w s" "in_e t = in_e s" by (rule e)+
qed

text \<open>The length of the whole buffer.\<close>

definition in_fits :: "'a consst_scheme \<Rightarrow> bool" where
  "in_fits s \<longleftrightarrow> length (in_done s) + length (in_line s) \<le> 128"

lemma in_wf_fits: "in_wf s \<longleftrightarrow> in_fits s \<and> 10 \<notin> set (in_line s)"
  by (simp add: in_wf_def in_fits_def in_done_def in_line_def)

lemma in_total: "in_fits s \<Longrightarrow> unat (in_e s - in_r s) = length (in_done s) + length (in_line s)"
proof -
  assume "in_fits s"
  then have "unat (in_w s - in_r s) + unat (in_e s - in_w s) < 2 ^ LENGTH(32)" by (simp add: in_fits_def in_done_def in_line_def)
  then have "unat ((in_w s - in_r s) + (in_e s - in_w s)) = unat (in_w s - in_r s) + unat (in_e s - in_w s)"
    by (subst unat_word_ariths(1)) simp
  then show ?thesis by (simp add: in_done_def in_line_def)
qed

section \<open>The steps of the editor\<close>

text \<open>\<open>edits cfg s r dl\<close>: the run \<open>r\<close> from \<open>s\<close> under the console's lock leaves the lists \<open>dl\<close>.\<close>

definition edits :: "schedflag \<Rightarrow> 'a consst_scheme \<Rightarrow> 'a consst_scheme res \<Rightarrow> lines \<Rightarrow> bool" where
  "edits cfg s r dl \<longleftrightarrow> (\<exists>t. r = Inr t \<and> printing cfg [InputLock] t \<and> in_wf t \<and> in_abs t = dl \<and> rest (noinput t) = rest (noinput s))"

lemma edits_printed: "printed cfg [InputLock] s r \<Longrightarrow> in_wf s \<Longrightarrow> edits cfg s r (in_abs s)"
  unfolding printed_def edits_def printing_def using rest_clr_in by blast

lemma printing_upd [simp]: "printing cfg L (s\<lparr>in_e := e\<rparr>) = printing cfg L s" "printing cfg L (s\<lparr>in_buf := b\<rparr>) = printing cfg L s"
  "printing cfg L (s\<lparr>in_w := e\<rparr>) = printing cfg L s" "printing cfg L (s\<lparr>in_r := e\<rparr>) = printing cfg L s"
  by (auto simp: printing_def cga_ok_def elim: kheld_cong)

lemma noinput_upd [simp]: "noinput (s\<lparr>in_e := e\<rparr>) = noinput s" "noinput (s\<lparr>in_buf := b\<rparr>) = noinput s"
  "noinput (s\<lparr>in_w := e\<rparr>) = noinput s" "noinput (s\<lparr>in_r := e\<rparr>) = noinput s"
  by (simp_all add: noinput_def clr_def)

lemma erase_one:
  assumes "in_wf s" "in_e s \<noteq> in_w s"
  shows "in_line s = in_line (s\<lparr>in_e := in_e s - 1\<rparr>) @ [in_at s (in_e s - 1)]" "in_wf (s\<lparr>in_e := in_e s - 1\<rparr>)"
    "unat (in_e s - in_w s) = Suc (unat (in_e s - 1 - in_w s))"
proof -
  have "unat (in_e s - in_w s) \<noteq> 0" using assms(2) unsigned_eq_0_iff[of "in_e s - in_w s"] by auto
  then show n: "unat (in_e s - in_w s) = Suc (unat (in_e s - 1 - in_w s))"
    using counter_pred[OF assms(2)] by simp
  have e: "in_e s - 1 = in_w s + of_nat (unat (in_e s - 1 - in_w s))" by simp
  show l: "in_line s = in_line (s\<lparr>in_e := in_e s - 1\<rparr>) @ [in_at s (in_e s - 1)]"
    unfolding in_line_def n win_snoc in_at_def using e by simp
  show "in_wf (s\<lparr>in_e := in_e s - 1\<rparr>)"
    using assms(1) l n by (auto simp: in_wf_def)
qed

lemma erase_edits:
  assumes "printing cfg [InputLock] s" "in_wf s" "in_e s \<noteq> in_w s"
  shows "edits cfg s (consputc BACKSPACE (s\<lparr>in_e := in_e s - 1\<rparr>)) (in_done s, butlast (in_line s))"
proof -
  have "edits cfg (s\<lparr>in_e := in_e s - 1\<rparr>) (consputc BACKSPACE (s\<lparr>in_e := in_e s - 1\<rparr>)) (in_abs (s\<lparr>in_e := in_e s - 1\<rparr>))"
    using assms erase_one[OF assms(2,3)] by (intro edits_printed) auto
  moreover have "in_abs (s\<lparr>in_e := in_e s - 1\<rparr>) = (in_done s, butlast (in_line s))"
    using erase_one(1)[OF assms(2,3)] by (simp add: in_abs_def in_done_def)
  ultimately show ?thesis by (simp add: edits_def)
qed

lemma kill_edits:
  "printing cfg [InputLock] s \<Longrightarrow> in_wf s \<Longrightarrow> k = unat (in_e s - in_w s) \<Longrightarrow> edits cfg s (kill_line k s) (in_done s, [])"
proof (induction k arbitrary: s)
  case 0
  then show ?case by (auto simp: edits_def in_abs_def in_line_def)
next
  case (Suc k)
  have ne: "in_e s \<noteq> in_w s" using Suc(4) by auto
  note E = erase_one[OF Suc(3) ne]
  have nl: "in_at s (in_e s - 1) \<noteq> 10" using Suc(3) E(1) by (auto simp: in_wf_def)
  obtain t where t: "consputc BACKSPACE (s\<lparr>in_e := in_e s - 1\<rparr>) = Inr t" "printing cfg [InputLock] t" "in_wf t"
      "in_abs t = (in_done s, butlast (in_line s))" "rest (noinput t) = rest (noinput s)"
    using erase_edits[OF Suc(2,3) ne] by (auto simp: edits_def)
  have "length (in_line t) = k" using t(4) Suc(4) by (simp add: in_abs_def in_line_def)
  then have "k = unat (in_e t - in_w t)" by (simp add: in_line_def)
  from Suc(1)[OF t(2,3) this] have "edits cfg t (kill_line k t) (in_done s, [])" using t(4) by (simp add: in_abs_def)
  then show ?case using ne nl t(1,5) by (simp add: edits_def)
qed

text \<open>Storing a byte behind the line, and handing the line over.\<close>

lemma store_one:
  fixes s :: "'a consst_scheme" and x :: u8
  assumes "in_fits s" "length (in_done s) + length (in_line s) < 128"
  defines "s1 \<equiv> s\<lparr>in_buf := (in_buf s)(ucast (in_e s) := x), in_e := in_e s + 1\<rparr>"
  shows "in_done s1 = in_done s" "in_line s1 = in_line s @ [x]" "in_fits s1"
proof -
  let ?d = "unat (in_w s - in_r s)" and ?l = "unat (in_e s - in_w s)"
  have l: "?d + ?l < 128" using assms(2) by (simp add: in_done_def in_line_def)
  have e: "in_e s = in_r s + of_nat (?d + ?l)" "in_e s = in_w s + of_nat ?l" by simp_all
  have n: "unat (in_e s + 1 - in_w s) = Suc ?l" using counter_succ[of "in_e s" "in_w s" 128] l by simp
  have "win ((in_buf s)(ucast (in_r s + of_nat (?d + ?l)) := x)) (in_r s) ?d = win (in_buf s) (in_r s) ?d"
    by (rule win_upd) (use l in simp_all)
  then show d: "in_done s1 = in_done s" unfolding e(1)[symmetric] by (simp add: in_done_def s1_def)
  have "win ((in_buf s)(ucast (in_w s + of_nat ?l) := x)) (in_w s) (Suc ?l) = win (in_buf s) (in_w s) ?l @ [x]"
    by (rule win_put) (use l in simp_all)
  then show b: "in_line s1 = in_line s @ [x]" unfolding e(2)[symmetric] by (simp add: in_line_def s1_def n)
  show "in_fits s1" using assms(2) by (simp add: in_fits_def d b)
qed

lemma commit_line:
  assumes "in_fits s"
  shows "in_done (s\<lparr>in_w := in_e s\<rparr>) = in_done s @ in_line s" "in_line (s\<lparr>in_w := in_e s\<rparr>) = []" "in_wf (s\<lparr>in_w := in_e s\<rparr>)"
proof -
  let ?d = "unat (in_w s - in_r s)" and ?l = "unat (in_e s - in_w s)"
  have "unat (in_e s - in_r s) = ?d + ?l" using in_total[OF assms] by (simp add: in_done_def in_line_def)
  then show d: "in_done (s\<lparr>in_w := in_e s\<rparr>) = in_done s @ in_line s" by (simp add: in_done_def in_line_def win_add)
  show l: "in_line (s\<lparr>in_w := in_e s\<rparr>) = []" by (simp add: in_line_def)
  show "in_wf (s\<lparr>in_w := in_e s\<rparr>)" using assms by (simp add: in_wf_fits in_fits_def d l)
qed

lemma full_iff:
  assumes "in_fits s"
  shows "in_e s - in_r s < INPUT_BUF \<longleftrightarrow> length (in_done s) + length (in_line s) < 128"
    "in_e s = in_r s + INPUT_BUF \<longleftrightarrow> length (in_done s) + length (in_line s) = 128"
proof -
  note t = in_total[OF assms]
  show "in_e s - in_r s < INPUT_BUF \<longleftrightarrow> length (in_done s) + length (in_line s) < 128"
    using t by (simp add: word_less_nat_alt INPUT_BUF_def)
  have "in_e s = in_r s + INPUT_BUF \<longleftrightarrow> in_e s - in_r s = 128" by (auto simp: INPUT_BUF_def algebra_simps)
  also have "\<dots> \<longleftrightarrow> unat (in_e s - in_r s) = 128" by (simp add: word_unat_eq_iff)
  finally show "in_e s = in_r s + INPUT_BUF \<longleftrightarrow> length (in_done s) + length (in_line s) = 128" using t by simp
qed

lemma rest_in: "rest t = rest s \<Longrightarrow> in_abs t = in_abs s \<and> in_wf t = in_wf s \<and> rest (noinput t) = rest (noinput s)"
  using rest_clr_in[of t s] by (simp add: rest_clr)

lemma wake_edits:
  assumes "printing cfg [InputLock] s" "in_wf s"
  shows "edits cfg s (wakeup cfg (Some ChanInput) s) (in_abs s)"
proof -
  obtain t where t: "wakeup cfg (Some ChanInput) s = Inr t" "kheld cfg [InputLock] t" "rest t = rest s"
    using kheld_wakeup[of cfg "[InputLock]" s "Some ChanInput"] assms(1) by (auto simp: printing_def)
  then show ?thesis using rest_in[OF t(3)] rest_printing[OF t(3)] assms by (auto simp: edits_def printing_def)
qed

lemma char_edits:
  fixes s :: "'a consst_scheme" and c :: int
  assumes s: "printing cfg [InputLock] s" "in_wf s" and c: "0 \<le> c" "c < 256" "c \<noteq> 0" "length (in_done s) + length (in_line s) < 128"
  defines "c' \<equiv> if c = 13 then 10 else c"
  shows "edits cfg s (console_char cfg c s)
    (if c' = 10 \<or> c' = 4 \<or> Suc (length (in_done s) + length (in_line s)) = 128
     then (in_done s @ in_line s @ [of_int c'], []) else (in_done s, in_line s @ [of_int c']))"
proof -
  have fs: "in_fits s" using s(2) by (simp add: in_wf_fits)
  let ?s1 = "s\<lparr>in_buf := (in_buf s)(ucast (in_e s) := of_int c'), in_e := in_e s + 1\<rparr>"
  note st = store_one[OF fs c(4), of "of_int c'"]
  have "printing cfg [InputLock] ?s1" using s(1) by simp
  then obtain t where t: "consputc c' ?s1 = Inr t" "kheld cfg [InputLock] t" "cga_ok t" "rest (clr t) = rest (clr ?s1)"
    using consputc_prints[of cfg "[InputLock]" ?s1 c'] unfolding printed_def by blast
  note r = rest_clr_in[OF t(4)]
  have ft: "in_fits t" and dt: "in_done t = in_done s" and lt: "in_line t = in_line s @ [of_int c']"
    using r(1) st by (auto simp: in_abs_def in_fits_def)
  have pt: "printing cfg [InputLock] t" using t by (simp add: printing_def)
  have nt: "rest (noinput t) = rest (noinput s)" using r(3) by simp
  have run: "console_char cfg c s = (if c' = 10 \<or> c' = 4 \<or> in_e t = in_r t + INPUT_BUF
      then wakeup cfg (Some ChanInput) (t\<lparr>in_w := in_e t\<rparr>) else Inr t)"
    using t(1) c(3,4) full_iff(1)[OF fs] by (simp add: console_char_def Let_def c'_def cong: if_cong)
  show ?thesis
  proof (cases "c' = 10 \<or> c' = 4 \<or> in_e t = in_r t + INPUT_BUF")
    case True
    note co = commit_line[OF ft]
    have "edits cfg (t\<lparr>in_w := in_e t\<rparr>) (wakeup cfg (Some ChanInput) (t\<lparr>in_w := in_e t\<rparr>)) (in_abs (t\<lparr>in_w := in_e t\<rparr>))"
      by (rule wake_edits) (use pt co in simp_all)
    then show ?thesis using True run co nt full_iff(2)[OF ft] by (simp add: edits_def in_abs_def dt lt)
  next
    case False
    have "(of_int c' :: u8) \<noteq> 10"
    proof
      assume "(of_int c' :: u8) = 10"
      then have "uint (of_int c' :: u8) = uint (10 :: u8)" by simp
      then show False using False c by (simp add: c'_def uint_word_of_int split: if_splits)
    qed
    then have "in_wf t" using ft s(2) by (simp add: in_wf_fits lt)
    then show ?thesis using False run nt pt full_iff(2)[OF ft] by (simp add: edits_def in_abs_def dt lt)
  qed
qed

text \<open>One key.\<close>

lemma console_key_edits:
  assumes s: "printing cfg [InputLock] s" "in_wf s" and c: "0 \<le> c" "c < 256"
  shows "edits cfg s (console_key cfg c s) (edit c (in_abs s))"
proof -
  have stay: "edits cfg s (Inr s) (in_done s, in_line s)" using s by (simp add: edits_def in_abs_def)
  consider "c = 16" | "c = 21" | "c = 8 \<or> c = 127" | "c \<notin> {8, 16, 21, 127}" by auto
  then show ?thesis
  proof cases
    case 1
    then show ?thesis using edits_printed[OF procdump_prints[OF s(1)] s(2)] by (simp add: console_key_def edit_def in_abs_def)
  next
    case 2
    then show ?thesis using kill_edits[OF s refl] by (simp add: console_key_def edit_def in_abs_def)
  next
    case 3
    have "in_e s = in_w s \<Longrightarrow> in_line s = []" by (simp add: in_line_def)
    then show ?thesis using 3 erase_edits[OF s] stay by (auto simp: console_key_def edit_def in_abs_def)
  next
    case 4
    have f: "in_fits s" using s(2) by (simp add: in_wf_fits)
    show ?thesis
    proof (cases "c \<noteq> 0 \<and> length (in_done s) + length (in_line s) < 128")
      case True
      then show ?thesis using 4 char_edits[OF s c] by (simp add: console_key_def edit_def in_abs_def Let_def cong: if_cong)
    next
      case False
      then have "console_key cfg c s = Inr s" "edit c (in_abs s) = (in_done s, in_line s)"
        using 4 full_iff(1)[OF f] by (auto simp: console_key_def console_char_def edit_def in_abs_def)
      then show ?thesis using stay by simp
    qed
  qed
qed

section \<open>Sources of keys\<close>

definition nosource :: "'a consst_scheme \<Rightarrow> 'a consst_scheme" where
  "nosource s = s\<lparr>kbd_shift := 0, kbd_in := [], serial_in := []\<rparr>"

lemma nosource_keeps:
  assumes "nosource t = nosource s"
  shows "printing cfg L t = printing cfg L s" "in_wf t = in_wf s" "in_abs t = in_abs s"
    "rest (noinput (nosource t)) = rest (noinput (nosource s))"
proof -
  have k: "printing cfg L (nosource x) = printing cfg L x" for x :: "'a consst_scheme"
    by (auto simp: printing_def nosource_def cga_ok_def elim: kheld_cong)
  have i: "in_wf (nosource x) = in_wf x" "in_abs (nosource x) = in_abs x" for x :: "'a consst_scheme"
    using in_cong[of "nosource x" x] by (simp_all add: nosource_def)
  show "printing cfg L t = printing cfg L s" "in_wf t = in_wf s" "in_abs t = in_abs s"
    using k[of t] k[of s] i[of t] i[of s] assms by simp_all
  show "rest (noinput (nosource t)) = rest (noinput (nosource s))" using assms by simp
qed

lemma noinput_nosource: "rest (noinput t) = rest (noinput s) \<Longrightarrow> rest (noinput (nosource t)) = rest (noinput (nosource s))"
proof -
  assume a: "rest (noinput t) = rest (noinput s)"
  have "rest (noinput (nosource x)) = nosource (rest (noinput x))" for x :: "'a consst_scheme"
    by (simp add: rest_def noinput_def nosource_def clr_def)
  then show ?thesis using a by simp
qed

text \<open>What \<open>consoleintr\<close> relies on when it calls the \<open>getc\<close> it is given: the keys that wait in the device come
  one by one, then -1; reading a key changes nothing but the device.\<close>

locale key_source =
  fixes getc :: "'a consst_scheme \<Rightarrow> int \<times> 'a consst_scheme"
    and keys :: "'a consst_scheme \<Rightarrow> int list"
  assumes getc_empty: "keys s = [] \<Longrightarrow> getc s = (-1, s)"
    and getc_key: "keys s = c # cs \<Longrightarrow> 0 \<le> c \<and> c < 256 \<and> fst (getc s) = c \<and> keys (snd (getc s)) = cs \<and> nosource (snd (getc s)) = nosource s"
    and keys_kept: "rest (noinput t) = rest (noinput s) \<Longrightarrow> keys t = keys s"
begin

lemma loop_edits:
  "printing cfg [InputLock] s \<Longrightarrow> in_wf s \<Longrightarrow>
    \<exists>t. consoleintr_loop cfg getc s = Some (Inr t) \<and> printing cfg [InputLock] t \<and> in_wf t \<and> keys t = [] \<and>
      in_abs t = fold edit (keys s) (in_abs s) \<and> rest (noinput (nosource t)) = rest (noinput (nosource s))"
proof (induction "keys s" arbitrary: s)
  case Nil
  then have "consoleintr_loop cfg getc s = Some (Inr s)" using getc_empty[of s] by (subst consoleintr_loop.simps) simp
  then show ?case using Nil by auto
next
  case (Cons c cs)
  note G = getc_key[OF Cons(2)[symmetric]]
  let ?u = "snd (getc s)"
  note N = nosource_keeps(1)[of ?u s cfg "[InputLock]"] nosource_keeps(2-4)[of ?u s]
  have u: "printing cfg [InputLock] ?u" "in_wf ?u" "in_abs ?u = in_abs s" using G N Cons(3,4) by simp_all
  then obtain t where t: "console_key cfg c ?u = Inr t" "printing cfg [InputLock] t" "in_wf t" "in_abs t = edit c (in_abs s)"
      "rest (noinput t) = rest (noinput ?u)"
    using console_key_edits[of cfg ?u c] G by (auto simp: edits_def)
  have k: "cs = keys t" using keys_kept[OF t(5)] G by simp
  have e: "consoleintr_loop cfg getc s = consoleintr_loop cfg getc t"
    using t(1) G by (cases "getc s") (simp add: consoleintr_loop.simps[of cfg getc s])
  have "rest (noinput (nosource t)) = rest (noinput (nosource s))" using noinput_nosource[OF t(5)] N(4) G by simp
  then show ?case using Cons(1)[OF k t(2,3)] Cons(2)[symmetric] t(4) k[symmetric] unfolding e by simp
qed

lemma consoleintr_edits:
  assumes "kheld cfg [] s" "cga_ok s" "in_wf s"
  shows "\<exists>t. consoleintr cfg getc s = Inr t \<and> kheld cfg [] t \<and> cga_ok t \<and> in_wf t \<and> keys t = [] \<and>
    in_abs t = fold edit (keys s) (in_abs s) \<and> rest (noinput (nosource t)) = rest (noinput (nosource s))"
proof -
  obtain u where u: "acquire InputLock s = Inr u" "kheld cfg [InputLock] u" "rest u = rest s"
    using kheld_acquire[OF assms(1), of InputLock] by auto
  note ru = rest_in[OF u(3)]
  have "printing cfg [InputLock] u" "in_wf u" "in_abs u = in_abs s" "keys u = keys s"
    using u ru assms rest_printing[OF u(3)] keys_kept[of u s] by (simp_all add: printing_def)
  then obtain v where v: "consoleintr_loop cfg getc u = Some (Inr v)" "printing cfg [InputLock] v" "in_wf v" "keys v = []"
      "in_abs v = fold edit (keys s) (in_abs s)" "rest (noinput (nosource v)) = rest (noinput (nosource u))"
    using loop_edits[of cfg u] by auto
  obtain w where w: "release InputLock v = Inr w" "kheld cfg [] w" "rest w = rest v"
    using kheld_release[of cfg InputLock "[]" v] v(2) by (auto simp: printing_def)
  note rw = rest_in[OF w(3)]
  have "rest (noinput (nosource w)) = rest (noinput (nosource s))"
    using v(6) noinput_nosource[of w v] noinput_nosource[of u s] rw ru by simp
  then show ?thesis using u(1) v w rw rest_printing[OF w(3)] keys_kept[of w v] by (simp add: consoleintr_def printing_def)
qed
text \<open>With no key waiting the device is left as it was.\<close>

lemma consoleintr_idle:
  assumes "keys s = []" "consoleintr cfg getc s = Inr t"
  shows "rest (noinput t) = rest (noinput s)"
proof -
  obtain u where u: "acquire InputLock s = Inr u" using assms(2) by (cases "acquire InputLock s") (simp_all add: consoleintr_def)
  note ru = rest_acquire[OF u]
  have "keys u = []" using keys_kept[of u s] rest_in[OF ru] assms(1) by simp
  then have "consoleintr_loop cfg getc u = Some (Inr u)" using getc_empty[of u] by (subst consoleintr_loop.simps) simp
  then have "release InputLock u = Inr t" using assms(2) u by (simp add: consoleintr_def)
  then have "rest t = rest s" using rest_release ru by metis
  then show ?thesis using rest_in by blast
qed

end

text \<open>The keyboard.\<close>

fun kbd_chars :: "u32 \<Rightarrow> u8 list \<Rightarrow> int list" where
  "kbd_chars sh [] = []"
| "kbd_chars sh (b # q) = (case kbdgetc sh (b # q) of (c, sh, _) \<Rightarrow> c # kbd_chars sh q)"

definition kbd_keys :: "'a consst_scheme \<Rightarrow> int list" where
  "kbd_keys s = kbd_chars (kbd_shift s) (kbd_in s)"

lemma kbd_key_range: "0 \<le> fst (kbd_key sh d) \<and> fst (kbd_key sh d) < 256"
proof -
  have "uint (charcode x d) < 256" for x using uint_bounded[of "charcode x d"] by simp
  then show ?thesis by (auto simp: kbd_key_def Let_def)
qed

lemma kbdgetc_Cons: "\<exists>c sh'. kbdgetc sh (b # q) = (c, sh', q) \<and> 0 \<le> c \<and> c < 256"
  using kbd_key_range by (auto simp: kbdgetc_def Let_def split: prod.split) (metis fst_conv)+

lemma noinput_sources:
  assumes "rest (noinput t) = rest (noinput s)"
  shows "kbd_shift t = kbd_shift s" "kbd_in t = kbd_in s" "uart_on t = uart_on s" "serial_in t = serial_in s" "icache t = icache s"
proof -
  have e: "kbd_shift (rest (noinput x)) = kbd_shift x" "kbd_in (rest (noinput x)) = kbd_in x" "uart_on (rest (noinput x)) = uart_on x"
    "serial_in (rest (noinput x)) = serial_in x" "icache (rest (noinput x)) = icache x" for x :: "'a consst_scheme"
    by (simp_all add: noinput_def clr_def rest_def)
  show "kbd_shift t = kbd_shift s" "kbd_in t = kbd_in s" "uart_on t = uart_on s" "serial_in t = serial_in s" "icache t = icache s"
    using e[of t] e[of s] assms by simp_all
qed

interpretation kbd_source: key_source kbd_getc kbd_keys
proof
  fix s t :: "'a consst_scheme" and c cs
  show "kbd_getc s = (-1, s)" if "kbd_keys s = []"
    using that by (cases "kbd_in s") (auto simp: kbd_keys_def kbd_getc_def kbdgetc_def split: prod.splits)
  show "0 \<le> c \<and> c < 256 \<and> fst (kbd_getc s) = c \<and> kbd_keys (snd (kbd_getc s)) = cs \<and> nosource (snd (kbd_getc s)) = nosource s"
    if k: "kbd_keys s = c # cs"
  proof -
    obtain b q where q: "kbd_in s = b # q" using k by (cases "kbd_in s") (auto simp: kbd_keys_def)
    obtain d sh where d: "kbdgetc (kbd_shift s) (b # q) = (d, sh, q)" "0 \<le> d" "d < 256" using kbdgetc_Cons by blast
    then show ?thesis using k q by (simp add: kbd_keys_def kbd_getc_def nosource_def)
  qed
  show "kbd_keys t = kbd_keys s" if "rest (noinput t) = rest (noinput s)"
    using noinput_sources[OF that] by (simp add: kbd_keys_def)
qed

text \<open>The serial port.\<close>

definition uart_keys :: "'a consst_scheme \<Rightarrow> int list" where
  "uart_keys s = (if uart_on s then map uint (serial_in s) else [])"

interpretation uart_source: key_source uartgetc uart_keys
proof
  fix s t :: "'a consst_scheme" and c cs
  show "uartgetc s = (-1, s)" if "uart_keys s = []"
    using that by (cases "serial_in s") (auto simp: uart_keys_def uartgetc_def split: if_splits)
  show "0 \<le> c \<and> c < 256 \<and> fst (uartgetc s) = c \<and> uart_keys (snd (uartgetc s)) = cs \<and> nosource (snd (uartgetc s)) = nosource s"
    if k: "uart_keys s = c # cs"
  proof -
    have on: "uart_on s" using k by (simp add: uart_keys_def split: if_splits)
    obtain b q where q: "serial_in s = b # q" using k on by (cases "serial_in s") (auto simp: uart_keys_def)
    have "c = uint b" "cs = map uint q" using k on q by (simp_all add: uart_keys_def)
    moreover have "uint b < 256" using uint_bounded[of b] by simp
    ultimately show ?thesis using on q by (simp add: uart_keys_def uartgetc_def nosource_def)
  qed
  show "uart_keys t = uart_keys s" if "rest (noinput t) = rest (noinput s)"
    using noinput_sources[OF that] by (simp add: uart_keys_def)
qed

section \<open>The interrupt handlers\<close>

lemma uart_left:
  assumes "uart_keys t = []" "rest (noinput (nosource t)) = rest (noinput (nosource s))" "uartintr cfg s = Inr t"
  shows "uart_on t = uart_on s \<and> serial_in t = (if uart_on s then [] else serial_in s)"
proof -
  have "uart_on (nosource t) = uart_on (nosource s)" using noinput_sources[OF assms(2)] by simp
  then have on: "uart_on t = uart_on s" by (simp add: nosource_def)
  have "serial_in t = serial_in s" if "\<not> uart_on s"
    using uart_source.consoleintr_idle[of s cfg t] assms(3) that noinput_sources[of t s] by (simp add: uartintr_def uart_keys_def)
  then show ?thesis using on assms(1) by (auto simp: uart_keys_def split: if_splits)
qed

text \<open>C21. The interrupt of the keyboard reads every key that waits in the device and returns, and the interrupt of the serial
  port does the same where the port was found when it was set up, else it leaves the port alone; the two lists
  of the line buffer are then what the keys, one after the other, make of them; the cursor is on the screen and no lock is held.\<close>

theorem console_interrupts:
  assumes "kheld cfg [] s" "cga_ok s" "in_wf s"
  shows "\<exists>t u. kbdintr cfg s = Inr t \<and> in_abs t = fold edit (kbd_chars (kbd_shift s) (kbd_in s)) (in_abs s) \<and> kbd_in t = [] \<and>
      kheld cfg [] t \<and> cga_ok t \<and> in_wf t \<and>
    uartintr cfg s = Inr u \<and> in_abs u = fold edit (if uart_on s then map uint (serial_in s) else []) (in_abs s) \<and>
      uart_on u = uart_on s \<and> serial_in u = (if uart_on s then [] else serial_in s) \<and>
      kheld cfg [] u \<and> cga_ok u \<and> in_wf u"
proof -
  have n: "kbd_in t = []" if "kbd_keys t = []" for t :: "'a consst_scheme"
    using that by (cases "kbd_in t") (auto simp: kbd_keys_def split: prod.splits)
  obtain u where u: "uartintr cfg s = Inr u" "kheld cfg [] u" "cga_ok u" "in_wf u" "uart_keys u = []"
      "in_abs u = fold edit (uart_keys s) (in_abs s)" "rest (noinput (nosource u)) = rest (noinput (nosource s))"
    using uart_source.consoleintr_edits[OF assms] by (auto simp: uartintr_def)
  then show ?thesis
    using kbd_source.consoleintr_edits[OF assms] uart_left[of u s cfg] n
    unfolding kbdintr_def kbd_keys_def[symmetric] uart_keys_def[symmetric] by blast
qed

lemma demo_chars: "kbd_chars 0 [35, 45, 14, 23, 28] = [104, 120, 8, 105, 10]"
  by (simp add: kbdgetc_def kbd_key_def Let_def charcode_def normalmap_def shiftcode_def togglecode_def table256_def CTL_def SHIFT_def
      CAPSLOCK_def E0ESC_def)

text \<open>Typing \<open>h\<close>, \<open>x\<close>, backspace, \<open>i\<close>, return.\<close>

theorem console_interrupts_witness:
  "\<exists>t. kbdintr DEFAULT (demo_kernst\<lparr>kbd_in := [35, 45, 14, 23, 28]\<rparr>) = Inr t \<and> in_abs t = ([104, 105, 10], []) \<and> kbd_in t = []"
proof -
  let ?s = "demo_kernst\<lparr>kbd_in := [35, 45, 14, 23, 28]\<rparr>"
  have "kheld DEFAULT [] ?s" using demo_kernst_held by (rule kheld_cong) simp_all
  moreover have "cga_ok ?s" "in_wf ?s" by (simp_all add: cga_ok_def in_wf_def in_line_def)
  ultimately obtain t where t: "kbdintr DEFAULT ?s = Inr t" "kbd_in t = []"
      "in_abs t = fold edit (kbd_chars (kbd_shift ?s) (kbd_in ?s)) (in_abs ?s)"
    using console_interrupts[of DEFAULT ?s] by blast
  have "in_abs ?s = ([], [])" by (simp add: in_abs_def in_done_def in_line_def)
  then have "in_abs t = ([104, 105, 10], [])" using t(3) demo_chars by (simp add: edit_def)
  then show ?thesis using t by blast
qed

section \<open>Reading a line\<close>

text \<open>What a read of up to \<open>n\<close> bytes takes from the lines: it stops behind a newline and at an end of file, which
  it leaves for the next read unless it has nothing else. \<open>None\<close>: the reader has to wait.\<close>

fun read_line :: "bool \<Rightarrow> nat \<Rightarrow> u8 list \<Rightarrow> (u8 list \<times> u8 list) option" where
  "read_line first 0 d = Some ([], d)"
| "read_line first (Suc n) [] = None"
| "read_line first (Suc n) (c # d) =
     (if c = 4 then Some ([], if first then d else c # d)
      else if c = 10 then Some ([c], d)
      else map_option (\<lambda>(x, d). (c # x, d)) (read_line False n d))"

definition cons_inode :: "nat \<Rightarrow> bool \<Rightarrow> 'a icst_scheme \<Rightarrow> bool" where
  "cons_inode ip busy s \<longleftrightarrow> 1 \<le> iref (icache s ip) \<and> iflags (icache s ip) = (if busy then I_BUSY OR I_VALID else I_VALID)"

definition ino_flags :: "u32 \<Rightarrow> nat \<Rightarrow> (nat \<Rightarrow> inode) \<Rightarrow> nat \<Rightarrow> inode" where
  "ino_flags f ip ic = ic(ip := (ic ip)\<lparr>iflags := f\<rparr>)"

lemma upd_ino_cons [simp]: "cga_ok (upd_ino ip f s) = cga_ok s" "in_abs (upd_ino ip f s) = in_abs s"
  by (simp_all add: upd_ino_def cga_ok_def in_abs_def in_done_def in_line_def)

lemma flag_words: "(I_BUSY OR I_VALID) AND I_BUSY \<noteq> 0" "(I_BUSY OR I_VALID) AND NOT I_BUSY = I_VALID" "I_VALID AND I_BUSY = 0"
  "I_VALID OR I_BUSY = I_BUSY OR I_VALID" "(I_BUSY OR I_VALID) AND I_VALID \<noteq> 0"
  "I_BUSY \<noteq> 0" "I_VALID \<noteq> 0"
  by (simp_all add: I_BUSY_def I_VALID_def)

lemma iunlock_cons:
  assumes "printing cfg [] s" "cons_inode ip True s"
  shows "\<exists>t. iunlock cfg ip s = Inr t \<and> printing cfg [] t \<and> in_abs t = in_abs s \<and> icache t = ino_flags I_VALID ip (icache s)"
proof -
  have f: "iflags (icache s ip) = I_BUSY OR I_VALID" "1 \<le> iref (icache s ip)" using assms(2) by (simp_all add: cons_inode_def)
  obtain t where t: "acquire IcacheLock s = Inr t" "kheld cfg [IcacheLock] t" "rest t = rest s"
    using kheld_acquire[of cfg "[]" s IcacheLock] assms(1) by (auto simp: printing_def)
  let ?t = "upd_ino ip (\<lambda>x. x\<lparr>iflags := iflags x AND NOT I_BUSY\<rparr>) t"
  have pt: "printing cfg [IcacheLock] ?t" using t rest_printing[OF t(3)] assms(1) by (simp add: printing_def)
  then obtain u where u: "wakeup cfg (Some (ChanInode ip)) ?t = Inr u" "kheld cfg [IcacheLock] u" "rest u = rest ?t"
    using kheld_wakeup[of cfg "[IcacheLock]" ?t "Some (ChanInode ip)"] by (auto simp: printing_def)
  obtain v where v: "release IcacheLock u = Inr v" "kheld cfg [] v" "rest v = rest u" using kheld_release[OF u(2)] by blast
  have "rest v = rest ?t" using u v by simp
  note r = this rest_in[OF this] rest_icache[OF this] rest_printing[OF this] and rt = rest_in[OF t(3)] rest_icache[OF t(3)]
  have "iunlock cfg ip s = Inr v" using t(1) u(1) v(1) f by (simp add: iunlock_def iflag_def flag_words)
  then show ?thesis using r rt v(2) pt f by (intro exI[of _ v]) (simp add: printing_def flag_words ino_flags_def)
qed

lemma ilock_cons:
  assumes "printing cfg [] s" "cons_inode ip False s"
  shows "\<exists>t. ilock cfg ip s = Inr t \<and> printing cfg [] t \<and> in_abs t = in_abs s \<and> icache t = ino_flags (I_BUSY OR I_VALID) ip (icache s)"
proof -
  have f: "iflags (icache s ip) = I_VALID" "1 \<le> iref (icache s ip)" using assms(2) by (simp_all add: cons_inode_def)
  obtain t where t: "acquire IcacheLock s = Inr t" "kheld cfg [IcacheLock] t" "rest t = rest s"
    using kheld_acquire[of cfg "[]" s IcacheLock] assms(1) by (auto simp: printing_def)
  let ?t = "upd_ino ip (\<lambda>x. x\<lparr>iflags := iflags x OR I_BUSY\<rparr>) t"
  have pt: "printing cfg [IcacheLock] ?t" using t rest_printing[OF t(3)] assms(1) by (simp add: printing_def)
  then obtain v where v: "release IcacheLock ?t = Inr v" "kheld cfg [] v" "rest v = rest ?t"
    using kheld_release[of cfg IcacheLock "[]" ?t] by (auto simp: printing_def)
  note r = rest_in[OF v(3)] rest_icache[OF v(3)] rest_printing[OF v(3)] and rt = rest_in[OF t(3)] rest_icache[OF t(3)]
  have "ilock cfg ip s = Inr v" using t(1) v(1) f r rt by (simp add: ilock_def iflag_def flag_words)
  then show ?thesis using r rt v(2) pt f by (intro exI[of _ v]) (simp add: printing_def flag_words ino_flags_def)
qed

text \<open>The end of a read: give up the line buffer, take the inode again.\<close>

lemma read_end:
  assumes "printing cfg [InputLock] s" "cons_inode ip False s"
  shows "\<exists>t. bindr (release InputLock s) (\<lambda>s. bindr (ilock cfg ip s) (\<lambda>s. Inr (x, s))) = Inr (x, t) \<and> printing cfg [] t \<and>
    in_abs t = in_abs s \<and> icache t = ino_flags (I_BUSY OR I_VALID) ip (icache s)"
proof -
  obtain v where v: "release InputLock s = Inr v" "kheld cfg [] v" "rest v = rest s"
    using kheld_release[of cfg InputLock "[]" s] assms(1) by (auto simp: printing_def)
  note r = rest_in[OF v(3)] rest_icache[OF v(3)] rest_printing[OF v(3)]
  have "printing cfg [] v" "cons_inode ip False v" using v r assms by (simp_all add: printing_def cons_inode_def)
  from ilock_cons[OF this] v(1) r show ?thesis by auto
qed

lemma take_one:
  assumes "in_done s = c # d"
  shows "in_r s \<noteq> in_w s" "in_at s (in_r s) = c" "in_done (s\<lparr>in_r := in_r s + 1\<rparr>) = d" "in_line (s\<lparr>in_r := in_r s + 1\<rparr>) = in_line s"
proof -
  obtain k where k: "unat (in_w s - in_r s) = Suc k" using assms by (cases "unat (in_w s - in_r s)") (simp_all add: in_done_def)
  then show ne: "in_r s \<noteq> in_w s" by auto
  have "in_w s - in_r s \<noteq> 0" using k by auto
  then have "unat (in_w s - (in_r s + 1)) = k" using unat_minus_one[of "in_w s - in_r s"] k by (simp add: diff_diff_eq)
  then show "in_done (s\<lparr>in_r := in_r s + 1\<rparr>) = d" "in_at s (in_r s) = c"
    using assms k by (simp_all add: in_done_def win_Cons in_at_def)
  show "in_line (s\<lparr>in_r := in_r s + 1\<rparr>) = in_line s" by (simp add: in_line_def)
qed

lemma read_loop:
  "printing cfg [InputLock] s \<Longrightarrow> cons_inode ip False s \<Longrightarrow> n \<le> target \<Longrightarrow> read_line (n = target) n (in_done s) = Some (x, d) \<Longrightarrow>
    \<exists>t. consoleread_loop cfg ip target n dst s = Inr (Got (int target - int n + int (length x)) (dst @ x), t) \<and> printing cfg [] t \<and>
      in_abs t = (d, in_line s) \<and> icache t = ino_flags (I_BUSY OR I_VALID) ip (icache s)"
proof (induction n arbitrary: s x dst)
  case 0
  then show ?case using read_end[OF 0(1,2), of "Got (int target) dst"] by (auto simp: in_abs_def)
next
  case (Suc n)
  obtain c e where c: "in_done s = c # e" using Suc(5) by (cases "in_done s") auto
  note T = take_one[OF c]
  let ?s = "s\<lparr>in_r := in_r s + 1\<rparr>"
  have s1: "printing cfg [InputLock] ?s" "cons_inode ip False ?s" "in_abs ?s = (e, in_line s)" using Suc T by (simp_all add: cons_inode_def in_abs_def)
  consider "c = 4" | "c = 10" | "c \<noteq> 4" "c \<noteq> 10" by blast
  then show ?case
  proof cases
    case 1
    let ?u = "if Suc n < target then s else ?s"
    have u: "printing cfg [InputLock] ?u" "cons_inode ip False ?u" "icache ?u = icache s" using Suc(2,3) s1 by (auto split: if_splits)
    have "x = []" "in_abs ?u = (d, in_line s)" using Suc(4,5) c 1 s1 by (auto simp: in_abs_def split: if_splits)
    then show ?thesis using read_end[OF u(1,2)] u(3) T 1 by (auto simp: Let_def)
  next
    case 2
    then show ?thesis using read_end[OF s1(1,2)] s1(3) T Suc(4,5) c by (auto simp: Let_def)
  next
    case 3
    obtain y where y: "read_line False n e = Some (y, d)" "x = c # y" using Suc(5) c 3 by auto
    have "n \<le> target" "(n = target) = False" using Suc(4) by auto
    then show ?thesis using y Suc(1)[OF s1(1,2), of y "dst @ [c]"] T 3 s1(3) by (auto simp: in_abs_def Let_def)
  qed
qed

lemma consoleread_takes:
  assumes s: "kheld cfg [] s" "cga_ok s" "cons_inode ip True s" and n: "0 < sint n" "read_line True (unat n) (in_done s) = Some (x, d)"
  shows "\<exists>t. consoleread cfg ip n s = Inr (int (length x), x, t) \<and> kheld cfg [] t \<and> in_abs t = (d, in_line s) \<and> icache t = icache s"
proof -
  obtain t where t: "iunlock cfg ip s = Inr t" "printing cfg [] t" "in_abs t = in_abs s" "icache t = ino_flags I_VALID ip (icache s)"
    using iunlock_cons[of cfg s ip] s by (auto simp: printing_def)
  obtain u where u: "acquire InputLock t = Inr u" "kheld cfg [InputLock] u" "rest u = rest t"
    using kheld_acquire[of cfg "[]" t InputLock] t(2) by (auto simp: printing_def)
  note r = rest_in[OF u(3)] rest_icache[OF u(3)] rest_printing[OF u(3)]
  have "printing cfg [InputLock] u" "cons_inode ip False u" "read_line (unat n = unat n) (unat n) (in_done u) = Some (x, d)"
    using u r t s(3) n by (simp_all add: printing_def cons_inode_def ino_flags_def in_abs_def)
  from read_loop[OF this(1,2) order_refl this(3), of "[]"] obtain v
    where v: "consoleread_loop cfg ip (unat n) (unat n) [] u = Inr (Got (int (length x)) x, v)" "printing cfg [] v"
      "in_abs v = (d, in_line u)" "icache v = ino_flags (I_BUSY OR I_VALID) ip (icache u)" by auto
  have "icache v = icache s" using v(4) r t(4) s(3) by (auto simp: ino_flags_def cons_inode_def)
  then show ?thesis using t u(1) v r n(1) by (simp add: consoleread_def consoleread_start_def printing_def in_abs_def)
qed

text \<open>C20. What is typed is what is read: after the keyboard's interrupt a read of the console takes from the edited lines
  the bytes of the first line, up to its newline, an end of file or the \<open>n\<close> bytes asked for, and leaves the rest.
  The reader has the console's inode locked before and after.\<close>

theorem typed_line_read:
  assumes s: "kheld cfg [] s" "cga_ok s" "in_wf s" "cons_inode ip True s" and n: "0 < sint n"
    and d: "read_line True (unat n) (fst (fold edit (kbd_chars (kbd_shift s) (kbd_in s)) (in_abs s))) = Some (x, d)"
  shows "\<exists>t u. kbdintr cfg s = Inr t \<and> consoleread cfg ip n t = Inr (int (length x), x, u) \<and> in_done u = d \<and>
    in_line u = in_line t \<and> icache u = icache s \<and> kheld cfg [] u"
proof -
  obtain t where t: "kbdintr cfg s = Inr t" "kheld cfg [] t" "cga_ok t" "in_abs t = fold edit (kbd_chars (kbd_shift s) (kbd_in s)) (in_abs s)"
      "rest (noinput (nosource t)) = rest (noinput (nosource s))"
    using kbd_source.consoleintr_edits[OF s(1-3)] unfolding kbdintr_def kbd_keys_def by blast
  have i: "icache t = icache s" using noinput_sources(5)[OF t(5)] by (simp add: nosource_def)
  have "read_line True (unat n) (in_done t) = Some (x, d)" using d t(4)[symmetric] by (simp add: in_abs_def)
  moreover have "cons_inode ip True t" using s(4) i by (simp add: cons_inode_def)
  ultimately show ?thesis using consoleread_takes[OF t(2,3) _ n] t(1) i by (fastforce simp: in_abs_def)
qed

text \<open>Typing \<open>h\<close>, \<open>x\<close>, backspace, \<open>i\<close>, return and reading up to 100 bytes gives \<open>hi\<close> and a newline.\<close>

theorem typed_line_read_witness:
  "\<exists>t u. kbdintr DEFAULT (demo_kernst\<lparr>kbd_in := [35, 45, 14, 23, 28], icache := \<lambda>_. demo_inode\<lparr>iref := 1, iflags := 3\<rparr>\<rparr>) = Inr t \<and>
    consoleread DEFAULT 5 100 t = Inr (3, [104, 105, 10], u)"
proof -
  let ?s = "demo_kernst\<lparr>kbd_in := [35, 45, 14, 23, 28], icache := \<lambda>_. demo_inode\<lparr>iref := 1, iflags := 3\<rparr>\<rparr>"
  have k: "kheld DEFAULT [] ?s" using demo_kernst_held by (rule kheld_cong) simp_all
  have s: "cga_ok ?s" "in_wf ?s" "cons_inode 5 True ?s" "0 < sint (100 :: u32)"
    by (simp_all add: cga_ok_def in_wf_def in_line_def cons_inode_def I_BUSY_def I_VALID_def)
  have "in_abs ?s = ([], [])" by (simp add: in_abs_def in_done_def in_line_def)
  then have e: "fold edit (kbd_chars (kbd_shift ?s) (kbd_in ?s)) (in_abs ?s) = ([104, 105, 10], [])" using demo_chars by (simp add: edit_def)
  have r: "read_line True (Suc (Suc (Suc k))) [104, 105, 10] = Some ([104, 105, 10], [])" for k by simp
  have u: "unat (100 :: u32) = Suc (Suc (Suc 97))" by simp
  have "read_line True (unat (100 :: u32)) (fst (fold edit (kbd_chars (kbd_shift ?s) (kbd_in ?s)) (in_abs ?s))) = Some ([104, 105, 10], [])"
    unfolding e u fst_conv by (rule r)
  from typed_line_read[OF k s this] show ?thesis by auto
qed

end
