(* ===== verification/Xv6_Signal.thy ===== *)
theory Xv6_Signal
  imports Xv6_Demo
begin

unbundle bit_operations_syntax

text \<open>
  Signals: the choice of the signal to deliver, the saved trap frame and the return from a handler.
\<close>

section \<open>The lowest pending signal\<close>

lemma lowest_loop_at: "bit num k \<Longrightarrow> (\<forall>j<k. \<not> bit num j) \<Longrightarrow> lowest_loop num b = Some (b + int k)"
proof (induction k arbitrary: num b)
  case 0
  then have "num AND 1 \<noteq> 0" by (auto simp: and_one_eq even_bit_succ_iff odd_iff_mod_2_eq_one[symmetric] bit_0)
  then show ?case by (simp add: lowest_loop.simps[of num b])
next
  case (Suc k)
  have k: "Suc k < 32" using Suc(2) bit_imp_le_length[OF Suc(2)] by simp
  have "\<not> bit num 0" using Suc(3) by blast
  then have z: "num AND 1 = 0" by (simp add: and_one_eq bit_0 even_iff_mod_2_eq_zero)
  have b: "bit (signed_drop_bit 1 num) j = bit num (Suc j)" if "j < 31" for j
    using that by (simp add: bit_signed_drop_bit_iff)
  have "lowest_loop (signed_drop_bit 1 num) (b + 1) = Some (b + 1 + int k)"
    by (rule Suc(1)) (use Suc(2,3) k b in auto)
  then show ?case using z by (simp add: lowest_loop.simps[of num b])
qed

text \<open>C24. \<open>getLowestSetBit\<close> always returns: -1 when no signal is pending, and otherwise the smallest number whose bit is
  set.\<close>

theorem lowest_signal:
  "\<exists>k. getLowestSetBit num = Some k \<and>
    (if num = 0 then k = -1 else 0 \<le> k \<and> k < 32 \<and> bit num (nat k) \<and> (\<forall>j<nat k. \<not> bit num j))"
proof (cases "num = 0")
  case False
  then have "\<exists>j. bit num j" by (auto simp: bit_eq_iff)
  then obtain k where k: "bit num k" "\<forall>j<k. \<not> bit num j" using exists_least_iff[of "bit num"] by blast
  have "k < 32" using bit_imp_le_length[OF k(1)] by simp
  moreover have "getLowestSetBit num = Some (int k)" using False lowest_loop_at[OF k, of 0] by (simp add: getLowestSetBit_def)
  ultimately show ?thesis using False k by (intro exI[of _ "int k"]) simp
qed (simp add: getLowestSetBit_def)

theorem lowest_signal_witness: "getLowestSetBit 12 = Some 2"
proof -
  obtain k where k: "getLowestSetBit 12 = Some k" "0 \<le> k" "bit (12 :: u32) (nat k)" "\<forall>j<nat k. \<not> bit (12 :: u32) j"
    using lowest_signal[of 12] by auto
  have b: "bit (12 :: u32) 2" "\<not> bit (12 :: u32) 0" "\<not> bit (12 :: u32) 1" by (simp_all add: bit_numeral_rec bit_0)
  then have "\<not> 2 < nat k" using k(4) by blast
  moreover have "nat k \<noteq> 0" "nat k \<noteq> 1" using b k(3) by metis+
  ultimately have "nat k = 2" by linarith
  then show ?thesis using k(1,2) by simp
qed

section \<open>The saved trap frame\<close>

lemma sub_less:
  fixes x :: u32
  assumes "k + n < 2 ^ 32"
  shows "x - of_nat k < of_nat n \<longleftrightarrow> k \<le> unat x \<and> unat x < k + n"
proof -
  have "unat (of_nat k :: u32) = k" "unat (of_nat n :: u32) = n" using assms by (simp_all add: unat_of_nat32)
  then show ?thesis using assms unat_lt32[of x] by (auto simp: word_less_nat_alt unat_sub_if')
qed

text \<open>The first \<open>k\<close> bytes copied.\<close>

definition upto :: "u32 \<Rightarrow> u32 \<Rightarrow> nat \<Rightarrow> mem \<Rightarrow> mem" where
  "upto src dst k m = (\<lambda>a. if unat (a - dst) < k then m (src + (a - dst)) else m a)"

definition apart :: "u32 \<Rightarrow> u32 \<Rightarrow> bool" where
  "apart src dst \<longleftrightarrow> 76 \<le> dst - src \<and> 76 \<le> src - dst"

lemma apart_src:
  assumes "apart src dst" "i < 76"
  shows "76 \<le> unat (src + of_nat i - dst)"
proof -
  have d: "76 \<le> unat (src - dst)" "76 \<le> unat (dst - src)" using assms(1) by (simp_all add: apart_def word_le_nat_alt)
  have "unat (dst - src) = 2 ^ 32 - unat (src - dst)" using d unat_sub_if'[of 0 "src - dst"] by auto
  then have "unat (src - dst) + i < 2 ^ 32" using d assms(2) by simp
  then have "unat (src - dst + of_nat i) = unat (src - dst) + i" using assms(2) by (subst unat_word_ariths(1)) (simp add: unat_of_nat32)
  then show ?thesis using d by (simp add: algebra_simps)
qed

lemma copy_field_upto:
  assumes "apart src dst" "k + n \<le> 76"
  shows "copy_field src dst (of_nat k, n) (upto src dst k m) = upto src dst (k + n) m"
proof
  fix a
  let ?i = "unat (a - dst)"
  have s: "a - (dst + of_nat k) = a - dst - of_nat k" by simp
  have c: "a - (dst + of_nat k) < of_nat n \<longleftrightarrow> k \<le> ?i \<and> ?i < k + n" unfolding s by (rule sub_less) (use assms(2) in simp)
  show "copy_field src dst (of_nat k, n) (upto src dst k m) a = upto src dst (k + n) m a"
  proof (cases "k \<le> ?i \<and> ?i < k + n")
    case True
    have k: "unat (of_nat k :: u32) = k" using assms(2) by (simp add: unat_of_nat32)
    have j: "unat (a - (dst + of_nat k)) = ?i - k" unfolding s using True k by (subst unat_sub) (simp_all add: word_le_nat_alt)
    have "src + of_nat k + of_nat (?i - k) = src + (a - dst)" using True by (simp add: of_nat_diff)
    moreover have "76 \<le> unat (src + (a - dst) - dst)" using apart_src[OF assms(1), of ?i] True assms(2) by simp
    moreover have "?i - k < n" using True by auto
    ultimately show ?thesis using True c assms(2) by (simp add: copy_field_def put_view_def j list_view_def bytes_at_def) (simp add: upto_def)
  next
    case False
    then show ?thesis using c by (auto simp: copy_field_def put_view_def upto_def)
  qed
qed

fun chain :: "nat \<Rightarrow> (u32 \<times> nat) list \<Rightarrow> bool" where
  "chain k [] = (k = 76)"
| "chain k ((f, n) # fs) = (f = of_nat k \<and> k + n \<le> 76 \<and> chain (k + n) fs)"

lemma copy_chain: "apart src dst \<Longrightarrow> chain k fs \<Longrightarrow> fold (copy_field src dst) fs (upto src dst k m) = upto src dst 76 m"
  by (induction k fs rule: chain.induct) (auto simp: copy_field_upto)

lemma copytf_upto: "apart src dst \<Longrightarrow> copytf src dst m = upto src dst 76 m"
  using copy_chain[of src dst 0 tf_fields m] by (simp add: copytf_def upto_def) (simp add: tf_fields_def)

text \<open>C25. \<open>copytf\<close> copies the whole frame of 76 bytes between frames that do not overlap, and nothing else.\<close>

theorem copytf_copies:
  assumes "apart src dst"
  shows "copytf src dst m a = (if a - dst < 76 then m (src + (a - dst)) else m a)"
  using copytf_upto[OF assms] by (simp add: upto_def word_less_nat_alt)

theorem copytf_copies_witness: "copytf 0x1000 0x2000 (\<lambda>a. ucast a) 0x2005 = 5"
  using copytf_copies[of "0x1000" "0x2000" "\<lambda>a. ucast a" "0x2005"] by (simp add: apart_def)

section \<open>Returning from a handler\<close>

lemma copytf_frame: "apart src dst \<Longrightarrow> i < 76 \<Longrightarrow> copytf src dst m (dst + of_nat i) = m (src + of_nat i)"
  by (simp add: copytf_upto upto_def unat_of_nat32)

text \<open>The system call \<open>sigreturn\<close> once the frame is restored.\<close>

lemma sigreturn_run:
  fixes s :: "'a kernst_scheme"
  assumes me: "myproc s = Some me" and eax: "tf_get me TF_eax s = 26" and r: "restore_tf me s = Inr (set_ram m s)"
  shows "\<exists>t. syscall cfg lk stk s = Inr (Done (), t) \<and> \<not> insignal (ptable t me) \<and>
    (\<forall>i<76. ram t (tf (ptable s me) + of_nat i) = (if 28 \<le> i \<and> i < 32 then 0 else m (tf (ptable s me) + of_nat i)))"
proof -
  let ?f = "tf (ptable s me)"
  define u where "u = upd_proc me (\<lambda>q. q\<lparr>insignal := False\<rparr>) (set_ram m s)"
  have u: "myproc u = Some me" "tf (ptable u me) = ?f" "ram u = m" using me by (simp_all add: u_def upd_proc_def set_ram_def)
  have "sys_sigreturn s = Inr (Done 0, u)" using me r by (simp add: theproc_def sys_sigreturn_def u_def)
  moreover have "map_of (syscalls cfg lk stk :: (nat \<times> ('a kernst_scheme \<Rightarrow> _)) list) (unat (26 :: u32)) = Some sys_sigreturn"
    by (simp add: syscalls_def)
  ultimately have run: "syscall cfg lk stk s = Inr (Done (), tf_put me TF_eax 0 u)"
    using me u eax by (simp add: word_sless_alt theproc_def syscall_def syscall_return_def)
  have "ram (tf_put me TF_eax 0 u) (?f + of_nat i) = (if 28 \<le> i \<and> i < 32 then 0 else m (?f + of_nat i))" if i: "i < 76" for i
  proof -
    have e: "?f + of_nat i - (?f + TF_eax) = of_nat i - of_nat 28" by (simp add: TF_eax_def)
    have "?f + of_nat i - (?f + TF_eax) < of_nat 4 \<longleftrightarrow> 28 \<le> i \<and> i < 32"
      unfolding e by (subst sub_less) (use i in \<open>simp_all add: unat_of_nat32\<close>)
    then show ?thesis using u by (simp add: tf_put_def store32_apply set_ram_def)
  qed
  moreover have "\<not> insignal (ptable (tf_put me TF_eax 0 u) me)" by (simp add: tf_put_def u_def upd_proc_def set_ram_def)
  ultimately show ?thesis using run by blast
qed

text \<open>C22. The frame that \<open>handleSignals\<close> saves is the one that the system call \<open>sigreturn\<close> puts back, in whatever way
  the handler has changed memory in between, as long as the saved frame is not touched: all of it except \<open>eax\<close>,
  which \<open>syscall\<close> overwrites with the 0 that \<open>sys_sigreturn\<close> returns. The result of the system call that
  the signal interrupted is lost.\<close>

theorem sigreturn_restores:
  fixes s2 :: "'a kernst_scheme"
  assumes me: "myproc s2 = Some me" and eax: "tf_get me TF_eax s2 = 26"
    and p: "tf (ptable s2 me) = tf (ptable s me)" "backuptf (ptable s2 me) = backuptf (ptable s me)" "backuptf (ptable s me) \<noteq> 0"
      "apart (tf (ptable s me)) (backuptf (ptable s me))"
    and save: "save_tf me s = Inr s1" "\<forall>i<76. ram s2 (backuptf (ptable s me) + of_nat i) = ram s1 (backuptf (ptable s me) + of_nat i)"
  shows "\<exists>t. syscall cfg lk stk s2 = Inr (Done (), t) \<and> \<not> insignal (ptable t me) \<and>
    (\<forall>i<76. ram t (tf (ptable s me) + of_nat i) = (if 28 \<le> i \<and> i < 32 then 0 else ram s (tf (ptable s me) + of_nat i)))"
proof -
  let ?f = "tf (ptable s me)" and ?b = "backuptf (ptable s me)"
  have ba: "apart ?b ?f" using p(4) by (auto simp: apart_def)
  have r: "restore_tf me s2 = Inr (set_ram (copytf ?b ?f (ram s2)) s2)" using p by (simp add: restore_tf_def Let_def)
  have "copytf ?b ?f (ram s2) (?f + of_nat i) = ram s (?f + of_nat i)" if i: "i < 76" for i
    using save p(3) i copytf_frame[OF p(4) i, of "ram s"] copytf_frame[OF ba i, of "ram s2"]
    by (auto simp: save_tf_def Let_def set_ram_def)
  then show ?thesis using sigreturn_run[OF me eax r, of cfg lk stk] p(1) by fastforce
qed

text \<open>Process 0 runs with its frame at \<open>0x1000\<close> and a page for the saved frame at \<open>0x2000\<close>.\<close>

definition sig_kernst :: kernst where
  "sig_kernst = demo_kernst\<lparr>ram := store32 (ucast :: u32 \<Rightarrow> u8) (0x1000 + 28) 26,
     ptable := (\<lambda>_. idle_proc\<lparr>tf := 0x1000, backuptf := 0x2000\<rparr>), cctx := (\<lambda>c. (cctx demo_kernst c)\<lparr>cproc := Some 0\<rparr>)\<rparr>"

theorem sigreturn_restores_witness:
  "\<exists>t. syscall DEFAULT \<lparr>l_end = 0, l_data = 0, l_forkret = 0, l_trapret = 0\<rparr> (\<lambda>_. 0)
      (set_ram (copytf 0x1000 0x2000 (ram sig_kernst)) sig_kernst) = Inr (Done (), t) \<and> ram t 0x1005 = 5"
proof -
  let ?s = sig_kernst and ?s1 = "set_ram (copytf 0x1000 0x2000 (ram sig_kernst)) sig_kernst"
  have a: "apart 0x1000 0x2000" by (simp add: apart_def)
  have p: "tf (ptable ?s 0) = 0x1000" "backuptf (ptable ?s 0) = 0x2000" by (simp_all add: sig_kernst_def)
  have "load32 (upto 0x1000 0x2000 76 (store32 ucast 0x101C 26)) 0x101C = load32 (store32 ucast 0x101C 26) 0x101C"
    by (simp add: load32_def upto_def)
  then have e: "tf_get 0 TF_eax ?s1 = 26"
    using a by (simp add: tf_get_def set_ram_def copytf_upto sig_kernst_def TF_eax_def)
  have m: "myproc ?s1 = Some 0" by (simp add: set_ram_def sig_kernst_def)
  have s: "save_tf 0 ?s = Inr ?s1" using p by (simp add: save_tf_def Let_def)
  have r: "ram ?s 0x1005 = 5" by (simp add: sig_kernst_def store32_apply)
  have "\<exists>t. syscall DEFAULT \<lparr>l_end = 0, l_data = 0, l_forkret = 0, l_trapret = 0\<rparr> (\<lambda>_. 0) ?s1 = Inr (Done (), t) \<and>
      \<not> insignal (ptable t 0) \<and>
      (\<forall>i<76. ram t (tf (ptable ?s 0) + of_nat i) = (if 28 \<le> i \<and> i < 32 then 0 else ram ?s (tf (ptable ?s 0) + of_nat i)))"
    by (rule sigreturn_restores[OF m e _ _ _ _ s]) (use p a in \<open>simp_all add: set_ram_def\<close>)
  then obtain t where t: "syscall DEFAULT \<lparr>l_end = 0, l_data = 0, l_forkret = 0, l_trapret = 0\<rparr> (\<lambda>_. 0) ?s1 = Inr (Done (), t)"
    "\<forall>i<76. ram t (tf (ptable ?s 0) + of_nat i) = (if 28 \<le> i \<and> i < 32 then 0 else ram ?s (tf (ptable ?s 0) + of_nat i))" by blast
  have "ram t 0x1005 = 5" using t(2)[THEN spec[of _ 5]] p r by simp
  then show ?thesis using t(1) by blast
qed

lemma mapr_Inr: "(\<And>x. x \<in> set xs \<Longrightarrow> f x = Inr (g x)) \<Longrightarrow> mapr f xs = Inr (map g xs)"
  by (induction xs) auto

text \<open>C23. \<open>sigreturn\<close> does not ask whether a frame was saved. Called by a process whose \<open>backuptf\<close> is the null
  pointer, it makes the kernel load the trap frame, the code segment and so the privilege level included, from the
  process's own memory at address 0.\<close>

theorem sigreturn_user_frame:
  fixes s :: "'a kernst_scheme"
  assumes me: "myproc s = Some me" and eax: "tf_get me TF_eax s = 26" and b: "backuptf (ptable s me) = 0"
    and user: "\<forall>i<76. uload8 (pgdir (ptable s me)) (of_nat i) s = Inr (v i)"
  shows "\<exists>t. syscall cfg lk stk s = Inr (Done (), t) \<and>
    (\<forall>i<76. ram t (tf (ptable s me) + of_nat i) = (if 28 \<le> i \<and> i < 32 then 0 else v i))"
proof -
  let ?f = "tf (ptable s me)"
  let ?m = "put_view ?f (list_view (map v [0..<76])) 76 (ram s)"
  have "mapr (\<lambda>i. uload8 (pgdir (ptable s me)) (of_nat i) s) [0..<76] = Inr (map v [0..<76])" by (rule mapr_Inr) (use user in simp)
  then have r: "restore_tf me s = Inr (set_ram ?m s)" using b by (simp add: restore_tf_def Let_def del: upt.simps)
  have "?m (?f + of_nat i) = v i" if "i < 76" for i
    using that by (simp add: put_view_def list_view_def word_less_nat_alt unat_of_nat32 del: upt.simps)
  then show ?thesis using sigreturn_run[OF me eax r, of cfg lk stk] by fastforce
qed

text \<open>A process whose page 0 holds zeroes and whose frame is at \<open>0x1000\<close>.\<close>

definition evil_kernst :: kernst where
  "evil_kernst = demo_kernst\<lparr>ram := store32 (store32 (store32 (\<lambda>_. 0) 0x101C 26) 0x80003000 0x4001) 0x80004000 0x5001,
     ptable := (\<lambda>_. idle_proc\<lparr>tf := 0x1000, backuptf := 0, pgdir := 0x80003000\<rparr>),
     cctx := (\<lambda>c. (cctx demo_kernst c)\<lparr>cproc := Some 0\<rparr>)\<rparr>"

lemma evil_page: "i < 76 \<Longrightarrow> uload8 0x80003000 (of_nat i) evil_kernst = Inr 0"
proof -
  assume i: "i < 76"
  let ?w = "of_nat i :: u32" and ?m = "store32 (store32 (store32 (\<lambda>_. 0) 0x101C 26) 0x80003000 0x4001) 0x80004000 0x5001"
  have u: "unat ?w = i" using i by (simp add: unat_of_nat32)
  have "unat (drop_bit 22 ?w) = 0" "unat (drop_bit 12 ?w) = 0"
    unfolding unat_drop_bit_eq u using i by (simp_all add: drop_bit_eq_div)
  then have d: "drop_bit 22 ?w = 0" "drop_bit 12 ?w = 0" by (simp_all only: unsigned_eq_0_iff)
  have a: "?w AND 0xFFF = ?w"
  proof -
    have "?w AND 0xFFF = take_bit 12 ?w" by (simp add: take_bit_eq_mask mask_eq_exp_minus_1)
    also have "\<dots> = ?w" using i by (simp add: word_unat_eq_iff unsigned_take_bit_eq u take_bit_nat_eq_self)
    finally show ?thesis .
  qed
  have "load32 ?m 0x80003000 = 0x4001" "load32 ?m 0x80004000 = 0x5001"
    by (simp_all add: load32_def store32_apply)
  then have "uaddr ?m 0x80003000 ?w = Inr (0x80005000 + ?w)"
    using d a by (simp add: uaddr_def mmu_pte_def Let_def PDX_def PTX_def PTE_P_def PTE_ADDR_def p2v_def KERNBASE_def)
  moreover have "?m (0x80005000 + ?w) = 0"
  proof -
    have f: "\<not> c + ?w < 4" if "4 \<le> unat c" "unat c < 0x90000000" for c :: u32
      using that i u by (simp add: word_less_nat_alt unat_word_ariths(1))
    have "\<not> 0x1000 + ?w < 4" "\<not> 0x2000 + ?w < 4" "\<not> 0x80003FE4 + ?w < 4" by (rule f; simp)+
    then show ?thesis by (simp add: store32_apply add.commute)
  qed
  ultimately show ?thesis by (simp add: uload8_def evil_kernst_def)
qed

theorem sigreturn_user_frame_witness:
  "\<exists>t. syscall DEFAULT \<lparr>l_end = 0, l_data = 0, l_forkret = 0, l_trapret = 0\<rparr> (\<lambda>_. 0) evil_kernst = Inr (Done (), t) \<and> ram t (0x1000 + 60) = 0"
proof -
  have m: "myproc evil_kernst = Some 0" "backuptf (ptable evil_kernst 0) = 0" by (simp_all add: evil_kernst_def)
  have p: "pgdir (ptable evil_kernst 0) = 0x80003000" "tf (ptable evil_kernst 0) = 0x1000" by (simp_all add: evil_kernst_def)
  have e: "tf_get 0 TF_eax evil_kernst = 26" by (simp add: tf_get_def evil_kernst_def TF_eax_def load32_def store32_apply)
  have "\<forall>i<76. uload8 (pgdir (ptable evil_kernst 0)) (of_nat i) evil_kernst = Inr 0" unfolding p using evil_page by blast
  from sigreturn_user_frame[OF m(1) e m(2) this, of DEFAULT "\<lparr>l_end = 0, l_data = 0, l_forkret = 0, l_trapret = 0\<rparr>" "\<lambda>_. 0"]
  obtain t where t: "syscall DEFAULT \<lparr>l_end = 0, l_data = 0, l_forkret = 0, l_trapret = 0\<rparr> (\<lambda>_. 0) evil_kernst = Inr (Done (), t)"
    "\<forall>i<76. ram t (tf (ptable evil_kernst 0) + of_nat i) = 0" by fastforce
  then show ?thesis using t(2)[THEN spec[of _ 60]] p by auto
qed

end
