(* ===== verification/Xv6_PageTable.thy ===== *)
theory Xv6_PageTable
  imports Xv6_Vm
begin

unbundle bit_operations_syntax

text \<open>
  What page tables in memory mean. A directory page and the table pages it points to are, to the rest of the
  kernel, a function from page numbers to entries; \<open>walkpgdir\<close> does not change the function, \<open>mappages\<close>
  changes it exactly on the range it is asked to map.
\<close>

section \<open>Entries in pages\<close>

definition slot :: "u32 \<Rightarrow> nat \<Rightarrow> u32" where
  "slot p j = p + 4 * of_nat j"

lemma slot_off: "j < 1024 \<Longrightarrow> i < 4 \<Longrightarrow> unat (4 * of_nat j + i :: u32) = 4 * j + unat i \<and> 4 * of_nat j + i < PGSIZE"
proof -
  assume j: "j < 1024" and i: "i < 4"
  have "unat i < 4" using i by (simp add: word_less_nat_alt)
  moreover have "unat (4 * of_nat j :: u32) = 4 * j" using j unat_of_nat32[of "4 * j"] by simp
  ultimately have "unat (4 * of_nat j + i :: u32) = 4 * j + unat i" using j by (subst unat_word_ariths(1)) simp
  then show ?thesis using j \<open>unat i < 4\<close> by (simp add: word_less_nat_alt PGSIZE_def)
qed

lemma slot_add: "slot p j + i = p + (4 * of_nat j + i)"
  by (simp add: slot_def)

lemma slot_other_page:
  assumes "page_frame v m m'" "page_aligned v" "page_aligned p" "p \<noteq> v" "j < 1024"
  shows "load32 m' (slot p j) = load32 m (slot p j)"
  by (rule load32_page_cong)
    (use assms page_disjoint[OF assms(3,2,4)] slot_off[OF assms(5)] in \<open>auto simp: page_frame_def slot_add\<close>)

lemma slot_frame: "j < 1024 \<Longrightarrow> page_frame p m (store32 m (slot p j) w)"
proof -
  assume j: "j < 1024"
  have "x - p < PGSIZE" if "x - slot p j < 4" for x
    using slot_off[OF j that] by (simp add: slot_def)
  then show ?thesis by (auto simp: page_frame_def store32_apply)
qed

lemma slot_same_page:
  assumes "j < 1024" "k < 1024" "j \<noteq> k"
  shows "load32 (store32 m (slot p j) w) (slot p k) = load32 m (slot p k)"
proof (rule load32_page_cong)
  fix i :: u32
  assume i: "i < 4"
  have e: "slot p k + i - slot p j = 4 * of_nat k + i - 4 * of_nat j" by (simp add: slot_def)
  have u: "unat (4 * of_nat j :: u32) = 4 * j" using assms(1) unat_of_nat32[of "4 * j"] by simp
  have "unat i < 4" using i by (simp add: word_less_nat_alt)
  then have "\<not> unat (4 * of_nat k + i - 4 * of_nat j :: u32) < 4"
    using slot_off[OF assms(2) i] u assms by (simp add: unat_sub_if') arith
  then have "\<not> slot p k + i - slot p j < 4" unfolding e by (simp add: word_less_nat_alt)
  then show "store32 m (slot p j) w (slot p k + i) = m (slot p k + i)" by (simp add: store32_apply)
qed

lemma slot_zero: "j < 1024 \<Longrightarrow> load32 (memset p 0 PGSIZE m) (slot p j) = 0"
proof -
  assume j: "j < 1024"
  have "memset p 0 PGSIZE m (slot p j + i) = 0" if "i < 4" for i
    using slot_off[OF j that] by (simp add: memset_fills slot_add)
  from this[of 0] this[of 1] this[of 2] this[of 3] show ?thesis by (simp add: load32_def)
qed

section \<open>The function a directory stands for\<close>

definition present :: "u32 \<Rightarrow> bool" where "present e \<longleftrightarrow> e AND PTE_P \<noteq> 0"

definition tab :: "u32 \<Rightarrow> u32" where "tab e = p2v (PTE_ADDR e)"

definition pde :: "mem \<Rightarrow> u32 \<Rightarrow> nat \<Rightarrow> u32" where "pde m d i = load32 m (slot d i)"

definition ent :: "mem \<Rightarrow> u32 \<Rightarrow> nat \<Rightarrow> u32" where
  "ent m d n = (if present (pde m d (n div 1024)) then load32 m (slot (tab (pde m d (n div 1024))) (n mod 1024)) else 0)"

lemma unat_and_mask: "unat (w AND mask k :: u32) = unat w mod 2 ^ k"
proof -
  have "w AND mask k = take_bit k w" by (simp add: take_bit_eq_mask)
  then show ?thesis by (simp add: unsigned_take_bit_eq take_bit_nat_def)
qed

lemma unat_PDX: "unat (PDX va) = unat va div 4096 div 1024"
proof -
  have "unat va div 4194304 < 1024" using unat_lt32[of va] by simp
  then show ?thesis unfolding PDX_def mask10 unat_and_mask unat_drop_bit_eq by (simp add: drop_bit_eq_div div_mult2_eq[symmetric])
qed

lemma unat_PTX: "unat (PTX va) = unat va div 4096 mod 1024"
  unfolding PTX_def mask10 unat_and_mask unat_drop_bit_eq by (simp add: drop_bit_eq_div)

lemma slot_PDX: "d + 4 * PDX va = slot d (unat va div 4096 div 1024)" "t + 4 * PTX va = slot t (unat va div 4096 mod 1024)"
  by (simp_all only: slot_def flip: unat_PDX unat_PTX) simp_all

lemma mmu_pte_ent: "mmu_pte m d va = ent m d (unat va div 4096)"
  by (simp add: mmu_pte_def ent_def pde_def present_def tab_def slot_PDX Let_def)

lemma page_number: "unat (va :: u32) div 4096 div 1024 < 1024" "unat va div 4096 < 2 ^ 20"
  using unat_lt32[of va] by (simp_all add: div_mult2_eq[symmetric])

section \<open>Well-formed directories\<close>

text \<open>The directory and its tables are different pages, none of them free.\<close>

definition pt_ok :: "u32 \<Rightarrow> u32 \<Rightarrow> mem \<Rightarrow> u32 list \<Rightarrow> bool" where
  "pt_ok en d m ps \<longleftrightarrow> page_ok en d \<and> d \<notin> set ps \<and>
     (\<forall>i<1024. present (pde m d i) \<longrightarrow> page_ok en (tab (pde m d i)) \<and> tab (pde m d i) \<notin> set ps \<and> tab (pde m d i) \<noteq> d) \<and>
     (\<forall>i<1024. \<forall>j<1024. present (pde m d i) \<and> present (pde m d j) \<and> tab (pde m d i) = tab (pde m d j) \<longrightarrow> i = j)"

lemma pt_okD:
  assumes "pt_ok en d m ps" "i < 1024" "present (pde m d i)"
  shows "page_aligned d" "page_aligned (tab (pde m d i))" "tab (pde m d i) \<noteq> d" "tab (pde m d i) \<notin> set ps" "page_ok en (tab (pde m d i))"
  using assms by (auto simp: pt_ok_def page_ok_def)

lemma pt_ok_pdes: "(\<And>i. i < 1024 \<Longrightarrow> pde m' d i = pde m d i) \<Longrightarrow> pt_ok en d m' ps = pt_ok en d m ps"
  by (simp add: pt_ok_def)

text \<open>Storing an entry into a table changes the function at its page number only.\<close>

lemma store_entry:
  fixes w :: u32
  assumes ok: "pt_ok en d m ps" and i: "i < 1024" "present (pde m d i)" and j: "j < 1024"
  defines "m' \<equiv> store32 m (slot (tab (pde m d i)) j) w"
  shows "k < 1024 \<Longrightarrow> pde m' d k = pde m d k"
    and "pt_ok en d m' ps"
    and "n < 2 ^ 20 \<Longrightarrow> ent m' d n = (if n = i * 1024 + j then w else ent m d n)"
proof -
  note D = pt_okD[OF ok i]
  have f: "page_frame (tab (pde m d i)) m m'" unfolding m'_def by (rule slot_frame[OF j])
  show p: "pde m' d k = pde m d k" if "k < 1024" for k
    unfolding pde_def by (rule slot_other_page[OF f D(2,1) D(3)[symmetric] that])
  show "pt_ok en d m' ps" using pt_ok_pdes[of m' d m] p ok by blast
  show "ent m' d n = (if n = i * 1024 + j then w else ent m d n)" if n: "n < 2 ^ 20"
  proof -
    have k: "n div 1024 < 1024" "n mod 1024 < 1024" "n = n div 1024 * 1024 + n mod 1024" using n by simp_all
    show ?thesis
    proof (cases "present (pde m d (n div 1024))")
      case False
      then show ?thesis using p[OF k(1)] i j by (auto simp: ent_def)
    next
      case True
      note E = pt_okD[OF ok k(1) True]
      have same: "tab (pde m d (n div 1024)) = tab (pde m d i) \<Longrightarrow> n div 1024 = i"
        using ok k(1) i True unfolding pt_ok_def by blast
      show ?thesis
      proof (cases "n div 1024 = i")
        case i': True
        show ?thesis
        proof (cases "n mod 1024 = j")
          case True
          then have "n = i * 1024 + j" using i' k(3) by simp
          then show ?thesis using p[OF i(1)] i i' True by (simp add: ent_def m'_def)
        next
          case False
          then have "n \<noteq> i * 1024 + j" using j by auto
          then show ?thesis
            using p[OF i(1)] i i' slot_same_page[OF j k(2), of m "tab (pde m d i)" w] False by (simp add: ent_def m'_def)
        qed
      next
        case False
        then have "load32 m' (slot (tab (pde m d (n div 1024))) (n mod 1024)) = load32 m (slot (tab (pde m d (n div 1024))) (n mod 1024))"
          using slot_other_page[OF f D(2) E(2) _ k(2)] same by blast
        then show ?thesis using p[OF k(1)] False j by (auto simp: ent_def)
      qed
    qed
  qed
qed

text \<open>A fresh, zeroed table page put into an empty slot of the directory does not change the function.\<close>

lemma aligned_flags: "page_aligned a \<Longrightarrow> a AND NOT (mask 12) = a"
  by (simp add: word_unat_eq_iff and_not_mask_unat page_aligned_unat) (metis div_mult_mod_eq add.right_neutral)

lemma PTE_ADDR_or: "page_aligned a \<Longrightarrow> f AND NOT (mask 12) = 0 \<Longrightarrow> PTE_ADDR (a OR f) = a"
  using aligned_flags[of a] by (simp add: PTE_ADDR_def mask12 and.commute bit.conj_disj_distrib2 bit.conj_disj_distrib)

lemma page_aligned_v2p: "page_aligned g \<Longrightarrow> page_aligned (v2p g)"
  using page_aligned_p2v[of "v2p g"] by simp

lemma or_and_P: "(x OR PTE_P) AND PTE_P = PTE_P"
  by (rule bit_word_eqI) (auto simp: bit_simps PTE_P_def)

lemma page_aligned_shift: "page_aligned pa \<Longrightarrow> page_aligned (pa + of_nat (4096 * j))"
proof -
  assume "page_aligned pa"
  then have "(unat pa + 4096 * j) mod 4096 = 0" by (simp add: page_aligned_unat)
  moreover have u: "unat (pa + of_nat n) = (unat pa + n) mod 2 ^ 32" for n
    by (simp add: unat_word_ariths unsigned_of_nat take_bit_nat_def mod_add_right_eq)
  ultimately show ?thesis unfolding page_aligned_unat u by (simp add: mod_mod_cancel)
qed

lemma new_table:
  fixes m :: mem
  assumes ok: "pt_ok en d m (g # ps)" and g: "page_ok en g" "g \<notin> set ps" and i: "i < 1024" "\<not> present (pde m d i)"
  defines "m' \<equiv> store32 (memset g 0 PGSIZE m) (slot d i) (v2p g OR PTE_P OR PTE_W OR PTE_U)"
  shows "present (pde m' d i)" "tab (pde m' d i) = g"
    and "k < 1024 \<Longrightarrow> k \<noteq> i \<Longrightarrow> pde m' d k = pde m d k"
    and "pt_ok en d m' ps"
    and "n < 2 ^ 20 \<Longrightarrow> ent m' d n = ent m d n"
proof -
  have al: "page_aligned g" "page_aligned d" "d \<noteq> g" using ok g by (auto simp: pt_ok_def page_ok_def)
  let ?m = "memset g 0 PGSIZE m"
  have f1: "page_frame g m ?m" by (rule memset_frame)
  have f2: "page_frame d ?m m'" unfolding m'_def by (rule slot_frame[OF i(1)])
  have e: "pde m' d i = v2p g OR (PTE_P OR PTE_W OR PTE_U)" by (simp add: pde_def m'_def or.assoc)
  have "(PTE_P OR PTE_W OR PTE_U) AND NOT (mask 12) = 0" by (simp add: pte_consts mask_eq_exp_minus_1)
  then show t: "tab (pde m' d i) = g" using PTE_ADDR_or[OF page_aligned_v2p[OF al(1)]] by (simp add: tab_def e)
  have "(v2p g OR (PTE_P OR PTE_W OR PTE_U)) AND PTE_P = PTE_P"
    by (rule bit_word_eqI) (auto simp: bit_simps PTE_P_def)
  then show p: "present (pde m' d i)" by (simp add: present_def e PTE_P_def)
  show q: "pde m' d k = pde m d k" if "k < 1024" "k \<noteq> i" for k
    using slot_same_page[OF i(1) that(1), of ?m d] slot_other_page[OF f1 al(1,2,3) that(1)] that by (simp add: pde_def m'_def)
  have D: "page_ok en (tab (pde m d k))" "tab (pde m d k) \<notin> set ps" "tab (pde m d k) \<noteq> d" "tab (pde m d k) \<noteq> g"
    if "k < 1024" "present (pde m d k)" for k using ok that by (auto simp: pt_ok_def)
  show "pt_ok en d m' ps"
    unfolding pt_ok_def
  proof (intro conjI allI impI)
    show "page_ok en d" "d \<notin> set ps" using ok by (auto simp: pt_ok_def)
    show "page_ok en (tab (pde m' d k))" "tab (pde m' d k) \<notin> set ps" "tab (pde m' d k) \<noteq> d"
      if "k < 1024" "present (pde m' d k)" for k
      using that D[of k] q[of k] t g al by (cases "k = i"; simp)+
    show "k = j" if "k < 1024" "j < 1024" "present (pde m' d k) \<and> present (pde m' d j) \<and> tab (pde m' d k) = tab (pde m' d j)" for k j
    proof (cases "k = i \<or> j = i")
      case True
      then show ?thesis using that D[of k] D[of j] q[of k] q[of j] t by (cases "k = i"; cases "j = i") auto
    next
      case False
      then show ?thesis using that q[of k] q[of j] ok unfolding pt_ok_def by auto
    qed
  qed
  show "ent m' d n = ent m d n" if n: "n < 2 ^ 20"
  proof -
    have k: "n div 1024 < 1024" "n mod 1024 < 1024" using n by simp_all
    have fg: "load32 m' (slot x (n mod 1024)) = load32 ?m (slot x (n mod 1024))" if "page_aligned x" "x \<noteq> d" for x
      by (rule slot_other_page[OF f2 al(2) that k(2)])
    show ?thesis
    proof (cases "n div 1024 = i")
      case True
      then show ?thesis using i(2) t p fg[of g] al slot_zero[OF k(2), of g m] by (simp add: ent_def)
    next
      case False
      then have same: "pde m' d (n div 1024) = pde m d (n div 1024)" using q k(1) by blast
      have "load32 m' (slot (tab (pde m d (n div 1024))) (n mod 1024)) = load32 m (slot (tab (pde m d (n div 1024))) (n mod 1024))"
        if pr: "present (pde m d (n div 1024))"
        using D[OF k(1) pr] fg slot_other_page[OF f1 al(1) _ _ k(2)] by (simp add: page_ok_def)
      then show ?thesis by (simp add: ent_def same)
    qed
  qed
qed

section \<open>Walking and mapping\<close>

text \<open>The memory of a page table, and what may happen to it and to the rest of memory: tables are only added, they
  come from the free pages \<open>ps\<close>, and no byte outside the tables changes.\<close>

definition ptmem :: "mem \<Rightarrow> u32 \<Rightarrow> u32 \<Rightarrow> bool" where
  "ptmem m d x \<longleftrightarrow> x - d < PGSIZE \<or> (\<exists>i<1024. present (pde m d i) \<and> x - tab (pde m d i) < PGSIZE)"

definition grows :: "u32 list \<Rightarrow> u32 \<Rightarrow> mem \<Rightarrow> mem \<Rightarrow> bool" where
  "grows ps d m m' \<longleftrightarrow> (\<forall>i<1024. present (pde m d i) \<longrightarrow> pde m' d i = pde m d i) \<and>
     (\<forall>i<1024. present (pde m' d i) \<longrightarrow> pde m' d i = pde m d i \<or> tab (pde m' d i) \<in> set ps) \<and>
     (\<forall>x. \<not> ptmem m' d x \<longrightarrow> m' x = m x)"

lemma grows_refl [simp]: "grows ps d m m"
  by (simp add: grows_def)

lemma grows_trans:
  assumes a: "grows ps d m m1" and b: "grows qs d m1 m2" and sub: "set qs \<subseteq> set ps"
  shows "grows ps d m m2"
  unfolding grows_def
proof (intro conjI allI impI)
  show "pde m2 d i = pde m d i" if "i < 1024" "present (pde m d i)" for i
    using a b that unfolding grows_def by metis
  show "pde m2 d i = pde m d i \<or> tab (pde m2 d i) \<in> set ps" if "i < 1024" "present (pde m2 d i)" for i
    using a b that sub unfolding grows_def by (metis subsetD)
  fix x
  assume x: "\<not> ptmem m2 d x"
  then have "\<not> ptmem m1 d x" using b unfolding grows_def ptmem_def by metis
  then show "m2 x = m x" using a b x unfolding grows_def by metis
qed

lemma kmem_inv_ram:
  "(\<And>p. p \<in> set ps \<Longrightarrow> load32 m p = load32 (ram s) p) \<Longrightarrow> kmem_inv en (set_ram m s) ps = kmem_inv en s ps"
  using flist_cong[of ps m "ram s"] by (simp add: kmem_inv_def set_ram_def)

lemma same_rest_ram [simp]: "same_rest s (set_ram m s)" "kmem_quiet (set_ram m s) = kmem_quiet s"
  using same_rest_quiet[of s "set_ram m s"] by (simp_all add: same_rest_def set_ram_def)

text \<open>Everything a routine on page tables relies on.\<close>

definition vm_ok :: "u32 \<Rightarrow> u32 \<Rightarrow> u32 list \<Rightarrow> 'a memst_scheme \<Rightarrow> bool" where
  "vm_ok en d ps s \<longleftrightarrow> kmem_inv en s ps \<and> kmem_quiet s \<and> pt_ok en d (ram s) ps"

definition vm_step :: "u32 \<Rightarrow> u32 \<Rightarrow> u32 list \<Rightarrow> 'a memst_scheme \<Rightarrow> u32 list \<Rightarrow> 'a memst_scheme \<Rightarrow> bool" where
  "vm_step en d ps s qs t \<longleftrightarrow> vm_ok en d qs t \<and> same_rest s t \<and> set qs \<subseteq> set ps \<and> grows ps d (ram s) (ram t)"

lemma vm_step_trans: "vm_step en d ps s qs t \<Longrightarrow> vm_step en d qs t rs u \<Longrightarrow> vm_step en d ps s rs u"
  unfolding vm_step_def using same_rest_trans grows_trans by blast

lemma slot_nz: "page_ok en p \<Longrightarrow> j < 1024 \<Longrightarrow> slot p j \<noteq> 0"
proof
  assume p: "page_ok en p" and j: "j < 1024" and z: "slot p j = 0"
  have "unat (p + (4 * of_nat j + 0)) = unat p + unat (4 * of_nat j + 0 :: u32)"
    by (rule page_offset_unat) (use p slot_off[OF j, of 0] in \<open>simp_all add: page_ok_def\<close>)
  then have "unat p = 0" using z by (simp add: slot_def)
  then have "p = 0" by (simp add: unsigned_eq_0_iff)
  then show False using page_ok_nonzero[OF p] by simp
qed

lemma walk_alloc:
  fixes va :: u32
  assumes s: "vm_ok en d ps s"
  defines "i \<equiv> unat va div 4096 div 1024"
  shows "\<exists>r t qs. walkpgdir d va True s = Inr (r, t) \<and> vm_step en d ps s qs t \<and>
    (\<forall>n<2 ^ 20. ent (ram t) d n = ent (ram s) d n) \<and> (\<forall>j<1024. j \<noteq> i \<longrightarrow> pde (ram t) d j = pde (ram s) d j) \<and>
    (if r = 0 then ps = [] \<and> qs = [] \<and> \<not> present (pde (ram s) d i)
     else present (pde (ram t) d i) \<and> r = slot (tab (pde (ram t) d i)) (unat va div 4096 mod 1024) \<and>
       length ps = length qs + (if present (pde (ram s) d i) then 0 else 1))"
proof (cases "present (pde (ram s) d i)")
  case True
  have i: "i < 1024" using page_number(1) by (simp add: i_def)
  have ok: "page_ok en (tab (pde (ram s) d i))" using pt_okD(5)[OF _ i True] s by (auto simp: vm_ok_def)
  let ?r = "slot (tab (pde (ram s) d i)) (unat va div 4096 mod 1024)"
  have "walkpgdir d va True s = Inr (?r, s)" using True by (simp add: walkpgdir_def slot_PDX Let_def present_def pde_def tab_def i_def)
  moreover have "?r \<noteq> 0" by (rule slot_nz) (fact, simp)
  ultimately show ?thesis using s True by (intro exI[of _ ?r] exI[of _ s] exI[of _ ps]) (simp add: vm_step_def)
next
  case False
  have i: "i < 1024" using page_number(1) by (simp add: i_def)
  obtain g t where k: "kalloc s = Inr (g, t)" "same_rest s t" "ram t = ram s" "g = 0 \<longleftrightarrow> ps = []" "kmem_inv en t (tl ps)"
      "g \<noteq> 0 \<longrightarrow> page_ok en g \<and> g = hd ps \<and> g \<notin> set (tl ps)"
    using kalloc_list[of en s ps] s unfolding vm_ok_def by blast
  have q: "kmem_quiet t" using s k(2) same_rest_quiet by (auto simp: vm_ok_def)
  show ?thesis
  proof (cases "g = 0")
    case True
    have "walkpgdir d va True s = Inr (0, t)" using False True k(1) by (simp add: walkpgdir_def slot_PDX Let_def present_def pde_def i_def)
    moreover have "vm_step en d ps s [] t" using s k q True by (simp add: vm_step_def vm_ok_def)
    ultimately show ?thesis using k(3) by (intro exI[of _ 0] exI[of _ t] exI[of _ "[]"]) (simp add: False True k(4)[symmetric])
  next
    case g: False
    then have ps: "ps = g # tl ps" using k(4,6) by (cases ps) auto
    have gin: "g \<in> set ps" by (subst ps) simp
    have ok: "pt_ok en d (ram s) (g # tl ps)" using s ps by (simp add: vm_ok_def)
    have go: "page_ok en g" "g \<notin> set (tl ps)" using k(6) g by auto
    define m' where "m' = store32 (memset g 0 PGSIZE (ram s)) (slot d i) (v2p g OR PTE_P OR PTE_W OR PTE_U)"
    note N = new_table[OF ok go i False, folded m'_def]
    have r: "walkpgdir d va True s = Inr (slot g (unat va div 4096 mod 1024), set_ram m' t)"
      using False g k(1,3) by (simp add: walkpgdir_def slot_PDX Let_def present_def pde_def i_def set_ram_def m'_def)
    have f: "page_frame g (ram s) (memset g 0 PGSIZE (ram s))" "page_frame d (memset g 0 PGSIZE (ram s)) m'"
      unfolding m'_def by (rule memset_frame, rule slot_frame[OF i])
    have al: "page_aligned g" "page_aligned d" "d \<notin> set ps" using ok go ps by (auto simp: pt_ok_def page_ok_def)
    have "load32 m' p = load32 (ram t) p" if p: "p \<in> set (tl ps)" for p
    proof -
      have "page_aligned p" "p \<noteq> d" "p \<noteq> g" using p k(5) al(3) go(2) ps by (auto simp: kmem_inv_def page_ok_def dest: list.set_sel(2)[rotated])
      then show ?thesis using page_frame_load[OF f(1) al(1)] page_frame_load[OF f(2) al(2)] k(3) by simp
    qed
    then have "kmem_inv en (set_ram m' t) (tl ps)" using kmem_inv_ram[of "tl ps" m' t en] k(5) by simp
    then have v: "vm_ok en d (tl ps) (set_ram m' t)" using q N(4) by (simp add: vm_ok_def) (simp add: set_ram_def)
    have "grows ps d (ram s) m'"
      unfolding grows_def
    proof (intro conjI allI impI)
      show "pde m' d j = pde (ram s) d j" if "j < 1024" "present (pde (ram s) d j)" for j using N(3)[OF that(1)] that False by auto
      show "pde m' d j = pde (ram s) d j \<or> tab (pde m' d j) \<in> set ps" if "j < 1024" "present (pde m' d j)" for j
        using N(2,3) that gin by (cases "j = i") auto
      show "m' x = ram s x" if "\<not> ptmem m' d x" for x
        using that f N(1,2) i unfolding ptmem_def page_frame_def by metis
    qed
    moreover have "set (tl ps) \<subseteq> set ps" by (metis list.set_sel(2) list.sel(2) subsetI)
    ultimately have "vm_step en d ps s (tl ps) (set_ram m' t)"
      using v same_rest_trans[OF k(2), of "set_ram m' t"] by (simp add: vm_step_def) (simp add: set_ram_def)
    moreover have "length ps = Suc (length (tl ps))" by (subst ps) simp
    ultimately show ?thesis using r N False slot_nz[OF go(1), of "unat va div 4096 mod 1024"]
      by (intro exI[of _ "slot g (unat va div 4096 mod 1024)"] exI[of _ "set_ram m' t"] exI[of _ "tl ps"]) (simp add: set_ram_def)
  qed
qed

lemma store_step:
  assumes s: "vm_ok en d ps s" and i: "i < 1024" "present (pde (ram s) d i)" and j: "j < 1024"
  shows "vm_step en d ps s ps (set_ram (store32 (ram s) (slot (tab (pde (ram s) d i)) j) w) s)"
proof -
  let ?t = "tab (pde (ram s) d i)"
  let ?m = "store32 (ram s) (slot ?t j) w"
  have ok: "pt_ok en d (ram s) ps" using s by (simp add: vm_ok_def)
  note D = pt_okD[OF ok i]
  note E = store_entry[OF ok i j, where w = w]
  have f: "page_frame ?t (ram s) ?m" by (rule slot_frame[OF j])
  have "load32 ?m p = load32 (ram s) p" if "p \<in> set ps" for p
    using page_frame_load[OF f D(2)] that s D(4) by (auto simp: vm_ok_def kmem_inv_def page_ok_def)
  then have "kmem_inv en (set_ram ?m s) ps" using kmem_inv_ram[of ps ?m s en] s by (simp add: vm_ok_def)
  moreover have "grows ps d (ram s) ?m"
    unfolding grows_def
  proof (intro conjI allI impI)
    show "?m x = ram s x" if "\<not> ptmem ?m d x" for x
      using that f E(1) i unfolding ptmem_def page_frame_def by metis
  qed (use E(1) in auto)
  ultimately show ?thesis using s E(2) by (simp add: vm_step_def vm_ok_def) (simp add: set_ram_def)
qed

lemma page_addr: "k < 2 ^ 20 \<Longrightarrow> unat (of_nat (4096 * k) :: u32) = 4096 * k"
  by (rule unat_of_nat32) simp

text \<open>How many tables a range of the directory still lacks.\<close>

definition need :: "mem \<Rightarrow> u32 \<Rightarrow> nat \<Rightarrow> nat \<Rightarrow> nat" where
  "need m d a b = card {i. a \<le> i \<and> i \<le> b \<and> \<not> present (pde m d i)}"

lemma need_step:
  assumes "\<And>j. j < 1024 \<Longrightarrow> present (pde m' d j) \<longleftrightarrow> present (pde m d j) \<or> j = a" "a \<le> a'" "a \<le> b" "b < 1024"
  shows "need m' d a' b + (if present (pde m d a) then 0 else 1) \<le> need m d a b"
proof -
  let ?S = "{i. a \<le> i \<and> i \<le> b \<and> \<not> present (pde m d i)}"
  have f: "finite ?S" by (rule finite_subset[of _ "{..b}"]) auto
  have "{i. a' \<le> i \<and> i \<le> b \<and> \<not> present (pde m' d i)} \<subseteq> ?S - {a}" using assms by auto
  then have "need m' d a' b \<le> card (?S - {a})" unfolding need_def using f by (intro card_mono) auto
  moreover have "card (?S - {a}) + (if present (pde m d a) then 0 else 1) = card ?S"
  proof (cases "present (pde m d a)")
    case True
    then have "?S - {a} = ?S" by auto
    then show ?thesis using True by simp
  next
    case False
    then have "a \<in> ?S" using assms(3) by simp
    from card_Suc_Diff1[OF f this] show ?thesis using False by simp
  qed
  ultimately show ?thesis by (simp add: need_def)
qed

definition mapped_one :: "u32 \<Rightarrow> u32 \<Rightarrow> u32 list \<Rightarrow> 'a memst_scheme \<Rightarrow> nat \<Rightarrow> u32 \<Rightarrow> u32 \<Rightarrow> 'a memst_scheme \<Rightarrow> u32 list \<Rightarrow> bool" where
  "mapped_one en d ps s k w r t qs \<longleftrightarrow> load32 (ram t) r = ent (ram s) d k \<and> vm_step en d ps s qs (set_ram (store32 (ram t) r w) t) \<and>
     (\<forall>j<2 ^ 20. ent (store32 (ram t) r w) d j = (if j = k then w else ent (ram s) d j)) \<and>
     (\<forall>j<1024. present (pde (store32 (ram t) r w) d j) \<longleftrightarrow> present (pde (ram s) d j) \<or> j = k div 1024) \<and>
     length ps = length qs + (if present (pde (ram s) d (k div 1024)) then 0 else 1)"

lemma map_one:
  assumes s: "vm_ok en d ps s" and k: "k < 2 ^ 20"
  shows "\<exists>r t qs. walkpgdir d (of_nat (4096 * k)) True s = Inr (r, t) \<and>
    (if r = 0 then vm_step en d ps s [] t \<and> (\<forall>j<2 ^ 20. ent (ram t) d j = ent (ram s) d j) \<and> ps = [] \<and> \<not> present (pde (ram s) d (k div 1024))
     else mapped_one en d ps s k w r t qs)"
proof -
  have u: "unat (of_nat (4096 * k) :: u32) div 4096 = k" using page_addr[OF k] by simp
  obtain r t qs where W: "walkpgdir d (of_nat (4096 * k)) True s = Inr (r, t)" "vm_step en d ps s qs t"
      "\<forall>n<2 ^ 20. ent (ram t) d n = ent (ram s) d n" "\<forall>j<1024. j \<noteq> k div 1024 \<longrightarrow> pde (ram t) d j = pde (ram s) d j"
      "if r = 0 then ps = [] \<and> qs = [] \<and> \<not> present (pde (ram s) d (k div 1024))
       else present (pde (ram t) d (k div 1024)) \<and> r = slot (tab (pde (ram t) d (k div 1024))) (k mod 1024) \<and>
         length ps = length qs + (if present (pde (ram s) d (k div 1024)) then 0 else 1)"
    using walk_alloc[OF s, of "of_nat (4096 * k)"] unfolding u by blast
  have ki: "k div 1024 < 1024" "k mod 1024 < 1024" "k div 1024 * 1024 + k mod 1024 = k" using k by simp_all
  have t: "vm_ok en d qs t" using W(2) by (simp add: vm_step_def)
  show ?thesis
  proof (cases "r = 0")
    case True
    then show ?thesis using W by (intro exI[of _ r] exI[of _ t] exI[of _ qs]) simp
  next
    case False
    then have r: "present (pde (ram t) d (k div 1024))" "r = slot (tab (pde (ram t) d (k div 1024))) (k mod 1024)"
      "length ps = length qs + (if present (pde (ram s) d (k div 1024)) then 0 else 1)" using W(5) by simp_all
    have "load32 (ram t) r = ent (ram t) d k" using r by (simp add: ent_def)
    then have l: "load32 (ram t) r = ent (ram s) d k" using W(3) k by simp
    have "vm_step en d qs t qs (set_ram (store32 (ram t) r w) t)" unfolding r(2) by (rule store_step[OF t ki(1) r(1) ki(2)])
    then have st: "vm_step en d ps s qs (set_ram (store32 (ram t) r w) t)" using W(2) vm_step_trans by blast
    have ok: "pt_ok en d (ram t) qs" using t by (simp add: vm_ok_def)
    note E = store_entry[OF ok ki(1) r(1) ki(2), where w = w, folded r(2)]
    have "ent (store32 (ram t) r w) d j = (if j = k then w else ent (ram s) d j)" if "j < 2 ^ 20" for j
      using E(3)[OF that] W(3) that unfolding ki(3) by simp
    moreover have "present (pde (store32 (ram t) r w) d j) \<longleftrightarrow> present (pde (ram s) d j) \<or> j = k div 1024" if "j < 1024" for j
      using E(1)[OF that] W(4) r(1) that by (cases "j = k div 1024") auto
    ultimately have "mapped_one en d ps s k w r t qs" using l st r(3) by (simp add: mapped_one_def)
    then show ?thesis using W(1) False by (intro exI[of _ r] exI[of _ t] exI[of _ qs]) simp
  qed
qed

text \<open>The result of mapping the pages \<open>k\<close> to \<open>k + n\<close>.\<close>

definition mapped :: "u32 \<Rightarrow> u32 \<Rightarrow> u32 list \<Rightarrow> 'a memst_scheme \<Rightarrow> nat \<Rightarrow> nat \<Rightarrow> u32 \<Rightarrow> u32 \<Rightarrow> int \<Rightarrow> 'a memst_scheme \<Rightarrow> u32 list \<Rightarrow> bool" where
  "mapped en d ps s k n pa perm r t qs \<longleftrightarrow> vm_step en d ps s qs t \<and>
     (if r = 0 then \<forall>j<2 ^ 20. ent (ram t) d j =
        (if k \<le> j \<and> j \<le> k + n then (pa + of_nat (4096 * (j - k))) OR perm OR PTE_P else ent (ram s) d j)
      else r = -1 \<and> qs = [] \<and> length ps < need (ram s) d (k div 1024) ((k + n) div 1024) \<and>
        (\<forall>j<2 ^ 20. \<not> (k \<le> j \<and> j \<le> k + n) \<longrightarrow> ent (ram t) d j = ent (ram s) d j))"

lemma mapped_fails:
  assumes "vm_step en d [] s [] t" "\<forall>j<2 ^ 20. ent (ram t) d j = ent (ram s) d j" "\<not> present (pde (ram s) d (k div 1024))"
  shows "mapped en d [] s k n pa perm (-1) t []"
proof -
  have "k div 1024 \<in> {i. k div 1024 \<le> i \<and> i \<le> (k + n) div 1024 \<and> \<not> present (pde (ram s) d i)}" using assms(3) by (simp add: div_le_mono)
  moreover have "finite {i. k div 1024 \<le> i \<and> i \<le> (k + n) div 1024 \<and> \<not> present (pde (ram s) d i)}"
    by (rule finite_subset[of _ "{..(k + n) div 1024}"]) auto
  ultimately have "0 < need (ram s) d (k div 1024) ((k + n) div 1024)" unfolding need_def by (metis card_gt_0_iff empty_iff)
  then show ?thesis using assms by (simp add: mapped_def)
qed

lemma mapped_step:
  assumes one: "mapped_one en d ps s k (pa OR perm OR PTE_P) r t qs" and k: "k + Suc n < 2 ^ 20"
    and rest: "mapped en d qs (set_ram (store32 (ram t) r (pa OR perm OR PTE_P)) t) (Suc k) n (pa + PGSIZE) perm r' u rs"
  shows "mapped en d ps s k (Suc n) pa perm r' u rs"
proof -
  let ?t = "set_ram (store32 (ram t) r (pa OR perm OR PTE_P)) t"
  have et: "ent (ram ?t) d j = (if j = k then pa OR perm OR PTE_P else ent (ram s) d j)" if "j < 2 ^ 20" for j
    using one that by (simp add: set_ram_def mapped_one_def)
  have su: "vm_step en d ps s rs u" using one rest vm_step_trans by (auto simp: mapped_one_def mapped_def)
  show ?thesis
  proof (cases "r' = 0")
    case True
    have "ent (ram u) d j = (if k \<le> j \<and> j \<le> k + Suc n then (pa + of_nat (4096 * (j - k))) OR perm OR PTE_P else ent (ram s) d j)"
      if j: "j < 2 ^ 20" for j
    proof -
      have e: "ent (ram u) d j = (if Suc k \<le> j \<and> j \<le> Suc k + n
          then (pa + PGSIZE + of_nat (4096 * (j - Suc k))) OR perm OR PTE_P else ent (ram ?t) d j)"
        using rest True j by (simp add: mapped_def)
      show ?thesis
      proof (cases "Suc k \<le> j \<and> j \<le> Suc k + n")
        case T: True
        then have "j - k = Suc (j - Suc k)" by arith
        then have w: "(pa + PGSIZE + of_nat (4096 * (j - Suc k)) :: u32) = pa + of_nat (4096 * (j - k))" by (simp add: PGSIZE_def)
        have c: "k \<le> j \<and> j \<le> k + Suc n" using T by auto
        show ?thesis using e unfolding if_P[OF T] if_P[OF c] w .
      next
        case False
        then show ?thesis using e et[OF j] by auto
      qed
    qed
    then show ?thesis using su True by (simp add: mapped_def)
  next
    case False
    have "ent (ram u) d j = ent (ram s) d j" if "j < 2 ^ 20" "\<not> (k \<le> j \<and> j \<le> k + Suc n)" for j
      using rest False that et[OF that(1)] by (auto simp: mapped_def)
    moreover have "need (ram ?t) d (Suc k div 1024) ((k + Suc n) div 1024) + (if present (pde (ram s) d (k div 1024)) then 0 else 1)
        \<le> need (ram s) d (k div 1024) ((k + Suc n) div 1024)"
      by (rule need_step) (use one k in \<open>simp_all add: mapped_one_def set_ram_def div_le_mono\<close>)
    ultimately show ?thesis using rest one su False by (simp add: mapped_def mapped_one_def)
  qed
qed

lemma mappages_loop_maps:
  "vm_ok en d ps s \<Longrightarrow> k + n < 2 ^ 20 \<Longrightarrow> (\<And>j. k \<le> j \<Longrightarrow> j \<le> k + n \<Longrightarrow> \<not> present (ent (ram s) d j)) \<Longrightarrow>
    \<exists>r t qs. mappages_loop d (of_nat (4096 * k)) (of_nat (4096 * (k + n))) pa perm s = Some (Inr (r, t)) \<and> mapped en d ps s k n pa perm r t qs"
proof (induction n arbitrary: k pa s ps)
  case (0 k pa s ps)
  obtain r t qs where W: "walkpgdir d (of_nat (4096 * k)) True s = Inr (r, t)"
    "if r = 0 then vm_step en d ps s [] t \<and> (\<forall>j<2 ^ 20. ent (ram t) d j = ent (ram s) d j) \<and> ps = [] \<and> \<not> present (pde (ram s) d (k div 1024))
     else mapped_one en d ps s k (pa OR perm OR PTE_P) r t qs"
    using map_one[OF 0(1), of k "pa OR perm OR PTE_P"] 0(2) by auto
  show ?case
  proof (cases "r = 0")
    case True
    then have f: "vm_step en d [] s [] t" "\<forall>j<2 ^ 20. ent (ram t) d j = ent (ram s) d j" "\<not> present (pde (ram s) d (k div 1024))" "ps = []"
      using W(2) by auto
    then show ?thesis using True W(1) mapped_fails[OF f(1-3), of 0 pa perm]
      by (intro exI[of _ "-1"] exI[of _ t] exI[of _ "[]"]) (simp add: mappages_loop.simps)
  next
    case False
    let ?t = "set_ram (store32 (ram t) r (pa OR perm OR PTE_P)) t"
    have o: "mapped_one en d ps s k (pa OR perm OR PTE_P) r t qs" using W(2) False by simp
    have "mappages_loop d (of_nat (4096 * k)) (of_nat (4096 * (k + 0))) pa perm s = Some (Inr (0, ?t))"
      using W(1) o False 0(3)[of k] by (simp add: mappages_loop.simps Let_def present_def mapped_one_def)
    moreover have "mapped en d ps s k 0 pa perm 0 ?t qs" using o by (auto simp: mapped_def mapped_one_def set_ram_def)
    ultimately show ?thesis by blast
  qed
next
  case (Suc n k pa s ps)
  let ?w = "pa OR perm OR PTE_P"
  obtain r t qs where W: "walkpgdir d (of_nat (4096 * k)) True s = Inr (r, t)"
    "if r = 0 then vm_step en d ps s [] t \<and> (\<forall>j<2 ^ 20. ent (ram t) d j = ent (ram s) d j) \<and> ps = [] \<and> \<not> present (pde (ram s) d (k div 1024))
     else mapped_one en d ps s k ?w r t qs"
    using map_one[OF Suc(2), of k ?w] Suc(3) by auto
  show ?case
  proof (cases "r = 0")
    case True
    then have f: "vm_step en d [] s [] t" "\<forall>j<2 ^ 20. ent (ram t) d j = ent (ram s) d j" "\<not> present (pde (ram s) d (k div 1024))" "ps = []"
      using W(2) by auto
    then show ?thesis using True W(1) mapped_fails[OF f(1-3), of "Suc n" pa perm]
      by (intro exI[of _ "-1"] exI[of _ t] exI[of _ "[]"]) (simp add: mappages_loop.simps)
  next
    case False
    let ?t = "set_ram (store32 (ram t) r ?w) t"
    have o: "mapped_one en d ps s k ?w r t qs" using W(2) False by simp
    have "unat (of_nat (4096 * k) :: u32) \<noteq> unat (of_nat (4096 * (k + Suc n)) :: u32)"
      using Suc(3) page_addr[of k] page_addr[of "k + Suc n"] by simp
    then have ne: "(of_nat (4096 * k) :: u32) \<noteq> of_nat (4096 * (k + Suc n))" by metis
    have nx: "of_nat (4096 * k) + PGSIZE = (of_nat (4096 * Suc k) :: u32)" by (simp add: PGSIZE_def algebra_simps)
    have e: "mappages_loop d (of_nat (4096 * k)) (of_nat (4096 * (k + Suc n))) pa perm s =
        mappages_loop d (of_nat (4096 * Suc k)) (of_nat (4096 * (Suc k + n))) (pa + PGSIZE) perm ?t"
      using W(1) o False Suc(4)[of k] ne nx by (subst mappages_loop.simps) (simp add: Let_def present_def add.commute mapped_one_def)
    have "vm_ok en d qs ?t" using o by (simp add: vm_step_def mapped_one_def)
    moreover have "\<not> present (ent (ram ?t) d j)" if "Suc k \<le> j" "j \<le> Suc k + n" for j
      using that Suc(3) Suc(4)[of j] o by (simp add: mapped_one_def set_ram_def)
    ultimately obtain r' u rs where U: "mappages_loop d (of_nat (4096 * Suc k)) (of_nat (4096 * (Suc k + n))) (pa + PGSIZE) perm ?t = Some (Inr (r', u))"
        "mapped en d qs ?t (Suc k) n (pa + PGSIZE) perm r' u rs"
      using Suc(1)[of qs ?t "Suc k" "pa + PGSIZE"] Suc(3) by auto
    then show ?thesis using e mapped_step[OF o Suc(3) U(2)] by auto
  qed
qed

section \<open>Translation\<close>

lemma PGROUNDDOWN_of_nat: "PGROUNDDOWN va = of_nat (4096 * (unat va div 4096))"
proof -
  have "unat va div 4096 < 2 ^ 20" by (rule page_number(2))
  then show ?thesis using page_addr[of "unat va div 4096"] by (simp add: word_unat_eq_iff PGROUNDDOWN_unat mult.commute)
qed

lemma page_split: "PGROUNDDOWN x + (x AND 0xFFF) = x"
proof -
  have "unat (x AND 0xFFF) = unat x mod 4096" by (simp add: mask12 unat_and_mask)
  moreover have "unat x div 4096 * 4096 + unat x mod 4096 = unat x" by simp
  ultimately have "unat (PGROUNDDOWN x + (x AND 0xFFF)) = unat x"
    unfolding unat_word_ariths(1) PGROUNDDOWN_unat using unat_lt32[of x] by simp
  then show ?thesis by (simp only: word_unat_eq_iff)
qed

text \<open>C11. \<open>mappages\<close> on a range of pages none of which is mapped, whose last byte is in the address space: it never panics;
  it fails only when there are fewer free pages than tables the range lacks; and when it succeeds, the processor translates every address
  of the range to the physical address at the same distance from \<open>pa\<close>, and every other address as before. Only
  memory of the page table changes, and the directory stays well formed.\<close>

theorem mappages_translates:
  assumes s: "vm_ok en d ps s" and n: "0 < n" "unat va + unat n \<le> 2 ^ 32"
    and pa: "page_aligned pa" "perm AND NOT 0xFFF = 0"
    and free: "\<forall>x. PGROUNDDOWN va \<le> x \<and> x \<le> va + n - 1 \<longrightarrow> mmu_pte (ram s) d x AND PTE_P = 0"
  shows "\<exists>r t qs. mappages d va n pa perm s = Inr (r, t) \<and> vm_step en d ps s qs t \<and>
    (r = 0 \<or> r = -1 \<and> qs = [] \<and> length ps < need (ram s) d (unat va div 4096 div 1024) (unat (va + n - 1) div 4096 div 1024)) \<and>
    (\<forall>x. r = 0 \<longrightarrow> uaddr (ram t) d x =
      (if PGROUNDDOWN va \<le> x \<and> PGROUNDDOWN x \<le> va + n - 1 then Inr (p2v (pa + (x - PGROUNDDOWN va))) else uaddr (ram s) d x))"
proof -
  define k l where "k = unat va div 4096" and "l = (unat va + unat n - 1) div 4096"
  have n1: "1 \<le> unat n" using n(1) by (simp add: word_less_nat_alt)
  have "unat (va + (n - 1)) = unat va + (unat n - 1)"
    using n n1 unat_minus_one[of n] by (subst unat_word_ariths(1)) auto
  then have last: "unat (va + n - 1) = unat va + unat n - 1" using n1 by (simp add: add_diff_eq)
  have kl: "k \<le> l" "l < 2 ^ 20" using n n1 by (auto simp: k_def l_def div_le_mono)
  have a: "PGROUNDDOWN va = of_nat (4096 * k)" "PGROUNDDOWN (va + n - 1) = of_nat (4096 * (k + (l - k)))"
    using kl(1) last by (simp_all only: PGROUNDDOWN_of_nat k_def l_def) simp
  have f: "\<not> present (ent (ram s) d j)" if j: "k \<le> j" "j \<le> l" for j
  proof -
    have j20: "j < 2 ^ 20" using j kl by simp
    let ?x = "of_nat (4096 * j) :: u32"
    have u: "unat ?x = 4096 * j" by (rule page_addr[OF j20])
    have "PGROUNDDOWN va \<le> ?x" using j u PGROUNDDOWN_unat[of va] by (simp add: word_le_nat_alt k_def)
    moreover have "?x \<le> va + n - 1" using j u last by (simp add: word_le_nat_alt l_def)
    ultimately show ?thesis using free[THEN spec[of _ ?x]] unfolding mmu_pte_ent u by (simp add: present_def)
  qed
  obtain r t qs where M: "mappages_loop d (of_nat (4096 * k)) (of_nat (4096 * (k + (l - k)))) pa perm s = Some (Inr (r, t))"
      "mapped en d ps s k (l - k) pa perm r t qs"
    using mappages_loop_maps[OF s, of k "l - k" pa perm] f kl by auto
  have "uaddr (ram t) d x = (if PGROUNDDOWN va \<le> x \<and> PGROUNDDOWN x \<le> va + n - 1 then Inr (p2v (pa + (x - PGROUNDDOWN va))) else uaddr (ram s) d x)"
    if r: "r = 0" for x
  proof -
    let ?j = "unat x div 4096"
    have c: "PGROUNDDOWN va \<le> x \<and> PGROUNDDOWN x \<le> va + n - 1 \<longleftrightarrow> k \<le> ?j \<and> ?j \<le> l"
      by (simp add: word_le_nat_alt PGROUNDDOWN_unat last k_def l_def less_eq_div_iff_mult_less_eq)
    have e: "ent (ram t) d ?j = (if k \<le> ?j \<and> ?j \<le> l then (pa + of_nat (4096 * (?j - k))) OR perm OR PTE_P else ent (ram s) d ?j)"
      using M(2) r page_number(2)[of x] kl by (simp add: mapped_def)
    show ?thesis
    proof (cases "k \<le> ?j \<and> ?j \<le> l")
      case False
      show ?thesis unfolding c if_not_P[OF False] uaddr_def mmu_pte_ent e ..
    next
      case True
      let ?b = "pa + of_nat (4096 * (?j - k))"
      have "PTE_P AND NOT (mask 12) = 0" by (simp add: PTE_P_def mask_eq_exp_minus_1)
      then have "(perm OR PTE_P) AND NOT (mask 12) = 0" using pa(2) unfolding mask12 by (simp only: bit.conj_disj_distrib2 or.left_neutral)
      then have ad: "PTE_ADDR (?b OR (perm OR PTE_P)) = ?b" by (rule PTE_ADDR_or[OF page_aligned_shift[OF pa(1)]])
      have pr: "(?b OR (perm OR PTE_P)) AND PTE_P \<noteq> 0" using or_and_P[of "?b OR perm"] by (simp add: or.assoc PTE_P_def)
      have "x - PGROUNDDOWN va = (of_nat (4096 * ?j) - of_nat (4096 * k)) + (x AND 0xFFF)"
        unfolding a(1) using page_split[of x] PGROUNDDOWN_of_nat[of x] by (simp add: algebra_simps)
      then have "?b + (x AND 0xFFF) = pa + (x - PGROUNDDOWN va)"
        using True by (simp add: of_nat_diff right_diff_distrib)
      then show ?thesis unfolding c if_P[OF True] uaddr_def mmu_pte_ent e using ad pr by (simp add: or.assoc p2v_def)
    qed
  qed
  moreover have "r = 0 \<or> r = -1 \<and> qs = [] \<and> length ps < need (ram s) d (unat va div 4096 div 1024) (unat (va + n - 1) div 4096 div 1024)"
    using M(2) kl last by (simp add: mapped_def k_def l_def split: if_splits)
  ultimately show ?thesis using M a by (intro exI[of _ r] exI[of _ t] exI[of _ qs]) (auto simp: mappages_def mapped_def)
qed

text \<open>An empty directory and one free page.\<close>

definition one_page_memst :: memst where
  "one_page_memst = blank_memst\<lparr>freelist := 0x80111000\<rparr>"

lemma one_page_ok: "vm_ok 0x80110000 0x80110000 [0x80111000] one_page_memst"
proof -
  have z: "load32 (\<lambda>_. 0) a = 0" for a by (simp add: load32_def)
  have p: "page_ok 0x80110000 0x80111000" "page_ok 0x80110000 0x80110000" by (simp_all add: page_ok_def page_aligned_def v2p_def mmu_consts)
  have r: "ram one_page_memst = (\<lambda>_. 0)" "freelist one_page_memst = 0x80111000" "\<not> use_lock one_page_memst"
    by (simp_all add: one_page_memst_def blank_memst_def mach.defs)
  have "kmem_inv 0x80110000 one_page_memst [0x80111000]" using p r z by (simp add: kmem_inv_def)
  moreover have "pt_ok 0x80110000 0x80110000 (ram one_page_memst) [0x80111000]"
    using p r z by (simp add: pt_ok_def pde_def present_def)
  ultimately show ?thesis using r by (simp add: vm_ok_def kmem_quiet_def)
qed

theorem mappages_translates_witness:
  "\<exists>t. mappages 0x80110000 0x1234 0x1000 0x300000 6 one_page_memst = Inr (0, t) \<and> uaddr (ram t) 0x80110000 0x2345 = Inr 0x80301345"
proof -
  have r: "ram one_page_memst = (\<lambda>_. 0)" by (simp add: one_page_memst_def blank_memst_def mach.defs)
  have m: "mmu_pte (ram one_page_memst) 0x80110000 x AND PTE_P = 0" for x
    unfolding r by (simp add: mmu_pte_def load32_def)
  have "{i :: nat. i = 0 \<and> \<not> present (pde (ram one_page_memst) 0x80110000 i)} \<subseteq> {0}" by auto
  then have "card {i :: nat. i = 0 \<and> \<not> present (pde (ram one_page_memst) 0x80110000 i)} \<le> card {0 :: nat}" by (intro card_mono) auto
  then have n: "need (ram one_page_memst) 0x80110000 0 0 \<le> 1" by (simp add: need_def)
  have "page_aligned 0x300000" by (simp add: page_aligned_def PGSIZE_def)
  then obtain r t qs where t: "mappages 0x80110000 0x1234 0x1000 0x300000 6 one_page_memst = Inr (r, t)"
    "r = 0 \<or> r = -1 \<and> qs = ([] :: u32 list) \<and> length [0x80111000 :: u32] < need (ram one_page_memst) 0x80110000 (unat (0x1234 :: u32) div 4096 div 1024)
      (unat (0x1234 + 0x1000 - 1 :: u32) div 4096 div 1024)"
    "\<forall>x. r = 0 \<longrightarrow> uaddr (ram t) 0x80110000 x = (if PGROUNDDOWN 0x1234 \<le> x \<and> PGROUNDDOWN x \<le> 0x1234 + 0x1000 - 1
      then Inr (p2v (0x300000 + (x - PGROUNDDOWN 0x1234))) else uaddr (ram one_page_memst) 0x80110000 x)"
    using mappages_translates[OF one_page_ok, of "0x1000" "0x1234" "0x300000" 6] m by auto
  have "r = 0" using t(2) n by auto
  then show ?thesis using t(1) t(3)[THEN spec[of _ "0x2345"]] by (auto simp: PGROUNDDOWN_def PGSIZE_def p2v_def KERNBASE_def)
qed

end
