(* ===== verification/Xv6_Devices.thy ===== *)
theory Xv6_Devices
  imports Xv6_Life
begin

unbundle bit_operations_syntax

text \<open>
  The interrupt controllers (picirq.c, ioapic.c, lapic.c), the timer (timer.c) and the clock (\<open>cmostime\<close> of
  lapic.c), and the start of the console and of the serial port (\<open>consoleinit\<close> of console.c, \<open>uartinit\<close> of uart.c). The state also has the variables of mp.c, which describe the processors. A byte sent to an I/O port is recorded in
  \<open>port_out\<close>; the registers of the I/O APIC and of the local APIC are arrays. Waiting for a device and the
  delays between writes change nothing.
\<close>

section \<open>State\<close>

record devst = kernst +
  irqmask :: u16
  port_out :: "(u32 \<times> u8) list"
  io_reg :: u32                       \<comment> \<open>the register that the I/O APIC has selected\<close>
  io_data :: "u32 \<Rightarrow> u32"             \<comment> \<open>its registers\<close>
  lapic :: u32                        \<comment> \<open>the address of the local APIC, 0 for none\<close>
  lapic_regs :: "nat \<Rightarrow> u32"
  lapic_out :: "(nat \<times> u32) list"     \<comment> \<open>what was written to it, in order\<close>
  cpunum_n :: u32                     \<comment> \<open>\<open>n\<close> of \<open>cpunum\<close>\<close>
  cmos :: "nat \<Rightarrow> u32 \<Rightarrow> u8"          \<comment> \<open>what the clock's registers hold at each reading\<close>
  cmos_t :: nat
  bcpu :: nat
  ismp :: bool
  ncpu :: nat
  cpu_id :: "nat \<Rightarrow> u8"
  ioapicid :: u8

definition outb :: "u32 \<Rightarrow> u8 \<Rightarrow> 'a devst_scheme \<Rightarrow> 'a devst_scheme" where
  "outb p b s = s\<lparr>port_out := port_out s @ [(p, b)]\<rparr>"

fun outbs :: "(u32 \<times> u8) list \<Rightarrow> 'a devst_scheme \<Rightarrow> 'a devst_scheme" where
  "outbs [] s = s"
| "outbs ((p, b) # ps) s = outbs ps (outb p b s)"

section \<open>The interrupt controller of a uniprocessor\<close>

definition IO_PIC1 :: u32 where "IO_PIC1 = 0x20"
definition IO_PIC2 :: u32 where "IO_PIC2 = 0xA0"
definition IRQ_SLAVE :: nat where "IRQ_SLAVE = 2"
definition T_IRQ0 :: nat where "T_IRQ0 = 32"
definition IRQ_TIMER :: nat where "IRQ_TIMER = 0"
definition IRQ_ERROR :: nat where "IRQ_ERROR = 19"
definition IRQ_SPURIOUS :: nat where "IRQ_SPURIOUS = 31"

text \<open>The value \<open>irqmask\<close> has before any call.\<close>

definition irqmask_init :: u16 where
  "irqmask_init = 0xFFFF AND NOT (push_bit IRQ_SLAVE 1)"

definition picsetmask :: "u16 \<Rightarrow> 'a devst_scheme \<Rightarrow> 'a devst_scheme" where
  "picsetmask m s =
     outb (IO_PIC2 + 1) (ucast (drop_bit 8 m)) (outb (IO_PIC1 + 1) (ucast m) (s\<lparr>irqmask := m\<rparr>))"

definition picenable :: "nat \<Rightarrow> 'a devst_scheme \<Rightarrow> 'a devst_scheme" where
  "picenable irq s = picsetmask (irqmask s AND NOT (push_bit irq 1)) s"

definition picinit :: "'a devst_scheme \<Rightarrow> 'a devst_scheme" where
  "picinit s =
     (let s = outbs [(IO_PIC1 + 1, 0xFF), (IO_PIC2 + 1, 0xFF),
              (IO_PIC1, 0x11), (IO_PIC1 + 1, of_nat T_IRQ0), (IO_PIC1 + 1, push_bit IRQ_SLAVE 1), (IO_PIC1 + 1, 3),
              (IO_PIC2, 0x11), (IO_PIC2 + 1, of_nat T_IRQ0 + 8), (IO_PIC2 + 1, of_nat IRQ_SLAVE), (IO_PIC2 + 1, 3),
              (IO_PIC1, 0x68), (IO_PIC1, 0x0A), (IO_PIC2, 0x68), (IO_PIC2, 0x0A)] s
      in if irqmask s \<noteq> 0xFFFF then picsetmask (irqmask s) s else s)"

section \<open>The timer of a uniprocessor\<close>

definition IO_TIMER1 :: u32 where "IO_TIMER1 = 0x40"
definition TIMER_FREQ :: nat where "TIMER_FREQ = 1193182"

definition TIMER_DIV :: "nat \<Rightarrow> nat" where
  "TIMER_DIV x = (TIMER_FREQ + x div 2) div x"

definition timerinit :: "'a devst_scheme \<Rightarrow> 'a devst_scheme" where
  "timerinit s =
     picenable IRQ_TIMER
       (outbs [(IO_TIMER1 + 3, 0x00 OR 0x04 OR 0x30), (IO_TIMER1, of_nat (TIMER_DIV 100 mod 256)),
          (IO_TIMER1, of_nat (TIMER_DIV 100 div 256))] s)"

section \<open>The I/O APIC\<close>

definition REG_ID :: u32 where "REG_ID = 0"
definition REG_VER :: u32 where "REG_VER = 1"
definition REG_TABLE :: u32 where "REG_TABLE = 0x10"
definition INT_DISABLED :: u32 where "INT_DISABLED = 0x10000"

definition ioapicread :: "u32 \<Rightarrow> 'a devst_scheme \<Rightarrow> u32 \<times> 'a devst_scheme" where
  "ioapicread reg s = (let s = s\<lparr>io_reg := reg\<rparr> in (io_data s (io_reg s), s))"

definition ioapicwrite :: "u32 \<Rightarrow> u32 \<Rightarrow> 'a devst_scheme \<Rightarrow> 'a devst_scheme" where
  "ioapicwrite reg d s = (let s = s\<lparr>io_reg := reg\<rparr> in s\<lparr>io_data := (io_data s)(io_reg s := d)\<rparr>)"

definition ioapic_off :: "nat \<Rightarrow> 'a devst_scheme \<Rightarrow> 'a devst_scheme" where
  "ioapic_off i s =
     ioapicwrite (REG_TABLE + 2 * of_nat i + 1) 0
       (ioapicwrite (REG_TABLE + 2 * of_nat i) (INT_DISABLED OR of_nat (T_IRQ0 + i)) s)"

definition ioapicinit :: "'a devst_scheme \<Rightarrow> 'a devst_scheme res" where
  "ioapicinit s =
     (if \<not> ismp s then Inr s
      else case ioapicread REG_VER s of (v, s) \<Rightarrow>
        let maxintr = unat (drop_bit 16 v AND 0xFF)
        in case ioapicread REG_ID s of (v, s) \<Rightarrow>
           bindr (if drop_bit 24 v \<noteq> ucast (ioapicid s)
                  then cprintf (Some (cstr (''ioapicinit: id isn'' @ [CHR 0x27] @ ''t equal to ioapicid; not a MP'') @ [10])) [] s
                  else Inr s) (\<lambda>s.
           Inr (fold ioapic_off [0..<maxintr + 1] s)))"

definition ioapicenable :: "nat \<Rightarrow> u32 \<Rightarrow> 'a devst_scheme \<Rightarrow> 'a devst_scheme" where
  "ioapicenable irq c s =
     (if \<not> ismp s then s
      else ioapicwrite (REG_TABLE + 2 * of_nat irq + 1) (push_bit 24 c)
             (ioapicwrite (REG_TABLE + 2 * of_nat irq) (of_nat (T_IRQ0 + irq)) s))"

section \<open>Start of the console and of the serial port\<close>

definition IRQ_KBD :: nat where "IRQ_KBD = 1"
definition IRQ_COM1 :: nat where "IRQ_COM1 = 4"
definition COM1 :: u32 where "COM1 = 0x3f8"

text \<open>The entries of \<open>devsw\<close> that \<open>consoleinit\<close> stores are the function \<open>devsw\<close> of the console.\<close>

definition consoleinit :: "'a devst_scheme \<Rightarrow> 'a devst_scheme" where
  "consoleinit s =
     ioapicenable IRQ_KBD 0 (picenable IRQ_KBD ((initlock InputLock (initlock ConsLock s))\<lparr>cons_locking := True\<rparr>))"

text \<open>\<open>uartinit\<close> on a machine whose line status register reads \<open>lsr\<close>. Reading the data register takes the byte that waits there.\<close>

definition uartinit :: "u8 \<Rightarrow> 'a devst_scheme \<Rightarrow> 'a devst_scheme" where
  "uartinit lsr s =
     (let s = outbs [(COM1 + 2, 0), (COM1 + 3, 0x80), (COM1 + 0, 115200 div 9600), (COM1 + 1, 0), (COM1 + 3, 0x03),
              (COM1 + 4, 0), (COM1 + 1, 0x01)] s
      in if lsr = 0xFF then s
         else let s = s\<lparr>uart_on := True, serial_in := drop 1 (serial_in s)\<rparr>;
                  s = ioapicenable IRQ_COM1 0 (picenable IRQ_COM1 s)
           in fold uartputc (map of_char ''xv6...'' @ [10]) s)"

section \<open>The local APIC\<close>

definition LID :: nat where "LID = 0x20 div 4"
definition VER :: nat where "VER = 0x30 div 4"
definition TPR :: nat where "TPR = 0x80 div 4"
definition EOI :: nat where "EOI = 0xB0 div 4"
definition SVR :: nat where "SVR = 0xF0 div 4"
definition ESR :: nat where "ESR = 0x280 div 4"
definition ICRLO :: nat where "ICRLO = 0x300 div 4"
definition ICRHI :: nat where "ICRHI = 0x310 div 4"
definition TIMER :: nat where "TIMER = 0x320 div 4"
definition PCINT :: nat where "PCINT = 0x340 div 4"
definition LINT0 :: nat where "LINT0 = 0x350 div 4"
definition LINT1 :: nat where "LINT1 = 0x360 div 4"
definition ERROR :: nat where "ERROR = 0x370 div 4"
definition TICR :: nat where "TICR = 0x380 div 4"
definition TDCR :: nat where "TDCR = 0x3E0 div 4"

definition lapicw :: "nat \<Rightarrow> u32 \<Rightarrow> 'a devst_scheme \<Rightarrow> 'a devst_scheme" where
  "lapicw i v s = s\<lparr>lapic_regs := (lapic_regs s)(i := v), lapic_out := lapic_out s @ [(i, v)]\<rparr>"

fun lapicws :: "(nat \<times> u32) list \<Rightarrow> 'a devst_scheme \<Rightarrow> 'a devst_scheme" where
  "lapicws [] s = s"
| "lapicws ((i, v) # ws) s = lapicws ws (lapicw i v s)"

definition lapicinit :: "'a devst_scheme \<Rightarrow> 'a devst_scheme" where
  "lapicinit s =
     (if lapic s = 0 then s
      else let s = lapicws [(SVR, 0x100 OR of_nat (T_IRQ0 + IRQ_SPURIOUS)), (TDCR, 0xB),
                 (TIMER, 0x20000 OR of_nat (T_IRQ0 + IRQ_TIMER)), (TICR, 10000000), (LINT0, 0x10000), (LINT1, 0x10000)] s;
               s = (if drop_bit 16 (lapic_regs s VER) AND 0xFF \<ge> 4 then lapicw PCINT 0x10000 s else s)
        in lapicws [(ERROR, of_nat (T_IRQ0 + IRQ_ERROR)), (ESR, 0), (ESR, 0), (EOI, 0), (ICRHI, 0),
             (ICRLO, 0x80000 OR 0x500 OR 0x8000), (TPR, 0)] s)"

definition lapiceoi :: "'a devst_scheme \<Rightarrow> 'a devst_scheme" where
  "lapiceoi s = (if lapic s \<noteq> 0 then lapicw EOI 0 s else s)"

text \<open>\<open>ra\<close> is the return address of the call.\<close>

definition cpunum :: "u32 \<Rightarrow> 'a devst_scheme \<Rightarrow> (u32 \<times> 'a devst_scheme) res" where
  "cpunum ra s =
     bindr (if eflags_if (mycpu s) then
              let n = cpunum_n s; s = s\<lparr>cpunum_n := n + 1\<rparr>
              in if n = 0 then cprintf (Some (cstr ''cpu called from %x with interrupts enabled'' @ [10])) [PInt ra] s else Inr s
            else Inr s) (\<lambda>s.
     Inr (if lapic s \<noteq> 0 then drop_bit 24 (lapic_regs s LID) else 0, s))"

definition lapicstartap :: "u8 \<Rightarrow> u32 \<Rightarrow> 'a devst_scheme \<Rightarrow> 'a devst_scheme" where
  "lapicstartap apicid addr s =
     (let s = outbs [(0x70, 0xF), (0x71, 0xA)] s;
          wrv = p2v (push_bit 4 0x40 OR 0x67);
          s = set_ram (store16 (store16 (ram s) wrv 0) (wrv + 2) (ucast (drop_bit 4 addr))) s;
          hi = push_bit 24 (ucast apicid)
      in lapicws [(ICRHI, hi), (ICRLO, 0x500 OR 0x8000 OR 0x4000), (ICRLO, 0x500 OR 0x8000),
           (ICRHI, hi), (ICRLO, 0x600 OR drop_bit 12 addr), (ICRHI, hi), (ICRLO, 0x600 OR drop_bit 12 addr)] s)"

section \<open>The clock\<close>

record rtcdate =
  second :: u32
  minute :: u32
  hour :: u32
  day :: u32
  month :: u32
  year :: u32

definition cmos_read :: "u32 \<Rightarrow> 'a devst_scheme \<Rightarrow> u32 \<times> 'a devst_scheme" where
  "cmos_read reg s =
     (let s = outb 0x70 (ucast reg) s in (ucast (cmos s (cmos_t s) reg), s\<lparr>cmos_t := cmos_t s + 1\<rparr>))"

definition fill_rtcdate :: "'a devst_scheme \<Rightarrow> rtcdate \<times> 'a devst_scheme" where
  "fill_rtcdate s =
     (case cmos_read 0 s of (a, s) \<Rightarrow> case cmos_read 2 s of (b, s) \<Rightarrow> case cmos_read 4 s of (c, s) \<Rightarrow>
      case cmos_read 7 s of (d, s) \<Rightarrow> case cmos_read 8 s of (e, s) \<Rightarrow> case cmos_read 9 s of (f, s) \<Rightarrow>
      (\<lparr>second = a, minute = b, hour = c, day = d, month = e, year = f\<rparr>, s))"

partial_function (option) cmostime_loop :: "'a devst_scheme \<Rightarrow> (rtcdate \<times> 'a devst_scheme) option" where
  "cmostime_loop s =
     (case fill_rtcdate s of (t1, s) \<Rightarrow> case cmos_read 0xA s of (a, s) \<Rightarrow>
      if a AND 0x80 \<noteq> 0 then cmostime_loop s
      else case fill_rtcdate s of (t2, s) \<Rightarrow> if t1 = t2 then Some (t1, s) else cmostime_loop s)"

definition CONV :: "u32 \<Rightarrow> u32" where
  "CONV x = drop_bit 4 x * 10 + (x AND 0xF)"

definition cmostime :: "'a devst_scheme \<Rightarrow> (rtcdate \<times> 'a devst_scheme) option" where
  "cmostime s =
     (case cmos_read 0xB s of (sb, s) \<Rightarrow>
      map_option (\<lambda>(t, s).
        let t = (if sb AND 4 = 0
                 then \<lparr>second = CONV (second t), minute = CONV (minute t), hour = CONV (hour t),
                       day = CONV (day t), month = CONV (month t), year = CONV (year t)\<rparr>
                 else t)
        in (t\<lparr>year := year t + 2000\<rparr>, s)) (cmostime_loop s))"

end
