(* ===== verification/Xv6_Mp.thy ===== *)
theory Xv6_Mp
  imports Xv6_Devices Xv6_ConsOut Xv6_Demo
begin

unbundle bit_operations_syntax

text \<open>
  The tables that describe a multiprocessor (mp.c, mp.h): the search for the floating pointer structure, the
  checks of the configuration table and the loop over its entries. A structure is read from memory at its
  address. An entry of an unknown type does not move the loop on, so the loop is a partial function.
\<close>

section \<open>Finding the tables\<close>

definition mp_view :: "mem \<Rightarrow> u32 \<Rightarrow> view" where
  "mp_view m a = (\<lambda>i. m (a + of_nat i))"

definition sum_bytes :: "mem \<Rightarrow> u32 \<Rightarrow> nat \<Rightarrow> u8" where
  "sum_bytes m a len = sum_list (map (\<lambda>i. m (a + of_nat i)) [0..<len])"

text \<open>The ranges searched end below the top of the address space, so counting the structures and comparing
  addresses are the same. Address 0 stands for no structure.\<close>

definition mpsearch1 :: "mem \<Rightarrow> u32 \<Rightarrow> nat \<Rightarrow> u32" where
  "mpsearch1 m a len =
     (case scan (\<lambda>i. memcmp (mp_view m (p2v a + 16 * of_nat i)) (list_view (cstr ''_MP_'')) 4 = 0 \<and>
                sum_bytes m (p2v a + 16 * of_nat i) 16 = 0) (len div 16) of
        Some i \<Rightarrow> p2v a + 16 * of_nat i | None \<Rightarrow> 0)"

definition bda16 :: "mem \<Rightarrow> u32 \<Rightarrow> u32" where
  "bda16 m i = push_bit 8 (ucast (m (p2v 0x400 + i + 1))) OR ucast (m (p2v 0x400 + i))"

definition mpsearch :: "mem \<Rightarrow> u32" where
  "mpsearch m =
     (let p = push_bit 4 (bda16 m 0xE);
          mp = (if p \<noteq> 0 then mpsearch1 m p 1024 else mpsearch1 m (bda16 m 0x13 * 1024 - 1024) 1024)
      in if mp \<noteq> 0 then mp else mpsearch1 m 0xF0000 0x10000)"

definition mp_physaddr :: "mem \<Rightarrow> u32 \<Rightarrow> u32" where "mp_physaddr m a = load32 m (a + 4)"
definition mp_imcrp :: "mem \<Rightarrow> u32 \<Rightarrow> u8" where "mp_imcrp m a = m (a + 12)"
definition mpc_length :: "mem \<Rightarrow> u32 \<Rightarrow> u16" where "mpc_length m c = load16 m (c + 4)"
definition mpc_version :: "mem \<Rightarrow> u32 \<Rightarrow> u8" where "mpc_version m c = m (c + 6)"
definition mpc_lapicaddr :: "mem \<Rightarrow> u32 \<Rightarrow> u32" where "mpc_lapicaddr m c = load32 m (c + 36)"

definition mpconfig :: "mem \<Rightarrow> (u32 \<times> u32) option" where
  "mpconfig m =
     (let mp = mpsearch m
      in if mp = 0 \<or> mp_physaddr m mp = 0 then None
         else let conf = p2v (mp_physaddr m mp)
           in if memcmp (mp_view m conf) (list_view (cstr ''PCMP'')) 4 \<noteq> 0 then None
              else if mpc_version m conf \<noteq> 1 \<and> mpc_version m conf \<noteq> 4 then None
              else if sum_bytes m conf (unat (mpc_length m conf)) \<noteq> 0 then None
              else Some (mp, conf))"

section \<open>Reading the table\<close>

definition MPPROC :: u8 where "MPPROC = 0"
definition MPBUS :: u8 where "MPBUS = 1"
definition MPIOAPIC :: u8 where "MPIOAPIC = 2"
definition MPIOINTR :: u8 where "MPIOINTR = 3"
definition MPLINTR :: u8 where "MPLINTR = 4"
definition MPBOOT :: u8 where "MPBOOT = 2"

text \<open>A processor entry; the kernel's array holds \<open>NCPU\<close> processors and nothing checks that they fit.\<close>

definition mp_proc :: "u8 \<Rightarrow> u8 \<Rightarrow> 'a devst_scheme \<Rightarrow> 'a devst_scheme res" where
  "mp_proc apicid flags s =
     bindr (if ncpu s \<noteq> unat apicid
            then bindr (cprintf (Some (cstr ''mpinit: ncpu=%d apicid=%d'' @ [10])) [PInt (of_nat (ncpu s)), PInt (ucast apicid)] s)
                   (\<lambda>s. Inr (s\<lparr>ismp := False\<rparr>))
            else Inr s) (\<lambda>s.
     let s = (if flags AND MPBOOT \<noteq> 0 then s\<lparr>bcpu := ncpu s\<rparr> else s)
     in if ncpu s \<ge> NCPU then Inl (Undef ''overrun'')
        else Inr (s\<lparr>cpu_id := (cpu_id s)(ncpu s := of_nat (ncpu s)), ncpu := ncpu s + 1\<rparr>))"

partial_function (option) mpinit_loop :: "u32 \<Rightarrow> u32 \<Rightarrow> 'a devst_scheme \<Rightarrow> 'a devst_scheme res option" where
  "mpinit_loop p e s =
     (if p < e then
        if ram s p = MPPROC then bindro (mp_proc (ram s (p + 1)) (ram s (p + 3)) s) (mpinit_loop (p + 20) e)
        else if ram s p = MPIOAPIC then mpinit_loop (p + 8) e (s\<lparr>ioapicid := ram s (p + 1)\<rparr>)
        else if ram s p = MPBUS \<or> ram s p = MPIOINTR \<or> ram s p = MPLINTR then mpinit_loop (p + 8) e s
        else bindro (cprintf (Some (cstr ''mpinit: unknown config type %x'' @ [10])) [PInt (ucast (ram s p))] s)
               (\<lambda>s. mpinit_loop p e (s\<lparr>ismp := False\<rparr>))
      else Some (Inr s))"

text \<open>\<open>imcr\<close> is what the port of the interrupt mode configuration register reads.\<close>

definition mpinit :: "u8 \<Rightarrow> 'a devst_scheme \<Rightarrow> 'a devst_scheme res" where
  "mpinit imcr s =
     (let s = s\<lparr>bcpu := 0\<rparr>
      in case mpconfig (ram s) of
           None \<Rightarrow> Inr s
         | Some (mp, conf) \<Rightarrow>
             let s = s\<lparr>ismp := True, lapic := mpc_lapicaddr (ram s) conf\<rparr>
             in bindr (loopr (mpinit_loop (conf + 44) (conf + ucast (mpc_length (ram s) conf)) s)) (\<lambda>s.
                if \<not> ismp s then Inr (s\<lparr>ncpu := 1, lapic := 0, ioapicid := 0\<rparr>)
                else if mp_imcrp (ram s) mp \<noteq> 0 then Inr (outbs [(0x22, 0x70), (0x23, imcr OR 1)] s)
                else Inr s))"

definition mpbcpu :: "'a devst_scheme \<Rightarrow> nat" where
  "mpbcpu s = bcpu s"

section \<open>A table of known entries\<close>

datatype mpentry = MpProc u8 u8 | MpIoapic u8 | MpOther u8

text \<open>From \<open>p\<close> on, below the end \<open>e\<close>, the entries \<open>xs\<close> fill the memory up to \<open>q\<close>.\<close>

fun mp_table :: "mem \<Rightarrow> u32 \<Rightarrow> u32 \<Rightarrow> u32 \<Rightarrow> mpentry list \<Rightarrow> bool" where
  "mp_table m p q e [] \<longleftrightarrow> p = q"
| "mp_table m p q e (x # xs) \<longleftrightarrow> p < e \<and>
     (case x of
        MpProc a f \<Rightarrow> m p = MPPROC \<and> m (p + 1) = a \<and> m (p + 3) = f \<and> mp_table m (p + 20) q e xs
      | MpIoapic i \<Rightarrow> m p = MPIOAPIC \<and> m (p + 1) = i \<and> mp_table m (p + 8) q e xs
      | MpOther t \<Rightarrow> m p = t \<and> t \<in> {MPBUS, MPIOINTR, MPLINTR} \<and> mp_table m (p + 8) q e xs)"

fun mp_apicids :: "mpentry list \<Rightarrow> nat list" where
  "mp_apicids [] = []"
| "mp_apicids (MpProc a f # xs) = unat a # mp_apicids xs"
| "mp_apicids (x # xs) = mp_apicids xs"

fun mp_boot :: "nat \<Rightarrow> nat \<Rightarrow> mpentry list \<Rightarrow> nat" where
  "mp_boot b k [] = b"
| "mp_boot b k (MpProc a f # xs) = mp_boot (if f AND MPBOOT \<noteq> 0 then k else b) (Suc k) xs"
| "mp_boot b k (x # xs) = mp_boot b k xs"

fun mp_ioid :: "u8 \<Rightarrow> mpentry list \<Rightarrow> u8" where
  "mp_ioid i [] = i"
| "mp_ioid i (MpIoapic j # xs) = mp_ioid j xs"
| "mp_ioid i (x # xs) = mp_ioid i xs"

text \<open>What the loop leaves alone.\<close>

definition mp_clr :: "'a devst_scheme \<Rightarrow> 'a devst_scheme" where
  "mp_clr s = s\<lparr>bcpu := 0, ncpu := 0, cpu_id := \<lambda>_. 0, ioapicid := 0\<rparr>"

definition mp_read :: "mpentry list \<Rightarrow> 'a devst_scheme \<Rightarrow> 'a devst_scheme \<Rightarrow> bool" where
  "mp_read xs s t \<longleftrightarrow> mp_clr t = mp_clr s \<and> ncpu t = ncpu s + length (mp_apicids xs) \<and>
     bcpu t = mp_boot (bcpu s) (ncpu s) xs \<and> ioapicid t = mp_ioid (ioapicid s) xs \<and>
     (\<forall>i. cpu_id t i = (if ncpu s \<le> i \<and> i < ncpu t then of_nat i else cpu_id s i))"

lemma mp_clr_ram:
  assumes "mp_clr t = mp_clr s"
  shows "ram t = ram s \<and> ismp t = ismp s \<and> lapic t = lapic s"
  using arg_cong[OF assms, of ram] arg_cong[OF assms, of ismp] arg_cong[OF assms, of lapic] by (simp add: mp_clr_def)

lemma mpinit_loop_reads:
  "mp_table (ram s) p q e xs \<Longrightarrow> mp_apicids xs = [ncpu s..<ncpu s + length (mp_apicids xs)] \<Longrightarrow> ncpu s + length (mp_apicids xs) \<le> NCPU \<Longrightarrow>
    \<exists>t. mpinit_loop p e s = mpinit_loop q e t \<and> mp_read xs s t"
proof (induction xs arbitrary: p s)
  case Nil
  then show ?case by (intro exI[of _ s]) (auto simp: mp_read_def)
next
  case (Cons x xs)
  show ?case
  proof (cases x)
    case (MpProc a f)
    have u: "unat a = ncpu s" "mp_apicids xs = [Suc (ncpu s)..<Suc (ncpu s) + length (mp_apicids xs)]" "ncpu s < NCPU"
      using Cons(3,4) MpProc by (simp_all add: upt_conv_Cons del: upt_Suc)
    define t where "t = (if f AND MPBOOT \<noteq> 0 then s\<lparr>bcpu := ncpu s\<rparr> else s)\<lparr>cpu_id := (cpu_id s)(ncpu s := of_nat (ncpu s)), ncpu := ncpu s + 1\<rparr>"
    have "mp_proc a f s = Inr t" using u by (simp add: mp_proc_def t_def)
    then have e: "mpinit_loop p e s = mpinit_loop (p + 20) e t" using Cons(2) MpProc by (subst mpinit_loop.simps) simp
    have T: "ram t = ram s" "ncpu t = Suc (ncpu s)" "mp_clr t = mp_clr s" "ioapicid t = ioapicid s" "cpu_id t = (cpu_id s)(ncpu s := of_nat (ncpu s))"
      "bcpu t = (if f AND MPBOOT \<noteq> 0 then ncpu s else bcpu s)" by (simp_all add: t_def mp_clr_def)
    obtain w where "mpinit_loop (p + 20) e t = mpinit_loop q e w" "mp_read xs t w" using Cons(1)[of t "p + 20"] Cons(2,4) MpProc u T by auto
    then show ?thesis using MpProc T unfolding e by (intro exI[of _ w]) (auto simp: mp_read_def)
  next
    case (MpIoapic i)
    then have e: "mpinit_loop p e s = mpinit_loop (p + 8) e (s\<lparr>ioapicid := i\<rparr>)"
      using Cons(2) by (subst mpinit_loop.simps) (simp add: MPPROC_def MPIOAPIC_def)
    show ?thesis using Cons(1)[of "s\<lparr>ioapicid := i\<rparr>" "p + 8"] Cons(2-4) MpIoapic unfolding e by (auto simp: mp_read_def mp_clr_def)
  next
    case (MpOther t)
    then have e: "mpinit_loop p e s = mpinit_loop (p + 8) e s"
      using Cons(2) by (subst mpinit_loop.simps) (auto simp: MPPROC_def MPIOAPIC_def MPBUS_def MPIOINTR_def MPLINTR_def)
    show ?thesis using Cons(1)[of s "p + 8"] Cons(2-4) MpOther unfolding e by (auto simp: mp_read_def)
  qed
qed

lemma mpinit_loop_ends [simp]: "mpinit_loop e e s = Some (Inr s)"
  by (simp add: mpinit_loop.simps)

text \<open>The state in which the loop over the table starts.\<close>

definition mp_start :: "u32 \<Rightarrow> 'a devst_scheme \<Rightarrow> 'a devst_scheme" where
  "mp_start conf s = s\<lparr>bcpu := 0, ismp := True, lapic := mpc_lapicaddr (ram s) conf\<rparr>"

lemma mp_start_simps [simp]:
  "ram (mp_start conf s) = ram s" "ncpu (mp_start conf s) = ncpu s" "bcpu (mp_start conf s) = 0" "ioapicid (mp_start conf s) = ioapicid s"
  "ismp (mp_start conf s)" "lapic (mp_start conf s) = mpc_lapicaddr (ram s) conf" "cpu_id (mp_start conf s) = cpu_id s"
  by (simp_all add: mp_start_def)

lemma mpinit_start:
  assumes "mpconfig (ram s) = Some (mp, conf)"
  shows "mpinit imcr s = bindr (loopr (mpinit_loop (conf + 44) (conf + ucast (mpc_length (ram s) conf)) (mp_start conf s))) (\<lambda>s.
                if \<not> ismp s then Inr (s\<lparr>ncpu := 1, lapic := 0, ioapicid := 0\<rparr>)
                else if mp_imcrp (ram s) mp \<noteq> 0 then Inr (outbs [(0x22, 0x70), (0x23, imcr OR 1)] s)
                else Inr s)"
  using assms by (simp add: mpinit_def mp_start_def)

text \<open>C29. \<open>mpinit\<close> on a table whose entries are all of known types and whose processors are numbered from 0 on and
  fit the array of processors: it ends, accepts the table, and records every processor, the boot processor,
  the I/O APIC and the local APIC of the table.\<close>

theorem mpinit_records:
  assumes "mpconfig (ram s) = Some (mp, conf)" "e = conf + ucast (mpc_length (ram s) conf)"
    and "mp_table (ram s) (conf + 44) e e xs" "ncpu s = 0" "mp_apicids xs = [0..<n]" "n \<le> NCPU"
  shows "\<exists>t. mpinit imcr s = Inr t \<and> ismp t \<and> ncpu t = n \<and> (\<forall>i. i < n \<longrightarrow> cpu_id t i = of_nat i) \<and>
    mpbcpu t = mp_boot 0 0 xs \<and> ioapicid t = mp_ioid (ioapicid s) xs \<and> lapic t = mpc_lapicaddr (ram s) conf"
proof -
  obtain t where t: "mpinit_loop (conf + 44) e (mp_start conf s) = mpinit_loop e e t" "mp_read xs (mp_start conf s) t"
    using mpinit_loop_reads[of "mp_start conf s" "conf + 44" e e xs] assms(3-6) by auto
  have T: "mp_clr t = mp_clr (mp_start conf s)" "ncpu t = n" "bcpu t = mp_boot 0 0 xs" "ioapicid t = mp_ioid (ioapicid s) xs"
    "\<forall>i. cpu_id t i = (if i < n then of_nat i else cpu_id s i)" using t(2) assms(4,5) by (simp_all add: mp_read_def)
  have e: "mpinit imcr s = Inr (if mp_imcrp (ram s) mp \<noteq> 0 then outbs [(0x22, 0x70), (0x23, imcr OR 1)] t else t)"
    using mp_clr_ram[OF T(1)] t(1) by (simp add: mpinit_start[OF assms(1)] assms(2)[symmetric])
  show ?thesis using mp_clr_ram[OF T(1)] T(2-5) unfolding e by (simp add: mpbcpu_def outb_def)
qed

section \<open>A concrete table\<close>

text \<open>A floating pointer structure in the first KB of the extended BIOS data area, at physical address 0x10000; then
  a table with the entries \<open>es\<close> and the checksum \<open>c\<close>.\<close>

definition demo_mp_bytes :: "u8 list \<Rightarrow> u8 \<Rightarrow> u8 list" where
  "demo_mp_bytes es c =
     cstr ''_MP_'' @ [16, 0, 1, 0, 1, 4, 0x8F, 0, 0, 0, 0, 0] @
     cstr ''PCMP'' @ [of_nat (44 + length es), 0, 4, c] @ replicate 28 0 @ [0, 0, 0xE0, 0xFE, 0, 0, 0, 0] @ es"

text \<open>Two processors, the first of which boots, and an I/O APIC with id 2.\<close>

definition demo_entries :: "u8 list" where
  "demo_entries = [0, 0, 0, 3] @ replicate 16 0 @ [0, 1, 0, 1] @ replicate 16 0 @ [2, 2, 0, 1, 0, 0, 0, 0]"

definition placed :: "u32 \<Rightarrow> u8 list \<Rightarrow> mem" where
  "placed b xs a = (if a - b < of_nat (length xs) then xs ! unat (a - b) else 0)"

definition demo_mp_ram :: "u8 list \<Rightarrow> u8 \<Rightarrow> mem" where
  "demo_mp_ram es c = (placed 0x80010000 (demo_mp_bytes es c))(0x8000040F := 0x10)"

definition demo_devst :: "mem \<Rightarrow> devst" where
  "demo_devst m = kernst.extend demo_kernst
     (devst.fields irqmask_init [] 0 (\<lambda>_. 0) 0 (\<lambda>_. 0) [] 0 (\<lambda>_ _. 0) 0 0 False 0 (\<lambda>_. 0) 0)\<lparr>ram := m\<rparr>"

lemma demo_devst_sel [simp]: "ram (demo_devst m) = m" "ncpu (demo_devst m) = 0" "ioapicid (demo_devst m) = 0" "ismp (demo_devst m) = False"
  by (simp_all add: demo_devst_def devst.defs kernst.defs)

lemma demo_devst_prints: "printing DEFAULT [] (demo_devst m)"
proof -
  have "rrq (demo_devst m) []" by (simp add: rrq_def dll_def nx_def pv_def demo_devst_def devst.defs demo_unfold idle_proc_def)
  then have "qinv DEFAULT (False, {}) (demo_devst m)" by (auto simp: qinv_def covered_def)
  then have "kheld DEFAULT [] (demo_devst m)" by (simp add: kheld_def cpu_ok_def demo_devst_def devst.defs demo_unfold)
  then show ?thesis by (simp add: printing_def cga_ok_def demo_devst_def devst.defs kernst.defs)
qed

lemma placed_off:
  assumes "k < length xs" "length xs < 2 ^ 32"
  shows "placed b xs (b + of_nat k) = xs ! k"
  using assms by (simp add: placed_def unat_of_nat32 word_less_nat_alt)

lemma sum_placed:
  assumes m: "\<And>i. i < n \<Longrightarrow> m (b + of_nat (k + i)) = placed b xs (b + of_nat (k + i))" and n: "k + n \<le> length xs" "length xs < 2 ^ 32"
  shows "sum_bytes m (b + of_nat k) n = sum_list (take n (drop k xs))"
proof -
  have "map (\<lambda>i. m (b + of_nat k + of_nat i)) [0..<n] = take n (drop k xs)"
  proof (rule nth_equalityI)
    fix i assume "i < length (map (\<lambda>i. m (b + of_nat k + of_nat i)) [0..<n])"
    then show "map (\<lambda>i. m (b + of_nat k + of_nat i)) [0..<n] ! i = take n (drop k xs) ! i"
      using m[of i] n placed_off[of "k + i" xs b] by (simp add: add.assoc)
  qed (use n in simp)
  then show ?thesis by (simp add: sum_bytes_def)
qed
text \<open>What is evaluated of such a table: everything \<open>mpconfig\<close> looks at, the sums over the list of bytes.\<close>

definition demo_mp_facts :: "u8 list \<Rightarrow> u8 \<Rightarrow> bool" where
  "demo_mp_facts es c \<longleftrightarrow>
     (let m = demo_mp_ram es c; bs = demo_mp_bytes es c
      in push_bit 4 (bda16 m 0xE) = 0x10000 \<and> memcmp (mp_view m 0x80010000) (list_view (cstr ''_MP_'')) 4 = 0 \<and>
         mp_physaddr m 0x80010000 = 0x10010 \<and> mpc_version m 0x80010010 = 4 \<and>
         memcmp (mp_view m 0x80010010) (list_view (cstr ''PCMP'')) 4 = 0 \<and> unat (mpc_length m 0x80010010) = 44 + length es \<and>
         length bs = 60 + length es \<and> length es < 50 \<and> sum_list (take 16 bs) = 0 \<and> sum_list (drop 16 bs) = 0)"

lemma demo_mpconfig:
  assumes "demo_mp_facts es c"
  shows "mpconfig (demo_mp_ram es c) = Some (0x80010000, 0x80010010)"
proof -
  let ?m = "demo_mp_ram es c" and ?b = "demo_mp_bytes es c"
  have f: "push_bit 4 (bda16 ?m 0xE) = 0x10000" "memcmp (mp_view ?m 0x80010000) (list_view (cstr ''_MP_'')) 4 = 0" "mp_physaddr ?m 0x80010000 = 0x10010"
    "mpc_version ?m 0x80010010 = 4" "memcmp (mp_view ?m 0x80010010) (list_view (cstr ''PCMP'')) 4 = 0" "unat (mpc_length ?m 0x80010010) = 44 + length es"
    and l: "length ?b = 60 + length es" "length es < 50" and z: "sum_list (take 16 ?b) = 0" "sum_list (drop 16 ?b) = 0"
    using assms unfolding demo_mp_facts_def Let_def by blast+
  have m: "?m (0x80010000 + of_nat i) = placed 0x80010000 ?b (0x80010000 + of_nat i)" if "i < 200" for i
  proof -
    have "of_nat i \<noteq> (0x8000040F - 0x80010000 :: u32)" using that unat_of_nat32[of i] by auto
    then have "0x80010000 + of_nat i \<noteq> (0x8000040F :: u32)" unfolding eq_diff_eq by (simp add: add.commute)
    then show ?thesis by (simp add: demo_mp_ram_def)
  qed
  have s: "sum_bytes ?m (0x80010000 + of_nat k) n = sum_list (take n (drop k ?b))" if "k + n \<le> 60 + length es" for k n
    by (rule sum_placed, rule m) (use that l in auto)
  have s1: "sum_bytes ?m 0x80010000 16 = 0" using s[of 0 16] z by simp
  have s2: "sum_bytes ?m 0x80010010 (44 + length es) = 0" using s[of 16 "44 + length es"] z l by simp
  have p: "p2v 0x10000 = 0x80010000" "p2v 0x10010 = 0x80010010" by code_simp+
  have "scan (\<lambda>i. memcmp (mp_view ?m (0x80010000 + 16 * of_nat i)) (list_view (cstr ''_MP_'')) 4 = 0 \<and>
      sum_bytes ?m (0x80010000 + 16 * of_nat i) 16 = 0) 64 = Some 0"
    using f(2) s1 by (simp add: scan_Some)
  then have "mpsearch ?m = 0x80010000" by (simp add: mpsearch_def f(1) mpsearch1_def p)
  then show ?thesis using f s2 by (simp add: mpconfig_def p)
qed

theorem mpinit_records_witness:
  "\<exists>t. mpinit 0 (demo_devst (demo_mp_ram demo_entries 0x88)) = Inr t \<and> ismp t \<and> ncpu t = 2 \<and> mpbcpu t = 0 \<and> ioapicid t = 2 \<and> lapic t = 0xFEE00000"
proof -
  let ?m = "demo_mp_ram demo_entries 0x88" and ?xs = "[MpProc 0 3, MpProc 1 1, MpIoapic 2]"
  have "demo_mp_facts demo_entries 0x88"
    unfolding demo_mp_facts_def Let_def by (intro conjI; code_simp)
  then have c: "mpconfig ?m = Some (0x80010000, 0x80010010)" by (rule demo_mpconfig)
  have "mp_table ?m (0x80010010 + 44) (0x80010010 + ucast (mpc_length ?m 0x80010010)) (0x80010010 + ucast (mpc_length ?m 0x80010010)) ?xs" by code_simp
  moreover have "mpc_lapicaddr ?m 0x80010010 = 0xFEE00000" "mp_boot 0 0 ?xs = 0" "mp_ioid 0 ?xs = 2" "mp_apicids ?xs = [0..<2]" "2 \<le> NCPU" by code_simp+
  ultimately show ?thesis
    using mpinit_records[of "demo_devst ?m" "0x80010000" "0x80010010" _ ?xs 2, OF _ refl] c by auto
qed

section \<open>An entry of an unknown type\<close>

definition mp_known :: "u8 \<Rightarrow> bool" where
  "mp_known t \<longleftrightarrow> t \<in> {MPPROC, MPBUS, MPIOAPIC, MPIOINTR, MPLINTR}"

lemma cprintf_keeps:
  assumes "printing cfg [] (s :: 'a devst_scheme)" "fmt_ok fmt args"
  shows "\<exists>t. cprintf (Some fmt) args s = Inr t \<and> printing cfg [] t \<and> ram t = ram s"
proof -
  obtain t where t: "cprintf (Some fmt) args s = Inr t" "kheld cfg [] t" "cga_ok t" "rest (clr t) = rest (clr s)"
    using cprintf_prints[OF assms(1) _ assms(2)] by (auto simp: printed_def)
  have "ram t = ram s" using arg_cong[OF t(4), of ram] by (simp add: rest_def clr_def)
  then show ?thesis using t by (simp add: printing_def)
qed

lemma printing_dev:
  fixes s t :: "'a devst_scheme"
  assumes "consst.truncate t = consst.truncate s" "printing cfg L s"
  shows "printing cfg L t"
proof -
  have e: "f (consst.truncate t) = f (consst.truncate s)" for f :: "consst \<Rightarrow> 'b" using assms(1) by simp
  have "kheld cfg L s" "cga_ok s" using assms(2) by (simp_all add: printing_def)
  moreover from this(1) have "kheld cfg L t"
    by (rule kheld_cong) (use e[of ptable] e[of rr_first] e[of rr_last] e[of initproc] e[of locks] e[of cpus] e[of cur] in \<open>simp_all add: consst.defs\<close>)
  ultimately show ?thesis using e[of panicked] e[of crt_pos] by (simp add: printing_def cga_ok_def consst.defs)
qed

lemma mpinit_loop_stuck:
  assumes "printing cfg [] s" "p < e" "\<not> mp_known (ram s p)"
  shows "mpinit_loop p e s = None"
proof (rule ccontr)
  assume "mpinit_loop p e s \<noteq> None"
  then obtain y where "mpinit_loop p e s = Some y" by auto
  then show False using assms
  proof (induction rule: mpinit_loop.raw_induct[rotated, consumes 1, case_names step])
    case (step f p e s y)
    have "fmt_ok (cstr ''mpinit: unknown config type %x'' @ [10]) [PInt (ucast (ram s p))]" by (simp add: cstr_def)
    then obtain t where t: "cprintf (Some (cstr ''mpinit: unknown config type %x'' @ [10])) [PInt (ucast (ram s p))] s = Inr t" "printing cfg [] t" "ram t = ram s"
      using cprintf_keeps step by blast
    have "printing cfg [] (t\<lparr>ismp := False\<rparr>)" by (rule printing_dev[OF _ t(2)]) (simp add: consst.defs)
    then show ?case using step(1)[of p e "t\<lparr>ismp := False\<rparr>" y] step(2-) t by (simp add: mp_known_def)
  qed
qed

text \<open>C30. \<open>mpinit\<close> does not skip an entry whose type it does not know: after any number of known entries it prints the
  type of the unknown one again and again and never returns, although it means to fall back to one processor.\<close>

theorem mpinit_unknown_entry:
  assumes "mpconfig (ram s) = Some (mp, conf)" "e = conf + ucast (mpc_length (ram s) conf)"
    and "mp_table (ram s) (conf + 44) q e xs" "ncpu s = 0" "mp_apicids xs = [0..<n]" "n \<le> NCPU"
    and "q < e" "\<not> mp_known (ram s q)" "printing cfg [] s"
  shows "mpinit imcr s = Inl (Blocked ''loop'')"
proof -
  obtain t where t: "mpinit_loop (conf + 44) e (mp_start conf s) = mpinit_loop q e t" "mp_read xs (mp_start conf s) t"
    using mpinit_loop_reads[of "mp_start conf s" "conf + 44" q e xs] assms(3-6) by auto
  have c: "mp_clr t = mp_clr (mp_start conf s)" using t(2) by (simp add: mp_read_def)
  have "printing cfg [] t"
    by (rule printing_dev[OF _ assms(9)]) (use arg_cong[OF c, of consst.truncate] in \<open>simp add: mp_clr_def mp_start_def consst.defs\<close>)
  then have "mpinit_loop q e t = None" using mpinit_loop_stuck assms(7,8) mp_clr_ram[OF c] by (metis mp_start_simps(1))
  then show ?thesis using t(1) by (simp add: mpinit_start[OF assms(1)] assms(2)[symmetric] loopr_def)
qed

theorem mpinit_unknown_entry_witness:
  "mpinit 0 (demo_devst (demo_mp_ram (demo_entries @ [9]) 0x7E)) = Inl (Blocked ''loop'')"
proof -
  let ?m = "demo_mp_ram (demo_entries @ [9]) 0x7E" and ?xs = "[MpProc 0 3, MpProc 1 1, MpIoapic 2]"
  have "demo_mp_facts (demo_entries @ [9]) 0x7E"
    unfolding demo_mp_facts_def Let_def by (intro conjI; code_simp)
  then have c: "mpconfig ?m = Some (0x80010000, 0x80010010)" by (rule demo_mpconfig)
  have "mp_table ?m (0x80010010 + 44) 0x8001006C (0x80010010 + ucast (mpc_length ?m 0x80010010)) ?xs" by code_simp
  moreover have "mp_apicids ?xs = [0..<2]" "2 \<le> NCPU" "0x8001006C < 0x80010010 + (ucast (mpc_length ?m 0x80010010) :: u32)" "\<not> mp_known (?m 0x8001006C)" by code_simp+
  ultimately show ?thesis
    using mpinit_unknown_entry[of "demo_devst ?m" "0x80010000" "0x80010010" _ "0x8001006C" ?xs 2 DEFAULT, OF _ refl] c demo_devst_prints by simp
qed

section \<open>Routing of interrupts\<close>

text \<open>The two registers of the redirection table that belong to an interrupt.\<close>

definition route :: "'a devst_scheme \<Rightarrow> nat \<Rightarrow> u32 \<times> u32" where
  "route s irq = (io_data s (REG_TABLE + 2 * of_nat irq), io_data s (REG_TABLE + 2 * of_nat irq + 1))"

lemma table_regs:
  assumes "i < 256" "j < 256"
  shows "REG_TABLE + 2 * of_nat i = (REG_TABLE + 2 * of_nat j :: u32) \<longleftrightarrow> i = j"
    "REG_TABLE + 2 * of_nat i + 1 = (REG_TABLE + 2 * of_nat j + 1 :: u32) \<longleftrightarrow> i = j"
    "REG_TABLE + 2 * of_nat i \<noteq> (REG_TABLE + 2 * of_nat j + 1 :: u32)"
    "REG_TABLE + 2 * of_nat i + 1 \<noteq> (REG_TABLE + 2 * of_nat j :: u32)"
proof -
  have u: "unat (REG_TABLE + 2 * of_nat k :: u32) = 16 + 2 * k" "unat (REG_TABLE + 2 * of_nat k + 1 :: u32) = 17 + 2 * k" if "k < 256" for k
    using that by (simp_all add: REG_TABLE_def unat_word_ariths unat_of_nat)
  show "REG_TABLE + 2 * of_nat i = (REG_TABLE + 2 * of_nat j :: u32) \<longleftrightarrow> i = j" using u(1)[OF assms(1)] u(1)[OF assms(2)] by (auto simp: word_unat_eq_iff)
  show "REG_TABLE + 2 * of_nat i + 1 = (REG_TABLE + 2 * of_nat j + 1 :: u32) \<longleftrightarrow> i = j" using u(2)[OF assms(1)] u(2)[OF assms(2)] by (auto simp: word_unat_eq_iff)
  show "REG_TABLE + 2 * of_nat i \<noteq> (REG_TABLE + 2 * of_nat j + 1 :: u32)" "REG_TABLE + 2 * of_nat i + 1 \<noteq> (REG_TABLE + 2 * of_nat j :: u32)"
    using u[OF assms(1)] u[OF assms(2)] by (metis even_Suc even_add even_mult_iff even_numeral odd_numeral odd_two_times_div_two_succ)+
qed

lemma route_writes:
  assumes "i < 256" "j < 256"
  shows "route (ioapic_off i s) j = (if j = i then (INT_DISABLED OR of_nat (T_IRQ0 + i), 0) else route s j)"
    and "route (ioapicenable i c s) j = (if ismp s \<and> j = i then (of_nat (T_IRQ0 + i), push_bit 24 c) else route s j)"
  using table_regs[OF assms] table_regs[OF assms(2,1)] by (auto simp: route_def ioapic_off_def ioapicenable_def ioapicwrite_def Let_def)

lemma fold_off:
  assumes "n \<le> 256" "j < 256"
  shows "route (fold ioapic_off [0..<n] s) j = (if j < n then (INT_DISABLED OR of_nat (T_IRQ0 + j), 0) else route s j) \<and>
    ismp (fold ioapic_off [0..<n] s) = ismp s"
  using assms
proof (induction n)
  case (Suc n)
  have "ismp (ioapic_off n t) = ismp t" for t :: "'a devst_scheme" by (simp add: ioapic_off_def ioapicwrite_def Let_def)
  then show ?case using Suc route_writes(1)[of n j "fold ioapic_off [0..<n] s"] by auto
qed simp

definition ioapic_max :: "'a devst_scheme \<Rightarrow> nat" where
  "ioapic_max s = unat (drop_bit 16 (io_data s REG_VER) AND 0xFF)"

lemma ioapic_max_less: "ioapic_max s < 256"
proof -
  have "drop_bit 16 (io_data s REG_VER) AND 0xFF \<le> (0xFF :: u32)" by (rule word_and_le1)
  then show ?thesis by (simp add: ioapic_max_def word_le_nat_alt)
qed

fun enables :: "(nat \<times> u32) list \<Rightarrow> 'a devst_scheme \<Rightarrow> 'a devst_scheme" where
  "enables [] s = s"
| "enables ((i, c) # ics) s = enables ics (ioapicenable i c s)"

lemma enables_route:
  assumes "ismp s" "\<forall>i \<in> fst ` set ics. i < 256" "j < 256"
  shows "route (enables ics s) j = (case map_of (rev ics) j of Some c \<Rightarrow> (of_nat (T_IRQ0 + j), push_bit 24 c) | None \<Rightarrow> route s j)"
  using assms
proof (induction ics s rule: enables.induct)
  case (2 i c ics s)
  have "ismp (ioapicenable i c s)" using 2(2) by (simp add: ioapicenable_def ioapicwrite_def Let_def)
  then show ?case using 2 route_writes(2)[of i j c s] by (auto split: option.splits simp: map_of_append map_add_def)
qed simp

text \<open>C28. After \<open>ioapicinit\<close> every interrupt of the I/O APIC is masked, and after any sequence of calls of
  \<open>ioapicenable\<close> exactly the interrupts they name are delivered, each with its own vector to the processor
  of its last call.\<close>

theorem ioapic_routes:
  assumes "printing cfg [] s" "ismp s" "\<forall>i \<in> fst ` set ics. i \<le> ioapic_max s" "irq \<le> ioapic_max s"
  shows "\<exists>t. ioapicinit s = Inr t \<and>
    route (enables ics t) irq = (case map_of (rev ics) irq of
       Some c \<Rightarrow> (of_nat (T_IRQ0 + irq), push_bit 24 c) | None \<Rightarrow> (INT_DISABLED OR of_nat (T_IRQ0 + irq), 0))"
proof -
  let ?u = "s\<lparr>io_reg := REG_ID\<rparr>" and ?msg = "cstr (''ioapicinit: id isn'' @ [CHR 0x27] @ ''t equal to ioapicid; not a MP'') @ [10]"
  have u: "printing cfg [] ?u" by (rule printing_dev[OF _ assms(1)]) (simp add: consst.defs)
  have "fmt_ok ?msg []" by (simp add: cstr_def)
  then obtain v where v: "cprintf (Some ?msg) [] ?u = Inr v" "rest (clr v) = rest (clr ?u)" using cprintf_prints[OF u] by (auto simp: printed_def)
  have "ismp v = ismp s" using arg_cong[OF v(2), of ismp] by (simp add: rest_def clr_def)
  then obtain w where w: "ioapicinit s = Inr (fold ioapic_off [0..<ioapic_max s + 1] w)" "ismp w"
    using assms(2) v(1)
    by (cases "drop_bit 24 (io_data s REG_ID) = ucast (ioapicid s)") (auto simp: ioapicinit_def ioapicread_def Let_def ioapic_max_def)
  let ?t = "fold ioapic_off [0..<ioapic_max s + 1] w"
  have j: "irq < 256" "\<forall>i \<in> fst ` set ics. i < 256" using assms(3,4) ioapic_max_less[of s] by (auto dest: le_less_trans)
  have "ismp ?t" "route ?t irq = (INT_DISABLED OR of_nat (T_IRQ0 + irq), 0)" using fold_off[of "ioapic_max s + 1" irq w] ioapic_max_less[of s] j w(2) assms(4) by auto
  then show ?thesis using enables_route[OF _ j(2,1), of ?t] w(1) by (simp split: option.splits)
qed

theorem ioapic_routes_witness:
  "\<exists>t. ioapicinit ((demo_devst (\<lambda>_. 0))\<lparr>ismp := True, io_data := \<lambda>r. 0x170011\<rparr>) = Inr t \<and>
    route (enables [(1, 0), (4, 0), (4, 1)] t) 4 = (36, 0x1000000) \<and> route (enables [(1, 0), (4, 0), (4, 1)] t) 5 = (0x10025, 0)"
proof -
  let ?s = "(demo_devst (\<lambda>_. 0))\<lparr>ismp := True, io_data := \<lambda>r. 0x170011\<rparr>" and ?ics = "[(1, 0), (4, 0), (4, 1)]"
  have s: "printing DEFAULT [] ?s" by (rule printing_dev[OF _ demo_devst_prints[of "\<lambda>_. 0"]]) (simp add: consst.defs)
  have m: "ioapic_max ?s = 23" by (simp add: ioapic_max_def REG_VER_def)
  have v: "of_nat (T_IRQ0 + 4) = (36 :: u32)" "push_bit 24 1 = (0x1000000 :: u32)" "INT_DISABLED OR of_nat (T_IRQ0 + 5) = 0x10025" by code_simp+
  show ?thesis using ioapic_routes[OF s, of ?ics 4] ioapic_routes[OF s, of ?ics 5] m v by auto
qed

end
