(* ===== verification/Xv6_Ide.thy ===== *)
theory Xv6_Ide
  imports Xv6_Devices Xv6_Demo
begin

unbundle bit_operations_syntax

text \<open>
  The driver of the IDE disk (ide.c), which takes the place of memide.c in the kernel for a real disk. The
  controller is the bytes last written to its ports; its address registers select a drive and a sector, which
  \<open>outsl\<close> writes and \<open>insl\<close> reads. The field \<open>qnext\<close> of a buffer is a component of the state of its own.
  A wait for the controller is the status that ends it, a parameter.
\<close>

section \<open>The controller and the driver\<close>

record idest = devst +
  idequeue :: "nat option"
  qnext :: "nat \<Rightarrow> nat option"
  havedisk1 :: bool
  ide_reg :: "u32 \<Rightarrow> u8"
  ide_disk :: "bool \<Rightarrow> u32 \<Rightarrow> block"

definition IDE_DF :: u8 where "IDE_DF = 0x20"
definition IDE_ERR :: u8 where "IDE_ERR = 0x01"
definition IDE_CMD_READ :: u8 where "IDE_CMD_READ = 0x20"
definition IDE_CMD_WRITE :: u8 where "IDE_CMD_WRITE = 0x30"
definition IRQ_IDE :: nat where "IRQ_IDE = 14"

fun ide_outs :: "(u32 \<times> u8) list \<Rightarrow> 'a idest_scheme \<Rightarrow> 'a idest_scheme" where
  "ide_outs [] s = s"
| "ide_outs ((p, b) # ps) s = ide_outs ps (s\<lparr>ide_reg := (ide_reg s)(p := b)\<rparr>)"

definition ide_addr :: "'a idest_scheme \<Rightarrow> u32" where
  "ide_addr s = ucast (ide_reg s 0x1f3) OR push_bit 8 (ucast (ide_reg s 0x1f4)) OR push_bit 16 (ucast (ide_reg s 0x1f5)) OR
     push_bit 24 (ucast (ide_reg s 0x1f6 AND 0xf))"

definition ide_drive :: "'a idest_scheme \<Rightarrow> bool" where
  "ide_drive s \<longleftrightarrow> ide_reg s 0x1f6 AND 0x10 \<noteq> 0"

definition ide_outsl :: "block \<Rightarrow> 'a idest_scheme \<Rightarrow> 'a idest_scheme" where
  "ide_outsl d s = s\<lparr>ide_disk := (ide_disk s)(ide_drive s := (ide_disk s (ide_drive s))(ide_addr s := d))\<rparr>"

definition ide_insl :: "'a idest_scheme \<Rightarrow> block" where
  "ide_insl s = ide_disk s (ide_drive s) (ide_addr s)"

definition idewait :: "bool \<Rightarrow> u8 \<Rightarrow> int" where
  "idewait checkerr r = (if checkerr \<and> r AND (IDE_DF OR IDE_ERR) \<noteq> 0 then -1 else 0)"

text \<open>\<open>st\<close>: the bytes that successive reads of the status port give while disk 1 is selected.\<close>

definition ideinit_pio :: "(nat \<Rightarrow> u8) \<Rightarrow> 'a idest_scheme \<Rightarrow> 'a idest_scheme" where
  "ideinit_pio st s =
     (let s = ioapicenable IRQ_IDE (of_nat (ncpu s) - 1) (picenable IRQ_IDE (initlock IdeLock s));
          s = ide_outs [(0x1f6, 0xe0 OR push_bit 4 1)] s;
          s = (if scan (\<lambda>i. st i \<noteq> 0) 1000 \<noteq> None then s\<lparr>havedisk1 := True\<rparr> else s)
      in ide_outs [(0x1f6, 0xe0 OR push_bit 4 0)] s)"

definition ide_select :: "nat \<Rightarrow> 'a idest_scheme \<Rightarrow> 'a idest_scheme" where
  "ide_select b s =
     (let n = sector (bcache s b)
      in ide_outs [(0x3f6, 0), (0x1f2, 1), (0x1f3, ucast (n AND 0xff)), (0x1f4, ucast (drop_bit 8 n AND 0xff)),
           (0x1f5, ucast (drop_bit 16 n AND 0xff)),
           (0x1f6, ucast (0xe0 OR push_bit 4 (bdev (bcache s b) AND 1) OR drop_bit 24 n AND 0x0f))] s)"

definition idestart :: "nat option \<Rightarrow> 'a idest_scheme \<Rightarrow> 'a idest_scheme res" where
  "idestart ob s =
     (case ob of None \<Rightarrow> Inl (Panic ''idestart'')
      | Some b \<Rightarrow>
        let s = ide_select b s
        in Inr (if bflag s b B_DIRTY then ide_outsl (bdata (bcache s b)) (ide_outs [(0x1f7, IDE_CMD_WRITE)] s)
                else ide_outs [(0x1f7, IDE_CMD_READ)] s))"

text \<open>\<open>r\<close> is the status that ends the wait.\<close>

definition ideintr :: "schedflag \<Rightarrow> u8 \<Rightarrow> 'a idest_scheme \<Rightarrow> 'a idest_scheme res" where
  "ideintr cfg r s =
     bindr (acquire IdeLock s) (\<lambda>s.
     case idequeue s of None \<Rightarrow> release IdeLock s
     | Some b \<Rightarrow>
       let s = s\<lparr>idequeue := qnext s b\<rparr>;
           s = (if \<not> bflag s b B_DIRTY \<and> idewait True r \<ge> 0 then upd_buf b (\<lambda>x. x\<lparr>bdata := ide_insl s\<rparr>) s else s);
           s = upd_buf b (\<lambda>x. x\<lparr>bflags := bflags x OR B_VALID\<rparr>) s;
           s = upd_buf b (\<lambda>x. x\<lparr>bflags := bflags x AND NOT B_DIRTY\<rparr>) s
       in bindr (wakeup cfg (Some (ChanBuf b)) s) (\<lambda>s.
          bindr (if idequeue s \<noteq> None then idestart (idequeue s) s else Inr s) (\<lambda>s.
          release IdeLock s)))"

text \<open>The walk to the end of the queue.\<close>

partial_function (option) ide_tail :: "(nat \<Rightarrow> nat option) \<Rightarrow> nat \<Rightarrow> nat option" where
  "ide_tail n b = (case n b of None \<Rightarrow> Some b | Some c \<Rightarrow> ide_tail n c)"

definition ide_append :: "nat \<Rightarrow> 'a idest_scheme \<Rightarrow> 'a idest_scheme res" where
  "ide_append b s =
     (let s = s\<lparr>qnext := (qnext s)(b := None)\<rparr>
      in case idequeue s of
           None \<Rightarrow> Inr (s\<lparr>idequeue := Some b\<rparr>)
         | Some h \<Rightarrow> (case ide_tail (qnext s) h of
               None \<Rightarrow> Inl (Blocked ''loop'')
             | Some l \<Rightarrow> Inr (s\<lparr>qnext := (qnext s)(l := Some b)\<rparr>)))"

text \<open>\<open>iderw\<close> up to the wait for the disk, the wait, and the way on when the process wakes up.\<close>

definition iderw_enter :: "nat \<Rightarrow> 'a idest_scheme \<Rightarrow> 'a idest_scheme res" where
  "iderw_enter b s =
     (if \<not> bflag s b B_BUSY then Inl (Panic ''iderw: buf not busy'')
      else if bflags (bcache s b) AND (B_VALID OR B_DIRTY) = B_VALID then Inl (Panic ''iderw: nothing to do'')
      else if bdev (bcache s b) \<noteq> 0 \<and> \<not> havedisk1 s then Inl (Panic ''iderw: ide disk 1 not present'')
      else bindr (acquire IdeLock s) (\<lambda>s.
           bindr (ide_append b s) (\<lambda>s.
           if idequeue s = Some b then idestart (Some b) s else Inr s)))"

definition iderw_wait :: "nat \<Rightarrow> 'a idest_scheme \<Rightarrow> (bool option \<times> 'a idest_scheme) res" where
  "iderw_wait b s =
     (if bflags (bcache s b) AND (B_VALID OR B_DIRTY) \<noteq> B_VALID
      then bindr (sleep (ChanBuf b) (Some IdeLock) s) (\<lambda>(i, s). Inr (Some i, s))
      else bindr (release IdeLock s) (\<lambda>s. Inr (None, s)))"

definition iderw_pio :: "nat \<Rightarrow> 'a idest_scheme \<Rightarrow> (bool option \<times> 'a idest_scheme) res" where
  "iderw_pio b s = bindr (iderw_enter b s) (iderw_wait b)"

definition iderw_resume :: "nat \<Rightarrow> bool \<Rightarrow> 'a idest_scheme \<Rightarrow> (bool option \<times> 'a idest_scheme) res" where
  "iderw_resume b i s = bindr (sleep_resume IdeLock i s) (iderw_wait b)"

section \<open>The queue\<close>

fun qlist :: "(nat \<Rightarrow> nat option) \<Rightarrow> nat option \<Rightarrow> nat list \<Rightarrow> bool" where
  "qlist n ob [] \<longleftrightarrow> ob = None"
| "qlist n ob (x # xs) \<longleftrightarrow> ob = Some x \<and> qlist n (n x) xs"

lemma qlist_cong: "\<forall>x \<in> set xs. n' x = n x \<Longrightarrow> qlist n' ob xs = qlist n ob xs"
  by (induction xs arbitrary: ob) auto

lemma ide_tail_last: "qlist n (Some x) (x # xs) \<Longrightarrow> ide_tail n x = Some (last (x # xs))"
proof (induction xs arbitrary: x)
  case (Cons y xs)
  then show ?case by (subst ide_tail.simps) simp
qed (simp add: ide_tail.simps)

lemma qlist_snoc:
  "qlist n ob xs \<Longrightarrow> distinct xs \<Longrightarrow> xs \<noteq> [] \<Longrightarrow> b \<notin> set xs \<Longrightarrow> n b = None \<Longrightarrow> qlist (n(last xs := Some b)) ob (xs @ [b])"
proof (induction xs arbitrary: ob)
  case (Cons x xs)
  show ?case
  proof (cases "xs = []")
    case False
    then have "last xs \<noteq> x" using Cons(3) last_in_set by fastforce
    then show ?thesis using Cons False by auto
  qed (use Cons in auto)
qed simp

section \<open>The disk that the driver implements\<close>

lemma mask_bits: "bit (0xf :: int) i \<longleftrightarrow> i < 4" "bit (0xff :: int) i \<longleftrightarrow> i < 8"
proof -
  have e: "(0xf :: int) = Bit_Operations.mask 4" "(0xff :: int) = Bit_Operations.mask 8" by (simp_all add: mask_eq_exp_minus_1)
  show "bit (0xf :: int) i \<longleftrightarrow> i < 4" unfolding e by (simp add: bit_mask_iff)
  show "bit (0xff :: int) i \<longleftrightarrow> i < 8" unfolding e by (simp add: bit_mask_iff)
qed

lemma bit_below28:
  assumes "(n :: u32) < 2 ^ 28" "bit n i"
  shows "i < 28"
proof -
  have "unat n < 2 ^ 28" using assms(1) by (simp add: word_less_nat_alt)
  then have "bit (take_bit 28 (unat n)) i" using assms(2) by (simp add: take_bit_nat_eq_self bit_unsigned_iff)
  then show ?thesis by (simp add: bit_take_bit_iff)
qed

lemma high_zero: "(0xe0 :: u32) AND 0xf = 0" "push_bit 4 (x AND 1 :: u32) AND 0xf = 0"
  by (auto intro!: bit_word_eqI simp: bit_simps mask_bits)

lemma drive_byte:
  "ucast (0xe0 OR push_bit 4 (1 AND 1) OR (drop_bit 24 n AND 0x0f) :: u32) AND (0x10 :: u8) \<noteq> 0"
  "ucast (0xe0 OR push_bit 4 (d AND 1) OR (drop_bit 24 n AND 0x0f) :: u32) AND (0xf :: u8) = ucast (drop_bit 24 n AND 0x0f :: u32)"
proof -
  have "bit (ucast (0xe0 OR push_bit 4 (1 AND 1) OR (drop_bit 24 n AND 0x0f) :: u32) AND (0x10 :: u8)) 4" by (simp add: bit_simps)
  then show "ucast (0xe0 OR push_bit 4 (1 AND 1) OR (drop_bit 24 n AND 0x0f) :: u32) AND (0x10 :: u8) \<noteq> 0" by (metis bit_0_eq bot_apply bot_bool_def)
  have "ucast (0xe0 OR push_bit 4 (d AND 1) OR (drop_bit 24 n AND 0x0f) :: u32) AND (0xf :: u8)
      = ucast ((0xe0 OR push_bit 4 (d AND 1) OR (drop_bit 24 n AND 0x0f)) AND 0xf :: u32)"
    by (rule bit_word_eqI) (auto simp: bit_simps mask_bits)
  also have "\<dots> = ucast (drop_bit 24 n AND 0x0f :: u32)" by (simp only: bit.conj_disj_distrib2 high_zero or.left_neutral and.assoc and.idem)
  finally show "ucast (0xe0 OR push_bit 4 (d AND 1) OR (drop_bit 24 n AND 0x0f) :: u32) AND (0xf :: u8) = ucast (drop_bit 24 n AND 0x0f :: u32)" .
qed

lemma sector_bytes:
  assumes "(n :: u32) < 2 ^ 28"
  shows "ucast (ucast (n AND 0xff) :: u8) OR push_bit 8 (ucast (ucast (drop_bit 8 n AND 0xff) :: u8)) OR
    push_bit 16 (ucast (ucast (drop_bit 16 n AND 0xff) :: u8)) OR push_bit 24 (ucast (ucast (drop_bit 24 n AND 0x0f) :: u8)) = n"
proof (rule bit_word_eqI)
  fix i assume "i < LENGTH(32)"
  then have c: "i < 8 \<or> 8 \<le> i \<and> i < 16 \<or> 16 \<le> i \<and> i < 24 \<or> 24 \<le> i \<and> i < 28 \<or> 28 \<le> i \<and> i < 32" by auto
  have h: "\<not> bit n i" if "28 \<le> i" using bit_below28[OF assms, of i] that by auto
  show "bit (ucast (ucast (n AND 0xff) :: u8) OR push_bit 8 (ucast (ucast (drop_bit 8 n AND 0xff) :: u8)) OR
    push_bit 16 (ucast (ucast (drop_bit 16 n AND 0xff) :: u8)) OR push_bit 24 (ucast (ucast (drop_bit 24 n AND 0x0f) :: u8)) :: u32) i = bit n i"
    using c h by (elim disjE) (auto simp: bit_simps mask_bits)
qed

text \<open>A request that is worth starting, for a drive with 28-bit addresses.\<close>

definition request_ok :: "'a bcst_scheme \<Rightarrow> nat \<Rightarrow> bool" where
  "request_ok m b \<longleftrightarrow> bflag m b B_BUSY \<and> bflags (bcache m b) AND (B_VALID OR B_DIRTY) \<noteq> B_VALID \<and> bdev (bcache m b) = 1 \<and>
     sector (bcache m b) < disksize m \<and> sector (bcache m b) < 2 ^ 28"

text \<open>The driver with the queue \<open>xs\<close> stands for the memory disk \<open>m\<close>, which has served none of the requests: the
  first request of the queue is in the controller, and what it writes is already on the disk.\<close>

definition started :: "'a idest_scheme \<Rightarrow> 'b bcst_scheme \<Rightarrow> nat list \<Rightarrow> bool" where
  "started s m xs \<longleftrightarrow>
     (case xs of [] \<Rightarrow> ide_disk s True = disk m
      | b # _ \<Rightarrow> ide_addr s = sector (bcache s b) \<and> ide_drive s \<and>
          ide_disk s True = (if bflag s b B_DIRTY then (disk m)(sector (bcache s b) := bdata (bcache s b)) else disk m))"

definition ide_sim :: "'a idest_scheme \<Rightarrow> nat list \<Rightarrow> 'b bcst_scheme \<Rightarrow> bool" where
  "ide_sim s xs m \<longleftrightarrow> havedisk1 s \<and> qlist (qnext s) (idequeue s) xs \<and> distinct xs \<and> bcache m = bcache s \<and>
     (\<forall>b \<in> set xs. request_ok m b) \<and> started s m xs"

lemma idestart_starts:
  assumes "request_ok m b" "bcache m = bcache s" "ide_disk s True = disk m"
  shows "\<exists>t. idestart (Some b) s = Inr t \<and> devst.truncate t = devst.truncate s \<and> qnext t = qnext s \<and> idequeue t = idequeue s \<and>
    havedisk1 t = havedisk1 s \<and> started t m (b # xs)"
proof -
  let ?n = "sector (bcache s b)"
  have n: "?n < 2 ^ 28" "bdev (bcache s b) = 1" using assms(1,2) by (simp_all add: request_ok_def)
  define t where "t = ide_select b s"
  have r: "ide_reg t 0x1f3 = ucast (?n AND 0xff)" "ide_reg t 0x1f4 = ucast (drop_bit 8 ?n AND 0xff)" "ide_reg t 0x1f5 = ucast (drop_bit 16 ?n AND 0xff)"
    "ide_reg t 0x1f6 = ucast (0xe0 OR push_bit 4 (bdev (bcache s b) AND 1) OR drop_bit 24 ?n AND 0x0f)" by (simp_all add: t_def ide_select_def Let_def)
  have T: "devst.truncate t = devst.truncate s" "qnext t = qnext s" "idequeue t = idequeue s" "havedisk1 t = havedisk1 s" "ide_disk t = ide_disk s" "bcache t = bcache s"
    by (simp_all add: t_def ide_select_def Let_def devst.defs)
  have a: "ide_addr t = ?n" unfolding ide_addr_def r drive_byte(2) using sector_bytes[OF n(1)] by simp
  have d: "ide_drive t" unfolding ide_drive_def r n(2) by (rule drive_byte(1))
  let ?c = "if bflag t b B_DIRTY then IDE_CMD_WRITE else IDE_CMD_READ"
  let ?u = "t\<lparr>ide_reg := (ide_reg t)(0x1f7 := ?c)\<rparr>"
  have u: "ide_addr ?u = ?n" "ide_drive ?u" using a d by (simp_all add: ide_addr_def ide_drive_def)
  have "idestart (Some b) s = Inr (if bflag t b B_DIRTY then ide_outsl (bdata (bcache t b)) ?u else ?u)"
    by (simp add: idestart_def Let_def t_def[symmetric])
  then show ?thesis using T u assms(3) by (auto simp: started_def ide_outsl_def bflag_def devst.defs ide_addr_def ide_drive_def)
qed

lemma rest_ide:
  fixes s t :: "'a idest_scheme"
  assumes "rest t = rest s"
  shows "bcache t = bcache s" "qnext t = qnext s" "idequeue t = idequeue s" "havedisk1 t = havedisk1 s" "ide_reg t = ide_reg s" "ide_disk t = ide_disk s"
  using arg_cong[OF assms, of bcache] arg_cong[OF assms, of qnext] arg_cong[OF assms, of idequeue] arg_cong[OF assms, of havedisk1]
    arg_cong[OF assms, of ide_reg] arg_cong[OF assms, of ide_disk] by (simp_all add: rest_def)

lemma sim_rest: "rest t = rest s \<Longrightarrow> ide_sim t xs m = ide_sim s xs m"
  using rest_ide[of t s] by (simp add: ide_sim_def started_def ide_addr_def ide_drive_def bflag_def split: list.split)

lemma kheld_trunc:
  fixes s t :: "'a idest_scheme"
  assumes "devst.truncate t = devst.truncate s" "kheld cfg L s"
  shows "kheld cfg L t"
proof -
  have e: "f (devst.truncate t) = f (devst.truncate s)" for f :: "devst \<Rightarrow> 'b" using assms(1) by simp
  show ?thesis using assms(2)
    by (rule kheld_cong) (use e[of ptable] e[of rr_first] e[of rr_last] e[of initproc] e[of locks] e[of cpus] e[of cur] in \<open>simp_all add: devst.defs\<close>)
qed

lemma trunc_bcache: "devst.truncate t = devst.truncate s \<Longrightarrow> bcache t = bcache s"
  by (drule arg_cong[of _ _ bcache]) (simp add: devst.defs)

lemma flags_done:
  fixes f :: u32
  shows "(f OR B_VALID) AND NOT B_DIRTY = f AND NOT B_DIRTY OR B_VALID" "\<not> bit f 2 \<Longrightarrow> f AND NOT B_DIRTY = f"
proof -
  have "B_VALID AND NOT B_DIRTY = B_VALID" by (simp add: B_VALID_def B_DIRTY_def)
  then show "(f OR B_VALID) AND NOT B_DIRTY = f AND NOT B_DIRTY OR B_VALID" by (simp add: bit.conj_disj_distrib2)
  show "\<not> bit f 2 \<Longrightarrow> f AND NOT B_DIRTY = f" by (rule bit_word_eqI) (auto simp: bit_clear)
qed

lemma enter_sim:
  assumes k: "kheld cfg [] s" and s: "ide_sim s xs m" and b: "b \<notin> set xs" "request_ok m b"
  shows "\<exists>t. iderw_enter b s = Inr t \<and> kheld cfg [IdeLock] t \<and> ide_sim t (xs @ [b]) m"
proof -
  obtain t where t: "acquire IdeLock s = Inr t" "kheld cfg [IdeLock] t" "rest t = rest s" using kheld_acquire[OF k, of IdeLock] by auto
  have S: "ide_sim t xs m" using s sim_rest[OF t(3), of xs m] by simp
  have g: "iderw_enter b s = bindr (ide_append b t) (\<lambda>s. if idequeue s = Some b then idestart (Some b) s else Inr s)"
    using b(2) s t(1) by (auto simp: iderw_enter_def request_ok_def ide_sim_def)
  show ?thesis
  proof (cases xs)
    case Nil
    let ?u = "t\<lparr>qnext := (qnext t)(b := None), idequeue := Some b\<rparr>"
    have u: "bcache m = bcache ?u" "ide_disk ?u True = disk m" using S Nil by (simp_all add: ide_sim_def started_def)
    obtain v where v: "idestart (Some b) ?u = Inr v" "devst.truncate v = devst.truncate ?u" "qnext v = qnext ?u" "idequeue v = Some b"
      "havedisk1 v = havedisk1 ?u" "started v m [b]" using idestart_starts[OF b(2) u, of "[]"] by auto
    have "devst.truncate v = devst.truncate t" unfolding v(2) by (simp add: devst.defs)
    then have "kheld cfg [IdeLock] v" using kheld_trunc t(2) by blast
    moreover have "ide_sim v [b] m" using S v trunc_bcache[OF v(2)] b(2) Nil by (simp add: ide_sim_def)
    moreover have "iderw_enter b s = Inr v" using S Nil v(1) by (simp add: g ide_append_def ide_sim_def)
    ultimately show ?thesis using Nil by simp
  next
    case (Cons x ys)
    let ?n = "(qnext t)(b := None)"
    let ?u = "t\<lparr>qnext := ?n(last xs := Some b)\<rparr>"
    have "\<forall>y \<in> set xs. ?n y = qnext t y" using b(1) by auto
    then have q: "qlist ?n (Some x) xs" "idequeue t = Some x" using S Cons qlist_cong[of xs ?n "qnext t" "Some x"] by (simp_all add: ide_sim_def)
    have "ide_tail ?n x = Some (last xs)" using ide_tail_last[of ?n x ys] q Cons by simp
    then have "iderw_enter b s = Inr ?u" using q(2) b(1) Cons by (simp add: g ide_append_def)
    moreover have "kheld cfg [IdeLock] ?u" by (rule kheld_trunc[OF _ t(2)]) (simp add: devst.defs)
    moreover have "qlist (qnext ?u) (idequeue ?u) (xs @ [b])" using qlist_snoc[OF q(1), of b] S b(1) Cons q(2) by (simp add: ide_sim_def)
    then have "ide_sim ?u (xs @ [b]) m" using S b Cons by (simp add: ide_sim_def started_def ide_addr_def ide_drive_def bflag_def)
    ultimately show ?thesis by blast
  qed
qed

lemma memide_serves:
  assumes "request_ok m b"
  shows "\<exists>n. iderw b m = Inr n \<and> disksize n = disksize m \<and>
    bcache n = (bcache m)(b := (bcache m b)\<lparr>bdata := if is_dirty (bcache m b) then bdata (bcache m b) else disk m (sector (bcache m b)),
      bflags := bflags (bcache m b) AND NOT B_DIRTY OR B_VALID\<rparr>) \<and>
    disk n = (if is_dirty (bcache m b) then (disk m)(sector (bcache m b) := bdata (bcache m b)) else disk m)"
proof -
  have f: "\<not> (bit (bflags (bcache m b)) (Suc 0) \<and> \<not> is_dirty (bcache m b))" "\<not> disksize m \<le> sector (bcache m b)" "is_busy (bcache m b)" "bdev (bcache m b) = 1"
    using assms by (auto simp: request_ok_def)
  show ?thesis using f by (cases "is_dirty (bcache m b)") (simp_all add: iderw_def upd_buf_def flags_done Let_def)
qed

text \<open>The buffer that an interrupt with status \<open>r\<close> leaves: a read that fails keeps the old bytes.\<close>

definition served :: "u8 \<Rightarrow> 'a bcst_scheme \<Rightarrow> nat \<Rightarrow> buf" where
  "served r m b = (bcache m b)
     \<lparr>bdata := if is_dirty (bcache m b) \<or> r AND (IDE_DF OR IDE_ERR) \<noteq> 0 then bdata (bcache m b) else disk m (sector (bcache m b)),
      bflags := bflags (bcache m b) AND NOT B_DIRTY OR B_VALID\<rparr>"

lemma intr_sim:
  assumes k: "kheld cfg [] s" and s: "ide_sim s (b # ys) m"
    and n: "bcache n = (bcache m)(b := served r m b)" "disksize n = disksize m"
      "disk n = (if is_dirty (bcache m b) then (disk m)(sector (bcache m b) := bdata (bcache m b)) else disk m)"
  shows "\<exists>t. ideintr cfg r s = Inr t \<and> kheld cfg [] t \<and> ide_sim t ys n"
proof -
  obtain t where t: "acquire IdeLock s = Inr t" "kheld cfg [IdeLock] t" "rest t = rest s" using kheld_acquire[OF k, of IdeLock] by auto
  have S: "ide_sim t (b # ys) m" using s sim_rest[OF t(3), of "b # ys" m] by simp
  then have q: "idequeue t = Some b" "qlist (qnext t) (qnext t b) ys" "b \<notin> set ys" "distinct ys" "bcache m = bcache t" "request_ok m b"
    and a: "ide_addr t = sector (bcache t b)" "ide_drive t" and h: "havedisk1 t"
    and d: "ide_disk t True = (if is_dirty (bcache t b) then (disk m)(sector (bcache t b) := bdata (bcache t b)) else disk m)"
    by (simp_all add: ide_sim_def started_def)
  define u where "u = t\<lparr>idequeue := qnext t b, bcache := (bcache t)(b := served r m b)\<rparr>"
  let ?s = "t\<lparr>idequeue := qnext t b\<rparr>"
  have "ide_insl ?s = ide_disk t True (sector (bcache t b))" using a by (simp add: ide_insl_def ide_addr_def ide_drive_def)
  then have U: "upd_buf b (\<lambda>x. x\<lparr>bflags := (bflags x OR B_VALID) AND NOT B_DIRTY\<rparr>)
      (if \<not> is_dirty (bcache t b) \<and> 0 \<le> idewait True r then upd_buf b (bdata_update (\<lambda>_. ide_insl ?s)) ?s else ?s) = u"
    using d q(5) by (cases "is_dirty (bcache t b)") (simp_all add: upd_buf_def u_def served_def flags_done idewait_def)
  have N: "bcache n = bcache u" "disk n = ide_disk t True" using n(1,3) q(5) d by (simp_all add: u_def)
  obtain v where v: "wakeup cfg (Some (ChanBuf b)) u = Inr v" "kheld cfg [IdeLock] v" "rest v = rest u"
    using kheld_wakeup[of cfg "[IdeLock]" u "Some (ChanBuf b)"] kheld_cong[OF t(2), of u] by (auto simp: u_def)
  have i: "ideintr cfg r s = bindr (if idequeue v \<noteq> None then idestart (idequeue v) v else Inr v) (release IdeLock)"
    using t(1) q(1) v(1) by (simp add: ideintr_def Let_def U)
  have V: "qlist (qnext v) (idequeue v) ys" "bcache n = bcache v" "ide_disk v True = disk n" "havedisk1 v"
    using rest_ide[OF v(3)] q(2) N h by (simp_all add: u_def)
  have R: "\<forall>y \<in> set ys. request_ok n y" using S q(3,5) n(1,2) by (auto simp: ide_sim_def request_ok_def)
  obtain w where w: "(if idequeue v \<noteq> None then idestart (idequeue v) v else Inr v) = Inr w" "kheld cfg [IdeLock] w" "ide_sim w ys n"
  proof (cases ys)
    case Nil
    then show ?thesis using V v(2) that[of v] by (simp add: ide_sim_def started_def)
  next
    case (Cons y zs)
    obtain w where w: "idestart (Some y) v = Inr w" "devst.truncate w = devst.truncate v" "qnext w = qnext v" "idequeue w = idequeue v"
      "havedisk1 w = havedisk1 v" "started w n ys" using idestart_starts[of n y v zs] R V Cons by auto
    then show ?thesis using that[of w] V R q(4) Cons kheld_trunc[OF w(2) v(2)] trunc_bcache[OF w(2)] by (simp add: ide_sim_def)
  qed
  obtain z where "release IdeLock w = Inr z" "kheld cfg [] z" "rest z = rest w" using kheld_release[OF w(2)] by auto
  then show ?thesis using w sim_rest[of z w ys n] i by auto
qed

text \<open>C12. The driver implements the memory disk, as long as the controller reports no error. A request that \<open>iderw\<close> makes
  joins the end of the queue and changes nothing that the memory disk shows. An interrupt for a write, or for a read whose status
  has no error bit, has on the first request of the queue and on the disk exactly the effect of the \<open>iderw\<close> of memide.c,
  takes it off the queue and starts the next one, so the requests are served in the order in which they were made. After
  a read with an error bit the buffer is marked valid all the same, with the bytes it had before.\<close>

theorem ide_implements_memide:
  assumes "kheld cfg [] s" "ide_sim s xs m"
  shows "(\<forall>b. b \<notin> set xs \<and> request_ok m b \<longrightarrow>
        (\<exists>t. iderw_enter b s = Inr t \<and> kheld cfg [IdeLock] t \<and> ide_sim t (xs @ [b]) m)) \<and>
    (\<forall>b ys r. xs = b # ys \<and> (bflag m b B_DIRTY \<or> r AND (IDE_DF OR IDE_ERR) = 0) \<longrightarrow>
        (\<exists>t n. ideintr cfg r s = Inr t \<and> kheld cfg [] t \<and> iderw b m = Inr n \<and> ide_sim t ys n)) \<and>
    (\<forall>b ys r. xs = b # ys \<and> \<not> bflag m b B_DIRTY \<and> r AND (IDE_DF OR IDE_ERR) \<noteq> 0 \<longrightarrow>
        (\<exists>t. ideintr cfg r s = Inr t \<and> kheld cfg [] t \<and> ide_sim t ys (upd_buf b (\<lambda>x. x\<lparr>bflags := bflags x OR B_VALID\<rparr>) m)))"
proof (intro conjI allI impI)
  fix b ys r assume a: "xs = b # ys \<and> (bflag m b B_DIRTY \<or> r AND (IDE_DF OR IDE_ERR) = 0)"
  then have "request_ok m b" using assms(2) by (simp add: ide_sim_def)
  then obtain n where n: "iderw b m = Inr n" "bcache n = (bcache m)(b := served r m b)" "disksize n = disksize m"
      "disk n = (if is_dirty (bcache m b) then (disk m)(sector (bcache m b) := bdata (bcache m b)) else disk m)"
    using memide_serves[of m b] a by (auto simp: served_def cong: if_cong)
  then show "\<exists>t n. ideintr cfg r s = Inr t \<and> kheld cfg [] t \<and> iderw b m = Inr n \<and> ide_sim t ys n"
    using intr_sim[OF assms(1), of b ys m n r] assms(2) a by blast
next
  fix b ys r assume a: "xs = b # ys \<and> \<not> bflag m b B_DIRTY \<and> r AND (IDE_DF OR IDE_ERR) \<noteq> 0"
  let ?n = "upd_buf b (\<lambda>x. x\<lparr>bflags := bflags x OR B_VALID\<rparr>) m"
  have "bcache ?n = (bcache m)(b := served r m b)" "disk ?n = (if is_dirty (bcache m b) then (disk m)(sector (bcache m b) := bdata (bcache m b)) else disk m)"
    using a by (simp_all add: upd_buf_def served_def flags_done)
  then show "\<exists>t. ideintr cfg r s = Inr t \<and> kheld cfg [] t \<and> ide_sim t ys ?n"
    using intr_sim[OF assms(1), of b ys m ?n r] assms(2) a by (simp add: upd_buf_def)
qed (use enter_sim[OF assms] in blast)

text \<open>A disk with the content of the small example and one buffer to be written to sector 7.\<close>

definition demo_idest :: idest where
  "demo_idest = devst.extend (kernst.extend demo_kernst
     (devst.fields irqmask_init [] 0 (\<lambda>_. 0) 0 (\<lambda>_. 0) [] 0 (\<lambda>_ _. 0) 0 0 False 0 (\<lambda>_. 0) 0))
     (idest.fields None (\<lambda>_. None) True (\<lambda>_. 0) (\<lambda>_. demo_disk))
     \<lparr>bcache := blank_buf(0 := (blank_buf 0)\<lparr>bflags := B_BUSY OR B_DIRTY, bdev := 1, sector := 7\<rparr>)\<rparr>"

lemma demo_idest_held: "kheld DEFAULT [] demo_idest"
proof -
  have "rrq demo_idest []" by (simp add: rrq_def dll_def nx_def pv_def demo_idest_def idest.defs devst.defs demo_unfold idle_proc_def)
  then have "qinv DEFAULT (False, {}) demo_idest" by (auto simp: qinv_def covered_def)
  then show ?thesis by (simp add: kheld_def cpu_ok_def demo_idest_def idest.defs devst.defs demo_unfold)
qed

lemma demo_idest_sim: "ide_sim demo_idest [] demo_idest" "request_ok demo_idest 0"
  by (simp_all add: ide_sim_def started_def request_ok_def demo_idest_def idest.defs devst.defs demo_unfold bit_or_iff)

theorem ide_implements_memide_witness:
  "\<exists>t u v n. iderw_enter 0 demo_idest = Inr t \<and> release IdeLock t = Inr u \<and> ideintr DEFAULT 0x40 u = Inr v \<and>
    iderw 0 demo_idest = Inr n \<and> ide_sim v [] n"
proof -
  obtain t where t: "iderw_enter 0 demo_idest = Inr t" "kheld DEFAULT [IdeLock] t" "ide_sim t [0] demo_idest"
    using ide_implements_memide[OF demo_idest_held demo_idest_sim(1)] demo_idest_sim(2) by auto
  obtain u where u: "release IdeLock t = Inr u" "kheld DEFAULT [] u" "rest u = rest t" using kheld_release[OF t(2)] by auto
  have "ide_sim u [0] demo_idest" using t(3) sim_rest[OF u(3), of "[0]" demo_idest] by simp
  moreover have "(0x40 :: u8) AND (IDE_DF OR IDE_ERR) = 0" by (simp add: IDE_DF_def IDE_ERR_def)
  ultimately show ?thesis using ide_implements_memide[OF u(2), of "[0]" demo_idest] t(1) u(1) by auto
qed

end
