(* ===== verification/Xv6_Args.thy ===== *)
theory Xv6_Args
  imports Xv6_Signal
begin

unbundle bit_operations_syntax

text \<open>
  The arguments of a system call come from the calling process. What syscall.c accepts of them lies in the memory
  of the process, and looking at it does not fault.
\<close>

section \<open>User memory\<close>

text \<open>The process \<open>me\<close> is current and all of its memory is mapped.\<close>

definition user_mapped :: "'a procst_scheme \<Rightarrow> nat \<Rightarrow> bool" where
  "user_mapped s me \<longleftrightarrow> myproc s = Some me \<and> sz (ptable s me) \<le> KERNBASE \<and>
     (\<forall>a. a < sz (ptable s me) \<longrightarrow> (\<exists>b. uload8 (pgdir (ptable s me)) a s = Inr b))"

lemma nonneg_unat:
  assumes "0 \<le> sint (w :: u32)"
  shows "unat w < 2 ^ 31"
proof -
  have "\<not> bit (uint w) 31" using assms by (simp add: sint_uint)
  then have "\<not> bit (unat w) 31" by (simp add: bit_uint_iff bit_unsigned_iff)
  then have "even (unat w div 2 ^ 31)" by (simp add: bit_iff_odd)
  moreover have "unat w div 2 ^ 31 < 2" using unat_lt32[of w] by (simp add: div_less_iff_less_mult)
  ultimately have "unat w div 2 ^ 31 = 0" by (metis One_nat_def even_zero less_2_cases odd_one)
  then show ?thesis by (simp add: div_eq_0_iff)
qed

lemma unat_KERNBASE: "unat KERNBASE = 2 ^ 31"
  by (simp add: KERNBASE_def)

lemma user_load:
  assumes "user_mapped s me" "unat a + i < unat (sz (ptable s me))"
  shows "\<exists>b. uload8 (pgdir (ptable s me)) (a + of_nat i) s = Inr b"
proof -
  have "unat (sz (ptable s me)) \<le> 2 ^ 31" using assms(1) unat_KERNBASE by (simp add: user_mapped_def word_le_nat_alt)
  then have "unat (a + of_nat i) = unat a + i" using assms(2) by (simp add: unat_word_ariths(1) unat_of_nat32)
  then have "a + of_nat i < sz (ptable s me)" using assms(2) by (simp add: word_less_nat_alt)
  then show ?thesis using assms(1) by (simp add: user_mapped_def)
qed

lemma uload32_mapped:
  assumes "user_mapped s me" "unat a + 4 \<le> unat (sz (ptable s me))"
  shows "\<exists>w. uload32 (pgdir (ptable s me)) a s = Inr w"
proof -
  have "\<exists>b. uload8 (pgdir (ptable s me)) (a + of_nat i) s = Inr b" if "i < 4" for i using user_load[OF assms(1)] assms(2) that by simp
  from this[of 0] this[of 1] this[of 2] this[of 3] show ?thesis by (auto simp: uload32_def)
qed

lemma fetchint_mapped:
  assumes "user_mapped s me"
  shows "if unat addr + 4 \<le> unat (sz (ptable s me)) then \<exists>w. fetchint addr s = Inr (Some w) else fetchint addr s = Inr None"
proof -
  have m: "theproc s = Inr me" "unat (sz (ptable s me)) \<le> 2 ^ 31"
    using assms unat_KERNBASE by (simp_all add: user_mapped_def theproc_def word_le_nat_alt)
  have "addr \<ge> sz (ptable s me) \<or> addr + 4 > sz (ptable s me) \<longleftrightarrow> \<not> unat addr + 4 \<le> unat (sz (ptable s me))"
  proof (cases "unat addr < 2 ^ 31")
    case True
    then have "unat (addr + 4) = unat addr + 4" by (simp add: unat_word_ariths(1))
    then show ?thesis by (auto simp: word_le_nat_alt word_less_nat_alt)
  next
    case False
    then show ?thesis using m(2) by (auto simp: word_le_nat_alt)
  qed
  then show ?thesis using m(1) uload32_mapped[OF assms, of addr] by (auto simp: fetchint_def Let_def theproc_def)
qed

lemma fetchstr_from_reads:
  "\<forall>i<k. \<exists>b. uload8 pg (a + of_nat i) s = Inr b \<Longrightarrow>
    (\<exists>bs. fetchstr_from pg k a s = Inr (Some bs) \<and> length bs < k \<and> 0 \<notin> set bs \<and>
      (\<forall>i<length bs. uload8 pg (a + of_nat i) s = Inr (bs ! i)) \<and> uload8 pg (a + of_nat (length bs)) s = Inr 0) \<or>
    fetchstr_from pg k a s = Inr None \<and> (\<forall>i<k. uload8 pg (a + of_nat i) s \<noteq> Inr 0)"
proof (induction k arbitrary: a)
  case (Suc k)
  obtain b where b: "uload8 pg a s = Inr b" using Suc(2) by force
  show ?case
  proof (cases "b = 0")
    case True
    then show ?thesis using b by simp
  next
    case False
    have e: "uload8 pg (a + 1 + of_nat i) s = uload8 pg (a + of_nat (Suc i)) s" for i by (simp add: ac_simps)
    have "\<forall>i<k. \<exists>b. uload8 pg (a + 1 + of_nat i) s = Inr b" unfolding e using Suc(2) by auto
    from Suc(1)[OF this] show ?thesis
    proof (elim disjE exE conjE)
      fix bs assume h: "fetchstr_from pg k (a + 1) s = Inr (Some bs)" "length bs < k" "0 \<notin> set bs"
        "\<forall>i<length bs. uload8 pg (a + 1 + of_nat i) s = Inr (bs ! i)" "uload8 pg (a + 1 + of_nat (length bs)) s = Inr 0"
      have "\<forall>i<length (b # bs). uload8 pg (a + of_nat i) s = Inr ((b # bs) ! i)"
        using h(4) b unfolding e by (auto simp: less_Suc_eq_0_disj simp del: of_nat_Suc)
      then show ?thesis using h b False unfolding e by (intro disjI1 exI[of _ "b # bs"]) auto
    next
      assume h: "fetchstr_from pg k (a + 1) s = Inr None" "\<forall>i<k. uload8 pg (a + 1 + of_nat i) s \<noteq> Inr 0"
      have "\<forall>i<Suc k. uload8 pg (a + of_nat i) s \<noteq> Inr 0" using h(2) b False unfolding e by (auto simp: less_Suc_eq_0_disj simp del: of_nat_Suc)
      then show ?thesis using h(1) b False by simp
    qed
  qed
qed simp

text \<open>C15. What the kernel takes from a process lies in its memory. \<open>fetchint\<close> accepts exactly the addresses of words inside the
  memory of the process, also near the top of the address space, where \<open>addr + 4\<close> wraps around. \<open>fetchstr\<close> accepts exactly
  the strings that end inside it and returns their bytes. \<open>argptr\<close> accepts only pointers into it, and of the blocks
  whose size is not negative exactly those that end inside it. None of them faults.\<close>

theorem user_arguments:
  assumes "user_mapped s me"
  shows "(if unat addr + 4 \<le> unat (sz (ptable s me)) then \<exists>w. fetchint addr s = Inr (Some w) else fetchint addr s = Inr None) \<and>
    ((\<exists>bs. fetchstr addr s = Inr (Some bs) \<and> unat addr + length bs < unat (sz (ptable s me)) \<and> 0 \<notin> set bs \<and>
        (\<forall>i<length bs. uload8 (pgdir (ptable s me)) (addr + of_nat i) s = Inr (bs ! i)) \<and>
        uload8 (pgdir (ptable s me)) (addr + of_nat (length bs)) s = Inr 0) \<or>
     fetchstr addr s = Inr None \<and>
        (\<forall>i. unat addr + i < unat (sz (ptable s me)) \<longrightarrow> uload8 (pgdir (ptable s me)) (addr + of_nat i) s \<noteq> Inr 0)) \<and>
    (\<exists>a r. argint n s = Inr a \<and> argptr n len s = Inr r \<and> (\<forall>p. r = Some p \<longrightarrow> a = Some p \<and> unat p < unat (sz (ptable s me))) \<and>
      (\<forall>p. 0 \<le> sint len \<longrightarrow> r = Some p \<longleftrightarrow>
        a = Some p \<and> unat p < unat (sz (ptable s me)) \<and> unat p + unat len \<le> unat (sz (ptable s me))))"
proof (intro conjI)
  let ?z = "sz (ptable s me)" and ?g = "pgdir (ptable s me)"
  have m: "theproc s = Inr me" "unat ?z \<le> 2 ^ 31" using assms unat_KERNBASE by (simp_all add: user_mapped_def theproc_def word_le_nat_alt)
  show "if unat addr + 4 \<le> unat ?z then \<exists>w. fetchint addr s = Inr (Some w) else fetchint addr s = Inr None" by (rule fetchint_mapped[OF assms])
  show "(\<exists>bs. fetchstr addr s = Inr (Some bs) \<and> unat addr + length bs < unat ?z \<and> 0 \<notin> set bs \<and>
        (\<forall>i<length bs. uload8 ?g (addr + of_nat i) s = Inr (bs ! i)) \<and> uload8 ?g (addr + of_nat (length bs)) s = Inr 0) \<or>
     fetchstr addr s = Inr None \<and> (\<forall>i. unat addr + i < unat ?z \<longrightarrow> uload8 ?g (addr + of_nat i) s \<noteq> Inr 0)"
  proof (cases "addr < ?z")
    case True
    then have d: "unat (?z - addr) = unat ?z - unat addr" "unat addr < unat ?z" by (simp_all add: unat_sub word_less_nat_alt word_le_nat_alt)
    have "\<forall>i<unat (?z - addr). \<exists>b. uload8 ?g (addr + of_nat i) s = Inr b" using user_load[OF assms] d by auto
    note R = fetchstr_from_reads[OF this]
    have "fetchstr addr s = fetchstr_from ?g (unat ?z - unat addr) addr s" using True m(1) d(1) by (simp add: fetchstr_def not_le theproc_def Let_def)
    moreover have "unat addr + i < unat ?z \<longleftrightarrow> i < unat ?z - unat addr" for i by auto
    ultimately show ?thesis using R unfolding d(1) by simp
  next
    case False
    then show ?thesis using m(1) by (auto simp: fetchstr_def not_less word_le_nat_alt theproc_def)
  qed
  obtain r where r: "argint n s = Inr r" using fetchint_mapped[OF assms] m(1) by (auto simp: argint_def theproc_def split: if_splits) (metis (full_types))
  show "\<exists>a r. argint n s = Inr a \<and> argptr n len s = Inr r \<and> (\<forall>p. r = Some p \<longrightarrow> a = Some p \<and> unat p < unat ?z) \<and>
      (\<forall>p. 0 \<le> sint len \<longrightarrow> r = Some p \<longleftrightarrow> a = Some p \<and> unat p < unat ?z \<and> unat p + unat len \<le> unat ?z)"
  proof (cases r)
    case (Some i)
    have "i + len \<le> ?z \<longleftrightarrow> unat i + unat len \<le> unat ?z" if "0 \<le> sint len" "i < ?z"
    proof -
      have "unat len < 2 ^ 31" using nonneg_unat[OF that(1)] .
      then have "unat (i + len) = unat i + unat len" using that(2) m(2) by (simp add: unat_word_ariths(1) word_less_nat_alt)
      then show ?thesis by (simp add: word_le_nat_alt)
    qed
    then show ?thesis using r Some m(1) by (auto simp: argptr_def not_le theproc_def word_less_nat_alt[symmetric])
  qed (use r in \<open>simp add: argptr_def\<close>)
qed

text \<open>A process with 64 bytes of memory.\<close>

definition small_kernst :: kernst where
  "small_kernst = evil_kernst\<lparr>ptable := (\<lambda>_. idle_proc\<lparr>tf := 0x1000, pgdir := 0x80003000, sz := 64\<rparr>)\<rparr>"

theorem user_arguments_witness:
  "(\<exists>w. fetchint 60 small_kernst = Inr (Some w)) \<and> fetchint 61 small_kernst = Inr None \<and> fetchint 0xFFFFFFFE small_kernst = Inr None"
proof -
  have "\<exists>b. uload8 0x80003000 a small_kernst = Inr b" if "a < 64" for a
  proof -
    have "unat a < 76" using that by (simp add: word_less_nat_alt)
    then have "uload8 0x80003000 a evil_kernst = Inr 0" using evil_page[of "unat a"] by simp
    then show ?thesis by (simp add: uload8_def small_kernst_def)
  qed
  moreover have p: "ptable small_kernst 0 = idle_proc\<lparr>tf := 0x1000, pgdir := 0x80003000, sz := 64\<rparr>" by (simp add: small_kernst_def)
  moreover have "myproc small_kernst = Some 0" by (simp add: small_kernst_def evil_kernst_def)
  ultimately have m: "user_mapped small_kernst 0" by (simp add: user_mapped_def KERNBASE_def)
  show ?thesis
    using user_arguments[OF m, of 60 0 0] user_arguments[OF m, of 61 0 0] user_arguments[OF m, of 4294967294 0 0] by (simp add: p)
qed

end
