(* ===== verification/Xv6_Sh.thy ===== *)
theory Xv6_Sh
  imports Xv6_Syscall "HOL-Library.Multiset"
begin

unbundle bit_operations_syntax

text \<open>
  The parser of the shell (sh.c). The line is the list of its bytes before the NUL, and a pointer into it is an
  offset; the end of the line is its length. A node of the command tree holds the two pointers of each of its
  words, as the node of the source does; the type of trees leaves open what a word is. \<open>panic\<close> of the shell prints its message and ends the process, here the
  result of the whole parser. The parsing functions call each other, so they carry fuel.
\<close>

section \<open>Tokens\<close>

type_synonym token = "nat \<times> nat"

datatype 'w cmd =
    Execcmd "'w list"
  | Redircmd "'w cmd" 'w u32 nat
  | Pipecmd "'w cmd" "'w cmd"
  | Listcmd "'w cmd" "'w cmd"
  | Backcmd "'w cmd"

definition MAXARGS :: nat where "MAXARGS = 10"

definition whitespace :: "u8 list" where "whitespace = [32, 9, 13, 10, 11]"
definition symbols :: "u8 list" where "symbols = cstr ''<|>&;()''"

definition char_at :: "u8 list \<Rightarrow> nat \<Rightarrow> u8" where
  "char_at buf i = (if i < length buf then buf ! i else 0)"

definition among :: "u8 \<Rightarrow> u8 list \<Rightarrow> bool" where
  "among c cs \<longleftrightarrow> list_ex (\<lambda>d. d = c) cs"

definition skip_ws :: "u8 list \<Rightarrow> nat \<Rightarrow> nat" where
  "skip_ws buf s = s + length (takeWhile (\<lambda>c. among c whitespace) (drop s buf))"

definition word_end :: "u8 list \<Rightarrow> nat \<Rightarrow> nat" where
  "word_end buf s = s + length (takeWhile (\<lambda>c. \<not> among c whitespace \<and> \<not> among c symbols) (drop s buf))"

definition gettoken :: "u8 list \<Rightarrow> nat \<Rightarrow> u8 \<times> token \<times> nat" where
  "gettoken buf s =
     (let q = skip_ws buf s; c = char_at buf q;
          (r, e) = (if c = 0 then (c, q)
                    else if among c (cstr ''|();&<'') then (c, q + 1)
                    else if c = of_char CHR ''>'' then
                      if char_at buf (q + 1) = of_char CHR ''>'' then (of_char CHR ''+'', q + 2) else (c, q + 1)
                    else (of_char CHR ''a'', word_end buf q))
      in (r, (q, e), skip_ws buf e))"

definition peek :: "u8 list \<Rightarrow> nat \<Rightarrow> u8 list \<Rightarrow> bool \<times> nat" where
  "peek buf s toks = (let s = skip_ws buf s in (char_at buf s \<noteq> 0 \<and> among (char_at buf s) toks, s))"

abbreviation tok_a :: u8 where "tok_a \<equiv> of_char CHR ''a''"

section \<open>Every call of the scanner moves on\<close>

lemma skip_ws_bounds: "s \<le> length buf \<Longrightarrow> s \<le> skip_ws buf s \<and> skip_ws buf s \<le> length buf"
  using length_takeWhile_le[of "\<lambda>c. among c whitespace" "drop s buf"] by (simp add: skip_ws_def)

lemma skip_ws_stop: "skip_ws buf s < length buf \<Longrightarrow> \<not> among (buf ! skip_ws buf s) whitespace"
  using nth_length_takeWhile[of "\<lambda>c. among c whitespace" "drop s buf"] by (simp add: skip_ws_def)

lemma word_end_bounds: "s \<le> length buf \<Longrightarrow> s \<le> word_end buf s \<and> word_end buf s \<le> length buf"
  using length_takeWhile_le[of "\<lambda>c. \<not> among c whitespace \<and> \<not> among c symbols" "drop s buf"] by (simp add: word_end_def)

lemma word_end_step:
  assumes "s < length buf" "\<not> among (buf ! s) whitespace" "\<not> among (buf ! s) symbols"
  shows "s < word_end buf s"
  using assms by (cases "drop s buf") (auto simp: word_end_def Cons_nth_drop_Suc[symmetric])

lemma char_at_len: "char_at buf s \<noteq> 0 \<Longrightarrow> s < length buf"
  by (simp add: char_at_def split: if_splits)

lemma symbols_among: "among c symbols \<longleftrightarrow> among c (cstr ''|();&<'') \<or> c = of_char CHR ''>''"
  by (auto simp: among_def symbols_def cstr_def)

lemma gettoken_bounds:
  assumes "s \<le> length buf" "gettoken buf s = (r, (q, e), s')"
  shows "s \<le> q \<and> q \<le> e \<and> e \<le> s' \<and> s' \<le> length buf \<and> (r \<noteq> 0 \<longrightarrow> q < e) \<and> (r = 0 \<longrightarrow> e = length buf \<or> buf ! q = 0)"
proof -
  have Q: "q = skip_ws buf s" using assms(2) by (auto simp: gettoken_def Let_def split: prod.splits)
  have q: "s \<le> q" "q \<le> length buf" using skip_ws_bounds[OF assms(1)] Q by auto
  have S: "s' = skip_ws buf e" using assms(2) by (auto simp: gettoken_def Let_def split: prod.splits)
  show ?thesis
  proof (cases "char_at buf q = 0")
    case True
    then have "e = q" "r = 0" using assms(2) Q by (auto simp: gettoken_def Let_def)
    then show ?thesis using q True S skip_ws_bounds[of e buf] by (auto simp: char_at_def split: if_splits)
  next
    case False
    then have l: "q < length buf" by (rule char_at_len)
    have e: "q < e \<and> e \<le> length buf"
    proof (cases "among (char_at buf q) (cstr ''|();&<'')")
      case True
      then show ?thesis using assms(2) Q False l by (auto simp: gettoken_def Let_def)
    next
      case n: False
      show ?thesis
      proof (cases "char_at buf q = of_char CHR ''>''")
        case True
        then show ?thesis using assms(2) Q False n l char_at_len[of buf "Suc q"] by (auto simp: gettoken_def Let_def split: if_splits)
      next
        case m: False
        have "e = word_end buf q" using assms(2) Q False n m by (auto simp: gettoken_def Let_def)
        moreover have "\<not> among (buf ! q) symbols" using n m l by (simp add: symbols_among char_at_def)
        ultimately show ?thesis using word_end_step[of q buf] word_end_bounds[of q buf] skip_ws_stop[of buf s] l Q by auto
      qed
    qed
    have "r \<noteq> 0" using assms(2) Q False by (auto simp: gettoken_def Let_def split: if_splits)
    then show ?thesis using q e S skip_ws_bounds[of e buf] by auto
  qed
qed

lemma peek_bounds: "s \<le> length buf \<Longrightarrow> peek buf s toks = (b, s') \<Longrightarrow> s \<le> s' \<and> s' \<le> length buf \<and> (b \<longrightarrow> s' < length buf)"
  using skip_ws_bounds[of s buf] by (auto simp: peek_def Let_def dest: char_at_len)

lemma peek_True: "peek buf s toks = (True, s') \<Longrightarrow> s \<le> s' \<and> s' < length buf \<and> char_at buf s' \<noteq> 0 \<and> among (char_at buf s') toks"
  by (auto simp: peek_def Let_def skip_ws_def dest: char_at_len)

lemma gettoken_at:
  assumes "char_at buf s \<noteq> 0" "\<not> among (char_at buf s) whitespace" "gettoken buf s = (r, (q, e), s')"
  shows "r \<noteq> 0 \<and> q = s \<and> s < e \<and> e \<le> s' \<and> s' \<le> length buf"
proof -
  have l: "s < length buf" by (rule char_at_len[OF assms(1)])
  have "skip_ws buf s = s" using l assms(2) by (simp add: skip_ws_def Cons_nth_drop_Suc[symmetric] char_at_def)
  then have "q = s" "r \<noteq> 0" using assms(1,3) by (auto simp: gettoken_def Let_def split: prod.splits if_splits)
  then show ?thesis using gettoken_bounds[of s buf r q e s'] l assms(3) by auto
qed

section \<open>The parser\<close>

text \<open>A redirection: its token and the pointers to the file name.\<close>

type_synonym 'w redir = "u8 \<times> 'w"

definition redircmd :: "'w cmd \<Rightarrow> 'w redir \<Rightarrow> 'w cmd" where
  "redircmd c r =
     (case r of (tok, f) \<Rightarrow>
        if tok = of_char CHR ''<'' then Redircmd c f O_RDONLY 0 else Redircmd c f (O_WRONLY OR O_CREATE) 1)"

text \<open>\<open>parseredirs\<close> finds the redirections; its caller wraps them around the command, from the first one outwards.\<close>

function parseredirs :: "u8 list \<Rightarrow> nat \<Rightarrow> (token redir list \<times> nat) res" where
  "parseredirs buf s =
     (case peek buf s (cstr ''<>'') of (b, s) \<Rightarrow>
        if \<not> b then Inr ([], s)
        else case gettoken buf s of (tok, _, s) \<Rightarrow>
          case gettoken buf s of (t, f, s) \<Rightarrow>
            if t \<noteq> tok_a then Inl (Panic ''missing file for redirection'')
            else bindr (parseredirs buf s) (\<lambda>(rs, s). Inr ((tok, f) # rs, s)))"
  by pat_completeness auto
termination
proof (relation "measure (\<lambda>(buf, s). length buf - s)")
  fix buf s b s1 tok y xa s2 t ya f s3
  assume a: "(b, s1) = peek buf s (cstr ''<>'')" "\<not> \<not> b" "(tok, y) = gettoken buf s1" "(xa, s2) = y"
    "(t, ya) = gettoken buf s2" "(f, s3) = ya" "\<not> t \<noteq> tok_a"
  have 1: "s \<le> s1" "s1 < length buf" using peek_True[of buf s _ s1] a(1,2) by auto
  have 2: "s1 \<le> s2" "s2 \<le> length buf" using gettoken_bounds[of s1 buf tok "fst xa" "snd xa" s2] a(3,4) 1 by auto
  have "s2 < s3" using gettoken_bounds[of s2 buf t "fst f" "snd f" s3] a(5-7) 2 by auto
  then show "((buf, s3), (buf, s)) \<in> measure (\<lambda>(buf, s). length buf - s)" using 1 2 by auto
qed auto

declare parseredirs.simps [simp del]

lemma parseredirs_bounds:
  "parseredirs buf s = Inr (rs, s') \<Longrightarrow> s \<le> length buf \<Longrightarrow> s \<le> s' \<and> s' \<le> length buf"
proof (induction buf s arbitrary: rs rule: parseredirs.induct)
  case (1 buf s)
  obtain b s1 where p: "peek buf s (cstr ''<>'') = (b, s1)" by (cases "peek buf s (cstr ''<>'')")
  have b1: "s \<le> s1" "s1 \<le> length buf" using peek_bounds[OF 1(3) p] by auto
  show ?case
  proof (cases b)
    case True
    obtain tok xa s2 where g: "gettoken buf s1 = (tok, xa, s2)" by (cases "gettoken buf s1") auto
    obtain t f s3 where h: "gettoken buf s2 = (t, f, s3)" by (cases "gettoken buf s2") auto
    have b2: "s1 \<le> s2" "s2 \<le> length buf" using gettoken_bounds[of s1 buf tok "fst xa" "snd xa" s2] g b1 by auto
    have b3: "s2 \<le> s3" "s3 \<le> length buf" using gettoken_bounds[of s2 buf t "fst f" "snd f" s3] h b2 by auto
    from 1(2) obtain rs' where r: "parseredirs buf s3 = Inr (rs', s')" "\<not> t \<noteq> tok_a"
      by (subst (asm) parseredirs.simps) (auto simp: p True g h bindr_Inr_iff split: if_splits)
    from 1(1)[OF p[symmetric] _ g[symmetric] refl h[symmetric] refl r(2) r(1)] True b1 b2 b3 show ?thesis by auto
  next
    case False
    then show ?thesis using 1(2) b1 by (subst (asm) parseredirs.simps) (simp add: p)
  qed
qed

text \<open>The loop of \<open>parseexec\<close> over the words of a command, with the redirections between them.\<close>

function parseargs :: "u8 list \<Rightarrow> nat \<Rightarrow> token list \<Rightarrow> token redir list \<Rightarrow> (token list \<times> token redir list \<times> nat) res" where
  "parseargs buf s args rs =
     (case peek buf s (cstr ''|)&;'') of (b, s) \<Rightarrow>
        if b then Inr (args, rs, s)
        else case gettoken buf s of (tok, w, s) \<Rightarrow>
          if tok = 0 then Inr (args, rs, s)
          else if tok \<noteq> tok_a then Inl (Panic ''syntax'')
          else if length args + 1 \<ge> MAXARGS then Inl (Panic ''too many args'')
          else bindr (parseredirs buf s) (\<lambda>(r, s). parseargs buf s (args @ [w]) (rs @ r)))"
  by pat_completeness auto
termination
  by (relation "measure (\<lambda>(buf, s, args, rs). MAXARGS - length args)") auto

declare parseargs.simps [simp del]

text \<open>The loop of \<open>parseline\<close> over the ampersands.\<close>

function parsebacks :: "u8 list \<Rightarrow> nat \<Rightarrow> token cmd \<Rightarrow> token cmd \<times> nat" where
  "parsebacks buf s c =
     (case peek buf s (cstr ''&'') of (b, s) \<Rightarrow>
        if b then case gettoken buf s of (_, _, s) \<Rightarrow> parsebacks buf s (Backcmd c) else (c, s))"
  by pat_completeness auto
termination
proof (relation "measure (\<lambda>(buf, s, c). length buf - s)")
  fix buf s c b s1 x y xa s2
  assume a: "(b, s1) = peek buf s (cstr ''&'')" "b" "(x, y) = gettoken buf s1" "(xa, s2) = y"
  have 1: "s \<le> s1" "s1 < length buf" "char_at buf s1 \<noteq> 0" "among (char_at buf s1) (cstr ''&'')" using peek_True[of buf s _ s1] a(1,2) by auto
  from 1(4) have "\<not> among (char_at buf s1) whitespace" by (auto simp: among_def whitespace_def cstr_def)
  then have "s1 < s2" using gettoken_at[of buf s1 x "fst xa" "snd xa" s2] 1 a(3,4) by auto
  then show "((buf, s2, Backcmd c), (buf, s, c)) \<in> measure (\<lambda>(buf, s, c). length buf - s)" using 1 by auto
qed auto

declare parsebacks.simps [simp del]

fun parseline :: "nat \<Rightarrow> u8 list \<Rightarrow> nat \<Rightarrow> (token cmd \<times> nat) res"
  and parsepipe :: "nat \<Rightarrow> u8 list \<Rightarrow> nat \<Rightarrow> (token cmd \<times> nat) res"
  and parseexec :: "nat \<Rightarrow> u8 list \<Rightarrow> nat \<Rightarrow> (token cmd \<times> nat) res"
  and parseblock :: "nat \<Rightarrow> u8 list \<Rightarrow> nat \<Rightarrow> (token cmd \<times> nat) res" where
  "parseline 0 buf s = Inl (Blocked ''fuel'')"
| "parseline (Suc n) buf s =
     bindr (parsepipe n buf s) (\<lambda>(c, s).
     case parsebacks buf s c of (c, s) \<Rightarrow>
     case peek buf s (cstr '';'') of (b, s) \<Rightarrow>
       if b then case gettoken buf s of (_, _, s) \<Rightarrow> bindr (parseline n buf s) (\<lambda>(d, s). Inr (Listcmd c d, s))
       else Inr (c, s))"
| "parsepipe 0 buf s = Inl (Blocked ''fuel'')"
| "parsepipe (Suc n) buf s =
     bindr (parseexec n buf s) (\<lambda>(c, s).
     case peek buf s (cstr ''|'') of (b, s) \<Rightarrow>
       if b then case gettoken buf s of (_, _, s) \<Rightarrow> bindr (parsepipe n buf s) (\<lambda>(d, s). Inr (Pipecmd c d, s))
       else Inr (c, s))"
| "parseexec 0 buf s = Inl (Blocked ''fuel'')"
| "parseexec (Suc n) buf s =
     (case peek buf s (cstr ''('') of (b, s) \<Rightarrow>
        if b then parseblock n buf s
        else bindr (parseredirs buf s) (\<lambda>(r, s).
             bindr (parseargs buf s [] r) (\<lambda>(args, rs, s).
             Inr (foldl redircmd (Execcmd args) rs, s))))"
| "parseblock 0 buf s = Inl (Blocked ''fuel'')"
| "parseblock (Suc n) buf s =
     (case peek buf s (cstr ''('') of (b, s) \<Rightarrow>
        if \<not> b then Inl (Panic ''parseblock'')
        else case gettoken buf s of (_, _, s) \<Rightarrow>
          bindr (parseline n buf s) (\<lambda>(c, s).
          case peek buf s (cstr '')'') of (b, s) \<Rightarrow>
            if \<not> b then Inl (Panic ''syntax - missing )'')
            else case gettoken buf s of (_, _, s) \<Rightarrow>
              bindr (parseredirs buf s) (\<lambda>(rs, s). Inr (foldl redircmd c rs, s))))"

text \<open>Writing a NUL behind the line, where there is one already, changes nothing.\<close>

fun nulterminate :: "token cmd \<Rightarrow> u8 list \<Rightarrow> u8 list" where
  "nulterminate (Execcmd ws) buf = foldl (\<lambda>buf w. buf[snd w := 0]) buf ws"
| "nulterminate (Redircmd c f mode fd) buf = (nulterminate c buf)[snd f := 0]"
| "nulterminate (Pipecmd c d) buf = nulterminate d (nulterminate c buf)"
| "nulterminate (Listcmd c d) buf = nulterminate d (nulterminate c buf)"
| "nulterminate (Backcmd c) buf = nulterminate c buf"

definition parse_fuel :: "u8 list \<Rightarrow> nat" where
  "parse_fuel buf = 4 * length buf + 4"

definition parsecmd :: "u8 list \<Rightarrow> (token cmd \<times> u8 list) res" where
  "parsecmd buf =
     bindr (parseline (parse_fuel buf) buf 0) (\<lambda>(c, s).
     case peek buf s [] of (_, s) \<Rightarrow>
       if s \<noteq> length buf then Inl (Panic ''syntax'') else Inr (c, nulterminate c buf))"

section \<open>The parser ends, and its words are words\<close>

definition word_tok :: "u8 list \<Rightarrow> token \<Rightarrow> bool" where
  "word_tok buf w \<longleftrightarrow> snd w = word_end buf (fst w) \<and> fst w < snd w \<and> snd w \<le> length buf"

fun toks :: "'w cmd \<Rightarrow> 'w list" where
  "toks (Execcmd ws) = ws"
| "toks (Redircmd c f mode fd) = f # toks c"
| "toks (Pipecmd c d) = toks c @ toks d"
| "toks (Listcmd c d) = toks c @ toks d"
| "toks (Backcmd c) = toks c"

lemma toks_redirs: "toks (foldl redircmd c rs) = rev (map snd rs) @ toks c"
  by (induction rs arbitrary: c) (auto simp: redircmd_def split: prod.splits)

lemma gettoken_word:
  assumes "s \<le> length buf" "gettoken buf s = (tok_a, w, s')"
  shows "word_tok buf w \<and> s \<le> s' \<and> s' \<le> length buf"
proof -
  obtain q e where w: "w = (q, e)" by (cases w)
  have b: "s \<le> q \<and> q \<le> e \<and> e \<le> s' \<and> s' \<le> length buf \<and> q < e" using gettoken_bounds[OF assms(1), of tok_a q e s'] assms(2) w by auto
  have "among tok_a (cstr ''|();&<'') = False" by code_simp
  then have "e = word_end buf q" using assms(2) w by (auto simp: gettoken_def Let_def split: if_splits)
  then show ?thesis using b w by (auto simp: word_tok_def)
qed

text \<open>\<open>fine buf s r\<close>: the result \<open>r\<close> of parsing at \<open>s\<close> is not for want of fuel.\<close>

definition fine :: "u8 list \<Rightarrow> nat \<Rightarrow> ('a \<times> nat) res \<Rightarrow> ('a \<Rightarrow> token list) \<Rightarrow> bool" where
  "fine buf s r ts \<longleftrightarrow>
     (case r of Inl (Panic m) \<Rightarrow> True | Inl _ \<Rightarrow> False | Inr (x, s') \<Rightarrow> s \<le> s' \<and> s' \<le> length buf \<and> list_all (word_tok buf) (ts x))"

lemma fine_simps [simp]: "fine buf s (Inl (Panic m)) ts"
  "fine buf s (Inr (x, s')) ts \<longleftrightarrow> s \<le> s' \<and> s' \<le> length buf \<and> list_all (word_tok buf) (ts x)"
  by (simp_all add: fine_def)

lemma fine_bind:
  assumes "fine buf s r ts" "\<And>x s'. r = Inr (x, s') \<Longrightarrow> s \<le> s' \<Longrightarrow> s' \<le> length buf \<Longrightarrow> list_all (word_tok buf) (ts x) \<Longrightarrow> fine buf s (f (x, s')) us"
  shows "fine buf s (bindr r f) us"
proof (cases r)
  case (Inl e)
  then show ?thesis using assms(1) by (cases e) (simp_all add: fine_def)
next
  case (Inr x)
  then show ?thesis using assms(1) assms(2)[of "fst x" "snd x"] by (cases x) simp
qed

lemma fine_mono: "fine buf s' r ts \<Longrightarrow> s \<le> s' \<Longrightarrow> fine buf s r ts"
  by (auto simp: fine_def split: sum.splits err.splits)

lemma parseredirs_fine: "s \<le> length buf \<Longrightarrow> fine buf s (parseredirs buf s) (map snd)"
proof (induction buf s rule: parseredirs.induct)
  case (1 buf s)
  obtain b s1 where p: "peek buf s (cstr ''<>'') = (b, s1)" by (cases "peek buf s (cstr ''<>'')")
  have b1: "s \<le> s1" "s1 \<le> length buf" using peek_bounds[OF 1(2) p] by auto
  obtain tok xa s2 where g: "gettoken buf s1 = (tok, xa, s2)" by (cases "gettoken buf s1") auto
  obtain t f s3 where h: "gettoken buf s2 = (t, f, s3)" by (cases "gettoken buf s2") auto
  have b2: "s1 \<le> s2" "s2 \<le> length buf" using gettoken_bounds[of s1 buf tok "fst xa" "snd xa" s2] g b1 by auto
  show ?case
  proof (cases "b \<and> t = tok_a")
    case True
    have b3: "word_tok buf f" "s2 \<le> s3" "s3 \<le> length buf" using gettoken_word[OF b2(2)] h True by auto
    have "fine buf s3 (parseredirs buf s3) (map snd)"
      using 1(1)[OF p[symmetric] _ g[symmetric] refl h[symmetric] refl] True b3 by simp
    then have "fine buf s (parseredirs buf s3) (map snd)" by (rule fine_mono) (use b1 b2 b3 in simp)
    then have "fine buf s (bindr (parseredirs buf s3) (\<lambda>(rs, s). Inr ((tok, f) # rs, s))) (map snd)" by (rule fine_bind) (use b3 in auto)
    then show ?thesis using True by (subst parseredirs.simps) (simp add: p g h)
  next
    case False
    then show ?thesis using b1 by (subst parseredirs.simps) (auto simp: p g h)
  qed
qed

lemma parseargs_fine:
  "s \<le> length buf \<Longrightarrow> list_all (word_tok buf) (args @ map snd rs) \<Longrightarrow>
    fine buf s (bindr (parseargs buf s args rs) (\<lambda>(args, rs, s). Inr (foldl redircmd (Execcmd args) rs, s))) toks"
proof (induction buf s args rs rule: parseargs.induct)
  case (1 buf s args rs)
  obtain b s1 where p: "peek buf s (cstr ''|)&;'') = (b, s1)" by (cases "peek buf s (cstr ''|)&;'')")
  have b1: "s \<le> s1" "s1 \<le> length buf" using peek_bounds[OF 1(2) p] by auto
  obtain tok w s2 where g: "gettoken buf s1 = (tok, w, s2)" by (cases "gettoken buf s1") auto
  have b2: "s1 \<le> s2" "s2 \<le> length buf" using gettoken_bounds[of s1 buf tok "fst w" "snd w" s2] g b1 by auto
  show ?case
  proof (cases "\<not> b \<and> tok = tok_a \<and> \<not> MAXARGS \<le> length args + 1")
    case True
    have w: "word_tok buf w" using gettoken_word[OF b1(2)] g True by auto
    have z: "tok_a \<noteq> 0" by code_simp
    have "fine buf s (bindr (parseredirs buf s2) (\<lambda>(r, s). bindr (parseargs buf s (args @ [w]) (rs @ r))
        (\<lambda>(args, rs, s). Inr (foldl redircmd (Execcmd args) rs, s)))) toks"
    proof (rule fine_bind[where ts = "map snd"])
      show "fine buf s (parseredirs buf s2) (map snd)" by (rule fine_mono[OF parseredirs_fine[OF b2(2)]]) (use b1 b2 in simp)
    next
      fix r s3 assume r: "parseredirs buf s2 = Inr (r, s3)" "s \<le> s3" "s3 \<le> length buf" "list_all (word_tok buf) (map snd r)"
      have "fine buf s3 (bindr (parseargs buf s3 (args @ [w]) (rs @ r)) (\<lambda>(args, rs, s). Inr (foldl redircmd (Execcmd args) rs, s))) toks"
        using 1(1)[OF p[symmetric] _ g[symmetric] refl _ _ _ r(1) refl] True z r 1(3) w by auto
      then show "fine buf s ((\<lambda>(r, s). bindr (parseargs buf s (args @ [w]) (rs @ r)) (\<lambda>(args, rs, s). Inr (foldl redircmd (Execcmd args) rs, s))) (r, s3)) toks"
        using fine_mono r(2) by auto
    qed
    then show ?thesis using True z by (subst parseargs.simps) (simp add: p g bindr_assoc split_def)
  next
    case False
    then show ?thesis using b1 b2 1(3) by (subst parseargs.simps) (auto simp: p g toks_redirs)
  qed
qed

lemma parsebacks_fine:
  "s \<le> length buf \<Longrightarrow> list_all (word_tok buf) (toks c) \<Longrightarrow> fine buf s (Inr (parsebacks buf s c)) toks"
proof (induction buf s c rule: parsebacks.induct)
  case (1 buf s c)
  obtain b s1 where p: "peek buf s (cstr ''&'') = (b, s1)" by (cases "peek buf s (cstr ''&'')")
  have b1: "s \<le> s1" "s1 \<le> length buf" using peek_bounds[OF 1(2) p] by auto
  obtain tok w s2 where g: "gettoken buf s1 = (tok, w, s2)" by (cases "gettoken buf s1") auto
  have b2: "s1 \<le> s2" "s2 \<le> length buf" using gettoken_bounds[of s1 buf tok "fst w" "snd w" s2] g b1 by auto
  show ?case
  proof (cases b)
    case True
    have "fine buf s2 (Inr (parsebacks buf s2 (Backcmd c))) toks" using 1(1)[OF p[symmetric] _ g[symmetric] refl] True b2 1(3) by simp
    then have "fine buf s (Inr (parsebacks buf s2 (Backcmd c))) toks" by (rule fine_mono) (use b1 b2 in simp)
    then show ?thesis using True by (subst parsebacks.simps) (simp add: p g)
  next
    case False
    then show ?thesis using b1 1(3) by (subst parsebacks.simps) (simp add: p)
  qed
qed

lemma peek_gettoken:
  assumes "s \<le> length buf" "peek buf s ts = (True, s1)" "gettoken buf s1 = (r, w, s2)"
  shows "s < s2 \<and> s2 \<le> length buf"
proof -
  have 1: "s \<le> s1" "s1 < length buf" "char_at buf s1 \<noteq> 0" using peek_True[OF assms(2)] by auto
  have "s1 = skip_ws buf s" using assms(2) by (simp add: peek_def Let_def)
  then have "\<not> among (char_at buf s1) whitespace" using skip_ws_stop[of buf s] 1(2) by (simp add: char_at_def)
  then show ?thesis using gettoken_at[OF 1(3), of r "fst w" "snd w" s2] assms(3) 1(1) by auto
qed

text \<open>What follows a parsed part: a symbol, its second part, and the node over both; or nothing.\<close>

lemma fine_next:
  assumes "s \<le> s'" "s' \<le> length buf" "list_all (word_tok buf) (toks c)"
    and "\<And>s2. s' < s2 \<Longrightarrow> s2 \<le> length buf \<Longrightarrow> fine buf s2 (f s2) toks"
    and "\<And>c d. toks (g c d) = toks c @ toks d"
  shows "fine buf s (case peek buf s' ts of (b, s) \<Rightarrow>
       if b then case gettoken buf s of (_, _, s) \<Rightarrow> bindr (f s) (\<lambda>(d, s). Inr (g c d, s)) else Inr (c, s)) toks"
proof -
  obtain b s1 where p: "peek buf s' ts = (b, s1)" by (cases "peek buf s' ts")
  have b1: "s' \<le> s1" "s1 \<le> length buf" using peek_bounds[OF assms(2) p] by auto
  obtain r w s2 where h: "gettoken buf s1 = (r, w, s2)" by (cases "gettoken buf s1") auto
  show ?thesis
  proof (cases b)
    case True
    then have b2: "s' < s2" "s2 \<le> length buf" using peek_gettoken[OF assms(2)] p h by auto
    have "fine buf s (f s2) toks" by (rule fine_mono[OF assms(4)[OF b2]]) (use assms(1) b2 in simp)
    then have "fine buf s (bindr (f s2) (\<lambda>(d, s). Inr (g c d, s))) toks" by (rule fine_bind) (use assms(3,5) in simp)
    then show ?thesis using True by (simp add: p h)
  next
    case False
    then show ?thesis using b1 assms(1,3) by (simp add: p)
  qed
qed

lemma line_fine:
  assumes "fine buf s (parsepipe n buf s) toks" "\<And>s2. s < s2 \<Longrightarrow> s2 \<le> length buf \<Longrightarrow> fine buf s2 (parseline n buf s2) toks"
  shows "fine buf s (parseline (Suc n) buf s) toks"
  unfolding parseline.simps using assms(1)
proof (rule fine_bind)
  fix c s' assume c: "s \<le> s'" "s' \<le> length buf" "list_all (word_tok buf) (toks c)"
  obtain d s1 where d: "parsebacks buf s' c = (d, s1)" by (cases "parsebacks buf s' c")
  then have "s' \<le> s1" "s1 \<le> length buf" "list_all (word_tok buf) (toks d)" using parsebacks_fine[OF c(2,3)] by auto
  then show "fine buf s ((\<lambda>(c, s). case parsebacks buf s c of (c, s) \<Rightarrow> case peek buf s (cstr '';'') of (b, s) \<Rightarrow>
     if b then case gettoken buf s of (_, _, s) \<Rightarrow> bindr (parseline n buf s) (\<lambda>(d, s). Inr (Listcmd c d, s)) else Inr (c, s)) (c, s')) toks"
    unfolding prod.case d by (intro fine_next) (use c assms(2) in auto)
qed

lemma pipe_fine:
  assumes "fine buf s (parseexec n buf s) toks" "\<And>s2. s < s2 \<Longrightarrow> s2 \<le> length buf \<Longrightarrow> fine buf s2 (parsepipe n buf s2) toks"
  shows "fine buf s (parsepipe (Suc n) buf s) toks"
  unfolding parsepipe.simps using assms(1)
proof (rule fine_bind)
  fix c s' assume c: "s \<le> s'" "s' \<le> length buf" "list_all (word_tok buf) (toks c)"
  then show "fine buf s ((\<lambda>(c, s). case peek buf s (cstr ''|'') of (b, s) \<Rightarrow>
     if b then case gettoken buf s of (_, _, s) \<Rightarrow> bindr (parsepipe n buf s) (\<lambda>(d, s). Inr (Pipecmd c d, s)) else Inr (c, s)) (c, s')) toks"
    unfolding prod.case by (intro fine_next) (use assms(2) in auto)
qed

lemma exec_fine:
  assumes s: "s \<le> length buf" and block: "\<And>s1. s \<le> s1 \<Longrightarrow> s1 \<le> length buf \<Longrightarrow> fine buf s1 (parseblock n buf s1) toks"
  shows "fine buf s (parseexec (Suc n) buf s) toks"
proof -
  obtain b s1 where p: "peek buf s (cstr ''('') = (b, s1)" by (cases "peek buf s (cstr ''('')")
  have b1: "s \<le> s1" "s1 \<le> length buf" using peek_bounds[OF s p] by auto
  have "fine buf s (bindr (parseredirs buf s1) (\<lambda>(r, s). bindr (parseargs buf s [] r) (\<lambda>(args, rs, s). Inr (foldl redircmd (Execcmd args) rs, s)))) toks"
  proof (rule fine_bind)
    show "fine buf s (parseredirs buf s1) (map snd)" by (rule fine_mono[OF parseredirs_fine]) (use b1 in auto)
  next
    fix r :: "token redir list" and s' assume "s \<le> s'" "s' \<le> length buf" "list_all (word_tok buf) (map snd r)"
    then show "fine buf s ((\<lambda>(r, s). bindr (parseargs buf s [] r) (\<lambda>(args, rs, s). Inr (foldl redircmd (Execcmd args) rs, s))) (r, s')) toks"
      using fine_mono[OF parseargs_fine[of s' buf "[]" r], of s] by simp
  qed
  moreover have "fine buf s (parseblock n buf s1) toks" by (rule fine_mono[OF block]) (use b1 in auto)
  ultimately show ?thesis by (simp add: p)
qed

lemma block_fine:
  assumes s: "s \<le> length buf" and line: "\<And>s2. s < s2 \<Longrightarrow> s2 \<le> length buf \<Longrightarrow> fine buf s2 (parseline n buf s2) toks"
  shows "fine buf s (parseblock (Suc n) buf s) toks"
proof -
  obtain b s1 where p: "peek buf s (cstr ''('') = (b, s1)" by (cases "peek buf s (cstr ''('')")
  obtain x w s2 where g: "gettoken buf s1 = (x, w, s2)" by (cases "gettoken buf s1") auto
  have "fine buf s (bindr (parseline n buf s2) (\<lambda>(c, s). case peek buf s (cstr '')'') of (b, s) \<Rightarrow>
        if \<not> b then Inl (Panic ''syntax - missing )'')
        else case gettoken buf s of (_, _, s) \<Rightarrow> bindr (parseredirs buf s) (\<lambda>(rs, s). Inr (foldl redircmd c rs, s)))) toks" if b
  proof (rule fine_bind)
    have "s < s2" "s2 \<le> length buf" using peek_gettoken[OF s] p g that by auto
    then show "fine buf s (parseline n buf s2) toks" using fine_mono[OF line, of s2 s] by simp
  next
    fix c s' assume c: "s \<le> s'" "s' \<le> length buf" "list_all (word_tok buf) (toks c)"
    obtain d s3 where q: "peek buf s' (cstr '')'') = (d, s3)" by (cases "peek buf s' (cstr '')'')")
    obtain y v s4 where h: "gettoken buf s3 = (y, v, s4)" by (cases "gettoken buf s3") auto
    have "fine buf s (bindr (parseredirs buf s4) (\<lambda>(rs, s). Inr (foldl redircmd c rs, s))) toks" if d
    proof (rule fine_bind)
      have "s' < s4" "s4 \<le> length buf" using peek_gettoken[OF c(2)] q h that by auto
      then show "fine buf s (parseredirs buf s4) (map snd)" using fine_mono[OF parseredirs_fine[of s4 buf], of s] c(1) by simp
    qed (use c in \<open>auto simp: toks_redirs\<close>)
    then show "fine buf s ((\<lambda>(c, s). case peek buf s (cstr '')'') of (b, s) \<Rightarrow> if \<not> b then Inl (Panic ''syntax - missing )'')
        else case gettoken buf s of (_, _, s) \<Rightarrow> bindr (parseredirs buf s) (\<lambda>(rs, s). Inr (foldl redircmd c rs, s))) (c, s')) toks"
      by (simp add: q h)
  qed
  then show ?thesis by (simp add: p g)
qed

lemma parse_fine:
  "\<forall>s \<le> length buf. (4 * (length buf - s) + 4 \<le> n \<longrightarrow> fine buf s (parseline n buf s) toks) \<and>
    (4 * (length buf - s) + 3 \<le> n \<longrightarrow> fine buf s (parsepipe n buf s) toks) \<and>
    (4 * (length buf - s) + 2 \<le> n \<longrightarrow> fine buf s (parseexec n buf s) toks) \<and>
    (4 * (length buf - s) + 1 \<le> n \<longrightarrow> fine buf s (parseblock n buf s) toks)"
proof (induction n)
  case (Suc n)
  then show ?case by (intro allI impI conjI line_fine pipe_fine exec_fine block_fine) auto
qed simp

lemma parsecmd_result:
  "\<exists>r. parsecmd buf = r \<and> (case r of Inl e \<Rightarrow> \<exists>m. e = Panic m
    | Inr (c, buf') \<Rightarrow> list_all (word_tok buf) (toks c) \<and> buf' = nulterminate c buf)"
proof -
  have f: "fine buf 0 (parseline (parse_fuel buf) buf 0) toks" using parse_fine[of buf "parse_fuel buf"] by (simp add: parse_fuel_def)
  show ?thesis
  proof (cases "parseline (parse_fuel buf) buf 0")
    case (Inl e)
    then show ?thesis using f by (cases e) (auto simp: parsecmd_def fine_def)
  next
    case (Inr x)
    then show ?thesis using f by (cases x) (auto simp: parsecmd_def split: prod.splits)
  qed
qed

section \<open>The words in place\<close>

text \<open>The C string that a pointer into the line points to.\<close>

definition cstring :: "u8 list \<Rightarrow> nat \<Rightarrow> u8 list" where
  "cstring buf q = takeWhile (\<lambda>c. c \<noteq> 0) (drop q buf)"

definition word_text :: "u8 list \<Rightarrow> token \<Rightarrow> u8 list" where
  "word_text buf w = take (snd w - fst w) (drop (fst w) buf)"

lemma foldl_nul: "length (foldl (\<lambda>buf w. buf[snd w := 0]) buf ws) = length buf \<and>
    (i < length buf \<longrightarrow> foldl (\<lambda>buf w. buf[snd w := 0]) buf ws ! i = (if i \<in> snd ` set ws then 0 else buf ! i))"
  by (induction ws arbitrary: buf) auto

lemma nulterminate_nth:
  "length (nulterminate c buf) = length buf \<and>
    (i < length buf \<longrightarrow> nulterminate c buf ! i = (if i \<in> snd ` set (toks c) then 0 else buf ! i))"
proof (induction c arbitrary: buf)
  case (Redircmd c f mode fd)
  then show ?case by (cases "i = snd f") (simp_all add: nth_list_update image_iff)
qed (simp_all add: foldl_nul image_Un)

lemma word_end_chars:
  assumes "q \<le> j" "j < word_end buf q"
  shows "\<not> among (buf ! j) whitespace \<and> \<not> among (buf ! j) symbols"
proof -
  let ?P = "\<lambda>c. \<not> among c whitespace \<and> \<not> among c symbols"
  have j: "j - q < length (takeWhile ?P (drop q buf))" using assms by (auto simp: word_end_def)
  then have "?P (takeWhile ?P (drop q buf) ! (j - q))" using set_takeWhileD[of _ ?P] nth_mem[OF j] by fast
  moreover have "takeWhile ?P (drop q buf) ! (j - q) = buf ! j"
  proof -
    have "j - q < length buf - q" using j length_takeWhile_le[of ?P "drop q buf"] by simp
    then show ?thesis using takeWhile_nth[OF j] nth_drop[of q buf "j - q"] assms(1) by simp
  qed
  ultimately show ?thesis by simp
qed

lemma word_end_stop:
  assumes "word_end buf q < length buf"
  shows "among (buf ! word_end buf q) whitespace \<or> among (buf ! word_end buf q) symbols"
  using nth_length_takeWhile[of "\<lambda>c. \<not> among c whitespace \<and> \<not> among c symbols" "drop q buf"] assms by (auto simp: word_end_def)

lemma nulterminate_words:
  assumes "0 \<notin> set buf" "list_all (word_tok buf) (toks c)" "w \<in> set (toks c)"
  shows "cstring (nulterminate c buf) (fst w) = word_text buf w"
proof -
  obtain q e where w: "w = (q, e)" by (cases w)
  let ?b = "nulterminate c buf"
  have e: "e = word_end buf q" "q < e" "e \<le> length buf" using assms(2,3) w by (auto simp: word_tok_def list_all_iff)
  have n: "length ?b = length buf" "\<And>i. i < length buf \<Longrightarrow> ?b ! i = (if i \<in> snd ` set (toks c) then 0 else buf ! i)" using nulterminate_nth by blast+
  have k: "?b ! j = buf ! j \<and> buf ! j \<noteq> 0" if "q \<le> j" "j < e" for j
  proof -
    have "j \<notin> snd ` set (toks c)"
    proof
      assume "j \<in> snd ` set (toks c)"
      then obtain p where "j = word_end buf p" using assms(2) by (auto simp: word_tok_def list_all_iff)
      then show False using word_end_stop[of buf p] word_end_chars[of q j buf] that e by auto
    qed
    moreover have "buf ! j \<noteq> 0" using that e assms(1) nth_mem[of j buf] by (metis order.strict_trans2)
    ultimately show ?thesis using n(2)[of j] that e by simp
  qed
  have "?b ! e = 0" if "e < length buf" using n(2)[OF that] assms(3) w by (auto simp: image_iff)
  then have "cstring ?b q = take (e - q) (drop q ?b)" unfolding cstring_def
    by (intro takeWhile_eq_take_P_nth) (use k e n(1) in auto)
  also have "\<dots> = take (e - q) (drop q buf)" by (rule nth_equalityI) (use k e n(1) in auto)
  finally show ?thesis by (simp add: w word_text_def)
qed

section \<open>No word is lost\<close>

text \<open>The words of a line, independently of the parser: the longest pieces without a blank and without a symbol.\<close>

definition delim :: "u8 \<Rightarrow> bool" where
  "delim c \<longleftrightarrow> among c whitespace \<or> among c symbols"

function line_words :: "u8 list \<Rightarrow> u8 list list" where
  "line_words [] = []"
| "line_words (c # cs) =
     (if delim c then line_words cs
      else (c # takeWhile (\<lambda>c. \<not> delim c) cs) # line_words (dropWhile (\<lambda>c. \<not> delim c) cs))"
  by pat_completeness auto
termination
  by (relation "measure length") (auto simp: le_imp_less_Suc length_dropWhile_le)


text \<open>The words from an offset on.\<close>

definition left :: "u8 list \<Rightarrow> nat \<Rightarrow> u8 list multiset" where
  "left buf s = mset (line_words (drop s buf))"

abbreviation texts :: "u8 list \<Rightarrow> token list \<Rightarrow> u8 list multiset" where
  "texts buf ts \<equiv> mset (map (word_text buf) ts)"

lemma left_delim: "s < length buf \<Longrightarrow> delim (buf ! s) \<Longrightarrow> left buf (Suc s) = left buf s"
  by (simp add: left_def Cons_nth_drop_Suc[symmetric])

lemma line_words_blanks: "list_all delim xs \<Longrightarrow> line_words (xs @ ys) = line_words ys"
  by (induction xs) auto

lemma left_skip: "left buf (skip_ws buf s) = left buf s"
proof -
  let ?P = "\<lambda>c. among c whitespace"
  have "drop (skip_ws buf s) buf = dropWhile ?P (drop s buf)" by (simp add: skip_ws_def dropWhile_eq_drop add.commute)
  moreover have "list_all delim (takeWhile ?P (drop s buf))" by (auto simp: list_all_iff delim_def dest: set_takeWhileD)
  ultimately have "line_words (drop (skip_ws buf s) buf) = line_words (takeWhile ?P (drop s buf) @ dropWhile ?P (drop s buf))"
    using line_words_blanks by metis
  then show ?thesis by (simp only: left_def takeWhile_dropWhile_id)
qed

lemma left_word:
  assumes "s < length buf" "\<not> delim (buf ! s)"
  shows "left buf s = add_mset (word_text buf (s, word_end buf s)) (left buf (word_end buf s))"
proof -
  let ?P = "\<lambda>c. \<not> delim c"
  have d: "drop s buf = buf ! s # drop (Suc s) buf" using assms(1) by (simp add: Cons_nth_drop_Suc)
  have P: "(\<lambda>c. \<not> among c whitespace \<and> \<not> among c symbols) = ?P" by (auto simp: delim_def)
  have e: "word_end buf s - s = length (takeWhile ?P (drop s buf))" by (simp add: word_end_def P)
  have "word_text buf (s, word_end buf s) = takeWhile ?P (drop s buf)" by (simp add: word_text_def e takeWhile_eq_take[symmetric])
  moreover have "drop (word_end buf s) buf = dropWhile ?P (drop s buf)"
    by (simp add: word_end_def P dropWhile_eq_drop add.commute)
  ultimately show ?thesis using assms(2) by (simp add: left_def d)
qed

text \<open>What a token takes.\<close>

lemma gettoken_left:
  assumes "gettoken buf s = (r, w, s')"
  shows "left buf s = (if r = tok_a then add_mset (word_text buf w) (left buf s') else left buf s')"
proof -
  obtain q e where w: "w = (q, e)" by (cases w)
  have q: "q = skip_ws buf s" and s': "s' = skip_ws buf e" using assms w by (auto simp: gettoken_def Let_def split: prod.splits)
  have n: "among tok_a (cstr ''|();&<'') = False" "tok_a \<noteq> 0" "tok_a \<noteq> of_char CHR ''>''" "tok_a \<noteq> of_char CHR ''+''" by code_simp+
  consider "char_at buf q = 0" | "char_at buf q \<noteq> 0" "among (char_at buf q) symbols" | "char_at buf q \<noteq> 0" "\<not> among (char_at buf q) symbols" by blast
  then have "left buf q = (if r = tok_a then add_mset (word_text buf w) (left buf e) else left buf e)"
  proof cases
    case 1
    then show ?thesis using assms w q n(2) by (auto simp: gettoken_def Let_def)
  next
    case 2
    have l: "q < length buf" by (rule char_at_len[OF 2(1)])
    have "r \<noteq> tok_a \<and> (e = Suc q \<or> e = Suc (Suc q) \<and> char_at buf (Suc q) = of_char CHR ''>'')"
      using assms w q 2 n by (auto simp: gettoken_def Let_def symbols_among split: if_splits)
    moreover have "left buf (Suc q) = left buf q" using left_delim[OF l] 2 l by (simp add: delim_def char_at_def)
    moreover have "left buf (Suc (Suc q)) = left buf (Suc q)" if "char_at buf (Suc q) = of_char CHR ''>''"
    proof -
      have g: "Suc q < length buf" using that char_at_len[of buf "Suc q"] by simp
      then show ?thesis using left_delim[OF g] that by (simp add: delim_def char_at_def symbols_among)
    qed
    ultimately show ?thesis by auto
  next
    case 3
    have l: "q < length buf" by (rule char_at_len[OF 3(1)])
    have "r = tok_a" "e = word_end buf q" using assms w q 3 by (auto simp: gettoken_def Let_def symbols_among split: if_splits)
    moreover have "\<not> delim (buf ! q)" using skip_ws_stop[of buf s] q l 3(2) by (simp add: delim_def char_at_def)
    ultimately show ?thesis using left_word[OF l] w by simp
  qed
  then show ?thesis using left_skip q s' by metis
qed

lemma peek_left: "peek buf s ts = (b, s') \<Longrightarrow> left buf s' = left buf s"
  by (auto simp: peek_def Let_def left_skip)

lemma symbol_left:
  assumes "peek buf s ts = (True, s1)" "gettoken buf s1 = (r, w, s2)" "set ts \<subseteq> set symbols"
  shows "left buf s2 = left buf s"
proof -
  have p: "s1 < length buf" "char_at buf s1 \<noteq> 0" "among (char_at buf s1) symbols"
    using peek_True[OF assms(1)] assms(3) by (auto simp: among_def list_ex_iff)
  have "s1 = skip_ws buf s" using assms(1) by (simp add: peek_def Let_def)
  then have "\<not> among (char_at buf s1) whitespace" using skip_ws_stop[of buf s] p(1) by (simp add: char_at_def)
  then have "skip_ws buf s1 = s1" using p(1) by (simp add: skip_ws_def Cons_nth_drop_Suc[symmetric] char_at_def)
  moreover have "\<not> among tok_a symbols" "tok_a \<noteq> of_char CHR ''+''" by code_simp+
  ultimately have "r \<noteq> tok_a" using assms(2) p by (auto simp: gettoken_def Let_def symbols_among split: if_splits)
  then show ?thesis using gettoken_left[OF assms(2)] peek_left[OF assms(1)] by simp
qed

lemma symbols_of: "set (cstr ''<>'') \<subseteq> set symbols" "set (cstr ''&'') \<subseteq> set symbols" "set (cstr '';'') \<subseteq> set symbols"
  "set (cstr ''|'') \<subseteq> set symbols" "set (cstr ''('') \<subseteq> set symbols" "set (cstr '')'') \<subseteq> set symbols"
  by code_simp+

lemma parseredirs_left: "parseredirs buf s = Inr (rs, s') \<Longrightarrow> left buf s = texts buf (map snd rs) + left buf s'"
proof (induction buf s arbitrary: rs rule: parseredirs.induct)
  case (1 buf s)
  obtain b s1 where p: "peek buf s (cstr ''<>'') = (b, s1)" by (cases "peek buf s (cstr ''<>'')")
  obtain tok xa s2 where g: "gettoken buf s1 = (tok, xa, s2)" by (cases "gettoken buf s1") auto
  obtain t f s3 where h: "gettoken buf s2 = (t, f, s3)" by (cases "gettoken buf s2") auto
  show ?case
  proof (cases b)
    case True
    from 1(2) obtain r where r: "parseredirs buf s3 = Inr (r, s')" "\<not> t \<noteq> tok_a" "rs = (tok, f) # r"
      by (subst (asm) parseredirs.simps) (auto simp: p True g h bindr_Inr_iff split: if_splits)
    have "left buf s3 = texts buf (map snd r) + left buf s'"
      using 1(1)[OF p[symmetric] _ g[symmetric] refl h[symmetric] refl r(2) r(1)] True by simp
    moreover have "left buf s2 = left buf s" using symbol_left[of buf s "cstr ''<>''"] p g True symbols_of(1) by simp
    ultimately show ?thesis using gettoken_left[OF h] r by simp
  next
    case False
    then show ?thesis using 1(2) peek_left[OF p] by (subst (asm) parseredirs.simps) (simp add: p)
  qed
qed

lemma parseargs_left:
  "parseargs buf s args rs = Inr (args', rs', s') \<Longrightarrow>
    texts buf args + texts buf (map snd rs) + left buf s = texts buf args' + texts buf (map snd rs') + left buf s'"
proof (induction buf s args rs rule: parseargs.induct)
  case (1 buf s args rs)
  obtain b s1 where p: "peek buf s (cstr ''|)&;'') = (b, s1)" by (cases "peek buf s (cstr ''|)&;'')")
  obtain tok w s2 where g: "gettoken buf s1 = (tok, w, s2)" by (cases "gettoken buf s1") auto
  note l = peek_left[OF p] gettoken_left[OF g]
  have z: "tok_a \<noteq> 0" by code_simp
  show ?case
  proof (cases "b \<or> tok = 0")
    case True
    then have "args' = args \<and> rs' = rs \<and> left buf s' = left buf s"
      using 1(2) l z by (subst (asm) parseargs.simps) (simp add: p g split: if_splits; clarsimp)
    then show ?thesis by simp
  next
    case False
    from 1(2) False obtain r s3 where r: "\<not> tok \<noteq> tok_a" "\<not> MAXARGS \<le> length args + 1" "parseredirs buf s2 = Inr (r, s3)"
        "parseargs buf s3 (args @ [w]) (rs @ r) = Inr (args', rs', s')"
      by (subst (asm) parseargs.simps) (auto simp: p g bindr_Inr_iff split: if_splits)
    have L: "left buf s = add_mset (word_text buf w) (texts buf (map snd r) + left buf s3)"
      using parseredirs_left[OF r(3)] l r(1) by simp
    show ?thesis using 1(1)[OF p[symmetric] _ g[symmetric] refl _ r(1,2,3) refl r(4)] False by (simp add: L ac_simps)
  qed
qed

lemma parsebacks_left: "parsebacks buf s c = (d, s') \<Longrightarrow> texts buf (toks d) + left buf s' = texts buf (toks c) + left buf s"
proof (induction buf s c rule: parsebacks.induct)
  case (1 buf s c)
  obtain b s1 where p: "peek buf s (cstr ''&'') = (b, s1)" by (cases "peek buf s (cstr ''&'')")
  obtain tok w s2 where g: "gettoken buf s1 = (tok, w, s2)" by (cases "gettoken buf s1") auto
  show ?case
  proof (cases b)
    case True
    have "parsebacks buf s2 (Backcmd c) = (d, s')" using 1(2) True by (subst (asm) parsebacks.simps) (simp add: p g)
    then show ?thesis using 1(1)[OF p[symmetric] _ g[symmetric] refl] True symbol_left[of buf s "cstr ''&''"] p g symbols_of(2) by simp
  next
    case False
    then show ?thesis using 1(2) peek_left[OF p] by (subst (asm) parsebacks.simps) (simp add: p)
  qed
qed

text \<open>A part of the parser takes from the line exactly the words it puts into its command.\<close>

definition accounts :: "u8 list \<Rightarrow> nat \<Rightarrow> (token cmd \<times> nat) res \<Rightarrow> bool" where
  "accounts buf s r \<longleftrightarrow> (\<forall>c s'. r = Inr (c, s') \<longrightarrow> left buf s = texts buf (toks c) + left buf s')"

lemma next_left:
  assumes "(case peek buf s ts of (b, s) \<Rightarrow>
       if b then case gettoken buf s of (_, _, s) \<Rightarrow> bindr (f s) (\<lambda>(d, s). Inr (g c d, s)) else Inr (c, s)) = Inr (x, s')"
    and "\<And>s. accounts buf s (f s)" "\<And>c d. toks (g c d) = toks c @ toks d" "set ts \<subseteq> set symbols"
  shows "texts buf (toks c) + left buf s = texts buf (toks x) + left buf s'"
proof -
  obtain b s1 where p: "peek buf s ts = (b, s1)" by (cases "peek buf s ts")
  obtain r w s2 where h: "gettoken buf s1 = (r, w, s2)" by (cases "gettoken buf s1") auto
  show ?thesis
  proof (cases b)
    case True
    then obtain d where d: "f s2 = Inr (d, s')" "x = g c d" using assms(1) by (auto simp: p h bindr_Inr_iff)
    then show ?thesis using assms(2)[of s2] symbol_left[of buf s ts s1 r w s2] p h True assms(3,4) by (simp add: accounts_def ac_simps)
  next
    case False
    then show ?thesis using assms(1) peek_left[OF p] by (simp add: p)
  qed
qed

lemma line_left:
  assumes "\<And>s. accounts buf s (parsepipe n buf s)" "\<And>s. accounts buf s (parseline n buf s)"
  shows "accounts buf s (parseline (Suc n) buf s)"
  unfolding accounts_def
proof (intro allI impI)
  fix x s' assume "parseline (Suc n) buf s = Inr (x, s')"
  then obtain c s1 d s2 where c: "parsepipe n buf s = Inr (c, s1)" "parsebacks buf s1 c = (d, s2)"
    "(case peek buf s2 (cstr '';'') of (b, s) \<Rightarrow>
       if b then case gettoken buf s of (_, _, s) \<Rightarrow> bindr (parseline n buf s) (\<lambda>(e, s). Inr (Listcmd d e, s)) else Inr (d, s)) = Inr (x, s')"
    by (fastforce simp: bindr_Inr_iff split: prod.splits)
  show "left buf s = texts buf (toks x) + left buf s'"
    using next_left[where g = Listcmd, OF c(3) assms(2) _ symbols_of(3)] assms(1)[of s] parsebacks_left[OF c(2)] c(1) by (simp add: accounts_def)
qed

lemma pipe_left:
  assumes "\<And>s. accounts buf s (parseexec n buf s)" "\<And>s. accounts buf s (parsepipe n buf s)"
  shows "accounts buf s (parsepipe (Suc n) buf s)"
  unfolding accounts_def
proof (intro allI impI)
  fix x s' assume "parsepipe (Suc n) buf s = Inr (x, s')"
  then obtain c s1 where c: "parseexec n buf s = Inr (c, s1)"
    "(case peek buf s1 (cstr ''|'') of (b, s) \<Rightarrow>
       if b then case gettoken buf s of (_, _, s) \<Rightarrow> bindr (parsepipe n buf s) (\<lambda>(e, s). Inr (Pipecmd c e, s)) else Inr (c, s)) = Inr (x, s')"
    by (auto simp: bindr_Inr_iff)
  show "left buf s = texts buf (toks x) + left buf s'"
    using next_left[where g = Pipecmd, OF c(2) assms(2) _ symbols_of(4)] assms(1)[of s] c(1) by (simp add: accounts_def)
qed

lemma exec_left:
  assumes "\<And>s. accounts buf s (parseblock n buf s)"
  shows "accounts buf s (parseexec (Suc n) buf s)"
  unfolding accounts_def
proof (intro allI impI)
  fix x s' assume a: "parseexec (Suc n) buf s = Inr (x, s')"
  obtain b s1 where p: "peek buf s (cstr ''('') = (b, s1)" by (cases "peek buf s (cstr ''('')")
  show "left buf s = texts buf (toks x) + left buf s'"
  proof (cases b)
    case True
    then show ?thesis using a p peek_left[OF p] assms[of s1] by (simp add: accounts_def)
  next
    case False
    then obtain r s2 args rs where r: "parseredirs buf s1 = Inr (r, s2)" "parseargs buf s2 [] r = Inr (args, rs, s')"
        "x = foldl redircmd (Execcmd args) rs"
      using a p by (auto simp: bindr_Inr_iff)
    then show ?thesis using parseredirs_left[OF r(1)] parseargs_left[OF r(2)] peek_left[OF p] by (simp add: toks_redirs multiset.map_comp ac_simps)
  qed
qed

lemma block_left:
  assumes "\<And>s. accounts buf s (parseline n buf s)"
  shows "accounts buf s (parseblock (Suc n) buf s)"
  unfolding accounts_def
proof (intro allI impI)
  fix x s' assume a: "parseblock (Suc n) buf s = Inr (x, s')"
  obtain b s1 where p: "peek buf s (cstr ''('') = (b, s1)" by (cases "peek buf s (cstr ''('')")
  obtain y w s2 where g: "gettoken buf s1 = (y, w, s2)" by (cases "gettoken buf s1") auto
  have b: b using a p by (cases b) simp_all
  then obtain c s3 where c: "parseline n buf s2 = Inr (c, s3)" using a p g by (auto simp: bindr_Inr_iff)
  obtain d s4 where q: "peek buf s3 (cstr '')'') = (d, s4)" by (cases "peek buf s3 (cstr '')'')")
  obtain z v s5 where h: "gettoken buf s4 = (z, v, s5)" by (cases "gettoken buf s4") auto
  have d: d using a p g b c q by (cases d) simp_all
  then obtain rs where r: "parseredirs buf s5 = Inr (rs, s')" "x = foldl redircmd c rs" using a p g b c q h by (auto simp: bindr_Inr_iff)
  have "left buf s2 = left buf s" "left buf s5 = left buf s3"
    using symbol_left[of buf s "cstr ''(''"] symbol_left[of buf s3 "cstr '')''"] p g q h b d symbols_of by simp_all
  then show "left buf s = texts buf (toks x) + left buf s'"
    using assms[of s2] c parseredirs_left[OF r(1)] r(2) by (simp add: accounts_def toks_redirs multiset.map_comp ac_simps)
qed

lemma parse_left:
  "accounts buf s (parseline n buf s) \<and> accounts buf s (parsepipe n buf s) \<and>
    accounts buf s (parseexec n buf s) \<and> accounts buf s (parseblock n buf s)"
proof (induction n arbitrary: s)
  case 0
  then show ?case by (simp add: accounts_def)
next
  case (Suc n)
  then show ?case by (intro conjI line_left pipe_left exec_left block_left) blast+
qed

lemma parsecmd_left:
  assumes "parsecmd buf = Inr (c, buf')"
  shows "texts buf (toks c) = mset (line_words buf)"
proof -
  obtain s s' b where c: "parseline (parse_fuel buf) buf 0 = Inr (c, s)" "peek buf s [] = (b, s')" "s' = length buf"
    using assms by (auto simp: parsecmd_def bindr_Inr_iff peek_def Let_def split: if_splits)
  have "left buf 0 = texts buf (toks c) + left buf s" using parse_left[of buf 0 "parse_fuel buf"] c(1) by (simp add: accounts_def)
  then show ?thesis using peek_left[OF c(2)] c(3) by (simp add: left_def)
qed

text \<open>C17. The parser of the shell ends on every line: it stops with one of its messages, or it returns a command whose words,
  read as C strings from the line that \<open>nulterminate\<close> has cut up, are exactly the words that were typed, as often as they
  were typed: the longest pieces of the line with no blank and no symbol in them.\<close>

theorem parsecmd_words:
  assumes "0 \<notin> set buf"
  shows "\<exists>r. parsecmd buf = r \<and> (case r of Inl e \<Rightarrow> \<exists>m. e = Panic m
    | Inr (c, buf') \<Rightarrow> mset (map (\<lambda>w. cstring buf' (fst w)) (toks c)) = mset (line_words buf) \<and>
        (\<forall>w. w \<in> set (toks c) \<longrightarrow> cstring buf' (fst w) = word_text buf w \<and> word_text buf w \<noteq> [] \<and>
        list_all (\<lambda>x. \<not> among x whitespace \<and> \<not> among x symbols) (word_text buf w)))"
proof (cases "parsecmd buf")
  case (Inl e)
  then show ?thesis using parsecmd_result[of buf] by auto
next
  case (Inr x)
  obtain c buf' where x: "x = (c, buf')" by (cases x)
  have t: "list_all (word_tok buf) (toks c)" "buf' = nulterminate c buf" using parsecmd_result[of buf] Inr x by auto
  have w: "word_text buf w \<noteq> [] \<and> list_all (\<lambda>x. \<not> among x whitespace \<and> \<not> among x symbols) (word_text buf w)" if "word_tok buf w" for w
    using that word_end_chars[of "fst w" _ buf] by (auto simp: word_tok_def word_text_def list_all_length)
  have n: "cstring buf' (fst w) = word_text buf w" if "w \<in> set (toks c)" for w using nulterminate_words[OF assms t(1) that] t(2) by simp
  then have "map (\<lambda>w. cstring buf' (fst w)) (toks c) = map (word_text buf) (toks c)" by (intro map_cong) auto
  then have "mset (map (\<lambda>w. cstring buf' (fst w)) (toks c)) = mset (line_words buf)" using parsecmd_left Inr x by metis
  then show ?thesis using Inr x n w t(1) by (auto simp: list_all_iff)
qed

theorem parsecmd_words_witness:
  "\<exists>buf'. parsecmd (cstr ''ls -l>out'') = Inr (Redircmd (Execcmd [(0, 2), (3, 5)]) (6, 9) 0x201 1, buf') \<and>
    cstring buf' 0 = cstr ''ls'' \<and> cstring buf' 3 = cstr ''-l'' \<and> cstring buf' 6 = cstr ''out''"
proof -
  let ?b = "cstr ''ls -l>out''" and ?c = "Redircmd (Execcmd [(0, 2), (3, 5)]) (6, 9) 0x201 1"
  have p: "parsecmd ?b = Inr (?c, nulterminate ?c ?b)" by code_simp
  have "0 \<notin> set ?b" by (simp add: cstr_def)
  moreover have "word_text ?b (0, 2) = cstr ''ls''" "word_text ?b (3, 5) = cstr ''-l''" "word_text ?b (6, 9) = cstr ''out''" by code_simp+
  ultimately show ?thesis using parsecmd_words[of ?b] p by auto
qed

end
