(* ===== verification/Xv6_ShGrammar.thy ===== *)
theory Xv6_ShGrammar
  imports Xv6_Sh
begin

text \<open>
  What the shell's parser accepts and how it reads it: a grammar of command lines with the command that each
  sentence means, and the proof that the parser returns it.
\<close>

section \<open>The grammar\<close>

datatype sredir = SIn "u8 list" | SOut "u8 list" | SAppend "u8 list"

text \<open>A line is pipelines with their ampersands, separated by semicolons; a pipeline is commands separated by bars; a
  command is words or a line in parentheses, with redirections.\<close>

datatype sline = LOne spipe nat | LSeq spipe nat sline
  and spipe = POne sexec | PBar sexec spipe
  and sexec = EWords "u8 list list" "sredir list" | EBlock sline "sredir list"

fun redir_text :: "sredir \<Rightarrow> u8 list" where
  "redir_text (SIn f) = cstr ''<'' @ f @ [32]"
| "redir_text (SOut f) = cstr ''>'' @ f @ [32]"
| "redir_text (SAppend f) = cstr ''>>'' @ f @ [32]"

definition redirs_text :: "sredir list \<Rightarrow> u8 list" where
  "redirs_text rs = concat (map redir_text rs)"

definition words_text :: "u8 list list \<Rightarrow> u8 list" where
  "words_text ws = concat (map (\<lambda>w. w @ [32]) ws)"

fun line_text :: "sline \<Rightarrow> u8 list" and pipe_text :: "spipe \<Rightarrow> u8 list" and exec_text :: "sexec \<Rightarrow> u8 list" where
  "line_text (LOne p k) = pipe_text p @ replicate k (of_char CHR ''&'')"
| "line_text (LSeq p k l) = pipe_text p @ replicate k (of_char CHR ''&'') @ cstr '';'' @ line_text l"
| "pipe_text (POne e) = exec_text e"
| "pipe_text (PBar e p) = exec_text e @ cstr ''|'' @ pipe_text p"
| "exec_text (EWords ws rs) = words_text ws @ redirs_text rs"
| "exec_text (EBlock l rs) = cstr ''('' @ line_text l @ cstr '')'' @ redirs_text rs"

fun redir_means :: "sredir \<Rightarrow> u8 list redir" where
  "redir_means (SIn f) = (of_char CHR ''<'', f)"
| "redir_means (SOut f) = (of_char CHR ''>'', f)"
| "redir_means (SAppend f) = (of_char CHR ''+'', f)"

fun line_means :: "sline \<Rightarrow> u8 list cmd" and pipe_means :: "spipe \<Rightarrow> u8 list cmd" and exec_means :: "sexec \<Rightarrow> u8 list cmd" where
  "line_means (LOne p k) = (Backcmd ^^ k) (pipe_means p)"
| "line_means (LSeq p k l) = Listcmd ((Backcmd ^^ k) (pipe_means p)) (line_means l)"
| "pipe_means (POne e) = exec_means e"
| "pipe_means (PBar e p) = Pipecmd (exec_means e) (pipe_means p)"
| "exec_means (EWords ws rs) = foldl redircmd (Execcmd ws) (map redir_means rs)"
| "exec_means (EBlock l rs) = foldl redircmd (line_means l) (map redir_means rs)"

definition word_char :: "u8 \<Rightarrow> bool" where
  "word_char x \<longleftrightarrow> x \<noteq> 0 \<and> \<not> among x whitespace \<and> \<not> among x symbols"

definition word_ok :: "u8 list \<Rightarrow> bool" where
  "word_ok w \<longleftrightarrow> w \<noteq> [] \<and> list_all word_char w"

fun redir_ok :: "sredir \<Rightarrow> bool" where
  "redir_ok (SIn f) = word_ok f"
| "redir_ok (SOut f) = word_ok f"
| "redir_ok (SAppend f) = word_ok f"

fun line_ok :: "sline \<Rightarrow> bool" and pipe_ok :: "spipe \<Rightarrow> bool" and exec_ok :: "sexec \<Rightarrow> bool" where
  "line_ok (LOne p k) = pipe_ok p"
| "line_ok (LSeq p k l) = (pipe_ok p \<and> line_ok l)"
| "pipe_ok (POne e) = exec_ok e"
| "pipe_ok (PBar e p) = (exec_ok e \<and> pipe_ok p)"
| "exec_ok (EWords ws rs) = (list_all word_ok ws \<and> length ws < MAXARGS \<and> list_all redir_ok rs)"
| "exec_ok (EBlock l rs) = (line_ok l \<and> list_all redir_ok rs)"

section \<open>The scanner on a text\<close>

text \<open>\<open>reads buf s xs\<close>: at \<open>s\<close> the rest of the line is \<open>xs\<close>.\<close>

definition reads :: "u8 list \<Rightarrow> nat \<Rightarrow> u8 list \<Rightarrow> bool" where
  "reads buf s xs \<longleftrightarrow> s \<le> length buf \<and> drop s buf = xs"

abbreviation blank :: "u8 \<Rightarrow> bool" where "blank x \<equiv> among x whitespace"

lemma reads_char: "reads buf s xs \<Longrightarrow> char_at buf s = (case xs of [] \<Rightarrow> 0 | x # _ \<Rightarrow> x)"
  by (auto simp: reads_def char_at_def hd_drop_conv_nth[symmetric] split: list.split)

lemma reads_drop:
  assumes "reads buf s (ys @ xs)"
  shows "reads buf (s + length ys) xs"
proof -
  have d: "drop s buf = ys @ xs" "s \<le> length buf" using assms by (simp_all add: reads_def)
  have "length buf - s = length ys + length xs" using arg_cong[OF d(1), of length] by simp
  moreover have "drop (length ys) (drop s buf) = xs" by (simp add: d(1) del: drop_drop)
  ultimately show ?thesis using d(2) by (simp add: reads_def add.commute)
qed

lemma reads_skip: "reads buf s xs \<Longrightarrow> reads buf (skip_ws buf s) (dropWhile blank xs)"
  using reads_drop[of buf s "takeWhile blank xs" "dropWhile blank xs"] by (simp add: skip_ws_def reads_def)

definition solid :: "u8 list \<Rightarrow> bool" where
  "solid xs \<longleftrightarrow> xs = [] \<or> hd xs \<noteq> 0 \<and> \<not> blank (hd xs)"

lemma solid_skip [simp]: "solid xs \<Longrightarrow> dropWhile blank xs = xs"
  by (cases xs) (auto simp: solid_def)

lemma reads_peek:
  assumes "reads buf s xs" "solid xs"
  shows "\<exists>s'. peek buf s ts = (xs \<noteq> [] \<and> among (hd xs) ts, s') \<and> reads buf s' xs"
proof -
  have r: "reads buf (skip_ws buf s) xs" using reads_skip[OF assms(1)] assms(2) by simp
  then show ?thesis using assms(2) reads_char[OF r] by (auto simp: peek_def Let_def solid_def split: list.splits)
qed

lemma gettoken_symbol:
  assumes "reads buf s (x # xs)" "among x (cstr ''|();&<'')"
  shows "\<exists>w s'. gettoken buf s = (x, w, s') \<and> reads buf s' (dropWhile blank xs)"
proof -
  have b: "\<not> blank x" "x \<noteq> 0" using assms(2) by (auto simp: among_def whitespace_def cstr_def)
  have "skip_ws buf s = s" using assms(1) b(1) by (simp add: skip_ws_def reads_def)
  moreover have "char_at buf s = x" using reads_char[OF assms(1)] by simp
  moreover have "reads buf (s + 1) xs" using reads_drop[of buf s "[x]" xs] assms(1) by simp
  ultimately show ?thesis using assms(2) b(2) reads_skip[of buf "s + 1" xs] by (simp add: gettoken_def Let_def)
qed

lemma gettoken_gt:
  assumes "reads buf s (of_char CHR ''>'' # xs)" "xs = [] \<or> hd xs \<noteq> of_char CHR ''>''"
  shows "\<exists>w s'. gettoken buf s = (of_char CHR ''>'', w, s') \<and> reads buf s' (dropWhile blank xs)"
proof -
  let ?g = "of_char CHR ''>'' :: u8"
  have g: "\<not> blank ?g" "?g \<noteq> 0" "\<not> among ?g (cstr ''|();&<'')" by (simp_all add: among_def whitespace_def cstr_def)
  have r: "reads buf (Suc s) xs" using reads_drop[of buf s "[?g]" xs] assms(1) by simp
  have "skip_ws buf s = s" using assms(1) g(1) by (simp add: skip_ws_def reads_def)
  moreover have "char_at buf s = ?g" using reads_char[OF assms(1)] by simp
  moreover have "char_at buf (Suc s) \<noteq> ?g" using reads_char[OF r] assms(2) g(2) by (cases xs) auto
  ultimately show ?thesis using g reads_skip[OF r] by (simp add: gettoken_def Let_def)
qed

lemma gettoken_gtgt:
  assumes "reads buf s (of_char CHR ''>'' # of_char CHR ''>'' # xs)"
  shows "\<exists>w s'. gettoken buf s = (of_char CHR ''+'', w, s') \<and> reads buf s' (dropWhile blank xs)"
proof -
  let ?g = "of_char CHR ''>'' :: u8"
  have g: "\<not> blank ?g" "?g \<noteq> 0" "\<not> among ?g (cstr ''|();&<'')" by (simp_all add: among_def whitespace_def cstr_def)
  have r: "reads buf (Suc s) (?g # xs)" "reads buf (Suc (Suc s)) xs" using reads_drop[of buf s "[?g]" "?g # xs"] reads_drop[of buf s "[?g, ?g]" xs] assms by simp_all
  have "skip_ws buf s = s" using assms g(1) by (simp add: skip_ws_def reads_def)
  moreover have "char_at buf s = ?g" "char_at buf (Suc s) = ?g" using reads_char[OF assms] reads_char[OF r(1)] by simp_all
  ultimately show ?thesis using g reads_skip[OF r(2)] by (simp add: gettoken_def Let_def)
qed

lemma gettoken_words:
  assumes r: "reads buf s (w @ 32 # xs)" and w: "word_ok w"
  shows "\<exists>t s'. gettoken buf s = (tok_a, t, s') \<and> word_text buf t = w \<and> reads buf s' (dropWhile blank xs)"
proof -
  obtain x v where x: "w = x # v" "word_char x" using w by (cases w) (auto simp: word_ok_def)
  let ?P = "\<lambda>c. \<not> blank c \<and> \<not> among c symbols"
  have "\<forall>c \<in> set w. ?P c" using w by (auto simp: word_ok_def word_char_def list_all_iff)
  moreover have b: "blank 32" by code_simp
  ultimately have "takeWhile ?P (w @ 32 # xs) = w" by (simp add: takeWhile_append)
  then have e: "word_end buf s = s + length w" using r by (simp add: word_end_def reads_def)
  have "skip_ws buf s = s" "char_at buf s = x" using r x reads_char[OF r] by (simp_all add: skip_ws_def reads_def word_char_def)
  moreover have "x \<noteq> 0" "\<not> among x (cstr ''|();&<'')" "x \<noteq> of_char CHR ''>''" using x(2) by (auto simp: word_char_def symbols_among)
  ultimately have "gettoken buf s = (tok_a, (s, s + length w), skip_ws buf (s + length w))" using e by (simp add: gettoken_def Let_def)
  moreover have "word_text buf (s, s + length w) = w" using r by (simp add: word_text_def reads_def)
  moreover have "reads buf (skip_ws buf (s + length w)) (dropWhile blank xs)" using reads_skip[OF reads_drop[OF r]] b by simp
  ultimately show ?thesis by blast
qed

lemma gettoken_none: "reads buf s [] \<Longrightarrow> \<exists>w. gettoken buf s = (0, w, s)"
  by (auto simp: gettoken_def Let_def skip_ws_def reads_def char_at_def)

section \<open>The parser on a text\<close>

definition starts :: "u8 list \<Rightarrow> u8 list \<Rightarrow> bool" where
  "starts xs cs \<longleftrightarrow> xs \<noteq> [] \<and> among (hd xs) cs"

lemma solid_word: "word_ok w \<Longrightarrow> solid (w @ xs) \<and> \<not> starts (w @ xs) symbols"
  by (cases w) (auto simp: word_ok_def word_char_def solid_def starts_def)

lemma solid_symbol: "starts xs symbols \<Longrightarrow> solid xs"
  by (cases xs) (auto simp: starts_def solid_def among_def symbols_def whitespace_def cstr_def)

lemma starts_sub: "starts xs ds \<Longrightarrow> set ds \<subseteq> set cs \<Longrightarrow> starts xs cs"
  by (auto simp: starts_def among_def list_ex_iff)

lemma parseredirs_reads:
  "reads buf s (redirs_text rs @ post) \<Longrightarrow> list_all redir_ok rs \<Longrightarrow> solid post \<Longrightarrow> \<not> starts post (cstr ''<>'') \<Longrightarrow>
    \<exists>r s'. parseredirs buf s = Inr (r, s') \<and> map (apsnd (word_text buf)) r = map redir_means rs \<and> reads buf s' post"
proof (induction rs arbitrary: s)
  case Nil
  then obtain s' where "peek buf s (cstr ''<>'') = (False, s')" "reads buf s' post"
    using reads_peek[of buf s post "cstr ''<>''"] by (auto simp: redirs_text_def starts_def)
  then show ?case by (subst parseredirs.simps) simp
next
  case (Cons r rs)
  let ?xs = "redirs_text rs @ post"
  obtain k f where k: "redir_means r = (k, f)" by (cases "redir_means r")
  have f: "word_ok f" using Cons(3) k by (cases r) auto
  have sol: "solid ?xs" using Cons(3,4)
    by (cases rs; cases "hd rs") (auto simp: redirs_text_def cstr_def solid_def among_def whitespace_def)
  have t: "reads buf s (redir_text r @ ?xs)" using Cons(2) by (simp add: redirs_text_def)
  have p: "solid (redir_text r @ ?xs)" "starts (redir_text r @ ?xs) (cstr ''<>'')"
    by (cases r; auto simp: cstr_def solid_def starts_def among_def whitespace_def)+
  obtain s1 where s1: "peek buf s (cstr ''<>'') = (True, s1)" "reads buf s1 (redir_text r @ ?xs)"
    using reads_peek[OF t p(1), of "cstr ''<>''"] p(2) by (auto simp: starts_def)
  have h: "hd (f @ 32 # ?xs) \<noteq> of_char CHR ''>''" "f @ 32 # ?xs \<noteq> []" "dropWhile blank (f @ 32 # ?xs) = f @ 32 # ?xs"
    using f solid_skip[of "f @ 32 # ?xs"] solid_word[OF f, of "32 # ?xs"] by (auto simp: starts_def symbols_among)
  obtain w s2 where s2: "gettoken buf s1 = (k, w, s2)" "reads buf s2 (f @ 32 # ?xs)"
  proof (cases r)
    case (SIn g)
    then show ?thesis using that gettoken_symbol[of buf s1 "of_char CHR ''<''" "f @ 32 # ?xs"] s1(2) k h by (auto simp: cstr_def among_def)
  next
    case (SOut g)
    then show ?thesis using that gettoken_gt[of buf s1 "f @ 32 # ?xs"] s1(2) k h by (auto simp: cstr_def)
  next
    case (SAppend g)
    then show ?thesis using that gettoken_gtgt[of buf s1 "f @ 32 # ?xs"] s1(2) k h by (auto simp: cstr_def)
  qed
  obtain q s3 where s3: "gettoken buf s2 = (tok_a, q, s3)" "word_text buf q = f" "reads buf s3 ?xs"
    using gettoken_words[OF s2(2) f] sol by auto
  have "list_all redir_ok rs" using Cons(3) by simp
  from Cons(1)[OF s3(3) this Cons(4,5)] obtain r' s4 where
    "parseredirs buf s3 = Inr (r', s4)" "map (apsnd (word_text buf)) r' = map redir_means rs" "reads buf s4 post" by blast
  then show ?case using s1(1) s2(1) s3 k by (subst parseredirs.simps) simp
qed

lemma parseargs_stop:
  assumes "reads buf s post" "post = [] \<or> starts post (cstr ''|)&;'')"
  shows "\<exists>s'. parseargs buf s args rs = Inr (args, rs, s') \<and> reads buf s' post"
proof -
  have "solid post" using assms(2) starts_sub[of post "cstr ''|)&;''" symbols] solid_symbol[of post] by (auto simp: solid_def cstr_def symbols_def)
  then obtain s1 where p: "peek buf s (cstr ''|)&;'') = (post \<noteq> [] \<and> among (hd post) (cstr ''|)&;''), s1)" "reads buf s1 post"
    using reads_peek[OF assms(1)] by blast
  show ?thesis
  proof (cases "post = []")
    case True
    then show ?thesis using p gettoken_none[of buf s1] by (subst parseargs.simps) auto
  next
    case False
    then show ?thesis using p assms(2) by (subst parseargs.simps) (simp add: starts_def)
  qed
qed

lemma stop_facts:
  assumes "post = [] \<or> starts post (cstr ''|)&;'')"
  shows "solid post" "\<not> starts post (cstr ''<>'')" "\<not> starts post (cstr ''('')"
  using assms starts_sub[of post "cstr ''|)&;''" symbols] solid_symbol[of post]
  by (auto simp: solid_def starts_def among_def cstr_def symbols_def)

lemma parseargs_reads:
  "reads buf s (words_text ws @ redirs_text rs @ post) \<Longrightarrow> list_all word_ok ws \<Longrightarrow> ws \<noteq> [] \<Longrightarrow> length args + length ws < MAXARGS \<Longrightarrow>
    list_all redir_ok rs \<Longrightarrow> post = [] \<or> starts post (cstr ''|)&;'') \<Longrightarrow>
    \<exists>ts r s'. parseargs buf s args rs0 = Inr (args @ ts, rs0 @ r, s') \<and> map (word_text buf) ts = ws \<and>
      map (apsnd (word_text buf)) r = map redir_means rs \<and> reads buf s' post"
proof (induction ws arbitrary: s args rs0)
  case (Cons w ws)
  let ?xs = "words_text ws @ redirs_text rs @ post"
  have w: "word_ok w" "list_all word_ok ws" using Cons(3) by simp_all
  have t: "reads buf s (w @ 32 # ?xs)" using Cons(2) by (simp add: words_text_def)
  have "\<not> starts (w @ 32 # ?xs) (cstr ''|)&;'')"
    using solid_word[OF w(1), of "32 # ?xs"] starts_sub[of "w @ 32 # ?xs" "cstr ''|)&;''" symbols] by (auto simp: cstr_def symbols_def)
  then obtain s1 where s1: "peek buf s (cstr ''|)&;'') = (False, s1)" "reads buf s1 (w @ 32 # ?xs)"
    using reads_peek[OF t, of "cstr ''|)&;''"] solid_word[OF w(1), of "32 # ?xs"] by (auto simp: starts_def)
  obtain q s2 where s2: "gettoken buf s1 = (tok_a, q, s2)" "word_text buf q = w" "reads buf s2 (dropWhile blank ?xs)"
    using gettoken_words[OF s1(2) w(1)] by blast
  have z: "tok_a \<noteq> 0" by code_simp
  have step: "parseargs buf s args rs0 = bindr (parseredirs buf s2) (\<lambda>(r, s). parseargs buf s (args @ [q]) (rs0 @ r))"
    using s1(1) s2(1) z Cons(5) by (subst parseargs.simps) simp
  show ?case
  proof (cases "ws = []")
    case True
    have sol: "solid ?xs" using True stop_facts(1)[OF Cons(7)]
      by (cases rs; cases "hd rs") (auto simp: words_text_def redirs_text_def cstr_def solid_def among_def whitespace_def)
    have "reads buf s2 (redirs_text rs @ post)" using s2(3) sol True by (simp add: words_text_def)
    from parseredirs_reads[OF this Cons(6) stop_facts(1,2)[OF Cons(7)]] obtain r s3 where
      r: "parseredirs buf s2 = Inr (r, s3)" "map (apsnd (word_text buf)) r = map redir_means rs" "reads buf s3 post" by blast
    obtain s4 where "parseargs buf s3 (args @ [q]) (rs0 @ r) = Inr (args @ [q], rs0 @ r, s4)" "reads buf s4 post"
      using parseargs_stop[OF r(3) Cons(7)] by blast
    then show ?thesis using step r(1,2) s2(2) True by (intro exI[of _ "[q]"] exI[of _ r] exI[of _ s4]) simp
  next
    case False
    then obtain v vs where v: "ws = v # vs" "word_ok v" using w(2) by (cases ws) auto
    have sol: "solid ?xs \<and> \<not> starts ?xs symbols" using solid_word[OF v(2), of "32 # words_text vs @ redirs_text rs @ post"] v(1) by (simp add: words_text_def)
    then have r2: "reads buf s2 (redirs_text [] @ ?xs)" using s2(3) by (simp add: redirs_text_def)
    have "\<not> starts ?xs (cstr ''<>'')" using sol starts_sub[of ?xs "cstr ''<>''" symbols] by (auto simp: cstr_def symbols_def)
    then obtain s3 where r: "parseredirs buf s2 = Inr ([], s3)" "reads buf s3 ?xs" using parseredirs_reads[OF r2] sol by auto
    obtain ts r s' where "parseargs buf s3 (args @ [q]) rs0 = Inr ((args @ [q]) @ ts, rs0 @ r, s')" "map (word_text buf) ts = ws"
      "map (apsnd (word_text buf)) r = map redir_means rs" "reads buf s' post"
      using Cons(1)[OF r(2) w(2) False _ Cons(6,7), of "args @ [q]" rs0] Cons(5) by auto
    then show ?thesis using step r(1) s2(2) by (intro exI[of _ "q # ts"] exI[of _ r] exI[of _ s']) simp
  qed
qed simp

lemma parsebacks_reads:
  "reads buf s (replicate k (of_char CHR ''&'') @ post) \<Longrightarrow> solid post \<Longrightarrow> \<not> starts post (cstr ''&'') \<Longrightarrow>
    \<exists>s'. parsebacks buf s c = ((Backcmd ^^ k) c, s') \<and> reads buf s' post"
proof (induction k arbitrary: s c)
  case 0
  then obtain s' where "peek buf s (cstr ''&'') = (False, s')" "reads buf s' post" using reads_peek[of buf s post "cstr ''&''"] by (auto simp: starts_def)
  then show ?case by (subst parsebacks.simps) simp
next
  case (Suc k)
  let ?a = "of_char CHR ''&'' :: u8" and ?xs = "replicate k (of_char CHR ''&'') @ post"
  have a: "\<not> blank ?a" "?a \<noteq> 0" "among ?a (cstr ''&'')" "among ?a (cstr ''|();&<'')" by (simp_all add: among_def whitespace_def cstr_def)
  have sol: "solid (?a # ?xs)" "solid ?xs" using a Suc(3) by (auto simp: solid_def) (cases k; auto)+
  obtain s1 where s1: "peek buf s (cstr ''&'') = (True, s1)" "reads buf s1 (?a # ?xs)" using reads_peek[of buf s "?a # ?xs" "cstr ''&''"] Suc(2) sol a by auto
  obtain w s2 where s2: "gettoken buf s1 = (?a, w, s2)" "reads buf s2 ?xs" using gettoken_symbol[OF s1(2) a(4)] sol by auto
  obtain s3 where "parsebacks buf s2 (Backcmd c) = ((Backcmd ^^ k) (Backcmd c), s3)" "reads buf s3 post" using Suc(1)[OF s2(2) Suc(3,4)] by blast
  then show ?case using s1(1) s2(1) by (subst parsebacks.simps) (simp add: funpow_swap1)
qed

lemma map_redirs: "map_cmd f (foldl redircmd c rs) = foldl redircmd (map_cmd f c) (map (apsnd f) rs)"
  by (induction rs arbitrary: c) (auto simp: redircmd_def)

lemma map_backs: "map_cmd f ((Backcmd ^^ k) c) = (Backcmd ^^ k) (map_cmd f c)"
  by (induction k) auto

text \<open>A symbol between two parts.\<close>

lemma symbol_reads:
  assumes "reads buf s (x # xs)" "among x ts" "among x (cstr ''|();&<'')" "solid xs"
  shows "\<exists>s1 w s2. peek buf s ts = (True, s1) \<and> gettoken buf s1 = (x, w, s2) \<and> reads buf s2 xs"
proof -
  have "solid (x # xs)" using assms(3) by (auto simp: solid_def among_def whitespace_def cstr_def)
  then obtain s1 where s1: "peek buf s ts = (True, s1)" "reads buf s1 (x # xs)" using reads_peek[OF assms(1), of ts] assms(2) by auto
  then show ?thesis using gettoken_symbol[OF s1(2) assms(3)] assms(4) by auto
qed

lemma peek_no: "reads buf s xs \<Longrightarrow> solid xs \<Longrightarrow> \<not> starts xs ts \<Longrightarrow> \<exists>s'. peek buf s ts = (False, s') \<and> reads buf s' xs"
  using reads_peek[of buf s xs ts] by (auto simp: starts_def)

text \<open>Every text starts with a byte that is no blank.\<close>

lemma redirs_solid: "solid post \<Longrightarrow> solid (redirs_text rs @ post)"
  by (cases rs; cases "hd rs") (auto simp: redirs_text_def cstr_def solid_def among_def whitespace_def)

lemma text_solid:
  "solid post \<Longrightarrow> line_ok l \<Longrightarrow> solid (line_text l @ post)"
  "solid post \<Longrightarrow> pipe_ok p \<Longrightarrow> solid (pipe_text p @ post)"
  "solid post \<Longrightarrow> exec_ok e \<Longrightarrow> solid (exec_text e @ post)"
proof (induction l and p and e arbitrary: post and post and post)
  case (LOne p k)
  have "solid (replicate k (of_char CHR ''&'') @ post)" using LOne(2) by (cases k) (auto simp: solid_def among_def whitespace_def)
  then show ?case using LOne by simp
next
  case (LSeq p k l)
  have "solid (replicate k (of_char CHR ''&'') @ cstr '';'' @ line_text l @ post)" by (cases k) (auto simp: solid_def among_def whitespace_def cstr_def)
  then show ?case using LSeq by simp
next
  case (PBar e p)
  have "solid (cstr ''|'' @ pipe_text p @ post)" by (auto simp: solid_def among_def whitespace_def cstr_def)
  then show ?case using PBar by simp
next
  case (EWords ws rs)
  show ?case
  proof (cases ws)
    case Nil
    then show ?thesis using redirs_solid[OF EWords(1)] by (simp add: words_text_def)
  next
    case (Cons w vs)
    then show ?thesis using solid_word[of w] EWords(2) by (simp add: words_text_def)
  qed
next
  case (EBlock l rs)
  then show ?case by (simp add: solid_def among_def whitespace_def cstr_def)
qed simp

lemma words_exec:
  assumes "reads buf s (exec_text (EWords ws rs) @ post)" "exec_ok (EWords ws rs)" "post = [] \<or> starts post (cstr ''|)&;'')"
  shows "\<exists>c s'. parseexec (Suc n) buf s = Inr (c, s') \<and> reads buf s' post \<and> map_cmd (word_text buf) c = exec_means (EWords ws rs)"
proof -
  let ?t = "words_text ws @ redirs_text rs @ post"
  have ok: "list_all word_ok ws" "length ws < MAXARGS" "list_all redir_ok rs" using assms(2) by simp_all
  have sol: "solid ?t" using text_solid(3)[OF stop_facts(1)[OF assms(3)] assms(2)] by simp
  have "\<not> starts ?t (cstr ''('')"
  proof (cases ws)
    case Nil
    then show ?thesis using stop_facts(3)[OF assms(3)] by (cases rs; cases "hd rs") (auto simp: words_text_def redirs_text_def starts_def cstr_def among_def)
  next
    case (Cons w vs)
    then show ?thesis using solid_word[of w "32 # words_text vs @ redirs_text rs @ post"] ok(1) starts_sub[of ?t "cstr ''(''" symbols]
      by (auto simp: words_text_def cstr_def symbols_def)
  qed
  then obtain s1 where p: "peek buf s (cstr ''('') = (False, s1)" "reads buf s1 ?t" using peek_no[of buf s ?t] assms(1) sol by auto
  obtain r s2 ts rs' s3 where q: "parseredirs buf s1 = Inr (r, s2)" "parseargs buf s2 [] r = Inr (ts, rs', s3)" "map (word_text buf) ts = ws"
    "map (apsnd (word_text buf)) rs' = map redir_means rs" "reads buf s3 post"
  proof (cases "ws = []")
    case True
    then have "reads buf s1 (redirs_text rs @ post)" using p(2) by (simp add: words_text_def)
    from parseredirs_reads[OF this ok(3) stop_facts(1,2)[OF assms(3)]] obtain r s2 where
      r: "parseredirs buf s1 = Inr (r, s2)" "map (apsnd (word_text buf)) r = map redir_means rs" "reads buf s2 post" by blast
    then show ?thesis using parseargs_stop[OF r(3) assms(3), of "[]" r] that True by auto
  next
    case False
    then obtain w vs where w: "ws = w # vs" "word_ok w" using ok(1) by (cases ws) auto
    have "\<not> starts ?t symbols" using solid_word[OF w(2), of "32 # words_text vs @ redirs_text rs @ post"] w(1) by (simp add: words_text_def)
    then have "\<not> starts ?t (cstr ''<>'')" using starts_sub[of ?t "cstr ''<>''" symbols] by (auto simp: cstr_def symbols_def)
    then obtain s2 where r: "parseredirs buf s1 = Inr ([], s2)" "reads buf s2 ?t"
      using parseredirs_reads[of buf s1 "[]" ?t] p(2) sol by (auto simp: redirs_text_def)
    obtain ts r' s3 where "parseargs buf s2 [] [] = Inr (ts, r', s3)" "map (word_text buf) ts = ws"
      "map (apsnd (word_text buf)) r' = map redir_means rs" "reads buf s3 post"
      using parseargs_reads[OF r(2) ok(1) False _ ok(3) assms(3), of "[]" "[]"] ok(2) by auto
    then show ?thesis using that r(1) by blast
  qed
  then show ?thesis using p(1) by (auto simp: map_redirs)
qed

lemma block_exec:
  assumes line: "\<And>s1. reads buf s1 (line_text l @ cstr '')'' @ redirs_text rs @ post) \<Longrightarrow>
      \<exists>c s'. parseline n buf s1 = Inr (c, s') \<and> reads buf s' (cstr '')'' @ redirs_text rs @ post) \<and> map_cmd (word_text buf) c = line_means l"
    and r: "reads buf s (exec_text (EBlock l rs) @ post)" and ok: "exec_ok (EBlock l rs)" and post: "post = [] \<or> starts post (cstr ''|)&;'')"
  shows "\<exists>c s'. parseexec (Suc (Suc n)) buf s = Inr (c, s') \<and> reads buf s' post \<and> map_cmd (word_text buf) c = exec_means (EBlock l rs)"
proof -
  let ?o = "of_char CHR ''('' :: u8" and ?c = "of_char CHR '')'' :: u8"
  let ?xs = "line_text l @ cstr '')'' @ redirs_text rs @ post" and ?ys = "redirs_text rs @ post"
  have sy: "solid ?ys" by (rule redirs_solid[OF stop_facts(1)[OF post]])
  have "solid (cstr '')'' @ ?ys)" by (simp add: solid_def among_def whitespace_def cstr_def)
  then have sx: "solid ?xs" using text_solid(1)[of "cstr '')'' @ ?ys" l] ok by simp
  have t: "reads buf s (?o # ?xs)" using r by (simp add: cstr_def)
  have o: "among ?o (cstr ''('')" "among ?o (cstr ''|();&<'')" "among ?c (cstr '')'')" "among ?c (cstr ''|();&<'')" by (simp_all add: among_def cstr_def)
  have "solid (?o # ?xs)" using o by (simp add: solid_def among_def whitespace_def)
  then obtain s0 where s0: "peek buf s (cstr ''('') = (True, s0)" "reads buf s0 (?o # ?xs)" using reads_peek[OF t, of "cstr ''(''"] o(1) by auto
  obtain s1 w s2 where s1: "peek buf s0 (cstr ''('') = (True, s1)" "gettoken buf s1 = (?o, w, s2)" "reads buf s2 ?xs"
    using symbol_reads[OF s0(2) o(1,2) sx] by blast
  obtain c s3 where s3: "parseline n buf s2 = Inr (c, s3)" "reads buf s3 (?c # ?ys)" "map_cmd (word_text buf) c = line_means l"
    using line[OF s1(3)] by (auto simp: cstr_def)
  obtain s4 v s5 where s4: "peek buf s3 (cstr '')'') = (True, s4)" "gettoken buf s4 = (?c, v, s5)" "reads buf s5 ?ys"
    using symbol_reads[OF s3(2) o(3,4) sy] by blast
  have "list_all redir_ok rs" using ok by simp
  from parseredirs_reads[OF s4(3) this stop_facts(1,2)[OF post]] obtain r' s6 where
    "parseredirs buf s5 = Inr (r', s6)" "map (apsnd (word_text buf)) r' = map redir_means rs" "reads buf s6 post" by blast
  then show ?thesis using s0(1) s1 s3 s4 by (simp add: map_redirs)
qed

text \<open>\<open>parses r buf post m\<close>: the parser has read a part that means \<open>m\<close> and is in front of \<open>post\<close>.\<close>

definition parses :: "(token cmd \<times> nat) res \<Rightarrow> u8 list \<Rightarrow> u8 list \<Rightarrow> u8 list cmd \<Rightarrow> bool" where
  "parses r buf post m \<longleftrightarrow> (\<exists>c s'. r = Inr (c, s') \<and> reads buf s' post \<and> map_cmd (word_text buf) c = m)"

lemma line_reads:
  assumes pipe: "\<And>xs. reads buf s (pipe_text p @ xs) \<Longrightarrow> xs = [] \<or> starts xs (cstr '')&;'') \<Longrightarrow> parses (parsepipe n buf s) buf xs (pipe_means p)"
    and r: "reads buf s (pipe_text p @ replicate k (of_char CHR ''&'') @ ys)" and ys: "solid ys" "\<not> starts ys (cstr ''&'')" "ys = [] \<or> starts ys (cstr '');'')"
  obtains c s1 s2 where "parsepipe n buf s = Inr (c, s1)" "parsebacks buf s1 c = ((Backcmd ^^ k) c, s2)" "reads buf s2 ys"
    "map_cmd (word_text buf) c = pipe_means p"
proof -
  let ?xs = "replicate k (of_char CHR ''&'') @ ys"
  have "?xs = [] \<or> starts ?xs (cstr '')&;'')" using ys(3) by (cases k) (auto simp: starts_def among_def cstr_def)
  then obtain c s1 where c: "parsepipe n buf s = Inr (c, s1)" "reads buf s1 ?xs" "map_cmd (word_text buf) c = pipe_means p"
    using pipe[OF r] unfolding parses_def by blast
  then show ?thesis using parsebacks_reads[OF c(2) ys(1,2), of c] that by blast
qed

lemma line_one:
  assumes "\<And>xs. reads buf s (pipe_text p @ xs) \<Longrightarrow> xs = [] \<or> starts xs (cstr '')&;'') \<Longrightarrow> parses (parsepipe n buf s) buf xs (pipe_means p)"
    and "reads buf s (line_text (LOne p k) @ post)" "post = [] \<or> starts post (cstr '')'')"
  shows "parses (parseline (Suc n) buf s) buf post (line_means (LOne p k))"
proof -
  have post: "solid post" "\<not> starts post (cstr ''&'')" "post = [] \<or> starts post (cstr '');'')" "\<not> starts post (cstr '';'')"
    using assms(3) stop_facts(1)[of post] by (auto simp: starts_def among_def cstr_def)
  have "reads buf s (pipe_text p @ replicate k (of_char CHR ''&'') @ post)" using assms(2) by simp
  from line_reads[OF assms(1) this post(1-3)] obtain c s1 s2 where
    c: "parsepipe n buf s = Inr (c, s1)" "parsebacks buf s1 c = ((Backcmd ^^ k) c, s2)" "reads buf s2 post" "map_cmd (word_text buf) c = pipe_means p" by blast
  obtain s3 where "peek buf s2 (cstr '';'') = (False, s3)" "reads buf s3 post" using peek_no[OF c(3) post(1,4)] by blast
  then show ?thesis using c by (simp add: parses_def map_backs)
qed

lemma line_seq:
  assumes "\<And>xs. reads buf s (pipe_text p @ xs) \<Longrightarrow> xs = [] \<or> starts xs (cstr '')&;'') \<Longrightarrow> parses (parsepipe n buf s) buf xs (pipe_means p)"
    and line: "\<And>s. reads buf s (line_text l @ post) \<Longrightarrow> parses (parseline n buf s) buf post (line_means l)"
    and "reads buf s (line_text (LSeq p k l) @ post)" "line_ok l" "post = [] \<or> starts post (cstr '')'')"
  shows "parses (parseline (Suc n) buf s) buf post (line_means (LSeq p k l))"
proof -
  let ?x = "of_char CHR '';'' :: u8"
  let ?ys = "?x # line_text l @ post"
  have a: "among ?x (cstr '';'')" "among ?x (cstr ''|();&<'')" by (simp_all add: among_def cstr_def)
  have ys: "solid ?ys" "\<not> starts ?ys (cstr ''&'')" "?ys = [] \<or> starts ?ys (cstr '');'')"
    by (simp_all add: solid_def starts_def among_def whitespace_def cstr_def)
  have "solid post" using assms(5) stop_facts(1)[of post] by (auto simp: starts_def among_def cstr_def)
  then have sl: "solid (line_text l @ post)" using text_solid(1) assms(4) by auto
  have "reads buf s (pipe_text p @ replicate k (of_char CHR ''&'') @ ?ys)" using assms(3) by (simp add: cstr_def)
  from line_reads[OF assms(1) this ys] obtain c s1 s2 where
    c: "parsepipe n buf s = Inr (c, s1)" "parsebacks buf s1 c = ((Backcmd ^^ k) c, s2)" "reads buf s2 ?ys" "map_cmd (word_text buf) c = pipe_means p" by blast
  obtain s3 w s4 where s3: "peek buf s2 (cstr '';'') = (True, s3)" "gettoken buf s3 = (?x, w, s4)" "reads buf s4 (line_text l @ post)"
    using symbol_reads[OF c(3) a sl] by blast
  then show ?thesis using line[OF s3(3)] c by (auto simp: parses_def map_backs)
qed

lemma pipe_one:
  assumes "parses (parseexec n buf s) buf post (exec_means e)" "post = [] \<or> starts post (cstr '')&;'')"
  shows "parses (parsepipe (Suc n) buf s) buf post (pipe_means (POne e))"
proof -
  have st: "post = [] \<or> starts post (cstr ''|)&;'')" "\<not> starts post (cstr ''|'')" using assms(2) by (auto simp: starts_def among_def cstr_def)
  obtain c s1 where c: "parseexec n buf s = Inr (c, s1)" "reads buf s1 post" "map_cmd (word_text buf) c = exec_means e"
    using assms(1) by (auto simp: parses_def)
  obtain s2 where "peek buf s1 (cstr ''|'') = (False, s2)" "reads buf s2 post" using peek_no[OF c(2) stop_facts(1)[OF st(1)] st(2)] by blast
  then show ?thesis using c by (simp add: parses_def)
qed

lemma pipe_bar:
  assumes "parses (parseexec n buf s) buf (of_char CHR ''|'' # pipe_text p @ post) (exec_means e)"
    and pipe: "\<And>s. reads buf s (pipe_text p @ post) \<Longrightarrow> parses (parsepipe n buf s) buf post (pipe_means p)"
    and "pipe_ok p" "post = [] \<or> starts post (cstr '')&;'')"
  shows "parses (parsepipe (Suc n) buf s) buf post (pipe_means (PBar e p))"
proof -
  let ?x = "of_char CHR ''|'' :: u8"
  have a: "among ?x (cstr ''|'')" "among ?x (cstr ''|();&<'')" by (simp_all add: among_def cstr_def)
  have "post = [] \<or> starts post (cstr ''|)&;'')" using assms(4) by (auto simp: starts_def among_def cstr_def)
  then have sp: "solid (pipe_text p @ post)" using text_solid(2) stop_facts(1) assms(3) by auto
  obtain c s1 where c: "parseexec n buf s = Inr (c, s1)" "reads buf s1 (?x # pipe_text p @ post)" "map_cmd (word_text buf) c = exec_means e"
    using assms(1) by (auto simp: parses_def)
  obtain s3 w s4 where s3: "peek buf s1 (cstr ''|'') = (True, s3)" "gettoken buf s3 = (?x, w, s4)" "reads buf s4 (pipe_text p @ post)"
    using symbol_reads[OF c(2) a sp] by blast
  then show ?thesis using pipe[OF s3(3)] c by (auto simp: parses_def)
qed

lemma parse_reads:
  "reads buf s (line_text l @ post) \<Longrightarrow> line_ok l \<Longrightarrow> post = [] \<or> starts post (cstr '')'') \<Longrightarrow> 4 * length (line_text l) + 4 \<le> n \<Longrightarrow>
    parses (parseline n buf s) buf post (line_means l)"
  "reads buf s (pipe_text p @ post) \<Longrightarrow> pipe_ok p \<Longrightarrow> post = [] \<or> starts post (cstr '')&;'') \<Longrightarrow> 4 * length (pipe_text p) + 3 \<le> n \<Longrightarrow>
    parses (parsepipe n buf s) buf post (pipe_means p)"
  "reads buf s (exec_text e @ post) \<Longrightarrow> exec_ok e \<Longrightarrow> post = [] \<or> starts post (cstr ''|)&;'') \<Longrightarrow> 4 * length (exec_text e) + 2 \<le> n \<Longrightarrow>
    parses (parseexec n buf s) buf post (exec_means e)"
proof (induction l and p and e arbitrary: s post n and s post n and s post n)
  case (LOne p k)
  then obtain m where m: "n = Suc m" by (cases n) auto
  show ?case unfolding m using LOne(1,3,5) m by (intro line_one[OF _ LOne(2,4)]) auto
next
  case (LSeq p k l)
  then obtain m where m: "n = Suc m" by (cases n) auto
  show ?case unfolding m using LSeq(1,2,4,5,6) m by (intro line_seq[OF _ _ LSeq(3) _ LSeq(5)]) (auto simp: cstr_def)
next
  case (POne e)
  then obtain m where m: "n = Suc m" by (cases n) auto
  have "post = [] \<or> starts post (cstr ''|)&;'')" using POne(4) by (auto simp: starts_def among_def cstr_def)
  then show ?case unfolding m using POne(1,2,3,5) m by (intro pipe_one[OF _ POne(4)]) auto
next
  case (PBar e p)
  then obtain m where m: "n = Suc m" by (cases n) auto
  have "starts (of_char CHR ''|'' # pipe_text p @ post) (cstr ''|)&;'')" by (simp add: starts_def among_def cstr_def)
  then show ?case unfolding m using PBar m by (intro pipe_bar[OF _ _ _ PBar(5)]) (auto simp: cstr_def)
next
  case (EWords ws rs)
  obtain m where "n = Suc m" using EWords(4) by (cases n) auto
  then show ?case using words_exec[OF EWords(1-3)] by (auto simp: parses_def)
next
  case (EBlock l rs)
  obtain m where m: "n = Suc (Suc m)" using that[of "n - 2"] EBlock(5) by simp
  have "4 * length (line_text l) + 4 \<le> m" using EBlock(5) m by (simp add: cstr_def)
  moreover have "starts (cstr '')'' @ redirs_text rs @ post) (cstr '')'')" by (simp add: starts_def among_def cstr_def)
  ultimately show ?case unfolding m parses_def using EBlock(1) EBlock(3) by (intro block_exec[OF _ EBlock(2-4)]) (auto simp: parses_def)
qed

lemma toks_set: "set_cmd c = set (toks c)"
  by (induction c) auto

lemma words_nonzero: "list_all word_ok ws \<Longrightarrow> 0 \<notin> set (words_text ws)" "list_all redir_ok rs \<Longrightarrow> 0 \<notin> set (redirs_text rs)"
proof -
  have w: "word_ok w \<Longrightarrow> 0 \<notin> set w" for w by (auto simp: word_ok_def word_char_def list_all_iff)
  show "list_all word_ok ws \<Longrightarrow> 0 \<notin> set (words_text ws)" using w by (induction ws) (auto simp: words_text_def)
  have "redir_ok r \<Longrightarrow> 0 \<notin> set (redir_text r)" for r using w by (cases r) (auto simp: cstr_def)
  then show "list_all redir_ok rs \<Longrightarrow> 0 \<notin> set (redirs_text rs)" by (induction rs) (auto simp: redirs_text_def)
qed

lemma text_nonzero:
  "line_ok l \<Longrightarrow> 0 \<notin> set (line_text l)" "pipe_ok p \<Longrightarrow> 0 \<notin> set (pipe_text p)" "exec_ok e \<Longrightarrow> 0 \<notin> set (exec_text e)"
  by (induction l and p and e) (auto simp: words_nonzero cstr_def)

text \<open>C16. Every sentence of the grammar is parsed into the command that it means: semicolons bind less than ampersands, and
  these less than bars, lists and pipelines associate to the right, redirections wrap the command they follow, and
  parentheses make a line into a command. The words of the result, read as C strings in the line after the parser has cut
  it up, are the words of the sentence.\<close>

theorem parsecmd_grammar:
  assumes "line_ok l"
  shows "\<exists>c buf. parsecmd (line_text l) = Inr (c, buf) \<and> map_cmd (\<lambda>w. cstring buf (fst w)) c = line_means l"
proof -
  let ?t = "line_text l"
  have "reads ?t 0 (?t @ [])" by (simp add: reads_def)
  from parse_reads(1)[OF this assms, of "parse_fuel ?t"] obtain c s where
    c: "parseline (parse_fuel ?t) ?t 0 = Inr (c, s)" "reads ?t s []" "map_cmd (word_text ?t) c = line_means l" by (auto simp: parses_def parse_fuel_def)
  obtain s' where "peek ?t s [] = (False, s')" "reads ?t s' []" using peek_no[OF c(2)] by (auto simp: solid_def starts_def)
  then have p: "parsecmd ?t = Inr (c, nulterminate c ?t)" using c(1) by (simp add: parsecmd_def reads_def)
  have "list_all (word_tok ?t) (toks c)" using parsecmd_result[of ?t] p by simp
  then have "\<forall>w \<in> set_cmd c. cstring (nulterminate c ?t) (fst w) = word_text ?t w"
    using nulterminate_words[OF text_nonzero(1)[OF assms]] by (simp add: toks_set)
  then have "map_cmd (\<lambda>w. cstring (nulterminate c ?t) (fst w)) c = map_cmd (word_text ?t) c" by (intro cmd.map_cong0) simp
  then show ?thesis using p c(3) by simp
qed

theorem parsecmd_grammar_witness:
  "\<exists>c buf. parsecmd (cstr ''(a <b ;c )|d x &'') = Inr (c, buf) \<and>
    map_cmd (\<lambda>w. cstring buf (fst w)) c =
      Backcmd (Pipecmd (Listcmd (Redircmd (Execcmd [cstr ''a'']) (cstr ''b'') 0 0) (Execcmd [cstr ''c''])) (Execcmd [cstr ''d'', cstr ''x'']))"
proof -
  let ?l = "LOne (PBar (EBlock (LSeq (POne (EWords [cstr ''a''] [SIn (cstr ''b'')])) 0 (LOne (POne (EWords [cstr ''c''] [])) 0)) [])
      (POne (EWords [cstr ''d'', cstr ''x''] []))) 1"
  have "line_ok ?l" by (simp add: MAXARGS_def word_ok_def word_char_def cstr_def among_def whitespace_def symbols_def)
  moreover have "line_text ?l = cstr ''(a <b ;c )|d x &''" by code_simp
  moreover have "line_means ?l = Backcmd (Pipecmd (Listcmd (Redircmd (Execcmd [cstr ''a'']) (cstr ''b'') 0 0) (Execcmd [cstr ''c''])) (Execcmd [cstr ''d'', cstr ''x'']))" by code_simp
  ultimately show ?thesis using parsecmd_grammar[of ?l] by (metis (no_types, lifting))
qed

end
