(* ===== verification/Xv6_Grep.thy ===== *)
theory Xv6_Grep
  imports Xv6_Console
begin

text \<open>
  The program grep (grep.c). A C string is the list of its bytes before the NUL, and the buffer of \<open>grep\<close> is a
  list of 1024 bytes; reading it past its end is an overrun. The matcher is compared with a meaning of patterns
  that does not search: which pieces of text a pattern stands for.
\<close>

section \<open>The matcher\<close>

definition chr :: "char \<Rightarrow> u8" where
  "chr c = of_char c"

function matchhere :: "u8 list \<Rightarrow> u8 list \<Rightarrow> bool" and matchstar :: "u8 \<Rightarrow> u8 list \<Rightarrow> u8 list \<Rightarrow> bool" where
  "matchhere re tx =
     (case re of
        [] \<Rightarrow> True
      | c # re' \<Rightarrow>
          if re' \<noteq> [] \<and> hd re' = chr CHR ''*'' then matchstar c (tl re') tx
          else if c = chr CHR ''$'' \<and> re' = [] then tx = []
          else if tx \<noteq> [] \<and> (c = chr CHR ''.'' \<or> c = hd tx) then matchhere re' (tl tx)
          else False)"
| "matchstar c re tx =
     (if matchhere re tx then True
      else if tx \<noteq> [] \<and> (hd tx = c \<or> c = chr CHR ''.'') then matchstar c re (tl tx)
      else False)"
  by pat_completeness auto
termination
  by (relation "measure (\<lambda>x. case x of Inl (re, tx) \<Rightarrow> 2 * length re + length tx | Inr (c, re, tx) \<Rightarrow> 2 * length re + length tx + 1)")
    (auto simp: neq_Nil_conv)

declare matchhere.simps [simp del] matchstar.simps [simp del]

fun match_from :: "u8 list \<Rightarrow> u8 list \<Rightarrow> bool" where
  "match_from re tx = (if matchhere re tx then True else case tx of [] \<Rightarrow> False | _ # tx' \<Rightarrow> match_from re tx')"

declare match_from.simps [simp del]

definition match :: "u8 list \<Rightarrow> u8 list \<Rightarrow> bool" where
  "match re tx = (if re \<noteq> [] \<and> hd re = chr CHR ''^'' then matchhere (tl re) tx else match_from re tx)"

section \<open>The meaning of a pattern\<close>

datatype item = One u8 | Star u8 | Eol

fun items :: "u8 list \<Rightarrow> item list" where
  "items [] = []"
| "items [c] = (if c = chr CHR ''$'' then [Eol] else [One c])"
| "items (c # d # re) = (if d = chr CHR ''*'' then Star c # items re else One c # items (d # re))"

definition sat :: "u8 \<Rightarrow> u8 \<Rightarrow> bool" where
  "sat c x \<longleftrightarrow> c = chr CHR ''.'' \<or> c = x"

text \<open>\<open>means is u v\<close>: the items stand for the piece of text \<open>u\<close> when \<open>v\<close> follows it.\<close>

inductive means :: "item list \<Rightarrow> u8 list \<Rightarrow> u8 list \<Rightarrow> bool" where
  means_Nil: "means [] [] v"
| means_One: "sat c x \<Longrightarrow> means its u v \<Longrightarrow> means (One c # its) (x # u) v"
| means_Star: "list_all (sat c) xs \<Longrightarrow> means its u v \<Longrightarrow> means (Star c # its) (xs @ u) v"
| means_Eol: "means [Eol] [] []"

inductive_simps means_simps: "means [] u v" "means (One c # its) u v" "means [Eol] u v"
inductive_cases means_StarE: "means (Star c # its) u v"

definition here :: "u8 list \<Rightarrow> u8 list \<Rightarrow> bool" where
  "here re tx \<longleftrightarrow> (\<exists>u v. tx = u @ v \<and> means (items re) u v)"

definition here_star :: "u8 \<Rightarrow> u8 list \<Rightarrow> u8 list \<Rightarrow> bool" where
  "here_star c re tx \<longleftrightarrow> (\<exists>u v. tx = u @ v \<and> means (Star c # items re) u v)"

lemma here_star_step:
  "here_star c re tx \<longleftrightarrow> here re tx \<or> (tx \<noteq> [] \<and> sat c (hd tx) \<and> here_star c re (tl tx))"
proof
  assume "here_star c re tx"
  then obtain xs u v where u: "tx = xs @ u @ v" "list_all (sat c) xs" "means (items re) u v"
    by (auto simp: here_star_def elim!: means_StarE)
  then show "here re tx \<or> (tx \<noteq> [] \<and> sat c (hd tx) \<and> here_star c re (tl tx))"
  proof (cases xs)
    case (Cons y ys)
    then have "means (Star c # items re) (ys @ u) v" using u means_Star[of c ys] by simp
    then show ?thesis using u Cons by (auto simp: here_star_def)
  qed (auto simp: here_def)
next
  assume r: "here re tx \<or> (tx \<noteq> [] \<and> sat c (hd tx) \<and> here_star c re (tl tx))"
  show "here_star c re tx"
  proof (cases "here re tx")
    case True
    then obtain u v where "tx = u @ v" "means (items re) u v" by (auto simp: here_def)
    then show ?thesis using means_Star[of c "[]" "items re" u v] by (auto simp: here_star_def)
  next
    case False
    then obtain y tx' where t: "tx = y # tx'" "sat c y" "here_star c re tx'" using r by (cases tx) auto
    then obtain xs u v where "tx' = xs @ u @ v" "list_all (sat c) xs" "means (items re) u v"
      by (auto simp: here_star_def elim!: means_StarE)
    then show ?thesis using t means_Star[of c "y # xs" "items re" u v] unfolding here_star_def by (intro exI[of _ "y # xs @ u"] exI[of _ v]) simp
  qed
qed

lemma here_cases:
  "here [] tx"
  "here (c # chr CHR ''*'' # re) tx = here_star c re tx"
  "here [chr CHR ''$''] tx = (tx = [])"
  "\<not> (re = [] \<and> c = chr CHR ''$'') \<Longrightarrow> \<not> (re \<noteq> [] \<and> hd re = chr CHR ''*'') \<Longrightarrow>
     here (c # re) tx = (tx \<noteq> [] \<and> sat c (hd tx) \<and> here re (tl tx))"
proof -
  show "here [] tx" unfolding here_def by (intro exI[of _ "[]"] exI[of _ tx]) (simp add: means_Nil)
  show "here (c # chr CHR ''*'' # re) tx = here_star c re tx" by (simp add: here_def here_star_def)
  have "items [chr CHR ''$''] = [Eol]" by simp
  then show "here [chr CHR ''$''] tx = (tx = [])" by (simp add: here_def means_simps)
  assume "\<not> (re = [] \<and> c = chr CHR ''$'')" "\<not> (re \<noteq> [] \<and> hd re = chr CHR ''*'')"
  then have "items (c # re) = One c # items re" by (cases re) auto
  then have "here (c # re) tx \<longleftrightarrow> (\<exists>x u v. tx = x # u @ v \<and> sat c x \<and> means (items re) u v)"
    unfolding here_def by (metis means_simps(2) append_Cons)
  also have "\<dots> \<longleftrightarrow> tx \<noteq> [] \<and> sat c (hd tx) \<and> here re (tl tx)" unfolding here_def by (cases tx) auto
  finally show "here (c # re) tx = (tx \<noteq> [] \<and> sat c (hd tx) \<and> here re (tl tx))" .
qed

lemma matchhere_here: "matchhere re tx = here re tx" and matchstar_here: "matchstar c re tx = here_star c re tx"
proof (induction re tx and c re tx rule: matchhere_matchstar.induct)
  case (1 re tx)
  show ?case
  proof (cases re)
    case Nil
    then show ?thesis by (simp add: matchhere.simps here_cases)
  next
    case (Cons c re')
    consider (star) "re' \<noteq> [] \<and> hd re' = chr CHR ''*''" | (eol) "re' = []" "c = chr CHR ''$''"
      | (one) "\<not> (re' \<noteq> [] \<and> hd re' = chr CHR ''*'')" "\<not> (re' = [] \<and> c = chr CHR ''$'')" by blast
    then show ?thesis
    proof cases
      case star
      then obtain re2 where e: "re' = chr CHR ''*'' # re2" by (cases re') auto
      show ?thesis using 1(1)[OF Cons star] Cons here_cases(2)[of c re2 tx] unfolding Cons e by (subst matchhere.simps) simp
    next
      case eol
      then show ?thesis using Cons by (simp add: matchhere.simps here_cases)
    next
      case one
      have "matchhere (c # re') tx = (tx \<noteq> [] \<and> sat c (hd tx) \<and> matchhere re' (tl tx))"
        using one by (subst matchhere.simps) (auto simp: sat_def)
      moreover have "tx \<noteq> [] \<and> sat c (hd tx) \<Longrightarrow> matchhere re' (tl tx) = here re' (tl tx)"
        using 1(2)[OF Cons one(1)] one(2) by (auto simp: sat_def)
      ultimately show ?thesis using here_cases(4)[OF one(2,1), of tx] unfolding Cons by blast
    qed
  qed
next
  case (2 c re tx)
  show ?case using 2 by (auto simp: matchstar.simps[of c re tx] here_star_step[of c re tx] sat_def)
qed

lemma match_from_here: "match_from re tx \<longleftrightarrow> (\<exists>a b. tx = a @ b \<and> here re b)"
proof (induction tx)
  case Nil
  then show ?case by (simp add: match_from.simps matchhere_here)
next
  case (Cons x tx)
  have "(\<exists>a b. x # tx = a @ b \<and> here re b) \<longleftrightarrow> here re (x # tx) \<or> (\<exists>a b. tx = a @ b \<and> here re b)"
    by (auto simp: Cons_eq_append_conv)
  then show ?case using Cons by (simp add: match_from.simps[of re "x # tx"] matchhere_here)
qed

text \<open>C18. The matcher finds exactly what the pattern means: some piece of the text that its items stand for, at the
  beginning of the text when the pattern starts with a circumflex and anywhere otherwise; it ends on every pattern
  and every text.\<close>

theorem match_meaning:
  "match re tx \<longleftrightarrow>
     (if re \<noteq> [] \<and> hd re = chr CHR ''^'' then \<exists>u v. tx = u @ v \<and> means (items (tl re)) u v
      else \<exists>a u v. tx = a @ u @ v \<and> means (items re) u v)"
  by (auto simp: match_def matchhere_here match_from_here here_def)

section \<open>Printing the matching lines\<close>

text \<open>\<open>strchr(p, '\n')\<close> on the buffer from offset \<open>p\<close> on, which ends at a NUL.\<close>

function strchr_nl :: "u8 list \<Rightarrow> nat \<Rightarrow> nat option res" where
  "strchr_nl buf p =
     (if p \<ge> length buf then Inl (Undef ''overrun'')
      else if buf ! p = 0 then Inr None
      else if buf ! p = 10 then Inr (Some p)
      else strchr_nl buf (Suc p))"
  by pat_completeness auto
termination by (relation "measure (\<lambda>(buf, p). length buf - p)") auto

declare strchr_nl.simps [simp del]

lemma strchr_nl_bound: "strchr_nl buf p = Inr (Some q) \<Longrightarrow> p \<le> q \<and> q < length buf"
proof (induction buf p rule: strchr_nl.induct)
  case (1 buf p)
  then show ?case by (auto simp: strchr_nl.simps[of buf p] split: if_splits)
qed

text \<open>The loop over the lines: it returns the buffer, the offset behind the last line and what was written.\<close>

function grep_lines :: "u8 list \<Rightarrow> u8 list \<Rightarrow> nat \<Rightarrow> u8 list \<Rightarrow> (u8 list \<times> nat \<times> u8 list) res" where
  "grep_lines pat buf p out =
     (case strchr_nl buf p of
        Inl e \<Rightarrow> Inl e
      | Inr None \<Rightarrow> Inr (buf, p, out)
      | Inr (Some q) \<Rightarrow>
          let line = take (q - p) (drop p buf)
          in if match pat line then grep_lines pat buf (Suc q) (out @ line @ [10])
             else grep_lines pat (buf[q := 0]) (Suc q) out)"
  by pat_completeness auto
termination by (relation "measure (\<lambda>(pat, buf, p, out). length buf - p)") (auto dest!: strchr_nl_bound)

declare grep_lines.simps [simp del]

text \<open>The outer loop. \<open>inp\<close> is what successive calls of \<open>read\<close> find; a call returns at most the number of bytes
  asked for, and nothing at the end of the file. An offset outside the buffer is an overrun.\<close>

fun read_some :: "nat \<Rightarrow> u8 list list \<Rightarrow> u8 list \<times> u8 list list" where
  "read_some k [] = ([], [])"
| "read_some k (c # cs) = (take k c, if length c \<le> k then cs else drop k c # cs)"

definition put_at :: "nat \<Rightarrow> u8 list \<Rightarrow> u8 list \<Rightarrow> u8 list" where
  "put_at m xs buf = take m buf @ xs @ drop (m + length xs) buf"

lemma read_some_shorter: "read_some k inp = (xs, inp') \<Longrightarrow> xs \<noteq> [] \<Longrightarrow> sum_list (map length inp') < sum_list (map length inp)"
  by (cases inp) (auto split: if_splits)

function grep :: "u8 list \<Rightarrow> u8 list \<Rightarrow> int \<Rightarrow> u8 list list \<Rightarrow> u8 list \<Rightarrow> u8 list res" where
  "grep pat buf m inp out =
     (case read_some (nat (int (length buf) - m)) inp of
        (xs, inp') \<Rightarrow>
          if xs = [] then Inr out
          else if m < 0 then Inl (Undef ''overrun'')
          else bindr (grep_lines pat (put_at (nat m) xs buf) 0 out) (\<lambda>(buf, p, out).
            if p = 0 then grep pat buf 0 inp' out
            else let m = m + int (length xs) - int p
              in grep pat (put_at 0 (take (nat m) (drop p buf)) buf) m inp' out))"
  by pat_completeness auto
termination
  by (relation "measure (\<lambda>(pat, buf, m, inp, out). sum_list (map length inp))")
    (auto dest!: read_some_shorter[OF sym])

declare grep.simps [simp del]

section \<open>Which lines are printed\<close>

definition is_line :: "u8 list \<Rightarrow> bool" where
  "is_line l \<longleftrightarrow> filter (\<lambda>c. c = 0 \<or> c = 10) l = []"

definition lines :: "u8 list list \<Rightarrow> u8 list" where
  "lines ls = concat (map (\<lambda>l. l @ [10]) ls)"

definition grep_buf :: "u8 list" where
  "grep_buf = replicate 1024 0"

lemma lines_simps [simp]: "lines [] = []" "lines (l # ls) = l @ 10 # lines ls"
  by (simp_all add: lines_def)

lemma strchr_nl_line:
  assumes "is_line l" "c = 10 \<or> c = 0"
  shows "strchr_nl (pre @ l @ c # rs) (length pre) = Inr (if c = 10 then Some (length pre + length l) else None)"
  using assms(1)
proof (induction l arbitrary: pre)
  case Nil
  then show ?case using assms(2) by (subst strchr_nl.simps) auto
next
  case (Cons x l)
  then have "is_line l" "x \<noteq> 0" "x \<noteq> 10" by (auto simp: is_line_def split: if_splits)
  then show ?case using Cons(1)[of "pre @ [x]"] by (subst strchr_nl.simps) auto
qed

lemma grep_lines_prints:
  "list_all is_line ls \<Longrightarrow>
    grep_lines pat (pre @ lines ls @ 0 # post) (length pre) out =
      Inr (pre @ concat (map (\<lambda>l. l @ [if match pat l then 10 else 0]) ls) @ 0 # post, length pre + length (lines ls), out @ lines (filter (match pat) ls))"
proof (induction ls arbitrary: pre out)
  case Nil
  have "strchr_nl (pre @ 0 # post) (length pre) = Inr None" using strchr_nl_line[of "[]" 0 pre post] by (simp add: is_line_def)
  then show ?case by (simp add: grep_lines.simps)
next
  case (Cons l ls)
  have q: "strchr_nl (pre @ l @ 10 # lines ls @ 0 # post) (length pre) = Inr (Some (length pre + length l))"
    using Cons(2) strchr_nl_line[of l 10 pre "lines ls @ 0 # post"] by simp
  have u: "(pre @ l @ 10 # lines ls @ 0 # post)[length pre + length l := 0] = (pre @ l @ [0]) @ lines ls @ 0 # post"
    by (simp add: list_update_append)
  have w: "pre @ l @ 10 # lines ls @ 0 # post = (pre @ l @ [10]) @ lines ls @ 0 # post" by simp
  show ?case
  proof (cases "match pat l")
    case True
    then have "grep_lines pat (pre @ lines (l # ls) @ 0 # post) (length pre) out =
        grep_lines pat ((pre @ l @ [10]) @ lines ls @ 0 # post) (length (pre @ l @ [10])) (out @ l @ [10])"
      by (subst grep_lines.simps) (simp add: q)
    then show ?thesis using Cons(1)[of "pre @ l @ [10]" "out @ l @ [10]"] Cons(2) True by simp
  next
    case False
    then have "grep_lines pat (pre @ lines (l # ls) @ 0 # post) (length pre) out =
        grep_lines pat ((pre @ l @ [0]) @ lines ls @ 0 # post) (length (pre @ l @ [0])) out"
      using u by (subst grep_lines.simps) (simp add: q)
    then show ?thesis using Cons(1)[of "pre @ l @ [0]" out] Cons(2) False by simp
  qed
qed

lemma put_at_0: "length xs \<le> length buf \<Longrightarrow> put_at 0 xs buf = xs @ drop (length xs) buf"
  by (simp add: put_at_def)

text \<open>One turn of the outer loop, when what is read starts the buffer and makes whole lines of it.\<close>

lemma grep_turn:
  assumes "xs \<noteq> []" "length xs \<le> length buf" "xs @ drop (length xs) buf = lines ls @ 0 # post" "list_all is_line ls" "ls \<noteq> []"
  shows "\<exists>buf'. buf' = concat (map (\<lambda>l. l @ [if match pat l then 10 else 0]) ls) @ 0 # post \<and>
    grep pat buf 0 (xs # inp) out =
     (let m = int (length xs) - int (length (lines ls))
      in grep pat (put_at 0 (take (nat m) (drop (length (lines ls)) buf')) buf') m inp (out @ lines (filter (match pat) ls)))"
proof -
  define buf' where "buf' = concat (map (\<lambda>l. l @ [if match pat l then 10 else 0]) ls) @ 0 # post"
  have g: "grep_lines pat (xs @ drop (length xs) buf) 0 out = Inr (buf', length (lines ls), out @ lines (filter (match pat) ls))"
    using grep_lines_prints[OF assms(4), of pat "[]" post out] assms(3) by (simp add: buf'_def)
  have "lines ls \<noteq> []" using assms(5) by (cases ls) auto
  then have "grep pat buf 0 (xs # inp) out =
     (let m = int (length xs) - int (length (lines ls))
      in grep pat (put_at 0 (take (nat m) (drop (length (lines ls)) buf')) buf') m inp (out @ lines (filter (match pat) ls)))"
    using assms(1,2) g by (subst grep.simps) (simp add: put_at_0[of xs] Let_def)
  then show ?thesis unfolding buf'_def by blast
qed

lemma grep_end: "grep pat buf m [] out = Inr out"
  by (simp add: grep.simps)



text \<open>C27. The buffer is not ended behind what was read. When a line that matched is followed by a shorter read, \<open>grep\<close>
  goes on into what is left of the longer line and prints that as well if it matches; its count of the bytes kept is then
  negative, and the next read stores in front of the buffer.\<close>

theorem grep_stale_text:
  assumes "is_line l" "is_line w" "match pat l" "length w < length l" "length l < 1023" "z \<noteq> []"
  shows "grep pat grep_buf 0 [l @ [10], w @ [10]] [] = Inr (lines (filter (match pat) [l, w, drop (Suc (length w)) l])) \<and>
    grep pat grep_buf 0 [l @ [10], w @ [10], z] [] = Inl (Undef ''overrun'')"
proof -
  let ?v = "drop (Suc (length w)) l"
  define a where "a = (l @ [10]) @ 0 # replicate (1022 - length l) 0"
  have v: "is_line ?v" using assms(1) by (auto simp: is_line_def filter_empty_conv dest: in_set_dropD)
  have "(l @ [10]) @ drop (length (l @ [10])) grep_buf = lines [l] @ 0 # replicate (1022 - length l) 0"
    using assms(5) by (simp add: grep_buf_def replicate_Suc[symmetric] del: replicate_Suc)
  from grep_turn[OF _ _ this, of pat] have
    1: "grep pat grep_buf 0 ((l @ [10]) # inp) [] = grep pat a 0 inp (l @ [10])" for inp
    using assms(1,3,5) by (simp add: grep_buf_def put_at_0 a_def)
  have "(w @ [10]) @ drop (length (w @ [10])) a = lines [w, ?v] @ 0 # replicate (1022 - length l) 0"
    using assms(4) by (simp add: a_def)
  from grep_turn[OF _ _ this, of pat] obtain b where
    2: "grep pat a 0 ((w @ [10]) # inp) (l @ [10]) = grep pat b (int (length w) - int (length l)) inp (l @ [10] @ lines (filter (match pat) [w, ?v]))" for inp
    using assms(2,4) v by (simp add: a_def)
  have "grep pat b (int (length w) - int (length l)) [z] out = Inl (Undef ''overrun'')" for out
    using assms(4,6) by (subst grep.simps) simp
  then show ?thesis using assms(3) by (simp add: 1 2 grep_end)
qed

theorem grep_stale_text_witness:
  "grep (cstr ''a'') grep_buf 0 [cstr ''aaaa'' @ [10], cstr ''b'' @ [10]] [] = Inr (cstr ''aaaa'' @ [10] @ cstr ''aa'' @ [10])"
proof -
  have "is_line (cstr ''aaaa'')" "is_line (cstr ''b'')" "match (cstr ''a'') (cstr ''aaaa'')" "length (cstr ''b'') < length (cstr ''aaaa'')" "length (cstr ''aaaa'') < 1023"
    "lines (filter (match (cstr ''a'')) [cstr ''aaaa'', cstr ''b'', drop (Suc (length (cstr ''b''))) (cstr ''aaaa'')]) = cstr ''aaaa'' @ [10] @ cstr ''aa'' @ [10]" by code_simp+
  then show ?thesis using grep_stale_text[of "cstr ''aaaa''" "cstr ''b''" "cstr ''a''" "[1]"] by simp
qed

end
