(* ===== verification/Xv6_FileData.thy ===== *)
theory Xv6_FileData
  imports Xv6_Demo
begin

unbundle bit_operations_syntax

text \<open>
  The contents of a file: the bytes of its data blocks, direct and indirect, as the buffer cache shows them. Inside
  a transaction \<open>readi\<close> and \<open>writei\<close> work on this list of bytes.
\<close>

section \<open>Reading a block\<close>

text \<open>Nothing changes but the cache.\<close>

definition quietly :: "schedflag \<Rightarrow> 'a icst_scheme \<Rightarrow> 'a icst_scheme \<Rightarrow> bool" where
  "quietly cfg s t \<longleftrightarrow> in_trans cfg t \<and> contents t = contents s \<and> icache t = icache s \<and> lh_n t = lh_n s \<and> same_log s t"

lemma quietly_trans: "quietly cfg s t \<Longrightarrow> quietly cfg t u \<Longrightarrow> quietly cfg s u"
  by (auto simp: quietly_def same_log_trans)

lemma quietly_refl: "in_trans cfg s \<Longrightarrow> quietly cfg s s"
  by (simp add: quietly_def same_log_def)

lemma frame_icache: "bioframe s t \<Longrightarrow> icache t = icache s"
proof -
  assume "bioframe s t"
  then have "bcst.more t = bcst.more s" by (simp add: bioframe_sel)
  then show ?thesis by (cases s; cases t) simp
qed

lemma trans_room:
  assumes "in_trans cfg s" "x < lg_start s"
  shows "bok cfg [] s" "x \<notin> busies (bcache s)" "x < disksize s"
    "x \<in> dirties (bcache s) \<or> card (dirties (bcache s) \<union> busies (bcache s)) < NBUF"
proof -
  have ok: "bok cfg [] s" "busies (bcache s) = {}" "log_fits s" "dirties (bcache s) = secs s" using assms(1) by (auto simp: in_trans_def idle_def)
  have "card (secs s) \<le> ntrans s" using card_image_le[of "{..<ntrans s}" "lh_sector s"] by simp
  then show "bok cfg [] s" "x \<notin> busies (bcache s)" "x < disksize s" "x \<in> dirties (bcache s) \<or> card (dirties (bcache s) \<union> busies (bcache s)) < NBUF"
    using ok assms(2) by (auto simp: log_fits_def word_less_nat_alt NBUF_def LOGSIZE_def MAXOPBLOCKS_def)
qed

lemma read_block:
  assumes s: "in_trans cfg s" and x: "x < lg_start s"
  shows "\<exists>b t u. bread 1 x s = Inr (b, t) \<and> bdata (bcache t b) = contents s x \<and> icache t = icache s \<and> kheld cfg [] t \<and>
    brelse cfg b t = Inr u \<and> quietly cfg s u"
proof -
  have ok: "bok cfg [] s" "busies (bcache s) = {}" using s by (auto simp: in_trans_def idle_def)
  obtain b t where t: "bread 1 x s = Inr (b, t)" "bok cfg [] t" "hnd (bcache t) x b" "contents t = contents s"
    "disk t = disk s" "busies (bcache t) = insert x (busies (bcache s))" "dirties (bcache t) = dirties (bcache s)" "bioframe s t"
    using bio.rd_law[OF trans_room[OF s x]] by (elim exE conjE) (rule that)
  have g: "bdata (bcache t b) = contents s x" using bio.get_law[OF t(2,3)] t(4) by simp
  have h: "x \<in> dirties (bcache t) \<or> contents t x = disk t x" using bio.clean_law[OF ok(1), of x] ok(2) t(4,5,7) by auto
  obtain u where u: "brelse cfg b t = Inr u" "bok cfg [] u" "contents u = contents t" "disk u = disk t"
    "busies (bcache u) = busies (bcache t) - {x}" "dirties (bcache u) = dirties (bcache t)" "bioframe t u"
    using bio.rl_law[OF t(2,3) h] by (elim exE conjE) (rule that)
  have f: "bioframe s u" by (rule bioframe_trans[OF t(8) u(7)])
  have "in_trans cfg u" using s u(2,5,6) t(6,7) ok(2) logframe[OF f] log_fits_frame(1)[OF f] by (simp add: in_trans_def idle_def)
  then have "quietly cfg s u" using u(3) t(4) frame_icache[OF f] logframe[OF f] frame_same_log[OF f] by (simp add: quietly_def)
  moreover have "kheld cfg [] t" using t(2) by (simp add: bok_def)
  ultimately show ?thesis using t(1) g frame_icache[OF t(8)] u(1) by blast
qed

section \<open>The blocks of a file\<close>

definition fblock :: "'a icst_scheme \<Rightarrow> nat \<Rightarrow> nat \<Rightarrow> u32" where
  "fblock s ip k = (if k < NDIRECT then addrs (icache s ip) k else bload32 (contents s (addrs (icache s ip) NDIRECT)) (4 * (k - NDIRECT)))"

definition nblocks :: "'a icst_scheme \<Rightarrow> nat \<Rightarrow> nat" where
  "nblocks s ip = (unat (isize (icache s ip)) + 511) div 512"

text \<open>A file on disk 1 whose blocks are all there, below the log, and none of them twice.\<close>

definition file_ok :: "'a icst_scheme \<Rightarrow> nat \<Rightarrow> bool" where
  "file_ok s ip \<longleftrightarrow> idev (icache s ip) = 1 \<and> itype (icache s ip) \<noteq> T_DEV \<and> unat (isize (icache s ip)) \<le> MAXFILE * BSIZE \<and>
     (\<forall>k<nblocks s ip. fblock s ip k \<noteq> 0 \<and> fblock s ip k < lg_start s) \<and> inj_on (fblock s ip) {..<nblocks s ip} \<and>
     (NDIRECT < nblocks s ip \<longrightarrow> addrs (icache s ip) NDIRECT \<noteq> 0 \<and> addrs (icache s ip) NDIRECT < lg_start s \<and>
        addrs (icache s ip) NDIRECT \<notin> fblock s ip ` {..<nblocks s ip})"

definition file_byte :: "'a icst_scheme \<Rightarrow> nat \<Rightarrow> nat \<Rightarrow> u8" where
  "file_byte s ip i = contents s (fblock s ip (i div 512)) (of_nat (i mod 512))"

definition file_bytes :: "'a icst_scheme \<Rightarrow> nat \<Rightarrow> u8 list" where
  "file_bytes s ip = map (file_byte s ip) [0..<unat (isize (icache s ip))]"

text \<open>Two states with the same view of a file.\<close>

lemma file_cong:
  assumes "icache t = icache s" "lg_start t = lg_start s" "fblock t ip = fblock s ip"
  shows "nblocks t ip = nblocks s ip" "file_ok t ip = file_ok s ip"
  using assms by (simp_all add: nblocks_def file_ok_def)

lemma quietly_file:
  assumes "quietly cfg s t"
  shows "fblock t = fblock s" "nblocks t ip = nblocks s ip" "file_ok t ip = file_ok s ip" "file_byte t = file_byte s"
proof -
  have q: "contents t = contents s" "icache t = icache s" "lg_start t = lg_start s" using assms by (simp_all add: quietly_def same_log_def)
  show f: "fblock t = fblock s" by (intro ext) (simp add: fblock_def q cong: if_cong)
  show "nblocks t ip = nblocks s ip" "file_ok t ip = file_ok s ip" using file_cong[OF q(2,3)] f by auto
  show "file_byte t = file_byte s" by (intro ext) (simp add: file_byte_def f q)
qed

lemma bmap_ok:
  assumes s: "in_trans cfg s" and f: "file_ok s ip" and k: "k < nblocks s ip"
  shows "\<exists>t. bmap cfg ip (of_nat k) s = Inr (fblock s ip k, t) \<and> quietly cfg s t"
proof -
  have "nblocks s ip \<le> 140" using f by (auto simp: file_ok_def nblocks_def MAXFILE_def NDIRECT_def NINDIRECT_def BSIZE_def)
  then have u: "unat (of_nat k :: u32) = k" "k < 140" using k by (simp_all add: unat_of_nat32)
  have b: "fblock s ip k \<noteq> 0" "idev (icache s ip) = 1" using f k by (auto simp: file_ok_def)
  show ?thesis
  proof (cases "k < NDIRECT")
    case True
    then show ?thesis using b(1) u quietly_refl[OF s] by (auto simp: bmap_def fblock_def)
  next
    case False
    then have a: "addrs (icache s ip) NDIRECT \<noteq> 0" "addrs (icache s ip) NDIRECT < lg_start s" using f k by (auto simp: file_ok_def)
    obtain bp t v where t: "bread 1 (addrs (icache s ip) NDIRECT) s = Inr (bp, t)" "bdata (bcache t bp) = contents s (addrs (icache s ip) NDIRECT)"
      "icache t = icache s" "brelse cfg bp t = Inr v" "quietly cfg s v" using read_block[OF s a(2)] by blast
    have "k - NDIRECT < NINDIRECT" using u(2) by (simp add: NDIRECT_def NINDIRECT_def BSIZE_def)
    then show ?thesis using False a(1) b t u(1) by (auto simp: bmap_def fblock_def Let_def)
  qed
qed

section \<open>Reading\<close>

lemma block_index:
  assumes "unat off + r \<le> 2 ^ 31"
  shows "off div of_nat BSIZE = (of_nat (unat off div 512) :: u32)" "m \<le> r \<Longrightarrow> unat (off + of_nat m) = unat off + m"
proof -
  have "unat (off div of_nat BSIZE) = unat off div 512" by (simp add: unat_div BSIZE_def)
  then show "off div of_nat BSIZE = of_nat (unat off div 512)" by (metis word_of_nat_eq_iff of_nat_unat ucast_id)
  show "m \<le> r \<Longrightarrow> unat (off + of_nat m) = unat off + m" using assms by (simp add: unat_word_ariths(1) unat_of_nat32)
qed

lemma in_file:
  assumes "file_ok s ip" "unat off + r \<le> unat (isize (icache s ip))" "0 < r"
  shows "unat off div 512 < nblocks s ip" "unat off + r \<le> 2 ^ 31"
proof -
  have "unat (isize (icache s ip)) \<le> 71680" using assms(1) by (simp add: file_ok_def MAXFILE_def NDIRECT_def NINDIRECT_def BSIZE_def)
  then show "unat off div 512 < nblocks s ip" "unat off + r \<le> 2 ^ 31" using assms(2,3) by (auto simp: nblocks_def)
qed

lemma within_block:
  assumes "p mod 512 + i < (512 :: nat)"
  shows "(p + i) div 512 = p div 512" "(p + i) mod 512 = p mod 512 + i"
proof -
  obtain q r where "p = q * 512 + r" "r < 512" using div_mult_mod_eq[of p 512] by (metis mod_less_divisor zero_less_numeral)
  then show "(p + i) div 512 = p div 512" "(p + i) mod 512 = p mod 512 + i" using assms by (auto simp: add.assoc)
qed

lemma slice_bytes:
  assumes "p mod 512 + m \<le> 512"
  shows "bslice (contents s (fblock s ip (p div 512))) (p mod 512) m = map (file_byte s ip) [p..<p + m]"
proof (rule nth_equalityI)
  fix i assume "i < length (bslice (contents s (fblock s ip (p div 512))) (p mod 512) m)"
  then have i: "i < m" by (simp add: bslice_def)
  then show "bslice (contents s (fblock s ip (p div 512))) (p mod 512) m ! i = map (file_byte s ip) [p..<p + m] ! i"
    using within_block[of p i] assms by (simp add: bslice_def file_byte_def)
qed (simp add: bslice_def)

text \<open>The block at an offset of a file, and how many of the bytes wanted it has.\<close>

lemma file_step:
  assumes s: "in_trans cfg s" and f: "file_ok s ip" and r: "unat off + r \<le> unat (isize (icache s ip))" "0 < r"
    and m: "m = min r (BSIZE - unat off mod BSIZE)"
  shows "0 < m" "m \<le> r" "unat off mod 512 + m \<le> 512" "unat (off + of_nat m) = unat off + m" "unat off div 512 < nblocks s ip"
    "\<exists>t. bmap cfg ip (off div of_nat BSIZE) s = Inr (fblock s ip (unat off div 512), t) \<and> quietly cfg s t \<and>
      fblock s ip (unat off div 512) < lg_start t \<and> in_trans cfg t \<and> idev (icache t ip) = 1"
proof -
  show M: "0 < m" "m \<le> r" "unat off mod 512 + m \<le> 512" using r(2) by (auto simp: m BSIZE_def)
  note F = in_file[OF f r]
  show "unat off div 512 < nblocks s ip" "unat (off + of_nat m) = unat off + m" using F block_index(2)[OF F(2) M(2)] by auto
  obtain t where t: "bmap cfg ip (off div of_nat BSIZE) s = Inr (fblock s ip (unat off div 512), t)" "quietly cfg s t"
    using bmap_ok[OF s f F(1)] block_index(1)[OF F(2)] by auto
  then show "\<exists>t. bmap cfg ip (off div of_nat BSIZE) s = Inr (fblock s ip (unat off div 512), t) \<and> quietly cfg s t \<and>
      fblock s ip (unat off div 512) < lg_start t \<and> in_trans cfg t \<and> idev (icache t ip) = 1"
    using f F(1) by (auto simp: file_ok_def quietly_def same_log_def)
qed

lemma readi_from_ok:
  "in_trans cfg s \<Longrightarrow> file_ok s ip \<Longrightarrow> unat off + (n - tot) \<le> unat (isize (icache s ip)) \<Longrightarrow>
    \<exists>t. readi_from cfg ip n tot off dst s = Inr (dst @ map (file_byte s ip) [unat off..<unat off + (n - tot)], t) \<and> quietly cfg s t"
proof (induction "n - tot" arbitrary: tot off dst s rule: less_induct)
  case less
  show ?case
  proof (cases "tot < n")
    case False
    then show ?thesis using quietly_refl[OF less(2)] by (subst readi_from.simps) simp
  next
    case True
    define m where "m = min (n - tot) (BSIZE - unat off mod BSIZE)"
    have "0 < n - tot" using True by simp
    note S = file_step[OF less(2-4) this m_def]
    let ?x = "fblock s ip (unat off div 512)"
    obtain s1 where s1: "bmap cfg ip (off div of_nat BSIZE) s = Inr (?x, s1)" "quietly cfg s s1" "?x < lg_start s1" "in_trans cfg s1" "idev (icache s1 ip) = 1"
      using S(6) by blast
    obtain b s2 s3 where s3: "bread 1 ?x s1 = Inr (b, s2)" "bdata (bcache s2 b) = contents s1 ?x" "brelse cfg b s2 = Inr s3" "quietly cfg s1 s3"
      using read_block[OF s1(4,3)] by blast
    have q: "quietly cfg s s3" by (rule quietly_trans[OF s1(2) s3(4)])
    have "bslice (bdata (bcache s2 b)) (unat off mod BSIZE) m = map (file_byte s ip) [unat off..<unat off + m]"
      using slice_bytes[OF S(3), of s ip] s3(2) s1(2) by (simp add: quietly_def BSIZE_def)
    then have g: "readi_from cfg ip n tot off dst s = readi_from cfg ip n (tot + m) (off + of_nat m) (dst @ map (file_byte s ip) [unat off..<unat off + m]) s3"
      using True s1 s3(1,3) by (subst readi_from.simps) (simp add: m_def Let_def)
    have h: "n - (tot + m) < n - tot" "in_trans cfg s3" "file_ok s3 ip" "unat (off + of_nat m) + (n - (tot + m)) \<le> unat (isize (icache s3 ip))"
      using True S(1,2,4) q quietly_file(3)[OF q] less(3,4) by (auto simp: quietly_def)
    obtain t where t: "readi_from cfg ip n (tot + m) (off + of_nat m) (dst @ map (file_byte s ip) [unat off..<unat off + m]) s3 =
        Inr ((dst @ map (file_byte s ip) [unat off..<unat off + m]) @ map (file_byte s3 ip) [unat (off + of_nat m)..<unat (off + of_nat m) + (n - (tot + m))], t)"
      "quietly cfg s3 t" using less(1)[OF h] by blast
    have "[unat off..<unat off + (n - tot)] = [unat off..<unat off + m] @ [unat off + m..<unat off + m + (n - (tot + m))]"
      using upt_add_eq_append[of "unat off" "unat off + m" "n - (tot + m)"] S(2) True by simp
    then show ?thesis using g t quietly_trans[OF q t(2)] quietly_file(4)[OF q] S(4) by simp
  qed
qed

section \<open>Updating a block\<close>

lemma upd_buf_icache [simp]: "icache (upd_buf b f s) = icache s"
  by (simp add: upd_buf_def)

lemma brelse_move_icache [simp]: "icache (brelse_move b s) = icache s"
  using arg_cong[OF brelse_move_sel(4)[of b s], of icache] by (simp add: rest_def)

lemma log_write_icache:
  assumes "kheld cfg [] s" "log_write b s = Inr t"
  shows "kheld cfg [] t" "icache t = icache s"
proof -
  obtain u where u: "acquire LogLock s = Inr u" "kheld cfg [LogLock] u" "rest u = rest s" using kheld_acquire[OF assms(1), of LogLock] by auto
  obtain w where w: "release LogLock w = Inr t" "kheld cfg [LogLock] w" "icache w = icache u"
    using assms(2) u(1,2) by (auto simp: log_write_def Let_def split: if_splits)
  then show "kheld cfg [] t" "icache t = icache s"
    using kheld_release[OF w(2)] rest_icache[OF u(3)] rest_icache[of t w] by auto
qed

lemma brelse_icache:
  assumes "kheld cfg [] s" "brelse cfg b s = Inr t"
  shows "icache t = icache s"
proof -
  obtain u where u: "acquire BcacheLock s = Inr u" "kheld cfg [BcacheLock] u" "rest u = rest s" using kheld_acquire[OF assms(1), of BcacheLock] by auto
  let ?w = "upd_buf b (\<lambda>x. x\<lparr>bflags := bflags x AND NOT B_BUSY\<rparr>) (brelse_move b u)"
  have w: "kheld cfg [BcacheLock] ?w" "icache ?w = icache u" using u(2) by simp_all
  obtain v where v: "wakeup cfg (Some (ChanBuf b)) ?w = Inr v" "kheld cfg [BcacheLock] v" "rest v = rest ?w"
    using kheld_wakeup[OF w(1), of "Some (ChanBuf b)"] by auto
  have "release BcacheLock v = Inr t" using assms(2) u(1) v(1) by (auto simp: brelse_def Let_def split: if_splits)
  then have r: "rest t = rest v" using kheld_release[OF v(2)] by auto
  show ?thesis using rest_icache[OF u(3)] rest_icache[OF v(3)] rest_icache[OF r] w(2) by simp
qed

lemma update_block:
  assumes s: "in_trans cfg s" and x: "x < lg_start s" and n: "sint (lh_n s) < 29"
  shows "\<exists>b t u v. bread 1 x s = Inr (b, t) \<and> bdata (bcache t b) = contents s x \<and> icache t = icache s \<and>
    log_write b (set_data b d t) = Inr u \<and> brelse cfg b u = Inr v \<and> in_trans cfg v \<and> contents v = (contents s)(x := d) \<and>
    icache v = icache s \<and> sint (lh_n v) \<le> sint (lh_n s) + 1 \<and> same_log s v"
proof -
  obtain b t where t: "bread 1 x s = Inr (b, t)" "bdata (bcache t b) = contents s x" "icache t = icache s" "kheld cfg [] t"
    using read_block[OF s x] by blast
  obtain v where v: "log_update cfg (x, d) s = Inr v" "in_trans cfg v" "contents v = (contents s)(x := d)"
    "sint (lh_n v) \<le> sint (lh_n s) + 1" "same_log s v" using log_update_ok[OF s x n, of d] by (elim exE conjE) (rule that)
  obtain u where u: "log_write b (set_data b d t) = Inr u" "brelse cfg b u = Inr v"
    using v(1) t(1) by (cases "log_write b (set_data b d t)") (auto simp: log_update_def)
  have "kheld cfg [] (set_data b d t)" "icache (set_data b d t) = icache s" using t(3,4) by (simp_all add: set_data_def)
  then have "icache v = icache s" using log_write_icache[OF _ u(1)] brelse_icache[OF _ u(2)] by metis
  then show ?thesis using t u v by blast
qed

section \<open>Writing\<close>

text \<open>What a write of \<open>xs\<close> at offset \<open>p\<close> leaves: the file has the bytes, the rest of it and every other sector is as before.\<close>

definition written :: "schedflag \<Rightarrow> nat \<Rightarrow> nat \<Rightarrow> u8 list \<Rightarrow> 'a icst_scheme \<Rightarrow> 'a icst_scheme \<Rightarrow> bool" where
  "written cfg ip p xs s t \<longleftrightarrow> in_trans cfg t \<and> icache t = icache s \<and> same_log s t \<and> file_ok t ip \<and>
     (\<forall>k<nblocks s ip. fblock t ip k = fblock s ip k) \<and>
     (\<forall>i<unat (isize (icache s ip)). file_byte t ip i = (if p \<le> i \<and> i < p + length xs then xs ! (i - p) else file_byte s ip i)) \<and>
     (\<forall>x. x \<notin> fblock s ip ` {..<nblocks s ip} \<longrightarrow> contents t x = contents s x)"

lemma byte_block: "i < unat (isize (icache s ip)) \<Longrightarrow> i div 512 < nblocks s ip"
  by (auto simp: nblocks_def)

lemma bput_byte:
  assumes "i div 512 = p div (512 :: nat)" "p mod 512 + length xs \<le> 512"
  shows "bput d (p mod 512) xs (of_nat (i mod 512)) = (if p \<le> i \<and> i < p + length xs then xs ! (i - p) else d (of_nat (i mod 512)))"
proof -
  have u: "unat (of_nat (i mod 512) :: 9 word) = i mod 512" by (simp add: unat_of_nat)
  obtain q r r' where "p = q * 512 + r" "i = q * 512 + r'" "r < 512" "r' < 512"
    using div_mult_mod_eq[of p 512] div_mult_mod_eq[of i 512] assms(1) by (metis mod_less_divisor zero_less_numeral)
  then show ?thesis using assms(2) u by (auto simp: bput_def)
qed

lemma put_written:
  assumes f: "file_ok s ip" and k: "p div 512 < nblocks s ip" and xs: "p mod 512 + length xs \<le> 512"
    and c: "contents t = (contents s)(fblock s ip (p div 512) := bput (contents s (fblock s ip (p div 512))) (p mod 512) xs)"
    and t: "in_trans cfg t" "icache t = icache s" "same_log s t"
  shows "written cfg ip p xs s t"
proof -
  let ?n = "nblocks s ip"
  have inj: "inj_on (fblock s ip) {..<?n}" using f by (simp add: file_ok_def)
  have b: "fblock t ip j = fblock s ip j" if "j < ?n" for j
  proof (cases "j < NDIRECT")
    case False
    then have "addrs (icache s ip) NDIRECT \<notin> fblock s ip ` {..<?n}" using f that by (simp add: file_ok_def)
    then have "addrs (icache s ip) NDIRECT \<noteq> fblock s ip (p div 512)" using k by auto
    then show ?thesis using False by (simp add: fblock_def[of t] fblock_def[of s ip j] t(2) c)
  qed (simp add: fblock_def t(2))
  have n: "nblocks t ip = ?n" by (simp add: nblocks_def t(2))
  have im: "fblock t ip ` {..<?n} = fblock s ip ` {..<?n}" using b by auto
  have "inj_on (fblock t ip) {..<?n}" using inj b by (simp add: inj_on_def)
  then have "file_ok t ip" using f t(2,3) b im by (simp add: file_ok_def n same_log_def)
  moreover have "file_byte t ip i = (if p \<le> i \<and> i < p + length xs then xs ! (i - p) else file_byte s ip i)"
    if i: "i < unat (isize (icache s ip))" for i
  proof (cases "i div 512 = p div 512")
    case True
    then show ?thesis using b[OF byte_block[OF i]] bput_byte[OF True xs] by (simp add: file_byte_def c)
  next
    case False
    then have "fblock s ip (i div 512) \<noteq> fblock s ip (p div 512)" using inj_onD[OF inj] byte_block[OF i] k by auto
    moreover have "\<not> (p \<le> i \<and> i < p + length xs)"
    proof
      assume h: "p \<le> i \<and> i < p + length xs"
      then have "p mod 512 + (i - p) < 512" using xs by linarith
      then show False using False h within_block(1)[of p "i - p"] by simp
    qed
    ultimately show ?thesis using b[OF byte_block[OF i]] by (auto simp: file_byte_def c)
  qed
  moreover have "contents t x = contents s x" if "x \<notin> fblock s ip ` {..<?n}" for x using that k by (auto simp: c)
  ultimately show ?thesis using t b by (simp add: written_def)
qed

lemma written_quietly:
  assumes "quietly cfg s u" "written cfg ip p xs u t"
  shows "written cfg ip p xs s t"
  using assms(2) quietly_file[OF assms(1)] assms(1) by (auto simp: written_def quietly_def intro: same_log_trans)

lemma written_append:
  assumes "written cfg ip p xs s u" "written cfg ip (p + length xs) ys u t"
  shows "written cfg ip p (xs @ ys) s t"
proof -
  have n: "icache u = icache s" "nblocks u ip = nblocks s ip" "fblock u ip ` {..<nblocks s ip} = fblock s ip ` {..<nblocks s ip}"
    using assms(1) by (auto simp: written_def nblocks_def)
  show ?thesis
    using assms unfolding written_def n by (auto simp: nth_append intro: same_log_trans)
qed

lemma written_nil:
  assumes "in_trans cfg s" "file_ok s ip"
  shows "written cfg ip p [] s s"
  using assms by (auto simp: written_def same_log_def)

lemma mapr_total: "mapr (\<lambda>i. Inr (f i)) is' = Inr (map f is')"
  by (induction is') simp_all

text \<open>The sectors a write of \<open>r\<close> bytes at an offset enters into the log.\<close>

definition spans :: "u32 \<Rightarrow> nat \<Rightarrow> nat" where
  "spans off r = (if r = 0 then 0 else (unat off mod 512 + r + 511) div 512)"

lemma spans_step:
  assumes "0 < r" "m = min r (512 - unat off mod 512)" "unat (off + of_nat m) = unat off + m"
  shows "spans (off + of_nat m) (r - m) + 1 \<le> spans off r"
proof (cases "m = r")
  case True
  then show ?thesis using assms(1) by (simp add: spans_def)
next
  case False
  then have m: "m = 512 - unat off mod 512" "m < r" using assms(2) by auto
  have "unat off + m = unat off div 512 * 512 + 512" using m(1) div_mult_mod_eq[of "unat off" 512] mod_less_divisor[of 512 "unat off"] by linarith
  then have "(unat off + m) mod 512 = 0" by simp
  then have "spans (off + of_nat m) (r - m) = (r - m + 511) div 512" using assms(3) m(2) by (simp add: spans_def)
  moreover have "unat off mod 512 + r + 511 = (r - m + 511) + 512" using m mod_less_divisor[of 512 "unat off"] by linarith
  then have "spans off r = (r - m + 511) div 512 + 1" using assms(1) by (simp only: spans_def) simp
  ultimately show ?thesis by simp
qed

lemma writei_from_ok:
  "in_trans cfg s \<Longrightarrow> file_ok s ip \<Longrightarrow> unat off + (n - tot) \<le> unat (isize (icache s ip)) \<Longrightarrow> sint (lh_n s) + int (spans off (n - tot)) \<le> 29 \<Longrightarrow>
    \<exists>t. writei_from cfg ip (\<lambda>i. Inr (f i)) n tot off s = Inr (off + of_nat (n - tot), t) \<and> written cfg ip (unat off) (map f [tot..<n]) s t"
proof (induction "n - tot" arbitrary: tot off s rule: less_induct)
  case less
  show ?case
  proof (cases "tot < n")
    case False
    then show ?thesis using written_nil[OF less(2,3)] by (subst writei_from.simps) simp
  next
    case True
    define m where "m = min (n - tot) (BSIZE - unat off mod BSIZE)"
    have r: "0 < n - tot" using True by simp
    note S = file_step[OF less(2-4) r m_def]
    have m: "m = min (n - tot) (512 - unat off mod 512)" by (simp add: m_def BSIZE_def)
    note P = spans_step[OF r m S(4)]
    let ?x = "fblock s ip (unat off div 512)" and ?xs = "map f [tot..<tot + m]"
    obtain s1 where s1: "bmap cfg ip (off div of_nat BSIZE) s = Inr (?x, s1)" "quietly cfg s s1" "?x < lg_start s1" "in_trans cfg s1" "idev (icache s1 ip) = 1"
      using S(6) by blast
    note q = quietly_file[OF s1(2)]
    have s1': "contents s1 = contents s" "icache s1 = icache s" "lh_n s1 = lh_n s" using s1(2) by (simp_all add: quietly_def)
    have n: "sint (lh_n s1) < 29" using less(5) P s1'(3) by simp
    obtain b t u v where v: "bread 1 ?x s1 = Inr (b, t)" "bdata (bcache t b) = contents s1 ?x" "icache t = icache s1"
      "log_write b (set_data b (bput (contents s1 ?x) (unat off mod 512) ?xs) t) = Inr u" "brelse cfg b u = Inr v" "in_trans cfg v"
      "contents v = (contents s1)(?x := bput (contents s1 ?x) (unat off mod 512) ?xs)" "icache v = icache s1"
      "sint (lh_n v) \<le> sint (lh_n s1) + 1" "same_log s1 v"
      using update_block[OF s1(4,3) n, of "bput (contents s1 ?x) (unat off mod 512) ?xs"] by (elim exE conjE) (rule that)
    have w1: "written cfg ip (unat off) ?xs s1 v"
      using put_written[of s1 ip "unat off" ?xs v cfg] S(3,5) less(3) v(6-8,10) q by simp
    have w: "written cfg ip (unat off) ?xs s v" by (rule written_quietly[OF s1(2) w1])
    have g: "writei_from cfg ip (\<lambda>i. Inr (f i)) n tot off s = writei_from cfg ip (\<lambda>i. Inr (f i)) n (tot + m) (off + of_nat m) v"
      using True s1(1,5) v(1-5) by (subst writei_from.simps) (simp add: m_def Let_def mapr_total BSIZE_def)
    have h: "n - (tot + m) < n - tot" "in_trans cfg v" "file_ok v ip" "unat (off + of_nat m) + (n - (tot + m)) \<le> unat (isize (icache v ip))"
      "sint (lh_n v) + int (spans (off + of_nat m) (n - (tot + m))) \<le> 29"
      using True S(1,2,4) w less(4,5) v(8,9) s1' P by (auto simp: written_def)
    obtain t' where t': "writei_from cfg ip (\<lambda>i. Inr (f i)) n (tot + m) (off + of_nat m) v = Inr (off + of_nat m + of_nat (n - (tot + m)), t')"
      "written cfg ip (unat (off + of_nat m)) (map f [tot + m..<n]) v t'" using less(1)[OF h] by blast
    have "written cfg ip (unat off) (?xs @ map f [tot + m..<n]) s t'" using written_append[OF w] t'(2) S(4) by simp
    moreover have "?xs @ map f [tot + m..<n] = map f [tot..<n]" using S(2) True upt_add_eq_append[of tot "tot + m" "n - (tot + m)"] by simp
    moreover have "off + of_nat m + of_nat (n - (tot + m)) = off + of_nat (n - tot)" using S(2) arg_cong[of "m + (n - (tot + m))" "n - tot" "of_nat :: nat \<Rightarrow> u32"] True by (simp only: of_nat_add add.assoc) simp
    ultimately show ?thesis using g t'(1) by simp
  qed
qed

section \<open>Files as lists of bytes\<close>

lemma file_bytes_slice: "a + r \<le> unat (isize (icache s ip)) \<Longrightarrow> map (file_byte s ip) [a..<a + r] = take r (drop a (file_bytes s ip))"
  by (simp add: file_bytes_def take_map drop_map take_upt)

lemma small_file:
  assumes "file_ok s ip" "r \<le> unat (isize (icache s ip))"
  shows "unat (of_nat r :: u32) = r" "sint (of_nat r :: u32) = int r"
proof -
  have "r < 2 ^ 31" using assms by (simp add: file_ok_def MAXFILE_def NDIRECT_def NINDIRECT_def BSIZE_def)
  then show "unat (of_nat r :: u32) = r" "sint (of_nat r :: u32) = int r" using sint_of_nat31[of r] unat_of_nat32[of r] by simp_all
qed

lemma readi_ok:
  assumes s: "in_trans cfg s" "file_ok s ip" and a: "a \<le> isize (icache s ip)" "unat a + unat n < 2 ^ 32"
  defines "ys \<equiv> take (unat n) (drop (unat a) (file_bytes s ip))"
  shows "\<exists>t. readi dv cfg ip a n s = Inr (int (length ys), ys, t) \<and> quietly cfg s t"
proof -
  let ?z = "isize (icache s ip)"
  define m where "m = (if a + n > ?z then ?z - a else n)"
  have an: "unat (a + n) = unat a + unat n" using a(2) by (simp add: unat_word_ariths)
  have za: "unat (?z - a) = unat ?z - unat a" using a(1) by (simp add: unat_sub)
  have m: "unat m = min (unat n) (unat ?z - unat a)" using an za a(1) by (auto simp: m_def word_less_nat_alt word_le_nat_alt)
  have l: "unat a + unat m \<le> unat ?z" using m a(1) by (auto simp: word_le_nat_alt)
  obtain t where t: "readi_from cfg ip (unat m) 0 a [] s = Inr (map (file_byte s ip) [unat a..<unat a + unat m], t)" "quietly cfg s t"
    using readi_from_ok[OF s, of a "unat m" 0 "[]"] l by auto
  have y: "map (file_byte s ip) [unat a..<unat a + unat m] = ys"
    using file_bytes_slice[OF l] m by (simp add: ys_def file_bytes_def min_def)
  have "unat m = length ys" using arg_cong[OF y, of length] by simp
  moreover from this have "m = of_nat (length ys)" by (metis of_nat_unat ucast_id)
  ultimately have "sint m = int (length ys)" using small_file(2)[OF s(2), of "length ys"] l by simp
  moreover have "\<not> a > ?z" "\<not> a + n < a" "itype (icache s ip) \<noteq> T_DEV" using a(1) an s(2) by (auto simp: word_less_nat_alt word_le_nat_alt file_ok_def)
  ultimately show ?thesis using t y by (simp add: readi_def Let_def m_def[symmetric])
qed

lemma written_bytes:
  assumes w: "written cfg ip p xs s t" and l: "p + length xs \<le> unat (isize (icache s ip))"
  shows "file_bytes t ip = take p (file_bytes s ip) @ xs @ drop (p + length xs) (file_bytes s ip)"
proof (rule nth_equalityI)
  have z: "isize (icache t ip) = isize (icache s ip)" using w by (simp add: written_def)
  then show "length (file_bytes t ip) = length (take p (file_bytes s ip) @ xs @ drop (p + length xs) (file_bytes s ip))"
    using l by (simp add: file_bytes_def)
  fix i assume "i < length (file_bytes t ip)"
  then have i: "i < unat (isize (icache s ip))" using z by (simp add: file_bytes_def)
  then have "file_bytes t ip ! i = (if p \<le> i \<and> i < p + length xs then xs ! (i - p) else file_bytes s ip ! i)"
    using w z by (simp add: written_def file_bytes_def)
  then show "file_bytes t ip ! i = (take p (file_bytes s ip) @ xs @ drop (p + length xs) (file_bytes s ip)) ! i"
    using i l by (auto simp: nth_append file_bytes_def)
qed

lemma writei_ok:
  assumes s: "in_trans cfg s" "file_ok s ip" and l: "unat off + length xs \<le> unat (isize (icache s ip))"
    and n: "sint (lh_n s) + int (spans off (length xs)) \<le> 29"
  shows "\<exists>t. writei dv cfg ip (\<lambda>i. Inr (xs ! i)) off (of_nat (length xs)) s = Inr (int (length xs), t) \<and> written cfg ip (unat off) xs s t"
proof -
  let ?z = "isize (icache s ip)" and ?n = "of_nat (length xs) :: u32"
  have u: "unat ?n = length xs" "sint ?n = int (length xs)" using small_file[OF s(2), of "length xs"] l by auto
  have z: "unat ?z \<le> 71680" "unat (of_nat (MAXFILE * BSIZE) :: u32) = 71680" "itype (icache s ip) \<noteq> T_DEV"
    using s(2) by (simp_all add: file_ok_def MAXFILE_def NDIRECT_def NINDIRECT_def BSIZE_def)
  have on: "unat (off + ?n) = unat off + length xs" using l z(1) u(1) by (simp add: unat_word_ariths)
  have c: "\<not> (off > ?z \<or> off + ?n < off)" "\<not> off + ?n > of_nat (MAXFILE * BSIZE)" using l z on by (simp_all add: word_less_nat_alt)
  obtain t where t: "writei_from cfg ip (\<lambda>i. Inr (xs ! i)) (unat ?n) 0 off s = Inr (off + ?n, t)" "written cfg ip (unat off) xs s t"
    using writei_from_ok[OF s, of off "length xs" 0 "\<lambda>i. xs ! i"] l n u(1) by (auto simp: map_nth)
  have "\<not> off + ?n > isize (icache t ip)" using t(2) l on by (simp add: written_def word_less_nat_alt)
  then show ?thesis using t z(3) u(2) c by (simp add: writei_def Let_def del: of_nat_mult)
qed

text \<open>C39. In a transaction, on a file whose blocks are allocated, \<open>writei\<close> of bytes inside the file that need no more sectors than
  the log has left replaces exactly these bytes of the file, over block boundaries and through the indirect block
  alike; every sector that is not a block of the file is as before. Any later \<open>readi\<close> of the file, at any offset and clipped at
  its end, returns its bytes as the write left them.\<close>

theorem file_write_read:
  assumes "in_trans cfg s" "file_ok s ip" "unat off + length xs \<le> unat (isize (icache s ip))"
    "sint (lh_n s) + int (spans off (length xs)) \<le> 29"
  shows "\<exists>t. writei dv cfg ip (\<lambda>i. Inr (xs ! i)) off (of_nat (length xs)) s = Inr (int (length xs), t) \<and>
    file_bytes t ip = take (unat off) (file_bytes s ip) @ xs @ drop (unat off + length xs) (file_bytes s ip) \<and>
    (\<forall>x. x \<notin> fblock s ip ` {..<nblocks s ip} \<longrightarrow> contents t x = contents s x) \<and>
    (\<forall>a n. a \<le> isize (icache s ip) \<longrightarrow> unat a + unat n < 2 ^ 32 \<longrightarrow>
      (let ys = take (unat n) (drop (unat a) (file_bytes t ip))
       in \<exists>u. readi dv cfg ip a n t = Inr (int (length ys), ys, u) \<and> file_bytes u ip = file_bytes t ip))"
proof -
  obtain t where t: "writei dv cfg ip (\<lambda>i. Inr (xs ! i)) off (of_nat (length xs)) s = Inr (int (length xs), t)" "written cfg ip (unat off) xs s t"
    using writei_ok[OF assms] by blast
  have w: "in_trans cfg t" "file_ok t ip" "icache t = icache s" "\<forall>x. x \<notin> fblock s ip ` {..<nblocks s ip} \<longrightarrow> contents t x = contents s x"
    using t(2) by (simp_all add: written_def)
  have "\<exists>u. readi dv cfg ip a n t = Inr (int (length ys), ys, u) \<and> file_bytes u ip = file_bytes t ip"
    if h: "a \<le> isize (icache s ip)" "unat a + unat n < 2 ^ 32" "ys = take (unat n) (drop (unat a) (file_bytes t ip))" for a n ys
  proof -
    obtain u where u: "readi dv cfg ip a n t = Inr (int (length ys), ys, u)" "quietly cfg t u" 
      using readi_ok[OF w(1,2) _ h(2), of dv] h(1) w(3) unfolding h(3) by (simp only: simp_thms) blast
    then show ?thesis using quietly_file(4)[OF u(2)] by (auto simp: file_bytes_def quietly_def)
  qed
  then show ?thesis using t(1) w(4) written_bytes[OF t(2) assms(3)] unfolding Let_def by blast
qed

text \<open>A file of 700 bytes in sectors 5 and 6.\<close>

definition demo_filest :: kernst where
  "demo_filest = demo_kernst\<lparr>outstanding := 1,
     icache := (\<lambda>_. demo_inode)(0 := demo_inode\<lparr>idev := 1, itype := T_FILE, isize := 700, addrs := (\<lambda>_. 0)(0 := 5, 1 := 6)\<rparr>)\<rparr>"

lemma demo_filest_ok: "in_trans DEFAULT demo_filest" "file_ok demo_filest 0" "lh_n demo_filest = 0"
proof -
  have i: "idle DEFAULT (demo_logst blank_buf demo_disk)" "dirties blank_buf = {}"
    using fresh_boot_idle[OF demo_fresh[of demo_disk]] by simp_all
  have k: "kheld DEFAULT [] demo_filest" unfolding demo_filest_def using demo_kernst_held by (auto elim: kheld_cong)
  have f: "lg_start demo_filest = 50" "lg_size demo_filest = 30" "lh_n demo_filest = 0" "lg_dev demo_filest = 1" "outstanding demo_filest = 1"
    "bcache demo_filest = blank_buf" "disk demo_filest = demo_disk" "disksize demo_filest = 100"
    by (simp_all add: demo_filest_def) (simp_all add: demo_unfold)
  then show "in_trans DEFAULT demo_filest" "lh_n demo_filest = 0" using i k by (simp_all add: in_trans_def idle_def bok_def log_fits_def LOGSIZE_def MAXOPBLOCKS_def)
  have "nblocks demo_filest 0 = 2" "fblock demo_filest 0 0 = 5" "fblock demo_filest 0 1 = 6"
    by (simp_all add: nblocks_def fblock_def demo_filest_def NDIRECT_def)
  moreover have "{..<2} = {0, 1 :: nat}" "(k < 2) = (k = 0 \<or> k = 1)" for k :: nat by auto
  moreover have "idev (icache demo_filest 0) = 1" "itype (icache demo_filest 0) = T_FILE" "isize (icache demo_filest 0) = 700"
    by (simp_all add: demo_filest_def)
  ultimately show "file_ok demo_filest 0" using f(1)
    by (simp add: file_ok_def T_FILE_def T_DEV_def MAXFILE_def NDIRECT_def NINDIRECT_def BSIZE_def)
qed

theorem file_write_read_witness:
  "\<exists>t u. writei (\<lambda>_. \<lparr>dev_read = None, dev_write = None\<rparr>) DEFAULT 0 (\<lambda>i. Inr ([1, 2, 3, 4] ! i)) 510 4 demo_filest = Inr (4, t) \<and>
    readi (\<lambda>_. \<lparr>dev_read = None, dev_write = None\<rparr>) DEFAULT 0 510 4 t = Inr (4, [1, 2, 3, 4], u) \<and> file_bytes u 0 = file_bytes t 0"
proof -
  let ?dv = "\<lambda>_. \<lparr>dev_read = None, dev_write = None\<rparr>"
  have b: "sint (lh_n demo_filest) + int (spans 510 (length [1, 2, 3, 4 :: u8])) \<le> 29" using demo_filest_ok(3) by (simp add: spans_def)
  have l: "unat (510 :: u32) + length [1, 2, 3, 4 :: u8] \<le> unat (isize (icache demo_filest 0))" by (simp add: demo_filest_def)
  have e: "of_nat (length [1, 2, 3, 4 :: u8]) = (4 :: u32)" "int (length [1, 2, 3, 4 :: u8]) = 4" "unat (510 :: u32) = 510"
    "510 + length [1, 2, 3, 4 :: u8] = 514" by simp_all
  obtain t where t: "writei ?dv DEFAULT 0 (\<lambda>i. Inr ([1, 2, 3, 4] ! i)) 510 4 demo_filest = Inr (4, t)"
    "file_bytes t 0 = take 510 (file_bytes demo_filest 0) @ [1, 2, 3, 4] @ drop 514 (file_bytes demo_filest 0)"
    "\<forall>a n. a \<le> isize (icache demo_filest 0) \<longrightarrow> unat a + unat n < 2 ^ 32 \<longrightarrow>
      (let ys = take (unat n) (drop (unat a) (file_bytes t 0))
       in \<exists>u. readi ?dv DEFAULT 0 a n t = Inr (int (length ys), ys, u) \<and> file_bytes u 0 = file_bytes t 0)"
    using file_write_read[OF demo_filest_ok(1,2) l b, of ?dv, unfolded e] by blast
  have "length (take 510 (file_bytes demo_filest 0)) = 510" by (simp add: file_bytes_def demo_filest_def)
  then have y: "take 4 (drop 510 (file_bytes t 0)) = [1, 2, 3, 4]" using t(2) by simp
  have "(510 :: u32) \<le> isize (icache demo_filest 0)" by (simp add: demo_filest_def)
  then show ?thesis using t(1) spec[OF spec[OF t(3), of 510], of 4] y by (auto simp: Let_def)
qed

end
