(* ===== verification/Spec2Isabelle.thy ===== *)
theory Spec2Isabelle
  imports Xv6_SchedClaims Xv6_Fifo Xv6_FsProp Xv6_ConsIn Xv6_Signal Xv6_PageTable Xv6_Mp Xv6_Ide
    Xv6_Args Xv6_ShGrammar Xv6_Grep Xv6_FileData
begin

text \<open>
  \<^bold>\<open>The program.\<close> The repository is a copy of xv6, a small Unix kernel in C for 32-bit x86 multiprocessors, with three
  changes: the scheduler can be compiled to pick processes by lottery from a FIFO queue (\<open>FRR\<close>, \<open>FCFS\<close>, \<open>PRS\<close>; proc.c,
  param.h), processes can send each other signals (proc.c, trap.c, sysproc.c), and the kernel keeps times of each process
  (\<open>advanceprocstats\<close>, \<open>wait_stat\<close>). This development is a shallow embedding of the kernel, of the parser of its shell and
  of its grep. A definition has the name of the C function it translates; a name that ends in \<open>_loop\<close>, \<open>_from\<close>, \<open>_turn\<close> or \<open>_one\<close>
  is a loop or the body of a loop of that function, one that ends in \<open>_resume\<close> is what the function does after a sleep.

  \<^bold>\<open>Machine and results.\<close> \<open>uint\<close> and pointers are 32-bit words, characters 8-bit words, so arithmetic wraps around as it does
  in C; counters that the code never lets overflow, and \<open>int\<close> results, are integers. Memory is a function from addresses to bytes. A
  routine returns the sum type \<open>res\<close>: \<open>Inr\<close> with its result and the new state, or \<open>Inl\<close> with one of three outcomes: \<open>Panic\<close>, the
  message of a panic or a fault in kernel mode; \<open>Blocked\<close>, the routine would wait for something that another
  process must do, or runs forever; \<open>Undef\<close>, the C program has no defined behaviour there (a null pointer, an access behind an
  array). Error returns of the kernel, \<open>-1\<close> or a null pointer, are values. A routine that gives up the processor ends at the
  context switch, and its continuation is a definition of its own; so \<open>scheduler\<close> is \<open>scheduler_enter\<close> up to \<open>swtch\<close> and
  \<open>scheduler_back\<close> after it.

  \<^bold>\<open>State.\<close> The state is a chain of extensible records, each component adding its variables to those of the components
  below: \<open>mach\<close> (spin locks, interrupt flags, the processor that executes), \<open>memst\<close> (memory, free list), \<open>procst\<close> (process
  table, run queue, processors), \<open>bcst\<close> (buffers, disk), \<open>logst\<close> (log), \<open>icst\<close> (inodes), \<open>ftst\<close> (open files, pipes), \<open>consst\<close>
  (console, keyboard, serial line), \<open>kernst\<close> (gates, flags of trap.c), \<open>devst\<close> (interrupt controllers, clock, processor
  table), \<open>idest\<close> (IDE queue and controller). A routine is polymorphic in what comes after its own component, so the file system runs unchanged on the
  state of the whole kernel.

  \<^bold>\<open>Theories and what they show.\<close>

  \<^item> \<open>Xv6_Prelude\<close>: types, the result type and its loops, memory. \<open>Xv6_Strings\<close> (string.c): every routine, on overlapping
    regions too. \<open>Xv6_Spinlock\<close> (spinlock.c): the locks, and mutual exclusion in every state that any
    interleaving of the processors reaches. \<open>Xv6_Mmu\<close> (mmu.h, memlayout.h): address arithmetic.

  \<^item> \<open>Xv6_Kalloc\<close> (kalloc.c): the free list is a stack of distinct pages. \<open>Xv6_Vm\<close> (vm.c): page tables as bytes in memory.
    \<open>Xv6_PageTable\<close>: the translation that a page table means, and that \<open>mappages\<close> extends it by exactly its range.

  \<^item> \<open>Xv6_Lottery\<close>, \<open>Xv6_Draw\<close> (the first half of proc.c): the doubly linked run queue implements a list (locale
    \<open>fifo_queue\<close>, interpretation \<open>rr\<close>), tickets are disjoint intervals, and the draw finds the one holder of a
    ticket. \<open>Xv6_Sched\<close> (the second half): scheduling, sleep and wakeup, kill, wait, signals; \<open>Xv6_Switch\<close>: what each of these
    routines does to queue and states. \<open>Xv6_SchedInv\<close>, \<open>Xv6_SchedSafe\<close>, \<open>Xv6_SchedClaims\<close>: all processors as one state machine \<open>sched_step\<close>, its invariant,
    that every step keeps it, and its consequences: one processor per process, the queue is the runnable processes, a
    round of the scheduler ends, \<open>wakeup\<close> queues the sleepers, and \<open>sigsend\<close> loses a process. The steps of the machine
    leave out \<open>wait_stat\<close> and what a process does under \<open>tickslock\<close> (\<open>sys_sleep\<close> and the tick of the timer).

  \<^item> \<open>Xv6_Held\<close>: what the components above need of locks and \<open>wakeup\<close>. \<open>Xv6_Bio\<close> (bio.c, memide.c), \<open>Xv6_Sectors\<close>: the buffer cache
    gives its clients sectors (locale \<open>sector_cache\<close>, interpretation \<open>bio\<close>). \<open>Xv6_Log\<close> (log.c); \<open>Xv6_LogSafe\<close>, \<open>Xv6_Crash\<close>:
    a commit is atomic if the machine stops at any write of it and at any write of any number of recoveries, where a write of one sector
    happens or does not happen; \<open>Xv6_Trans\<close>: a transaction writes exactly its updates, and three transactions within their
    limits can overrun the log. \<open>Xv6_Ide\<close> (ide.c): the driver implements the memory disk.

  \<^item> \<open>Xv6_Fs\<close> (fs.c); \<open>Xv6_FsProp\<close>: inodes on the disk, directory entries, paths, references to inodes; \<open>Xv6_FileData\<close>:
    \<open>writei\<close> and \<open>readi\<close> on the bytes of a file. \<open>Xv6_File\<close> (file.c, pipe.c); \<open>Xv6_Ring\<close>, \<open>Xv6_Fifo\<close>: a pipe is a bounded
    queue (locale \<open>fifo\<close>, interpretation \<open>pipe_ring\<close>), also when its counters wrap around.

  \<^item> \<open>Xv6_Kbd\<close> (kbd.c), \<open>Xv6_Console\<close> (console.c, uart.c, \<open>procdump\<close>); \<open>Xv6_ConsOut\<close>: printing stays on the
    screen; \<open>Xv6_ConsIn\<close>: the interrupt handlers (locale \<open>key_source\<close>, interpreted on keyboard and serial port) and
    \<open>consoleread\<close> implement a line editor.

  \<^item> \<open>Xv6_Syscall\<close> (syscall.c, sysfile.c), \<open>Xv6_Exec\<close> (exec.c), \<open>Xv6_Life\<close> (\<open>userinit\<close>, \<open>fork\<close>, \<open>exit\<close>, \<open>forkret\<close>),
    \<open>Xv6_Trap\<close> (trap.c, sysproc.c, the dispatch); \<open>Xv6_Args\<close>: arguments lie in the memory of the process; \<open>Xv6_Signal\<close>: the
    choice of a signal, the saved trap frame, \<open>sigreturn\<close>. \<open>Xv6_Demo\<close>: the concrete state of the examples.

  \<^item> \<open>Xv6_Devices\<close> (picirq.c, ioapic.c, lapic.c, timer.c, the start of console and serial port), \<open>Xv6_Mp\<close> (mp.c): which
    interrupts are routed, and what \<open>mpinit\<close> records of the processors.

  \<^item> \<open>Xv6_Sh\<close>, \<open>Xv6_ShGrammar\<close> (sh.c): the parser ends and loses no word, and reads every sentence of a grammar as it is
    meant. \<open>Xv6_Grep\<close> (grep.c): the matcher is the meaning of patterns; when \<open>grep\<close> prints the right lines and when not.

  \<^bold>\<open>Loops and bounds.\<close> A loop over a count or over the slots of a table is a recursion that terminates. A loop whose end depends on data (the
    links of a list, a device, a string) is a partial function whose value \<open>None\<close> is a loop that runs forever, read as \<open>Blocked\<close>;
  the properties about such a loop state that it ends, or, for \<open>mpinit\<close> on an unknown entry, that it does not. The
  mutually recursive parser of the shell carries fuel \<open>4 * length + 4\<close>: at one place in the line at most
  four of its functions call each other before one of them consumes a character, so it never runs out, which \<open>parsecmd_words\<close> includes.

  \<^bold>\<open>Parameters.\<close> What is not in the sources is an argument of the definitions that use it: the addresses that the linker assigns, the
  scheduling flag of the Makefile (\<open>cfg\<close>), the programs linked into the kernel image, the contents of uninitialised local
  variables, and the hardware: the status that ends a wait for the disk, the readings of the clock, the bytes that keyboard and
  serial port deliver. The memory management unit is a function of the page tables in memory.

  \<^bold>\<open>What is left out.\<close> Names and call stacks kept in locks for debugging; the console messages of \<open>allocuvm\<close>; the acknowledgement
  of an interrupt in \<open>trap\<close>, since the local APIC is in the state of \<open>Xv6_Devices\<close> above it; the delays between writes to a
  device. A pipe is kept in a table under the address of its page instead of in the bytes of the page. The kernel is
  the one with memide.c; ide.c is proved to implement it. Not modelled at all: main.c, the boot loader and the assembly files (machine
  start-up and the context switch itself), running a command in the shell (a tree of processes that the parser
  does not know), the C library of user programs, the small user programs and the tests, which run on top of the kernel, and
  mkfs.c, a program of the host.
\<close>

end
